(* ===== verification/Prelude.thy ===== *)
theory Prelude
  imports Main "HOL-Library.Product_Lexorder" "HOL-Library.List_Lexorder"
    "HOL-Library.Char_ord" "HOL-Library.Multiset"
begin

text \<open>
  The vocabulary every component of the development shares.

  \<^item> Instants and durations: an instant is a server or process clock reading, a duration a Go
    \<^verbatim>\<open>time.Duration\<close> in nanoseconds. Go and SQL integer division truncates towards zero.
  \<^item> Errors: a fallible Go function returns a value of a sum, \<open>Inl\<close> the error.
  \<^item> Tables: a table is the list of its rows. A statement of the corpus is an update, a delete, or
    a bounded ordered selection of such a list; \<open>row_at\<close> is the lookup by primary key, and the
    locale \<open>keyed_table\<close> holds the facts about them that both stores use.
  \<^item> Step systems: reachable states of a step relation and the invariant rule, as the locale
    \<open>invariant_system\<close>.
\<close>

section \<open>Instants, durations, errors\<close>

type_synonym time = int
type_synonym duration = int
type_synonym ('e, 'a) result = "'e + 'a"

named_theorems stmt_defs \<open>statements of the SQL corpora\<close>
named_theorems wq_defs \<open>operations of the work queue\<close>
named_theorems saga_defs \<open>operations of the saga worker and its store\<close>
named_theorems outbox_defs \<open>statements and operations of the outbox\<close>

text \<open>Integer division of Go, Postgres, MySQL's \<^verbatim>\<open>DIV\<close> and SQLite: towards zero.\<close>

definition tdiv :: "int \<Rightarrow> int \<Rightarrow> int" where
  "tdiv a b = sgn a * sgn b * (\<bar>a\<bar> div \<bar>b\<bar>)"

lemma tdiv_pos: "0 \<le> a \<Longrightarrow> 0 < b \<Longrightarrow> tdiv a b = a div b"
  by (cases "a = 0") (auto simp: tdiv_def)

text \<open>The units of \<^verbatim>\<open>time.Duration\<close>, and its \<^verbatim>\<open>Microseconds\<close> method.\<close>

definition Microsecond :: duration where "Microsecond = 1000"
definition Millisecond :: duration where "Millisecond = 1000 * 1000"
definition Second :: duration where "Second = 1000 * 1000 * 1000"

definition Microseconds :: "duration \<Rightarrow> int" where
  "Microseconds d = tdiv d 1000"

lemma Microseconds_nonneg: "0 \<le> d \<Longrightarrow> 0 \<le> Microseconds d"
  by (simp add: Microseconds_def tdiv_pos)

lemma Microseconds_pos: "Microsecond \<le> d \<Longrightarrow> 0 < Microseconds d"
  by (simp add: Microseconds_def Microsecond_def tdiv_pos)

text \<open>
  A \<^verbatim>\<open>for\<close> loop that maps a fallible function over a slice and returns at the first error.
\<close>

fun try_map :: "('a \<Rightarrow> 'e + 'b) \<Rightarrow> 'a list \<Rightarrow> 'e + 'b list" where
  "try_map f [] = Inr []"
| "try_map f (x # xs) =
     (case f x of
        Inl e \<Rightarrow> Inl e
      | Inr y \<Rightarrow> (case try_map f xs of Inl e \<Rightarrow> Inl e | Inr ys \<Rightarrow> Inr (y # ys)))"

lemma try_map_InrD: "try_map f xs = Inr ys \<Longrightarrow> map f xs = map Inr ys"
  by (induction xs arbitrary: ys) (auto split: sum.splits)

lemma try_map_InrI: "map f xs = map Inr ys \<Longrightarrow> try_map f xs = Inr ys"
  by (induction ys arbitrary: xs) (auto simp: map_eq_Cons_conv)

lemma try_map_total: "(\<And>x. x \<in> set xs \<Longrightarrow> f x = Inr (g x)) \<Longrightarrow> try_map f xs = Inr (map g xs)"
  by (induction xs) auto

lemma try_map_Inl: "try_map f xs = Inl e \<Longrightarrow> \<exists>x \<in> set xs. f x = Inl e"
  by (induction xs) (auto split: sum.splits)

section \<open>Tables\<close>

text \<open>
  \<^verbatim>\<open>UPDATE t SET f WHERE p\<close>, \<^verbatim>\<open>DELETE FROM t WHERE p\<close>, the number of rows a predicate
  matches, and \<^verbatim>\<open>SELECT ... WHERE p ORDER BY k LIMIT n\<close>.
\<close>

definition sql_update :: "('r \<Rightarrow> bool) \<Rightarrow> ('r \<Rightarrow> 'r) \<Rightarrow> 'r list \<Rightarrow> 'r list" where
  "sql_update p f t = map (\<lambda>r. if p r then f r else r) t"

definition sql_delete :: "('r \<Rightarrow> bool) \<Rightarrow> 'r list \<Rightarrow> 'r list" where
  "sql_delete p t = filter (\<lambda>r. \<not> p r) t"

definition sql_count :: "('r \<Rightarrow> bool) \<Rightarrow> 'r list \<Rightarrow> int" where
  "sql_count p t = int (length (filter p t))"

definition sql_top :: "int \<Rightarrow> ('r \<Rightarrow> 'k::linorder) \<Rightarrow> ('r \<Rightarrow> bool) \<Rightarrow> 'r list \<Rightarrow> 'r list" where
  "sql_top n k p t = take (nat n) (sort_key k (filter p t))"

lemma set_sql_top: "r \<in> set (sql_top n k p t) \<Longrightarrow> r \<in> set t \<and> p r"
  unfolding sql_top_def by (auto dest!: in_set_takeD)

lemma length_sql_top: "length (sql_top n k p t) = min (nat n) (length (filter p t))"
  by (simp add: sql_top_def)

lemma length_sql_top_le: "length (sql_top n k p t) \<le> nat n"
  by (simp add: sql_top_def)

lemma sorted_sql_top: "sorted (map k (sql_top n k p t))"
  unfolding sql_top_def take_map [symmetric] by (rule sorted_wrt_take) simp

text \<open>A bounded ordered read leaves out only rows that sort after everything it kept.\<close>

lemma sql_top_least:
  assumes "r \<in> set t" "p r" "r \<notin> set (sql_top n k p t)" "s \<in> set (sql_top n k p t)"
  shows "k s \<le> k r"
proof -
  let ?xs = "sort_key k (filter p t)"
  have "r \<in> set ?xs" using assms(1,2) by simp
  then have "r \<in> set (take (nat n) ?xs) \<union> set (drop (nat n) ?xs)"
    by (metis append_take_drop_id set_append)
  with assms(3) have r: "r \<in> set (drop (nat n) ?xs)" by (simp add: sql_top_def)
  have "map k (take (nat n) ?xs) @ map k (drop (nat n) ?xs) = map k ?xs"
    unfolding map_append [symmetric] by simp
  then have "sorted (map k (take (nat n) ?xs) @ map k (drop (nat n) ?xs))" by simp
  with r assms(4) show ?thesis by (auto simp: sorted_append sql_top_def)
qed

lemma distinct_map_sql_top:
  "distinct (map g t) \<Longrightarrow> distinct (map g (sql_top n k p t))"
proof -
  assume d: "distinct (map g t)"
  then have "distinct (map g (filter p t))" by (simp add: distinct_map_filter)
  moreover have "mset (map g (sort_key k (filter p t))) = mset (map g (filter p t))" by simp
  ultimately have "distinct (map g (sort_key k (filter p t)))" by (metis mset_eq_imp_distinct_iff)
  then show ?thesis unfolding sql_top_def take_map [symmetric] by (rule distinct_take)
qed

lemma set_sql_update: "set (sql_update p f t) = (\<lambda>r. if p r then f r else r) ` set t"
  by (simp add: sql_update_def)

lemma length_sql_update [simp]: "length (sql_update p f t) = length t"
  by (simp add: sql_update_def)

lemma sql_update_id: "(\<And>r. r \<in> set t \<Longrightarrow> \<not> p r) \<Longrightarrow> sql_update p f t = t"
  unfolding sql_update_def by (rule map_idI) simp

lemma sql_update_cong:
  "(\<And>r. r \<in> set t \<Longrightarrow> p r = p' r) \<Longrightarrow> (\<And>r. r \<in> set t \<Longrightarrow> p r \<Longrightarrow> f r = f' r) \<Longrightarrow>
   sql_update p f t = sql_update p' f' t"
  unfolding sql_update_def by (rule map_cong) auto

lemma sql_count_nonneg [simp]: "0 \<le> sql_count p t"
  by (simp add: sql_count_def)

lemma sql_count_le: "(\<And>r. r \<in> set t \<Longrightarrow> p r \<Longrightarrow> p' r) \<Longrightarrow> sql_count p t \<le> sql_count p' t"
proof (induction t)
  case Nil
  then show ?case by (simp add: sql_count_def)
next
  case (Cons r t)
  then have "sql_count p t \<le> sql_count p' t" by simp
  with Cons.prems show ?case by (auto simp: sql_count_def)
qed

text \<open>The row a primary key names.\<close>

definition row_at :: "('r \<Rightarrow> 'k) \<Rightarrow> 'r list \<Rightarrow> 'k \<Rightarrow> 'r option" where
  "row_at pk t k = find (\<lambda>r. pk r = k) t"

lemma row_at_Nil [simp]: "row_at pk [] k = None"
  by (simp add: row_at_def)

lemma row_at_Cons [simp]: "row_at pk (r # t) k = (if pk r = k then Some r else row_at pk t k)"
  by (simp add: row_at_def)

lemma row_at_SomeD: "row_at pk t k = Some r \<Longrightarrow> r \<in> set t \<and> pk r = k"
  by (induction t) (auto split: if_splits)

lemma row_at_None_iff: "row_at pk t k = None \<longleftrightarrow> (\<forall>r \<in> set t. pk r \<noteq> k)"
  by (induction t) auto

lemma row_at_None_map: "map pk t' = map pk t \<Longrightarrow> row_at pk t' k = None \<longleftrightarrow> row_at pk t k = None"
proof -
  have *: "row_at pk u k = None \<longleftrightarrow> k \<notin> set (map pk u)" for u by (auto simp: row_at_None_iff)
  assume "map pk t' = map pk t"
  then show ?thesis unfolding * by simp
qed

lemma row_at_distinct: "distinct (map pk t) \<Longrightarrow> r \<in> set t \<Longrightarrow> row_at pk t (pk r) = Some r"
  by (induction t) auto

lemma row_at_append: "row_at pk (t @ u) k = (case row_at pk t k of Some r \<Rightarrow> Some r | None \<Rightarrow> row_at pk u k)"
  by (induction t) auto

lemma row_at_snoc: "pk r \<notin> pk ` set t \<Longrightarrow> row_at pk (t @ [r]) k = (if k = pk r then Some r else row_at pk t k)"
  by (induction t) auto

text \<open>Deleting by primary key the rows of a selection removes exactly those rows.\<close>

lemma selected_by_key:
  assumes "distinct (map pk t)" "set D \<subseteq> set t" "r \<in> set t"
  shows "pk r \<in> pk ` set D \<longleftrightarrow> r \<in> set D"
proof -
  have "inj_on pk (set t)" using assms(1) by (simp add: distinct_map)
  with assms(2,3) show ?thesis by (simp add: inj_on_image_mem_iff)
qed

lemma length_delete_by_key:
  assumes "distinct (map pk t)" "distinct D" "set D \<subseteq> set t"
  shows "length t = length (sql_delete (\<lambda>r. pk r \<in> pk ` set D) t) + length D"
proof -
  have "filter (\<lambda>r. pk r \<in> pk ` set D) t = filter (\<lambda>r. r \<in> set D) t"
    by (rule filter_cong) (auto simp: selected_by_key [OF assms(1,3)])
  moreover have "distinct t" using assms(1) by (simp add: distinct_map)
  then have "length (filter (\<lambda>r. r \<in> set D) t) = card (set (filter (\<lambda>r. r \<in> set D) t))"
    by (simp only: distinct_card distinct_filter)
  moreover have "set (filter (\<lambda>r. r \<in> set D) t) = set D" using assms(3) by auto
  moreover have "card (set D) = length D" by (rule distinct_card [OF assms(2)])
  ultimately have "length (filter (\<lambda>r. pk r \<in> pk ` set D) t) = length D" by simp
  with sum_length_filter_compl [of "\<lambda>r. pk r \<in> pk ` set D" t] show ?thesis by (simp add: sql_delete_def)
qed

text \<open>
  The laws of a table keyed by \<open>pk\<close>: an update that keeps the primary key acts pointwise, and a
  delete removes exactly the rows it matches. Both stores of the development interpret it at their
  own primary key.
\<close>

locale keyed_table =
  fixes pk :: "'r \<Rightarrow> 'k"
begin

lemma pk_update: "(\<And>r. p r \<Longrightarrow> pk (f r) = pk r) \<Longrightarrow> map pk (sql_update p f t) = map pk t"
  by (auto simp: sql_update_def)

lemma distinct_update:
  "(\<And>r. p r \<Longrightarrow> pk (f r) = pk r) \<Longrightarrow> distinct (map pk t) \<Longrightarrow> distinct (map pk (sql_update p f t))"
  by (simp add: pk_update)

lemma distinct_delete: "distinct (map pk t) \<Longrightarrow> distinct (map pk (sql_delete p t))"
  by (simp add: sql_delete_def distinct_map_filter)

lemma at_update:
  "(\<And>r. p r \<Longrightarrow> pk (f r) = pk r) \<Longrightarrow>
   row_at pk (sql_update p f t) k = map_option (\<lambda>r. if p r then f r else r) (row_at pk t k)"
  by (induction t) (auto simp: sql_update_def)

lemma at_delete:
  "distinct (map pk t) \<Longrightarrow>
   row_at pk (sql_delete p t) k =
     (case row_at pk t k of None \<Rightarrow> None | Some r \<Rightarrow> if p r then None else Some r)"
proof (induction t)
  case Nil
  then show ?case by (simp add: sql_delete_def)
next
  case (Cons r t)
  from Cons.prems have "row_at pk t (pk r) = None"
    by (auto simp: row_at_None_iff image_iff)
  with Cons show ?case by (auto simp: sql_delete_def split: option.splits)
qed

end

section \<open>Step systems\<close>

inductive reach :: "('s \<Rightarrow> bool) \<Rightarrow> ('s \<Rightarrow> 's \<Rightarrow> bool) \<Rightarrow> 's \<Rightarrow> bool"
  for init :: "'s \<Rightarrow> bool" and step :: "'s \<Rightarrow> 's \<Rightarrow> bool" where
  reach_init: "init s \<Longrightarrow> reach init step s"
| reach_step: "reach init step s \<Longrightarrow> step s t \<Longrightarrow> reach init step t"

text \<open>The contract of an inductive invariant, and what it gives in every reachable state.\<close>

locale invariant_system =
  fixes init :: "'s \<Rightarrow> bool" and step :: "'s \<Rightarrow> 's \<Rightarrow> bool" and inv :: "'s \<Rightarrow> bool"
  assumes init_inv: "init s \<Longrightarrow> inv s"
    and step_inv: "inv s \<Longrightarrow> step s t \<Longrightarrow> inv t"
begin

lemma reach_inv: "reach init step s \<Longrightarrow> inv s"
  by (induction rule: reach.induct) (auto intro: init_inv step_inv)

lemma steps_inv: "step\<^sup>*\<^sup>* s t \<Longrightarrow> inv s \<Longrightarrow> inv t"
  by (induction rule: rtranclp_induct) (auto intro: step_inv)

end

end
