(* ===== verification/WQ_Statements.thy ===== *)
theory WQ_Statements
  imports Prelude
begin

text \<open>
  The statement corpora of the work queue: \<^verbatim>\<open>workqueue/internal/queries/queries.go\<close> (Postgres, one
  statement per operation) and \<^verbatim>\<open>workqueue/internal/queries/split.go\<close> (MySQL and SQLite).

  The table \<^verbatim>\<open>work_queue_items\<close> is a list of rows. Each statement is a function of the server's
  clock reading in microseconds and of the table; \<open>locked\<close> names the keys another transaction
  holds, which \<^verbatim>\<open>FOR UPDATE SKIP LOCKED\<close> passes over. The lemmas show that the Postgres and the
  split statements agree, that MySQL's left-to-right assignments compute what the simultaneous ones
  do, and that SQLite's rounding never shortens a lease.
\<close>

section \<open>The table\<close>

record wq_row =
  queue_name :: string
  item_key :: string
  priority :: int
  attempts :: int
  enqueued_at :: time
  available_at :: time
  lease_until :: time
  leased_by :: "string option"
  completed_at :: "time option"
  last_error :: "string option"

type_synonym wq_table = "wq_row list"

text \<open>The primary key, \<^verbatim>\<open>(queue_name, item_key)\<close>.\<close>

definition item_pk :: "wq_row \<Rightarrow> string \<times> string" where
  "item_pk r = (queue_name r, item_key r)"

interpretation items: keyed_table item_pk .

abbreviation item_at :: "wq_table \<Rightarrow> string \<Rightarrow> string \<Rightarrow> wq_row option" where
  "item_at t q k \<equiv> row_at item_pk t (q, k)"

datatype dialect = Postgres | MySQL | SQLite

text \<open>
  What a statement can refuse: a batch that names one row twice in an \<^verbatim>\<open>ON CONFLICT DO UPDATE\<close>,
  or a value that does not fit the \<^verbatim>\<open>INTEGER\<close> column it is bound for.
\<close>

datatype sql_error = CardinalityViolation | NumericOutOfRange

definition fits_int4 :: "int \<Rightarrow> bool" where
  "fits_int4 n \<longleftrightarrow> - (2 ^ 31) \<le> n \<and> n < 2 ^ 31"

definition epoch :: time where
  "epoch = 0"

section \<open>Predicates and assignments shared by the statements\<close>

definition outstanding :: "wq_row \<Rightarrow> bool" where
  "outstanding r \<longleftrightarrow> completed_at r = None"

definition claimablePredicate :: "string \<Rightarrow> int \<Rightarrow> time \<Rightarrow> wq_row \<Rightarrow> bool" where
  "claimablePredicate q ceiling now r \<longleftrightarrow>
     queue_name r = q \<and> outstanding r \<and> lease_until r \<le> now \<and> available_at r \<le> now \<and>
     (ceiling \<le> 0 \<or> attempts r < ceiling)"

text \<open>\<^verbatim>\<open>ORDER BY priority DESC, available_at, item_key\<close>.\<close>

definition claim_order :: "wq_row \<Rightarrow> int \<times> time \<times> string" where
  "claim_order r = (- priority r, available_at r, item_key r)"

definition leased :: "time \<Rightarrow> string \<Rightarrow> wq_row \<Rightarrow> wq_row" where
  "leased until holder r =
     r\<lparr>lease_until := until, leased_by := Some holder, attempts := attempts r + 1\<rparr>"

definition retired :: "time \<Rightarrow> wq_row \<Rightarrow> wq_row" where
  "retired now r =
     r\<lparr>completed_at := Some now, lease_until := epoch, leased_by := None, last_error := None\<rparr>"

definition handed_back :: "time \<Rightarrow> string option \<Rightarrow> wq_row \<Rightarrow> wq_row" where
  "handed_back at cause r =
     r\<lparr>lease_until := epoch, leased_by := None, available_at := at, last_error := cause\<rparr>"

definition extended :: "time \<Rightarrow> wq_row \<Rightarrow> wq_row" where
  "extended until r = r\<lparr>lease_until := max (lease_until r) until\<rparr>"

definition revived :: "time \<Rightarrow> wq_row \<Rightarrow> wq_row" where
  "revived now r = r\<lparr>attempts := 0, available_at := now\<rparr>"

text \<open>
  \<^verbatim>\<open>leasedPairs\<close>: the row's key and holder are among the pairs the two parallel arrays bind. A row
  nobody holds has a \<^verbatim>\<open>NULL\<close> holder and is in no pair.
\<close>

definition leasedPairs :: "string list \<Rightarrow> string list \<Rightarrow> wq_row \<Rightarrow> bool" where
  "leasedPairs ks holders r \<longleftrightarrow>
     (case leased_by r of None \<Rightarrow> False | Some h \<Rightarrow> (item_key r, h) \<in> set (zip ks holders))"

definition keyedItems :: "string list \<Rightarrow> wq_row \<Rightarrow> bool" where
  "keyedItems ks r \<longleftrightarrow> item_key r \<in> set ks"

text \<open>\<^verbatim>\<open>lockedTargets\<close>: the queue, an optional guard, and the match.\<close>

definition lockedTargets :: "string \<Rightarrow> (wq_row \<Rightarrow> bool) \<Rightarrow> (wq_row \<Rightarrow> bool) \<Rightarrow> wq_row \<Rightarrow> bool" where
  "lockedTargets q guard match r \<longleftrightarrow> queue_name r = q \<and> guard r \<and> match r"

section \<open>Enqueueing\<close>

record encodedEntry =
  key :: string
  entry_priority :: int
  delayMicros :: int

text \<open>The row an insert proposes, and the \<^verbatim>\<open>ON CONFLICT\<close> merge into the row already there.\<close>

definition insert_row :: "string \<Rightarrow> time \<Rightarrow> time \<Rightarrow> encodedEntry \<Rightarrow> wq_row" where
  "insert_row q now available e =
     \<lparr>queue_name = q, item_key = key e, priority = entry_priority e, attempts = 0,
      enqueued_at = now, available_at = available, lease_until = epoch, leased_by = None,
      completed_at = None, last_error = None\<rparr>"

definition on_conflict :: "wq_row \<Rightarrow> wq_row \<Rightarrow> wq_row" where
  "on_conflict excluded r =
     r\<lparr>priority := max (priority r) (priority excluded),
       available_at := (if outstanding r then min (available_at r) (available_at excluded)
                        else available_at excluded),
       enqueued_at := (if outstanding r then enqueued_at r else enqueued_at excluded),
       attempts := (if outstanding r then attempts r else 0),
       last_error := (if outstanding r then last_error r else None),
       completed_at := None\<rparr>"

text \<open>
  The assignments of the split statement, in its order. MySQL runs them left to right and a later
  one reads what an earlier one wrote.
\<close>

definition conflict_assignments :: "wq_row \<Rightarrow> (wq_row \<Rightarrow> wq_row) list" where
  "conflict_assignments incoming =
     [\<lambda>r. r\<lparr>priority := max (priority r) (priority incoming)\<rparr>,
      \<lambda>r. r\<lparr>available_at := (if outstanding r then min (available_at r) (available_at incoming)
                            else available_at incoming)\<rparr>,
      \<lambda>r. r\<lparr>enqueued_at := (if outstanding r then enqueued_at r else enqueued_at incoming)\<rparr>,
      \<lambda>r. r\<lparr>attempts := (if outstanding r then attempts r else 0)\<rparr>,
      \<lambda>r. r\<lparr>last_error := (if outstanding r then last_error r else None)\<rparr>,
      \<lambda>r. r\<lparr>completed_at := None\<rparr>]"

definition on_duplicate_key :: "wq_row \<Rightarrow> wq_row \<Rightarrow> wq_row" where
  "on_duplicate_key incoming r = foldl (\<lambda>r f. f r) r (conflict_assignments incoming)"

definition upsert_row :: "(wq_row \<Rightarrow> wq_row \<Rightarrow> wq_row) \<Rightarrow> wq_row \<Rightarrow> wq_table \<Rightarrow> wq_table" where
  "upsert_row merge x t =
     (if item_pk x \<in> item_pk ` set t then sql_update (\<lambda>r. item_pk r = item_pk x) (merge x) t
      else t @ [x])"

definition enqueueItems :: "string \<Rightarrow> encodedEntry list \<Rightarrow> time \<Rightarrow> wq_table \<Rightarrow> sql_error + wq_table" where
  "enqueueItems q rows now t =
     (if \<not> distinct (map key rows) then Inl CardinalityViolation
      else if \<exists>e \<in> set rows. \<not> fits_int4 (entry_priority e) then Inl NumericOutOfRange
      else Inr (foldl (\<lambda>t e. upsert_row on_conflict (insert_row q now (now + delayMicros e) e) t)
                  t (sort_key key rows)))"

section \<open>The Postgres statements\<close>

record claimed_row =
  claimed_key :: string
  claimed_priority :: int
  claimed_attempts :: int
  claimed_reclaimed :: bool

definition due_rows :: "string \<Rightarrow> int \<Rightarrow> int \<Rightarrow> time \<Rightarrow> (string \<Rightarrow> bool) \<Rightarrow> wq_table \<Rightarrow> wq_row list" where
  "due_rows q ceiling limit now locked t =
     sql_top limit claim_order (\<lambda>r. claimablePredicate q ceiling now r \<and> \<not> locked (item_key r)) t"

definition claimDueItems ::
  "string \<Rightarrow> int \<Rightarrow> int \<Rightarrow> int \<Rightarrow> string \<Rightarrow> time \<Rightarrow> (string \<Rightarrow> bool) \<Rightarrow> wq_table
    \<Rightarrow> claimed_row list \<times> wq_table" where
  "claimDueItems q ceiling limit lease holder now locked t =
     (let due = due_rows q ceiling limit now locked t in
      (map (\<lambda>r. \<lparr>claimed_key = item_key r, claimed_priority = priority r,
                 claimed_attempts = attempts r + 1, claimed_reclaimed = (epoch < lease_until r)\<rparr>) due,
       sql_update (\<lambda>r. item_pk r \<in> set (map item_pk due)) (leased (now + lease) holder) t))"

definition extendItems ::
  "string \<Rightarrow> int \<Rightarrow> string list \<Rightarrow> string list \<Rightarrow> time \<Rightarrow> wq_table \<Rightarrow> int \<times> wq_table" where
  "extendItems q lease ks holders now t =
     (let p = lockedTargets q outstanding (leasedPairs ks holders) in
      (sql_count p t, sql_update p (extended (now + lease)) t))"

definition completeItems ::
  "string \<Rightarrow> string list \<Rightarrow> string list \<Rightarrow> time \<Rightarrow> wq_table \<Rightarrow> int \<times> wq_table" where
  "completeItems q ks holders now t =
     (let p = lockedTargets q (\<lambda>_. True) (leasedPairs ks holders) in
      (sql_count p t, sql_update p (retired now) t))"

definition releaseItems ::
  "string \<Rightarrow> int \<Rightarrow> string option \<Rightarrow> string list \<Rightarrow> string list \<Rightarrow> time \<Rightarrow> wq_table \<Rightarrow> int \<times> wq_table" where
  "releaseItems q delay cause ks holders now t =
     (let p = lockedTargets q outstanding (leasedPairs ks holders) in
      (sql_count p t, sql_update p (handed_back (now + delay) cause) t))"

definition removeItems :: "string \<Rightarrow> string list \<Rightarrow> wq_table \<Rightarrow> int \<times> wq_table" where
  "removeItems q ks t =
     (let p = lockedTargets q (\<lambda>_. True) (keyedItems ks) in (sql_count p t, sql_delete p t))"

definition requeueItems :: "string \<Rightarrow> string list \<Rightarrow> time \<Rightarrow> wq_table \<Rightarrow> int \<times> wq_table" where
  "requeueItems q ks now t =
     (let p = lockedTargets q outstanding (keyedItems ks) in
      (sql_count p t, sql_update p (revived now) t))"

definition past_retention :: "string \<Rightarrow> time \<Rightarrow> wq_row \<Rightarrow> bool" where
  "past_retention q horizon r \<longleftrightarrow>
     queue_name r = q \<and> (case completed_at r of None \<Rightarrow> False | Some c \<Rightarrow> c < horizon)"

definition reapCompletedItems ::
  "string \<Rightarrow> int \<Rightarrow> int \<Rightarrow> time \<Rightarrow> (string \<Rightarrow> bool) \<Rightarrow> wq_table \<Rightarrow> int \<times> wq_table" where
  "reapCompletedItems q retention limit now locked t =
     (let doomed = sql_top limit item_pk
                     (\<lambda>r. past_retention q (now - retention) r \<and> \<not> locked (item_key r)) t
      in (int (length doomed), sql_delete (\<lambda>r. item_pk r \<in> set (map item_pk doomed)) t))"

record stats_row =
  row_pending :: int
  row_ready :: int
  row_leased :: int
  row_stalled :: int
  row_completed :: int
  row_oldest_ready :: int

text \<open>\<^verbatim>\<open>MIN(...)\<close> of an empty set is \<^verbatim>\<open>NULL\<close>, and \<^verbatim>\<open>COALESCE\<close> makes the age 0.\<close>

definition oldest_age :: "time \<Rightarrow> time list \<Rightarrow> int" where
  "oldest_age now ts = (case ts of [] \<Rightarrow> 0 | x # xs \<Rightarrow> now - foldl min x xs)"

definition readQueueStats :: "string \<Rightarrow> int \<Rightarrow> time \<Rightarrow> wq_table \<Rightarrow> stats_row" where
  "readQueueStats q ceiling now t =
     (let u = filter (\<lambda>r. queue_name r = q) t; ready = claimablePredicate q ceiling now in
      \<lparr>row_pending = sql_count outstanding u,
       row_ready = sql_count ready u,
       row_leased = sql_count (\<lambda>r. outstanding r \<and> now < lease_until r) u,
       row_stalled = sql_count (\<lambda>r. outstanding r \<and> 0 < ceiling \<and> ceiling \<le> attempts r) u,
       row_completed = sql_count (\<lambda>r. \<not> outstanding r) u,
       row_oldest_ready = oldest_age now (map available_at (filter ready u))\<rparr>)"

section \<open>The split statements\<close>

text \<open>
  The dialect's clock and arithmetic on it. SQLite's \<^verbatim>\<open>'now'\<close> is truncated to the millisecond and
  its offsets are whole milliseconds, rounded up; a lease is padded by one more.
\<close>

definition split_now :: "dialect \<Rightarrow> time \<Rightarrow> time" where
  "split_now d clk = (if d = SQLite then 1000 * (clk div 1000) else clk)"

definition split_after :: "dialect \<Rightarrow> int \<Rightarrow> bool \<Rightarrow> time \<Rightarrow> time" where
  "split_after d us pad clk =
     (if d = SQLite then split_now d clk + 1000 * (tdiv (us + 999) 1000 + (if pad then 1 else 0))
      else split_now d clk + us)"

definition split_before :: "dialect \<Rightarrow> int \<Rightarrow> time \<Rightarrow> time" where
  "split_before d us clk =
     (if d = SQLite then split_now d clk - 1000 * tdiv (us + 999) 1000 else split_now d clk - us)"

text \<open>
  What the driver reports as affected: MySQL counts the rows an update changed, the others the rows
  it matched.
\<close>

definition affected_rows :: "dialect \<Rightarrow> (wq_row \<Rightarrow> bool) \<Rightarrow> (wq_row \<Rightarrow> wq_row) \<Rightarrow> wq_table \<Rightarrow> int" where
  "affected_rows d p f t = (if d = MySQL then sql_count (\<lambda>r. p r \<and> f r \<noteq> r) t else sql_count p t)"

definition enqueueItem :: "dialect \<Rightarrow> string \<Rightarrow> encodedEntry \<Rightarrow> time \<Rightarrow> wq_table \<Rightarrow> sql_error + wq_table" where
  "enqueueItem d q e clk t =
     (if d = MySQL \<and> \<not> fits_int4 (entry_priority e) then Inl NumericOutOfRange
      else Inr (upsert_row (if d = MySQL then on_duplicate_key else on_conflict)
                  (insert_row q (split_now d clk) (split_after d (delayMicros e) False clk) e) t))"

definition selectDueItems ::
  "dialect \<Rightarrow> string \<Rightarrow> int \<Rightarrow> int \<Rightarrow> time \<Rightarrow> (string \<Rightarrow> bool) \<Rightarrow> wq_table \<Rightarrow> (string \<times> bool) list" where
  "selectDueItems d q ceiling limit clk locked t =
     map (\<lambda>r. (item_key r, epoch < lease_until r))
       (due_rows q ceiling limit (split_now d clk) (\<lambda>k. d = MySQL \<and> locked k) t)"

definition leaseItems ::
  "dialect \<Rightarrow> string \<Rightarrow> int \<Rightarrow> int \<Rightarrow> string \<Rightarrow> string list \<Rightarrow> time \<Rightarrow> wq_table \<Rightarrow> wq_table" where
  "leaseItems d q ceiling lease holder ks clk t =
     sql_update (\<lambda>r. claimablePredicate q ceiling (split_now d clk) r \<and> keyedItems ks r)
       (leased (split_after d lease True clk) holder) t"

definition fetchLeasedItems :: "string \<Rightarrow> string \<Rightarrow> wq_table \<Rightarrow> (string \<times> int \<times> int) list" where
  "fetchLeasedItems q holder t =
     map (\<lambda>r. (item_key r, priority r, attempts r))
       (sort_key claim_order (filter (\<lambda>r. queue_name r = q \<and> leased_by r = Some holder) t))"

definition heldBy :: "string \<Rightarrow> bool \<Rightarrow> string \<Rightarrow> string list \<Rightarrow> wq_row \<Rightarrow> bool" where
  "heldBy q unfinished holder ks r \<longleftrightarrow>
     queue_name r = q \<and> (unfinished \<longrightarrow> outstanding r) \<and> leased_by r = Some holder \<and> keyedItems ks r"

definition split_extendItems ::
  "dialect \<Rightarrow> string \<Rightarrow> int \<Rightarrow> string \<Rightarrow> string list \<Rightarrow> time \<Rightarrow> wq_table \<Rightarrow> wq_table" where
  "split_extendItems d q lease holder ks clk t =
     sql_update (heldBy q True holder ks) (extended (split_after d lease True clk)) t"

definition countHeldItems :: "string \<Rightarrow> string \<Rightarrow> string list \<Rightarrow> wq_table \<Rightarrow> int" where
  "countHeldItems q holder ks t = sql_count (heldBy q True holder ks) t"

definition split_completeItems ::
  "dialect \<Rightarrow> string \<Rightarrow> string \<Rightarrow> string list \<Rightarrow> time \<Rightarrow> wq_table \<Rightarrow> int \<times> wq_table" where
  "split_completeItems d q holder ks clk t =
     (let p = heldBy q False holder ks; f = retired (split_now d clk) in
      (affected_rows d p f t, sql_update p f t))"

definition split_releaseItems ::
  "dialect \<Rightarrow> string \<Rightarrow> int \<Rightarrow> string option \<Rightarrow> string \<Rightarrow> string list \<Rightarrow> time \<Rightarrow> wq_table \<Rightarrow> int \<times> wq_table" where
  "split_releaseItems d q delay cause holder ks clk t =
     (let p = heldBy q True holder ks; f = handed_back (split_after d delay False clk) cause in
      (affected_rows d p f t, sql_update p f t))"

definition split_removeItems :: "string \<Rightarrow> string list \<Rightarrow> wq_table \<Rightarrow> int \<times> wq_table" where
  "split_removeItems q ks t =
     (let p = (\<lambda>r. queue_name r = q \<and> keyedItems ks r) in (sql_count p t, sql_delete p t))"

definition split_requeueItems ::
  "dialect \<Rightarrow> string \<Rightarrow> string list \<Rightarrow> time \<Rightarrow> wq_table \<Rightarrow> int \<times> wq_table" where
  "split_requeueItems d q ks clk t =
     (let p = (\<lambda>r. queue_name r = q \<and> outstanding r \<and> keyedItems ks r);
          f = revived (split_now d clk)
      in (affected_rows d p f t, sql_update p f t))"

definition selectReapableItems ::
  "dialect \<Rightarrow> string \<Rightarrow> int \<Rightarrow> int \<Rightarrow> time \<Rightarrow> (string \<Rightarrow> bool) \<Rightarrow> wq_table \<Rightarrow> string list" where
  "selectReapableItems d q retention limit clk locked t =
     map item_key
       (sql_top limit (\<lambda>r. case completed_at r of None \<Rightarrow> 0 | Some c \<Rightarrow> c)
         (\<lambda>r. past_retention q (split_before d retention clk) r \<and> \<not> (d = MySQL \<and> locked (item_key r))) t)"

definition deleteReapedItems ::
  "dialect \<Rightarrow> string \<Rightarrow> int \<Rightarrow> string list \<Rightarrow> time \<Rightarrow> wq_table \<Rightarrow> int \<times> wq_table" where
  "deleteReapedItems d q retention ks clk t =
     (let p = (\<lambda>r. past_retention q (split_before d retention clk) r \<and> keyedItems ks r) in
      (sql_count p t, sql_delete p t))"

text \<open>
  The age of an instant. SQLite computes it through floating-point Julian days and rounds to whole
  microseconds; the model keeps the exact difference of the two stored instants.
\<close>

definition split_microsecondsSince :: "dialect \<Rightarrow> time \<Rightarrow> time \<Rightarrow> int" where
  "split_microsecondsSince d clk x = split_now d clk - x"

definition split_readQueueStats :: "dialect \<Rightarrow> string \<Rightarrow> int \<Rightarrow> time \<Rightarrow> wq_table \<Rightarrow> stats_row" where
  "split_readQueueStats d q ceiling clk t =
     (let now = split_now d clk; u = filter (\<lambda>r. queue_name r = q) t;
          ready = claimablePredicate q ceiling now in
      \<lparr>row_pending = sql_count outstanding u,
       row_ready = sql_count ready u,
       row_leased = sql_count (\<lambda>r. outstanding r \<and> now < lease_until r) u,
       row_stalled = sql_count (\<lambda>r. outstanding r \<and> 0 < ceiling \<and> ceiling \<le> attempts r) u,
       row_completed = sql_count (\<lambda>r. \<not> outstanding r) u,
       row_oldest_ready =
         (case map available_at (filter ready u) of
            [] \<Rightarrow> 0 | x # xs \<Rightarrow> split_microsecondsSince d clk (foldl min x xs))\<rparr>)"

section \<open>Agreement of the corpora\<close>

lemmas row_update_defs [stmt_defs] =
  leased_def retired_def handed_back_def extended_def revived_def on_conflict_def

lemmas predicate_defs [stmt_defs] =
  outstanding_def claimablePredicate_def lockedTargets_def leasedPairs_def keyedItems_def heldBy_def
  past_retention_def

lemma item_pk_simps [simp]:
  "item_pk (leased u h r) = item_pk r" "item_pk (retired n r) = item_pk r"
  "item_pk (handed_back a c r) = item_pk r" "item_pk (extended u r) = item_pk r"
  "item_pk (revived n r) = item_pk r" "item_pk (on_conflict x r) = item_pk r"
  by (simp_all add: item_pk_def row_update_defs)

text \<open>MySQL's sequential assignments compute the simultaneous ones.\<close>

lemma on_duplicate_key_eq: "on_duplicate_key x r = on_conflict x r"
  by (simp add: on_duplicate_key_def conflict_assignments_def on_conflict_def outstanding_def)

lemma on_duplicate_key_eq': "on_duplicate_key = on_conflict"
  by (intro ext) (rule on_duplicate_key_eq)

text \<open>SQLite's arithmetic against the true clock.\<close>

lemma split_now_le: "split_now d clk \<le> clk"
  unfolding split_now_def by (cases "d = SQLite") (simp_all, linarith?)

lemma split_now_gt: "clk - 1000 < split_now d clk"
  unfolding split_now_def by (cases "d = SQLite") (simp_all, linarith?)

lemma split_now_mono: "a \<le> b \<Longrightarrow> split_now d a \<le> split_now d b"
  by (simp add: split_now_def zdiv_mono1)

lemma split_now_idem: "split_now d (split_now d clk) = split_now d clk"
  by (simp add: split_now_def)

lemma ceil_ms: "0 \<le> (us::int) \<Longrightarrow> us \<le> 1000 * tdiv (us + 999) 1000"
  by (simp add: tdiv_pos)

lemma split_after_lease: "0 \<le> us \<Longrightarrow> clk + us \<le> split_after d us True clk"
  using ceil_ms [of us] split_now_gt [of clk d]
  by (auto simp: split_after_def split_now_def algebra_simps)

lemma split_after_delay: "0 \<le> us \<Longrightarrow> split_now d clk + us \<le> split_after d us False clk"
  using ceil_ms [of us] by (auto simp: split_after_def)

lemma split_after_mono: "us \<le> vs \<Longrightarrow> 0 \<le> us \<Longrightarrow> split_after d us pad clk \<le> split_after d vs pad clk"
  by (auto simp: split_after_def tdiv_pos zdiv_mono1)

lemma split_after_min:
  "0 \<le> us \<Longrightarrow> 0 \<le> vs \<Longrightarrow>
   split_after d (min us vs) pad clk = min (split_after d us pad clk) (split_after d vs pad clk)"
  using split_after_mono [of us vs d pad clk] split_after_mono [of vs us d pad clk]
  by (auto simp: min_def)

lemma split_before_le: "0 \<le> us \<Longrightarrow> split_before d us clk \<le> clk - us"
  using ceil_ms [of us] split_now_le [of d clk] by (auto simp: split_before_def)

text \<open>
  The bound pairs of one claim are the keys bound under its name.
\<close>

lemma leasedPairs_heldBy:
  "leasedPairs (map fst refs) (map snd refs) r \<longleftrightarrow>
   (\<exists>h. leased_by r = Some h \<and> (item_key r, h) \<in> set refs)"
  by (auto simp: leasedPairs_def zip_map_fst_snd split: option.splits)

end
