(* ===== verification/WorkQueue.thy ===== *)
theory WorkQueue
  imports WQ_Statements
begin

text \<open>
  The leased work queue: \<^verbatim>\<open>workqueue/keys.go\<close>, \<^verbatim>\<open>config.go\<close>, \<^verbatim>\<open>enqueue.go\<close>, \<^verbatim>\<open>workqueue.go\<close> and
  \<^verbatim>\<open>split.go\<close>. Every public method is one definition over the queue's state and a record of what
  the environment supplied to the call: the server clock at each statement, the keys other
  transactions hold, the error a (retried) unit of database work ended with, the name
  \<^verbatim>\<open>identifiers.New\<close> minted, and \<^verbatim>\<open>platformerrors.TruncateError\<close> at the stored bound. Telemetry is left out; a retry wrapper appears as the outcome of its
  last attempt.
\<close>

section \<open>Keys and configuration\<close>

datatype wq_error =
    ErrInvalidLease | ErrInvalidPollInterval | ErrEmptyKey | ErrKeyTooLong
  | ErrKeyContainsControlCharacter | ErrClosed | ContextDone
  | CodecError string | DriverError string | SQLError sql_error

record 'k KeyCodec =
  EncodeKey :: "'k \<Rightarrow> wq_error + string"
  DecodeKey :: "string \<Rightarrow> wq_error + 'k"

definition stringKeyCodec :: "string KeyCodec" where
  "stringKeyCodec = \<lparr>EncodeKey = (\<lambda>k. Inr k), DecodeKey = (\<lambda>s. Inr s)\<rparr>"

definition MaxKeyLength :: nat where
  "MaxKeyLength = 512"

definition control_characters :: "char set" where
  "control_characters = {CHR 0x00, CHR 0x0A, CHR 0x0D}"

definition encodeKey :: "'k KeyCodec \<Rightarrow> 'k \<Rightarrow> wq_error + string" where
  "encodeKey codec k =
     (case EncodeKey codec k of
        Inl e \<Rightarrow> Inl e
      | Inr encoded \<Rightarrow>
          if encoded = [] then Inl ErrEmptyKey
          else if MaxKeyLength < length encoded then Inl ErrKeyTooLong
          else if set encoded \<inter> control_characters \<noteq> {} then Inl ErrKeyContainsControlCharacter
          else Inr encoded)"

definition encodeKeys :: "'k KeyCodec \<Rightarrow> 'k list \<Rightarrow> wq_error + string list" where
  "encodeKeys codec ks = try_map (encodeKey codec) ks"

record Config =
  cfg_Name :: string
  cfg_NotifyChannel :: string
  cfg_Retention :: duration
  cfg_MaxAttempts :: int
  cfg_MaxClaimBatch :: int
  cfg_ReapBatchSize :: int
  cfg_WriteAttempts :: nat
  cfg_MinWakeInterval :: duration

definition DefaultRetention :: duration where "DefaultRetention = 24 * 60 * 60 * Second"
definition DefaultMaxClaimBatch :: int where "DefaultMaxClaimBatch = 500"
definition DefaultReapBatchSize :: int where "DefaultReapBatchSize = 1000"
definition DefaultWriteAttempts :: nat where "DefaultWriteAttempts = 3"
definition DefaultMinWakeInterval :: duration where "DefaultMinWakeInterval = 100 * Millisecond"

definition Config_EnsureDefaults :: "Config \<Rightarrow> Config" where
  "Config_EnsureDefaults cfg =
     cfg\<lparr>cfg_Retention := (if cfg_Retention cfg \<le> 0 then DefaultRetention else cfg_Retention cfg),
         cfg_MaxClaimBatch := (if cfg_MaxClaimBatch cfg \<le> 0 then DefaultMaxClaimBatch else cfg_MaxClaimBatch cfg),
         cfg_ReapBatchSize := (if cfg_ReapBatchSize cfg \<le> 0 then DefaultReapBatchSize else cfg_ReapBatchSize cfg),
         cfg_WriteAttempts := (if cfg_WriteAttempts cfg = 0 then DefaultWriteAttempts else cfg_WriteAttempts cfg),
         cfg_MinWakeInterval := (if cfg_MinWakeInterval cfg \<le> 0 then DefaultMinWakeInterval
                                 else cfg_MinWakeInterval cfg)\<rparr>"

definition MaxInt32 :: int where
  "MaxInt32 = 2 ^ 31 - 1"

definition attemptCeiling :: "Config \<Rightarrow> int" where
  "attemptCeiling cfg = (if MaxInt32 < cfg_MaxAttempts cfg then MaxInt32 else cfg_MaxAttempts cfg)"

definition Config_Validate :: "Config \<Rightarrow> bool" where
  "Config_Validate cfg \<longleftrightarrow>
     1 \<le> length (cfg_Name cfg) \<and> length (cfg_Name cfg) \<le> MaxKeyLength \<and> Second \<le> cfg_Retention cfg \<and>
     0 \<le> cfg_MaxAttempts cfg \<and> 1 \<le> cfg_MaxClaimBatch cfg \<and> 1 \<le> cfg_ReapBatchSize cfg \<and>
     1 \<le> cfg_WriteAttempts cfg \<and> Millisecond \<le> cfg_MinWakeInterval cfg"

text \<open>
  \<^verbatim>\<open>New\<close>'s checks, over the identifier and notification rules of the database module and the rendered
  table name.
\<close>

datatype new_error = ErrEmptyQueueName | ErrInvalidConfig | ErrInvalidIdentifier string | ErrNotifyUnsupported

definition wq_New ::
  "(string \<Rightarrow> bool) \<Rightarrow> (dialect \<Rightarrow> bool) \<Rightarrow> string \<Rightarrow> dialect \<Rightarrow> Config \<Rightarrow> new_error + Config" where
  "wq_New validIdentifier supportsNotify table d cfg0 =
     (let cfg = Config_EnsureDefaults cfg0 in
      if cfg_Name cfg = [] then Inl ErrEmptyQueueName
      else if \<not> Config_Validate cfg then Inl ErrInvalidConfig
      else if \<not> validIdentifier table then Inl (ErrInvalidIdentifier table)
      else if cfg_NotifyChannel cfg \<noteq> [] \<and> \<not> supportsNotify d then Inl ErrNotifyUnsupported
      else if cfg_NotifyChannel cfg \<noteq> [] \<and> \<not> validIdentifier (cfg_NotifyChannel cfg)
           then Inl (ErrInvalidIdentifier (cfg_NotifyChannel cfg))
      else Inr cfg)"

section \<open>State, items and the environment of a call\<close>

record wq_state =
  items :: wq_table
  notified :: "string list"
  lastWake :: time

record wq_io =
  clk :: "nat \<Rightarrow> time"
  locked :: "string \<Rightarrow> bool"
  fault :: "nat \<Rightarrow> wq_error option"
  mint :: string
  truncateError :: "string \<Rightarrow> string"

record 'k Item =
  Key :: 'k
  LeasedBy :: string
  Priority :: int
  Attempts :: int
  Reclaimed :: bool

record 'k Entry =
  Entry_Key :: 'k
  Entry_Priority :: int
  Entry_Delay :: duration

record Stats =
  OldestReadyAge :: duration
  Pending :: int
  Ready :: int
  Leased :: int
  Stalled :: int
  Completed :: int

section \<open>Enqueue\<close>

text \<open>\<^verbatim>\<open>notify\<close>: one payload-free notification, whose failure is only logged.\<close>

definition notify :: "Config \<Rightarrow> wq_error option \<Rightarrow> wq_state \<Rightarrow> wq_state" where
  "notify cfg failure st =
     (if cfg_NotifyChannel cfg = [] then st
      else if failure \<noteq> None then st
      else st\<lparr>notified := notified st @ [cfg_NotifyChannel cfg]\<rparr>)"

definition mergeEntries :: "encodedEntry \<Rightarrow> encodedEntry \<Rightarrow> encodedEntry" where
  "mergeEntries existing incoming =
     \<lparr>key = key existing,
      entry_priority = max (entry_priority existing) (entry_priority incoming),
      delayMicros = min (delayMicros existing) (delayMicros incoming)\<rparr>"

text \<open>\<^verbatim>\<open>upsertSplit\<close>: a statement per row in one transaction, at the clock of each statement.\<close>

fun upsertSplit_rows ::
  "dialect \<Rightarrow> string \<Rightarrow> (nat \<Rightarrow> time) \<Rightarrow> nat \<Rightarrow> encodedEntry list \<Rightarrow> wq_table \<Rightarrow> sql_error + wq_table" where
  "upsertSplit_rows d q clock n [] t = Inr t"
| "upsertSplit_rows d q clock n (e # es) t =
     (case enqueueItem d q e (clock n) t of
        Inl err \<Rightarrow> Inl err
      | Inr t' \<Rightarrow> upsertSplit_rows d q clock (Suc n) es t')"

definition upsertSplit :: "dialect \<Rightarrow> Config \<Rightarrow> wq_io \<Rightarrow> encodedEntry list \<Rightarrow> wq_table \<Rightarrow> sql_error + wq_table" where
  "upsertSplit d cfg io rows t = upsertSplit_rows d (cfg_Name cfg) (clk io) 0 rows t"

definition upsert ::
  "dialect \<Rightarrow> Config \<Rightarrow> wq_io \<Rightarrow> encodedEntry list \<Rightarrow> wq_state \<Rightarrow> (wq_error + unit) \<times> wq_state" where
  "upsert d cfg io rows st =
     (if rows = [] then (Inr (), st)
      else (case fault io 0 of
          Some e \<Rightarrow> (Inl e, st)
        | None \<Rightarrow>
            if d \<noteq> Postgres
            then (case upsertSplit d cfg io rows (items st) of
                    Inl e \<Rightarrow> (Inl (SQLError e), st)
                  | Inr t \<Rightarrow> (Inr (), st\<lparr>items := t\<rparr>))
            else (case enqueueItems (cfg_Name cfg) rows (clk io 0) (items st) of
                    Inl e \<Rightarrow> (Inl (SQLError e), st)
                  | Inr t \<Rightarrow> (Inr (), notify cfg (fault io 1) (st\<lparr>items := t\<rparr>)))))"

text \<open>
  \<^verbatim>\<open>Enqueue\<close> hands its rows to the group-commit batcher of another module, \<open>submit\<close> here: the error
  it reports is its own closedness or what the flush returned.
\<close>

datatype submit_error = BatchingClosed | FlushFailed wq_error

definition encodeEntry :: "'k KeyCodec \<Rightarrow> 'k Entry \<Rightarrow> wq_error + encodedEntry" where
  "encodeEntry codec e =
     (case encodeKey codec (Entry_Key e) of
        Inl err \<Rightarrow> Inl err
      | Inr k \<Rightarrow> Inr \<lparr>key = k, entry_priority = Entry_Priority e,
                     delayMicros = Microseconds (max (Entry_Delay e) 0)\<rparr>)"

definition Enqueue ::
  "'k KeyCodec \<Rightarrow> (encodedEntry list \<Rightarrow> wq_state \<Rightarrow> (submit_error + unit) \<times> wq_state)
    \<Rightarrow> 'k Entry list \<Rightarrow> wq_state \<Rightarrow> (wq_error + unit) \<times> wq_state" where
  "Enqueue codec submit entries st =
     (if entries = [] then (Inr (), st)
      else (case try_map (encodeEntry codec) entries of
          Inl e \<Rightarrow> (Inl e, st)
        | Inr rows \<Rightarrow>
            (case submit rows st of
               (Inl BatchingClosed, st') \<Rightarrow> (Inl ErrClosed, st')
             | (Inl (FlushFailed e), st') \<Rightarrow> (Inl e, st')
             | (Inr u, st') \<Rightarrow> (Inr u, st'))))"

definition EnqueueKeys ::
  "'k KeyCodec \<Rightarrow> (encodedEntry list \<Rightarrow> wq_state \<Rightarrow> (submit_error + unit) \<times> wq_state)
    \<Rightarrow> 'k list \<Rightarrow> wq_state \<Rightarrow> (wq_error + unit) \<times> wq_state" where
  "EnqueueKeys codec submit ks st =
     Enqueue codec submit (map (\<lambda>k. \<lparr>Entry_Key = k, Entry_Priority = 0, Entry_Delay = 0\<rparr>) ks) st"

section \<open>Claim\<close>

definition claimedItem ::
  "'k KeyCodec \<Rightarrow> string \<Rightarrow> int \<Rightarrow> int \<Rightarrow> string \<Rightarrow> bool \<Rightarrow> wq_error + 'k Item" where
  "claimedItem codec encoded prio atts holder reclaimed =
     (case DecodeKey codec encoded of
        Inl e \<Rightarrow> Inl e
      | Inr k \<Rightarrow> Inr \<lparr>Key = k, LeasedBy = holder, Priority = prio, Attempts = atts, Reclaimed = reclaimed\<rparr>)"

text \<open>
  \<^verbatim>\<open>claimSplit\<close>: the locking read, the lease and the read-back, in one transaction. The second and
  third statements run at their own clock readings; an error of any of them, or of decoding, rolls
  the transaction back.
\<close>

definition claimSplit ::
  "dialect \<Rightarrow> Config \<Rightarrow> 'k KeyCodec \<Rightarrow> wq_io \<Rightarrow> int \<Rightarrow> duration \<Rightarrow> string \<Rightarrow> wq_table
    \<Rightarrow> (wq_error + 'k Item list) \<times> wq_table" where
  "claimSplit d cfg codec io limit lease holder t =
     (case fault io 0 of
        Some e \<Rightarrow> (Inl e, t)
      | None \<Rightarrow>
         (let due = selectDueItems d (cfg_Name cfg) (attemptCeiling cfg) limit (clk io 0) (locked io) t in
          if due = [] then (Inr [], t)
          else (let t' = leaseItems d (cfg_Name cfg) (attemptCeiling cfg) (Microseconds lease) holder
                           (map fst due) (clk io 1) t;
                    rows = fetchLeasedItems (cfg_Name cfg) holder t' in
                (case try_map (\<lambda>(k, p, a). claimedItem codec k p a holder
                                  (map_of (rev due) k = Some True)) rows of
                   Inl e \<Rightarrow> (Inl e, t)
                 | Inr its \<Rightarrow> (Inr its, t')))))"

definition claimOnce ::
  "dialect \<Rightarrow> Config \<Rightarrow> 'k KeyCodec \<Rightarrow> wq_io \<Rightarrow> int \<Rightarrow> duration \<Rightarrow> wq_table
    \<Rightarrow> (wq_error + 'k Item list) \<times> wq_table" where
  "claimOnce d cfg codec io limit lease t =
     (if d \<noteq> Postgres then claimSplit d cfg codec io limit lease (mint io) t
      else (case fault io 0 of
          Some e \<Rightarrow> (Inl e, t)
        | None \<Rightarrow>
           (let (rows, t') = claimDueItems (cfg_Name cfg) (attemptCeiling cfg) limit (Microseconds lease)
                               (mint io) (clk io 0) (locked io) t in
            (try_map (\<lambda>r. claimedItem codec (claimed_key r) (claimed_priority r) (claimed_attempts r)
                            (mint io) (claimed_reclaimed r)) rows, t'))))"

definition claim_limit :: "Config \<Rightarrow> int \<Rightarrow> int" where
  "claim_limit cfg limit =
     (if limit \<le> 0 \<or> cfg_MaxClaimBatch cfg < limit then cfg_MaxClaimBatch cfg else limit)"

definition Claim ::
  "dialect \<Rightarrow> Config \<Rightarrow> 'k KeyCodec \<Rightarrow> wq_io \<Rightarrow> int \<Rightarrow> duration \<Rightarrow> wq_state
    \<Rightarrow> (wq_error + 'k Item list) \<times> wq_state" where
  "Claim d cfg codec io limit lease st =
     (if lease \<le> 0 then (Inl ErrInvalidLease, st)
      else (let (r, t) = claimOnce d cfg codec io (claim_limit cfg limit) lease (items st)
            in (r, st\<lparr>items := t\<rparr>)))"

section \<open>The keyed and the claim writers\<close>

text \<open>\<^verbatim>\<open>slices.Sort\<close> then \<^verbatim>\<open>slices.Compact\<close>.\<close>

definition sortAndDedupe :: "string list \<Rightarrow> string list" where
  "sortAndDedupe ks = remdups_adj (sort ks)"

type_synonym itemRef = "string \<times> string"

definition sortAndDedupeItems :: "itemRef list \<Rightarrow> itemRef list" where
  "sortAndDedupeItems refs = remdups_adj (sort refs)"

text \<open>\<^verbatim>\<open>byHolder\<close>: the holders in order, and each holder's keys in the order of the references.\<close>

definition holder_keys :: "itemRef list \<Rightarrow> string \<Rightarrow> string list" where
  "holder_keys refs h = map fst (filter (\<lambda>r. snd r = h) refs)"

definition byHolder :: "itemRef list \<Rightarrow> string list \<times> (string \<Rightarrow> string list)" where
  "byHolder refs = (sort (remdups (map snd refs)), holder_keys refs)"

definition writeKeys ::
  "'k KeyCodec \<Rightarrow> wq_io \<Rightarrow> 'k list \<Rightarrow> (string list \<Rightarrow> wq_table \<Rightarrow> int \<times> wq_table)
    \<Rightarrow> wq_table \<Rightarrow> (wq_error + int) \<times> wq_table" where
  "writeKeys codec io ks write t =
     (if ks = [] then (Inr 0, t)
      else (case encodeKeys codec ks of
          Inl e \<Rightarrow> (Inl e, t)
        | Inr encoded \<Rightarrow>
            (case fault io 0 of
               Some e \<Rightarrow> (Inl e, t)
             | None \<Rightarrow> (let (n, t') = write (sortAndDedupe encoded) t in (Inr n, t')))))"

text \<open>
  \<^verbatim>\<open>writeHeld\<close>: one retried statement per claim; the loop returns at the first that fails, with the
  earlier ones written.
\<close>

fun writeHeld ::
  "wq_io \<Rightarrow> nat \<Rightarrow> string list \<Rightarrow> (string \<Rightarrow> string list)
    \<Rightarrow> (nat \<Rightarrow> string \<Rightarrow> string list \<Rightarrow> wq_table \<Rightarrow> int \<times> wq_table) \<Rightarrow> int
    \<Rightarrow> wq_table \<Rightarrow> (wq_error + int) \<times> wq_table" where
  "writeHeld io n [] ks held tot t = (Inr tot, t)"
| "writeHeld io n (h # hs) ks held tot t =
     (case fault io n of
        Some e \<Rightarrow> (Inl e, t)
      | None \<Rightarrow> (let (a, t') = held n h (ks h) t in writeHeld io (Suc n) hs ks held (tot + a) t'))"

definition itemRef_of :: "'k KeyCodec \<Rightarrow> 'k Item \<Rightarrow> wq_error + itemRef" where
  "itemRef_of codec it =
     (case encodeKey codec (Key it) of Inl e \<Rightarrow> Inl e | Inr k \<Rightarrow> Inr (k, LeasedBy it))"

definition writeItems ::
  "dialect \<Rightarrow> 'k KeyCodec \<Rightarrow> wq_io \<Rightarrow> 'k Item list
    \<Rightarrow> (string list \<Rightarrow> string list \<Rightarrow> wq_table \<Rightarrow> int \<times> wq_table)
    \<Rightarrow> (nat \<Rightarrow> string \<Rightarrow> string list \<Rightarrow> wq_table \<Rightarrow> int \<times> wq_table)
    \<Rightarrow> wq_table \<Rightarrow> (wq_error + int) \<times> wq_table" where
  "writeItems d codec io its write held t =
     (if its = [] then (Inr 0, t)
      else (case try_map (itemRef_of codec) its of
          Inl e \<Rightarrow> (Inl e, t)
        | Inr refs0 \<Rightarrow>
            (let refs = sortAndDedupeItems refs0 in
             if d \<noteq> Postgres
             then writeHeld io 0 (fst (byHolder refs)) (snd (byHolder refs)) held 0 t
             else (case fault io 0 of
                     Some e \<Rightarrow> (Inl e, t)
                   | None \<Rightarrow> (let (n, t') = write (map fst refs) (map snd refs) t in (Inr n, t'))))))"

definition discard_count :: "(wq_error + int) \<times> wq_table \<Rightarrow> wq_state \<Rightarrow> (wq_error + unit) \<times> wq_state" where
  "discard_count rt st =
     (case rt of (Inl e, t) \<Rightarrow> (Inl e, st\<lparr>items := t\<rparr>) | (Inr _, t) \<Rightarrow> (Inr (), st\<lparr>items := t\<rparr>))"

definition Complete ::
  "dialect \<Rightarrow> Config \<Rightarrow> 'k KeyCodec \<Rightarrow> wq_io \<Rightarrow> 'k Item list \<Rightarrow> wq_state \<Rightarrow> (wq_error + unit) \<times> wq_state" where
  "Complete d cfg codec io its st =
     discard_count
       (writeItems d codec io its
          (\<lambda>ks hs. completeItems (cfg_Name cfg) ks hs (clk io 0))
          (\<lambda>n h ks. split_completeItems d (cfg_Name cfg) h ks (clk io n)) (items st)) st"

text \<open>\<^verbatim>\<open>extendHeld\<close>: the extension, then the count of what is held, in one transaction.\<close>

definition extendHeld ::
  "dialect \<Rightarrow> Config \<Rightarrow> duration \<Rightarrow> time \<Rightarrow> string \<Rightarrow> string list \<Rightarrow> wq_table \<Rightarrow> int \<times> wq_table" where
  "extendHeld d cfg lease clock h ks t =
     (let t' = split_extendItems d (cfg_Name cfg) (Microseconds lease) h ks clock t
      in (countHeldItems (cfg_Name cfg) h ks t', t'))"

definition Extend ::
  "dialect \<Rightarrow> Config \<Rightarrow> 'k KeyCodec \<Rightarrow> wq_io \<Rightarrow> duration \<Rightarrow> 'k Item list \<Rightarrow> wq_state
    \<Rightarrow> (wq_error + int) \<times> wq_state" where
  "Extend d cfg codec io lease its st =
     (if lease \<le> 0 then (Inl ErrInvalidLease, st)
      else (let (r, t) = writeItems d codec io its
                 (\<lambda>ks hs. extendItems (cfg_Name cfg) (Microseconds lease) ks hs (clk io 0))
                 (\<lambda>n h ks. extendHeld d cfg lease (clk io n) h ks) (items st)
            in (r, st\<lparr>items := t\<rparr>)))"

text \<open>\<^verbatim>\<open>truncatedCause\<close>: no cause is \<^verbatim>\<open>NULL\<close>.\<close>

definition truncatedCause :: "wq_io \<Rightarrow> string option \<Rightarrow> string option" where
  "truncatedCause io cause = (case cause of None \<Rightarrow> None | Some c \<Rightarrow> Some (truncateError io c))"

definition Release ::
  "dialect \<Rightarrow> Config \<Rightarrow> 'k KeyCodec \<Rightarrow> wq_io \<Rightarrow> duration \<Rightarrow> string option \<Rightarrow> 'k Item list \<Rightarrow> wq_state
    \<Rightarrow> (wq_error + unit) \<times> wq_state" where
  "Release d cfg codec io delay cause its st =
     (let us = Microseconds (max delay 0); lastError = truncatedCause io cause in
      discard_count
        (writeItems d codec io its
           (\<lambda>ks hs. releaseItems (cfg_Name cfg) us lastError ks hs (clk io 0))
           (\<lambda>n h ks. split_releaseItems d (cfg_Name cfg) us lastError h ks (clk io n)) (items st)) st)"

definition Remove ::
  "dialect \<Rightarrow> Config \<Rightarrow> 'k KeyCodec \<Rightarrow> wq_io \<Rightarrow> 'k list \<Rightarrow> wq_state \<Rightarrow> (wq_error + unit) \<times> wq_state" where
  "Remove d cfg codec io ks st =
     discard_count
       (writeKeys codec io ks
          (\<lambda>enc. if d \<noteq> Postgres then split_removeItems (cfg_Name cfg) enc else removeItems (cfg_Name cfg) enc)
          (items st)) st"

definition Requeue ::
  "dialect \<Rightarrow> Config \<Rightarrow> 'k KeyCodec \<Rightarrow> wq_io \<Rightarrow> 'k list \<Rightarrow> wq_state \<Rightarrow> (wq_error + int) \<times> wq_state" where
  "Requeue d cfg codec io ks st =
     (case writeKeys codec io ks
             (\<lambda>enc. if d \<noteq> Postgres then split_requeueItems d (cfg_Name cfg) enc (clk io 0)
                    else requeueItems (cfg_Name cfg) enc (clk io 0)) (items st) of
        (Inl e, t) \<Rightarrow> (Inl e, st\<lparr>items := t\<rparr>)
      | (Inr n, t) \<Rightarrow> (Inr n, (if 0 < n then notify cfg (fault io 1) (st\<lparr>items := t\<rparr>) else st\<lparr>items := t\<rparr>)))"

section \<open>Reap, Stats and the wake floor\<close>

definition reapSplit :: "dialect \<Rightarrow> Config \<Rightarrow> wq_io \<Rightarrow> wq_table \<Rightarrow> int \<times> wq_table" where
  "reapSplit d cfg io t =
     (let us = Microseconds (cfg_Retention cfg);
          doomed = selectReapableItems d (cfg_Name cfg) us (cfg_ReapBatchSize cfg) (clk io 0) (locked io) t
      in if doomed = [] then (0, t)
         else deleteReapedItems d (cfg_Name cfg) us (sort doomed) (clk io 1) t)"

definition Reap :: "dialect \<Rightarrow> Config \<Rightarrow> wq_io \<Rightarrow> wq_state \<Rightarrow> (wq_error + int) \<times> wq_state" where
  "Reap d cfg io st =
     (case fault io 0 of
        Some e \<Rightarrow> (Inl e, st)
      | None \<Rightarrow>
         (let (n, t) = (if d \<noteq> Postgres then reapSplit d cfg io (items st)
                        else reapCompletedItems (cfg_Name cfg) (Microseconds (cfg_Retention cfg))
                               (cfg_ReapBatchSize cfg) (clk io 0) (locked io) (items st))
          in (Inr n, st\<lparr>items := t\<rparr>)))"

definition readStats :: "dialect \<Rightarrow> Config \<Rightarrow> time \<Rightarrow> wq_table \<Rightarrow> stats_row" where
  "readStats d cfg clock t =
     (if d \<noteq> Postgres then split_readQueueStats d (cfg_Name cfg) (attemptCeiling cfg) clock t
      else readQueueStats (cfg_Name cfg) (attemptCeiling cfg) clock t)"

definition wq_Stats :: "dialect \<Rightarrow> Config \<Rightarrow> wq_io \<Rightarrow> wq_state \<Rightarrow> wq_error + Stats" where
  "wq_Stats d cfg io st =
     (case fault io 0 of
        Some e \<Rightarrow> Inl e
      | None \<Rightarrow>
         (let row = readStats d cfg (clk io 0) (items st) in
          Inr \<lparr>OldestReadyAge = (if 0 < row_oldest_ready row then row_oldest_ready row * Microsecond else 0),
               Pending = row_pending row, Ready = row_ready row, Leased = row_leased row,
               Stalled = row_stalled row, Completed = row_completed row\<rparr>))"

text \<open>\<^verbatim>\<open>reserveWake\<close> at process clock \<open>now\<close>: how long to hold, and the moved anchor.\<close>

definition reserveWake :: "Config \<Rightarrow> time \<Rightarrow> wq_state \<Rightarrow> duration \<times> wq_state" where
  "reserveWake cfg now st =
     (let earliest = lastWake st + cfg_MinWakeInterval cfg in
      if now < earliest then (earliest - now, st\<lparr>lastWake := earliest\<rparr>)
      else (0, st\<lparr>lastWake := now\<rparr>))"

text \<open>What a \<^verbatim>\<open>select\<close> of \<^verbatim>\<open>Wait\<close> received first.\<close>

datatype select_case = CtxDone | TimerFired | WokenUp

definition Wait ::
  "Config \<Rightarrow> duration \<Rightarrow> select_case \<Rightarrow> bool \<Rightarrow> time \<Rightarrow> wq_state \<Rightarrow> (wq_error + unit) \<times> wq_state" where
  "Wait cfg poll first cancelled_in_hold now st =
     (if poll \<le> 0 then (Inl ErrInvalidPollInterval, st)
      else (case first of
          CtxDone \<Rightarrow> (Inl ContextDone, st)
        | TimerFired \<Rightarrow> (Inr (), st)
        | WokenUp \<Rightarrow>
            (let (hold, st') = reserveWake cfg now st in
             if hold \<le> 0 then (Inr (), st')
             else if cancelled_in_hold then (Inl ContextDone, st')
             else (Inr (), st'))))"

end
