(* ===== verification/WQ_Invariant.thy ===== *)
theory WQ_Invariant
  imports WorkQueue
begin

text \<open>
  Invariants of the work queue under any interleaving of its operations, on every dialect.

  \<open>row_evo\<close> lists the changes a statement makes to a row and \<open>table_evo\<close> lifts them to tables; each
  operation is shown once to be a \<open>table_evo\<close>, and the invariants are proved over the rules of
  \<open>row_evo\<close> instead of over operations and dialects. \<open>wq_step\<close> is the step relation of a queue
  shared by any number of workers: one operation, at clock readings that never run backwards, with
  a claim name nobody used before.
\<close>

section \<open>How rows change\<close>

inductive row_evo :: "string option \<Rightarrow> int \<Rightarrow> wq_row \<Rightarrow> wq_row \<Rightarrow> bool"
  for m :: "string option" and ceiling :: int where
  evo_lease: "m = Some h \<Longrightarrow> claimablePredicate q ceiling now r \<Longrightarrow> epoch < until \<Longrightarrow>
     row_evo m ceiling r (leased until h r)"
| evo_retire: "leased_by r = Some h \<Longrightarrow> row_evo m ceiling r (retired now r)"
| evo_hand_back: "leased_by r = Some h \<Longrightarrow> outstanding r \<Longrightarrow> row_evo m ceiling r (handed_back at cause r)"
| evo_extend: "leased_by r = Some h \<Longrightarrow> outstanding r \<Longrightarrow> row_evo m ceiling r (extended until r)"
| evo_revive: "outstanding r \<Longrightarrow> row_evo m ceiling r (revived now r)"
| evo_merge: "row_evo m ceiling r (on_conflict x r)"

definition wf_row :: "int \<Rightarrow> wq_row \<Rightarrow> bool" where
  "wf_row ceiling r \<longleftrightarrow>
     (leased_by r = None \<longleftrightarrow> lease_until r = epoch) \<and> epoch \<le> lease_until r \<and>
     (\<not> outstanding r \<longrightarrow> leased_by r = None) \<and>
     0 \<le> attempts r \<and> (0 < ceiling \<longrightarrow> attempts r \<le> ceiling)"

definition wf_items :: "int \<Rightarrow> wq_table \<Rightarrow> bool" where
  "wf_items ceiling t \<longleftrightarrow> distinct (map item_pk t) \<and> (\<forall>r \<in> set t. wf_row ceiling r)"

text \<open>A row as an insert makes it.\<close>

definition fresh_row :: "wq_row \<Rightarrow> bool" where
  "fresh_row r \<longleftrightarrow> leased_by r = None \<and> lease_until r = epoch \<and> completed_at r = None \<and> attempts r = 0"

definition table_evo :: "string option \<Rightarrow> int \<Rightarrow> wq_table \<Rightarrow> wq_table \<Rightarrow> bool" where
  "table_evo m ceiling t t' \<longleftrightarrow>
     (distinct (map item_pk t) \<longrightarrow> distinct (map item_pk t')) \<and>
     (\<forall>r' \<in> set t'. \<exists>r. (r \<in> set t \<or> fresh_row r) \<and> item_pk r = item_pk r' \<and> (row_evo m ceiling)\<^sup>*\<^sup>* r r')"

text \<open>The operations as one type, run by the definitions of the queue.\<close>

datatype 'k wq_op =
    OpUpsert "encodedEntry list" | OpClaim int duration | OpComplete "'k Item list"
  | OpExtend duration "'k Item list" | OpRelease duration "string option" "'k Item list"
  | OpRemove "'k list" | OpRequeue "'k list" | OpReap

fun run_op :: "dialect \<Rightarrow> Config \<Rightarrow> 'k KeyCodec \<Rightarrow> wq_io \<Rightarrow> 'k wq_op \<Rightarrow> wq_state \<Rightarrow> wq_state" where
  "run_op d cfg codec io (OpUpsert rows) st = snd (upsert d cfg io rows st)"
| "run_op d cfg codec io (OpClaim limit lease) st = snd (Claim d cfg codec io limit lease st)"
| "run_op d cfg codec io (OpComplete its) st = snd (Complete d cfg codec io its st)"
| "run_op d cfg codec io (OpExtend lease its) st = snd (Extend d cfg codec io lease its st)"
| "run_op d cfg codec io (OpRelease delay cause its) st = snd (Release d cfg codec io delay cause its st)"
| "run_op d cfg codec io (OpRemove ks) st = snd (Remove d cfg codec io ks st)"
| "run_op d cfg codec io (OpRequeue ks) st = snd (Requeue d cfg codec io ks st)"
| "run_op d cfg codec io OpReap st = snd (Reap d cfg io st)"

fun claims :: "'k wq_op \<Rightarrow> bool" where
  "claims (OpClaim _ _) = True"
| "claims _ = False"

text \<open>A deployment of the queue: its state, the claim names in use so far, and the time.\<close>

record wq_sys =
  queue :: wq_state
  minted :: "string list"
  sys_now :: time

definition wq_init :: "wq_sys \<Rightarrow> bool" where
  "wq_init s \<longleftrightarrow> items (queue s) = [] \<and> epoch < sys_now s"

inductive wq_step :: "dialect \<Rightarrow> Config \<Rightarrow> 'k KeyCodec \<Rightarrow> wq_sys \<Rightarrow> wq_sys \<Rightarrow> bool"
  for d :: dialect and cfg :: Config and codec :: "'k KeyCodec" where
  wq_op: "mono (clk io) \<Longrightarrow> sys_now s \<le> clk io 0 \<Longrightarrow> (\<And>n. clk io n \<le> now') \<Longrightarrow>
     (claims op \<Longrightarrow> mint io \<notin> set (minted s)) \<Longrightarrow>
     wq_step d cfg codec s
       \<lparr>queue = run_op d cfg codec io op (queue s),
        minted = (if claims op then mint io # minted s else minted s), sys_now = now'\<rparr>"

inductive_simps wq_step_iff: "wq_step d cfg codec s s'"

section \<open>Row-level facts\<close>

lemma row_evo_pk: "row_evo m ceiling r r' \<Longrightarrow> item_pk r' = item_pk r"
  by (induction rule: row_evo.induct) simp_all

lemma row_evo_wf: "row_evo m ceiling r r' \<Longrightarrow> wf_row ceiling r \<Longrightarrow> wf_row ceiling r'"
  by (induction rule: row_evo.induct)
    (auto simp: wf_row_def stmt_defs epoch_def split: if_splits)

lemma row_evo_holder: "row_evo m ceiling r r' \<Longrightarrow> leased_by r' \<in> {None, leased_by r, m}"
  by (induction rule: row_evo.induct) (auto simp: stmt_defs)

lemma row_evos_wf: "(row_evo m ceiling)\<^sup>*\<^sup>* r r' \<Longrightarrow> wf_row ceiling r \<Longrightarrow> wf_row ceiling r'"
  by (induction rule: rtranclp_induct) (auto intro: row_evo_wf)

lemma row_evos_holder: "(row_evo m ceiling)\<^sup>*\<^sup>* r r' \<Longrightarrow> leased_by r' \<in> {None, leased_by r, m}"
  by (induction rule: rtranclp_induct) (use row_evo_holder in fastforce)+

lemma row_evos_pk: "(row_evo m ceiling)\<^sup>*\<^sup>* r r' \<Longrightarrow> item_pk r' = item_pk r"
  by (induction rule: rtranclp_induct) (auto dest: row_evo_pk)

lemma fresh_row_wf: "fresh_row r \<Longrightarrow> wf_row ceiling r"
  by (simp add: fresh_row_def wf_row_def outstanding_def)

lemma fresh_insert_row: "fresh_row (insert_row q now at e)"
  by (simp add: fresh_row_def insert_row_def)

section \<open>Tables\<close>

lemma table_evo_refl [simp]: "table_evo m ceiling t t"
  by (auto simp: table_evo_def)

lemma table_evo_trans:
  assumes "table_evo m ceiling t u" "table_evo m ceiling u v"
  shows "table_evo m ceiling t v"
  unfolding table_evo_def
proof (intro conjI impI ballI)
  show "distinct (map item_pk t) \<Longrightarrow> distinct (map item_pk v)"
    using assms by (simp add: table_evo_def)
next
  fix r' assume "r' \<in> set v"
  then obtain r where r: "r \<in> set u \<or> fresh_row r" "item_pk r = item_pk r'" "(row_evo m ceiling)\<^sup>*\<^sup>* r r'"
    using assms(2) by (auto simp: table_evo_def)
  show "\<exists>r. (r \<in> set t \<or> fresh_row r) \<and> item_pk r = item_pk r' \<and> (row_evo m ceiling)\<^sup>*\<^sup>* r r'"
  proof (cases "r \<in> set u")
    case True
    then obtain r0 where "r0 \<in> set t \<or> fresh_row r0" "item_pk r0 = item_pk r" "(row_evo m ceiling)\<^sup>*\<^sup>* r0 r"
      using assms(1) by (auto simp: table_evo_def)
    with r show ?thesis by (metis rtranclp_trans)
  qed (use r in blast)
qed

lemma table_evo_update:
  assumes p: "\<And>r. r \<in> set t \<Longrightarrow> p r \<Longrightarrow> row_evo m ceiling r (f r)" and pk: "\<And>r. item_pk (f r) = item_pk r"
  shows "table_evo m ceiling t (sql_update p f t)"
  unfolding table_evo_def
proof (intro conjI impI ballI)
  show "distinct (map item_pk t) \<Longrightarrow> distinct (map item_pk (sql_update p f t))"
    by (simp add: items.distinct_update pk)
next
  fix r' assume "r' \<in> set (sql_update p f t)"
  then obtain r where r: "r \<in> set t" "r' = (if p r then f r else r)" by (auto simp: set_sql_update)
  then have "item_pk r = item_pk r'" "(row_evo m ceiling)\<^sup>*\<^sup>* r r'" using p pk by auto
  with r(1) show "\<exists>r. (r \<in> set t \<or> fresh_row r) \<and> item_pk r = item_pk r' \<and> (row_evo m ceiling)\<^sup>*\<^sup>* r r'"
    by blast
qed

lemma table_evo_delete: "table_evo m ceiling t (sql_delete p t)"
  by (auto simp: table_evo_def sql_delete_def distinct_map_filter)

lemma table_evo_upsert:
  assumes "fresh_row x"
  shows "table_evo m ceiling t (upsert_row on_conflict x t)"
proof (cases "item_pk x \<in> item_pk ` set t")
  case True
  then show ?thesis
    by (simp add: upsert_row_def table_evo_update evo_merge)
next
  case False
  with assms show ?thesis by (auto simp: table_evo_def upsert_row_def)
qed

lemma wf_items_evo: "wf_items ceiling t \<Longrightarrow> table_evo m ceiling t t' \<Longrightarrow> wf_items ceiling t'"
  unfolding wf_items_def table_evo_def using row_evos_wf fresh_row_wf by blast

section \<open>Every operation is an evolution of the table\<close>

text \<open>With distinct primary keys, a row whose key was selected is the row that was selected.\<close>

lemma pk_mem_due:
  assumes "distinct (map item_pk t)" "r \<in> set t"
    "item_pk r \<in> item_pk ` set (due_rows q ceiling limit now lk t)"
  shows "claimablePredicate q ceiling now r \<and> \<not> lk (item_key r)"
proof -
  from assms(3) obtain s where s: "s \<in> set (due_rows q ceiling limit now lk t)" "item_pk s = item_pk r"
    by auto
  then have "s \<in> set t" "claimablePredicate q ceiling now s \<and> \<not> lk (item_key s)"
    by (auto simp: due_rows_def dest: set_sql_top)
  with s assms(1,2) have "s = r" by (metis row_at_distinct option.inject)
  with \<open>claimablePredicate q ceiling now s \<and> \<not> lk (item_key s)\<close> show ?thesis by simp
qed

lemma claimDueItems_evo:
  assumes "distinct (map item_pk t)" "epoch < now + lease"
  shows "table_evo (Some h) ceiling t (snd (claimDueItems q ceiling limit lease h now lk t))"
  using assms by (auto simp: claimDueItems_def Let_def intro!: table_evo_update evo_lease dest: pk_mem_due)

lemma leaseItems_evo:
  "epoch < split_after d lease True clock \<Longrightarrow>
   table_evo (Some h) ceiling t (leaseItems d q ceiling lease h ks clock t)"
  by (auto simp: leaseItems_def intro!: table_evo_update evo_lease)

lemma claimOnce_evo:
  assumes "distinct (map item_pk t)" "\<And>n. epoch < clk io n" "0 < lease"
  shows "table_evo (Some (mint io)) (attemptCeiling cfg) t (snd (claimOnce d cfg codec io limit lease t))"
proof -
  have us: "0 \<le> Microseconds lease" using assms(3) by (simp add: Microseconds_nonneg)
  then have "epoch < split_after d (Microseconds lease) True (clk io n)" for n
    using split_after_lease [of "Microseconds lease" "clk io n" d] assms(2) [of n] by linarith
  moreover have "epoch < clk io 0 + Microseconds lease" using us assms(2) [of 0] by linarith
  ultimately show ?thesis using assms(1) claimDueItems_evo
    by (auto simp: claimOnce_def claimSplit_def Let_def case_prod_beta leaseItems_evo
        split: option.splits sum.splits)
qed

text \<open>The claim writers: one statement on Postgres, a loop over the claims elsewhere.\<close>

lemma writeHeld_evo:
  assumes "\<And>n h ks t. table_evo m ceiling t (snd (held n h ks t))"
  shows "table_evo m ceiling t (snd (writeHeld io n hs ks held tot t))"
proof (induction hs arbitrary: n tot t)
  case (Cons h hs)
  show ?case
    using table_evo_trans [OF assms Cons.IH] by (auto simp: case_prod_beta split: option.splits)
qed simp

lemma writeItems_evo:
  assumes "\<And>ks hs t. table_evo m ceiling t (snd (write ks hs t))"
    and "\<And>n h ks t. table_evo m ceiling t (snd (held n h ks t))"
  shows "table_evo m ceiling t (snd (writeItems d codec io its write held t))"
  using assms(1) writeHeld_evo [where held = held, OF assms(2)]
  by (auto simp: writeItems_def Let_def case_prod_beta split: sum.splits option.splits)

lemma writeKeys_evo:
  assumes "\<And>ks t. table_evo m ceiling t (snd (write ks t))"
  shows "table_evo m ceiling t (snd (writeKeys codec io ks write t))"
  using assms by (auto simp: writeKeys_def case_prod_beta split: sum.splits option.splits)

lemma items_discard_count: "items (snd (discard_count rt st)) = snd rt"
  by (auto simp: discard_count_def split: prod.splits sum.splits)

lemma leasedPairsD: "leasedPairs ks hs r \<Longrightarrow> \<exists>h. leased_by r = Some h"
  by (auto simp: leasedPairs_def split: option.splits)

lemma held_stmt_evo:
  "table_evo m ceiling t (snd (completeItems q ks hs now t))"
  "table_evo m ceiling t (snd (split_completeItems d q h ks clock t))"
  "table_evo m ceiling t (snd (releaseItems q delay cause ks hs now t))"
  "table_evo m ceiling t (snd (split_releaseItems d q delay cause h ks clock t))"
  "table_evo m ceiling t (snd (extendItems q lease ks hs now t))"
  "table_evo m ceiling t (snd (extendHeld d cfg dur clock h ks t))"
  by (auto simp: completeItems_def split_completeItems_def releaseItems_def split_releaseItems_def
      extendItems_def extendHeld_def split_extendItems_def Let_def lockedTargets_def heldBy_def
      dest!: leasedPairsD intro!: table_evo_update intro: row_evo.intros)

lemma keyed_stmt_evo:
  "table_evo m ceiling t (snd (removeItems q ks t))"
  "table_evo m ceiling t (snd (split_removeItems q ks t))"
  "table_evo m ceiling t (snd (requeueItems q ks now t))"
  "table_evo m ceiling t (snd (split_requeueItems d q ks clock t))"
  "table_evo m ceiling t (snd (reapCompletedItems q retention limit now lk t))"
  "table_evo m ceiling t (snd (reapSplit d cfg io t))"
  by (auto simp: removeItems_def split_removeItems_def requeueItems_def split_requeueItems_def
      reapCompletedItems_def reapSplit_def deleteReapedItems_def Let_def lockedTargets_def
      intro!: table_evo_delete table_evo_update intro: evo_revive)

lemma enqueueItem_evo: "enqueueItem d q e clock t = Inr t' \<Longrightarrow> table_evo m ceiling t t'"
  by (auto simp: enqueueItem_def on_duplicate_key_eq' fresh_insert_row intro!: table_evo_upsert
      split: if_splits)

lemma upsertSplit_rows_evo: "upsertSplit_rows d q clock n es t = Inr t' \<Longrightarrow> table_evo m ceiling t t'"
proof (induction es arbitrary: n t)
  case (Cons e es)
  then show ?case by (auto split: sum.splits intro: table_evo_trans [OF enqueueItem_evo])
qed simp

lemma foldl_upsert_evo:
  "table_evo m ceiling t (foldl (\<lambda>t e. upsert_row on_conflict (insert_row q now (at e) e) t) t es)"
proof (induction es arbitrary: t)
  case (Cons e es)
  have "table_evo m ceiling t (upsert_row on_conflict (insert_row q now (at e) e) t)"
    by (simp add: table_evo_upsert fresh_insert_row)
  from table_evo_trans [OF this Cons.IH] show ?case by simp
qed simp

lemma items_notify [simp]: "items (notify cfg f st) = items st"
  by (simp add: notify_def)

lemma items_Requeue:
  "items (snd (Requeue d cfg codec io ks st)) =
   snd (writeKeys codec io ks
          (\<lambda>enc. if d \<noteq> Postgres then split_requeueItems d (cfg_Name cfg) enc (clk io 0)
                 else requeueItems (cfg_Name cfg) enc (clk io 0)) (items st))"
  by (simp add: Requeue_def split: prod.split sum.split)

lemma upsert_evo: "table_evo m ceiling (items st) (items (snd (upsert d cfg io rows st)))"
  by (auto simp: upsert_def upsertSplit_def enqueueItems_def foldl_upsert_evo
      split: option.splits sum.splits if_splits dest: upsertSplit_rows_evo)

lemma run_op_evo:
  assumes "distinct (map item_pk (items st))" "\<And>n. epoch < clk io n"
  shows "table_evo (if claims op then Some (mint io) else None) (attemptCeiling cfg)
           (items st) (items (run_op d cfg codec io op st))"
proof (cases op)
  case (OpClaim limit lease)
  then show ?thesis
    using claimOnce_evo [of "items st" io lease cfg d codec, OF assms]
    by (auto simp: Claim_def case_prod_beta)
next
  case (OpRequeue ks)
  have "table_evo m c t (snd (writeKeys codec io ks
          (\<lambda>enc. if d \<noteq> Postgres then split_requeueItems d (cfg_Name cfg) enc (clk io 0)
                 else requeueItems (cfg_Name cfg) enc (clk io 0)) t))" for m c t
    by (rule writeKeys_evo) (simp add: keyed_stmt_evo)
  with OpRequeue show ?thesis by (simp add: items_Requeue)
next
  case (OpReap)
  have "table_evo m c t (snd (if d \<noteq> Postgres then reapSplit d cfg io t
          else reapCompletedItems (cfg_Name cfg) (Microseconds (cfg_Retention cfg))
                 (cfg_ReapBatchSize cfg) (clk io 0) (locked io) t))" for m c t
    by (simp add: keyed_stmt_evo)
  with OpReap show ?thesis
    by (auto simp: Reap_def case_prod_beta split: option.splits)
next
  case (OpExtend lease its)
  have "table_evo m c t (snd (writeItems d codec io its
          (\<lambda>ks hs. extendItems (cfg_Name cfg) (Microseconds lease) ks hs (clk io 0))
          (\<lambda>n h ks. extendHeld d cfg lease (clk io n) h ks) t))" for m c t
    by (rule writeItems_evo) (simp_all add: held_stmt_evo)
  with OpExtend show ?thesis by (auto simp: Extend_def case_prod_beta)
qed (auto simp: upsert_evo Complete_def Release_def Remove_def Let_def items_discard_count
      held_stmt_evo keyed_stmt_evo intro!: writeItems_evo writeKeys_evo)

section \<open>Invariants of every reachable state\<close>

definition wq_inv :: "int \<Rightarrow> wq_sys \<Rightarrow> bool" where
  "wq_inv ceiling s \<longleftrightarrow>
     wf_items ceiling (items (queue s)) \<and> epoch < sys_now s \<and>
     (\<forall>r \<in> set (items (queue s)). \<forall>h. leased_by r = Some h \<longrightarrow> h \<in> set (minted s))"

lemma mono_clk: "mono (clk io) \<Longrightarrow> clk io 0 \<le> clk io n"
  by (simp add: monoD)

lemma table_evo_holder:
  assumes "table_evo m ceiling t t'" "r' \<in> set t'" "leased_by r' = Some h"
  shows "m = Some h \<or> (\<exists>r \<in> set t. item_pk r = item_pk r' \<and> leased_by r = Some h)"
proof -
  from assms(1,2) obtain r where r: "r \<in> set t \<or> fresh_row r" "item_pk r = item_pk r'"
      "(row_evo m ceiling)\<^sup>*\<^sup>* r r'"
    by (auto simp: table_evo_def)
  from row_evos_holder [OF r(3)] assms(3) have "leased_by r = Some h \<or> m = Some h" by auto
  with r show ?thesis by (auto simp: fresh_row_def)
qed

lemma wq_step_inv:
  assumes "wq_inv (attemptCeiling cfg) s" "wq_step d cfg codec s s'"
  shows "wq_inv (attemptCeiling cfg) s'"
proof -
  from assms(2) obtain io now' op where 1: "mono (clk io)" "sys_now s \<le> clk io 0"
      "\<forall>n. clk io n \<le> now'"
      "s' = \<lparr>queue = run_op d cfg codec io op (queue s),
             minted = (if claims op then mint io # minted s else minted s), sys_now = now'\<rparr>"
      "claims op \<longrightarrow> mint io \<notin> set (minted s)"
    unfolding wq_step_iff by blast
  have clock: "epoch < clk io n" for n
    using 1(1,2) assms(1) mono_clk [of io n] by (auto simp: wq_inv_def)
  let ?m = "if claims op then Some (mint io) else None"
  have evo: "table_evo ?m (attemptCeiling cfg) (items (queue s)) (items (queue s'))"
    using run_op_evo [of "queue s" io op cfg d codec] assms(1) clock 1(4)
    by (simp add: wq_inv_def wf_items_def)
  have "epoch < sys_now s'" using 1(4) clock [of 0] 1(3) by (simp add: less_le_trans)
  moreover have "wf_items (attemptCeiling cfg) (items (queue s'))"
    using assms(1) evo by (auto simp: wq_inv_def intro: wf_items_evo)
  moreover have "h \<in> set (minted s')" if "r' \<in> set (items (queue s'))" "leased_by r' = Some h" for r' h
    using table_evo_holder [OF evo that] assms(1) 1(4) by (auto simp: wq_inv_def split: if_splits)
  ultimately show ?thesis by (simp add: wq_inv_def)
qed

interpretation wq: invariant_system wq_init "wq_step d cfg codec" "wq_inv (attemptCeiling cfg)"
  for d cfg codec
proof unfold_locales
  show "wq_inv (attemptCeiling cfg) s" if "wq_init s" for s
    using that by (simp add: wq_init_def wq_inv_def wf_items_def)
qed (rule wq_step_inv)

end
