(* ===== verification/WQ_Claim.thy ===== *)
theory WQ_Claim
  imports WQ_Invariant
begin

text \<open>
  The claim. \<open>claim_result\<close> and \<open>claim_table\<close> are the abstract claim: the batch of due rows turned
  into items, and the table with exactly that batch leased. The lemmas refine both implementations,
  the one Postgres statement and the three-statement transaction of MySQL and SQLite, to it.
\<close>

section \<open>The abstract claim\<close>

definition due_batch :: "dialect \<Rightarrow> Config \<Rightarrow> wq_io \<Rightarrow> int \<Rightarrow> wq_table \<Rightarrow> wq_row list" where
  "due_batch d cfg io limit t =
     due_rows (cfg_Name cfg) (attemptCeiling cfg) limit (split_now d (clk io 0))
       (\<lambda>k. d \<noteq> SQLite \<and> locked io k) t"

definition lease_horizon :: "dialect \<Rightarrow> wq_io \<Rightarrow> duration \<Rightarrow> time" where
  "lease_horizon d io lease =
     (if d = Postgres then clk io 0 + Microseconds lease
      else split_after d (Microseconds lease) True (clk io 1))"

definition claim_table :: "wq_row list \<Rightarrow> time \<Rightarrow> string \<Rightarrow> wq_table \<Rightarrow> wq_table" where
  "claim_table due until h t = sql_update (\<lambda>r. item_pk r \<in> item_pk ` set due) (leased until h) t"

definition claim_result :: "'k KeyCodec \<Rightarrow> string \<Rightarrow> wq_row list \<Rightarrow> wq_error + 'k Item list" where
  "claim_result codec h due =
     try_map (\<lambda>r. claimedItem codec (item_key r) (priority r) (attempts r + 1) h
                    (epoch < lease_until r)) due"

section \<open>The batch\<close>

lemma try_map_map: "try_map f (map g xs) = try_map (\<lambda>x. f (g x)) xs"
  by (induction xs) (auto split: sum.splits)

lemma try_map_cong: "(\<And>x. x \<in> set xs \<Longrightarrow> f x = g x) \<Longrightarrow> try_map f xs = try_map g xs"
  by (induction xs) (auto split: sum.splits)

lemma due_rows_set:
  "r \<in> set (due_rows q ceiling limit now lk t) \<Longrightarrow>
   r \<in> set t \<and> claimablePredicate q ceiling now r \<and> \<not> lk (item_key r)"
  unfolding due_rows_def by (drule set_sql_top) simp

lemma due_rows_queue: "r \<in> set (due_rows q ceiling limit now lk t) \<Longrightarrow> item_pk r = (q, item_key r)"
  by (drule due_rows_set) (simp add: claimablePredicate_def item_pk_def)

lemma due_rows_distinct:
  assumes "distinct (map item_pk t)"
  shows "distinct (map item_key (due_rows q ceiling limit now lk t))"
proof -
  let ?D = "due_rows q ceiling limit now lk t"
  have "distinct (map item_pk ?D)" unfolding due_rows_def by (rule distinct_map_sql_top [OF assms])
  moreover have "map item_pk ?D = map (Pair q) (map item_key ?D)" by (simp add: due_rows_queue)
  ultimately show ?thesis by (metis distinct_map)
qed

lemma due_mem_pk:
  assumes "distinct (map item_pk t)" "r \<in> set t"
  shows "item_pk r \<in> item_pk ` set (due_rows q ceiling limit now lk t) \<longleftrightarrow>
         r \<in> set (due_rows q ceiling limit now lk t)"
proof
  assume "item_pk r \<in> item_pk ` set (due_rows q ceiling limit now lk t)"
  then obtain x where x: "x \<in> set (due_rows q ceiling limit now lk t)" "item_pk x = item_pk r" by auto
  then have "x \<in> set t" by (auto dest: due_rows_set)
  with x(2) assms have "x = r" by (metis option.inject row_at_distinct)
  with x(1) show "r \<in> set (due_rows q ceiling limit now lk t)" by simp
qed simp

lemma claimable_later:
  "claimablePredicate q ceiling now r \<Longrightarrow> now \<le> now' \<Longrightarrow> claimablePredicate q ceiling now' r"
  by (auto simp: claimablePredicate_def)

section \<open>Postgres\<close>

lemma claimOnce_postgres:
  assumes "fault io 0 = None"
  shows "claimOnce Postgres cfg codec io limit lease t =
    (let due = due_batch Postgres cfg io limit t in
     (claim_result codec (mint io) due, claim_table due (lease_horizon Postgres io lease) (mint io) t))"
  using assms
  by (simp add: claimOnce_def claimDueItems_def due_batch_def claim_result_def claim_table_def
      lease_horizon_def split_now_def try_map_map Let_def)

section \<open>The split transaction\<close>

text \<open>The lease statement takes exactly the rows the read selected.\<close>

lemma leaseItems_due:
  assumes "distinct (map item_pk t)" "split_now d c0 \<le> split_now d c1"
  shows "leaseItems d q ceiling us h (map item_key (due_rows q ceiling limit (split_now d c0) lk t)) c1 t
       = claim_table (due_rows q ceiling limit (split_now d c0) lk t) (split_after d us True c1) h t"
  unfolding leaseItems_def claim_table_def
proof (rule sql_update_cong)
  let ?D = "due_rows q ceiling limit (split_now d c0) lk t"
  fix r assume r: "r \<in> set t"
  show "(claimablePredicate q ceiling (split_now d c1) r \<and> keyedItems (map item_key ?D) r)
        = (item_pk r \<in> item_pk ` set ?D)"
  proof
    assume "claimablePredicate q ceiling (split_now d c1) r \<and> keyedItems (map item_key ?D) r"
    then obtain x where "x \<in> set ?D" "item_key r = item_key x" "queue_name r = q"
      by (auto simp: keyedItems_def claimablePredicate_def)
    moreover from this have "item_pk r = item_pk x" by (simp add: due_rows_queue) (simp add: item_pk_def)
    ultimately show "item_pk r \<in> item_pk ` set ?D" by auto
  next
    assume "item_pk r \<in> item_pk ` set ?D"
    with assms(1) r have "r \<in> set ?D" by (simp add: due_mem_pk)
    then show "claimablePredicate q ceiling (split_now d c1) r \<and> keyedItems (map item_key ?D) r"
      using assms(2) by (auto simp: keyedItems_def dest!: due_rows_set intro: claimable_later)
  qed
qed simp

text \<open>Reading back by a name nobody else carries returns the batch, in claim order.\<close>

lemma claim_order_leased [simp]: "claim_order (leased u h r) = claim_order r"
  by (simp add: claim_order_def leased_def)

lemma insort_key_map_leased:
  "insort_key claim_order (leased u h r) (map (leased u h) xs) = map (leased u h) (insort_key claim_order r xs)"
  by (induction xs) simp_all

lemma sort_key_map_leased:
  "sort_key claim_order (map (leased u h) xs) = map (leased u h) (sort_key claim_order xs)"
  by (induction xs) (simp_all add: insort_key_map_leased)

lemma sort_filter_due:
  assumes "distinct (map item_pk t)"
  shows "sort_key claim_order (filter (\<lambda>r. r \<in> set (due_rows q ceiling limit now lk t)) t)
       = due_rows q ceiling limit now lk t"
proof -
  let ?D = "due_rows q ceiling limit now lk t"
  let ?F = "sort_key claim_order (filter (\<lambda>r. r \<in> set ?D) t)"
  have sets: "set ?F = set ?D" by (auto dest: due_rows_set)
  have inj: "inj_on claim_order (set ?D)"
  proof (rule inj_onI)
    fix a b assume ab: "a \<in> set ?D" "b \<in> set ?D" "claim_order a = claim_order b"
    then have "item_pk a = item_pk b" by (simp add: claim_order_def due_rows_queue)
    moreover have "a \<in> set t" "b \<in> set t" using ab by (auto dest: due_rows_set)
    ultimately show "a = b" using assms by (metis option.inject row_at_distinct)
  qed
  have "distinct ?F" using assms by (simp add: distinct_map)
  moreover have "distinct ?D" using due_rows_distinct [OF assms] by (simp add: distinct_map)
  moreover have "sorted (map claim_order ?D)" unfolding due_rows_def by (rule sorted_sql_top)
  ultimately show ?thesis using inj sets
    by (intro map_sorted_distinct_set_unique [where f = claim_order]) (auto simp: distinct_map)
qed

lemma fetchLeased_due:
  assumes "distinct (map item_pk t)" "\<forall>r \<in> set t. leased_by r \<noteq> Some h"
  shows "fetchLeasedItems q h (claim_table (due_rows q ceiling limit now lk t) u h t) =
         map (\<lambda>r. (item_key r, priority r, attempts r + 1)) (due_rows q ceiling limit now lk t)"
proof -
  let ?D = "due_rows q ceiling limit now lk t"
  have "filter (\<lambda>r. queue_name r = q \<and> leased_by r = Some h) (claim_table ?D u h t) =
        map (leased u h) (filter (\<lambda>r. r \<in> set ?D) t)"
  proof -
    have "queue_name r = q" if "r \<in> set ?D" for r
      using that by (auto dest: due_rows_set simp: claimablePredicate_def)
    then have "filter (\<lambda>r. queue_name r = q \<and> leased_by r = Some h)
            (map (\<lambda>r. if item_pk r \<in> item_pk ` set ?D then leased u h r else r) u')
          = map (leased u h) (filter (\<lambda>r. r \<in> set ?D) u')" if "set u' \<subseteq> set t" for u'
      using that assms by (induction u') (auto simp: due_mem_pk leased_def)
    then show ?thesis by (simp add: claim_table_def sql_update_def)
  qed
  then show ?thesis
    using sort_filter_due [OF assms(1)] by (simp add: fetchLeasedItems_def sort_key_map_leased leased_def)
qed

lemma claimSplit_refines:
  assumes "fault io 0 = None" "distinct (map item_pk t)" "\<forall>r \<in> set t. leased_by r \<noteq> Some h"
    and "clk io 0 \<le> clk io 1" "d \<noteq> Postgres"
  shows "claimSplit d cfg codec io limit lease h t =
    (let due = due_batch d cfg io limit t in
     case claim_result codec h due of
       Inl e \<Rightarrow> (Inl e, t)
     | Inr its \<Rightarrow> (Inr its, claim_table due (lease_horizon d io lease) h t))"
proof -
  let ?D = "due_batch d cfg io limit t"
  have lk: "(\<lambda>k. d = MySQL \<and> locked io k) = (\<lambda>k. d \<noteq> SQLite \<and> locked io k)"
    using assms(5) by (cases d) auto
  have D: "selectDueItems d (cfg_Name cfg) (attemptCeiling cfg) limit (clk io 0) (locked io) t
           = map (\<lambda>r. (item_key r, epoch < lease_until r)) ?D"
    by (simp add: selectDueItems_def due_batch_def lk)
  have T: "leaseItems d (cfg_Name cfg) (attemptCeiling cfg) (Microseconds lease) h (map item_key ?D) (clk io 1) t
           = claim_table ?D (lease_horizon d io lease) h t"
    using leaseItems_due [OF assms(2) split_now_mono [OF assms(4)]] assms(5)
    by (simp add: due_batch_def lease_horizon_def)
  have F: "fetchLeasedItems (cfg_Name cfg) h (claim_table ?D (lease_horizon d io lease) h t)
           = map (\<lambda>r. (item_key r, priority r, attempts r + 1)) ?D"
    using fetchLeased_due [OF assms(2,3)] by (simp add: due_batch_def)
  have "map_of (rev (map (\<lambda>r. (item_key r, epoch < lease_until r)) ?D)) (item_key r) = Some (epoch < lease_until r)"
    if "r \<in> set ?D" for r
  proof -
    have "distinct (map fst (rev (map (\<lambda>r. (item_key r, epoch < lease_until r)) ?D)))"
      using due_rows_distinct [OF assms(2)] by (simp add: due_batch_def rev_map comp_def flip: rev_map)
    with that show ?thesis by (auto intro!: map_of_is_SomeI)
  qed
  then have R: "try_map (\<lambda>(k, p, a). claimedItem codec k p a h
          (map_of (rev (map (\<lambda>r. (item_key r, epoch < lease_until r)) ?D)) k = Some True))
          (map (\<lambda>r. (item_key r, priority r, attempts r + 1)) ?D) = claim_result codec h ?D"
    by (simp add: try_map_map claim_result_def cong: try_map_cong)
  show ?thesis
  proof (cases "?D = []")
    case True
    then show ?thesis using assms(1)
      by (simp add: claimSplit_def D claim_result_def claim_table_def sql_update_def)
  next
    case False
    then show ?thesis using assms(1)
      by (simp add: claimSplit_def D T F R comp_def Let_def del: One_nat_def)
  qed
qed

section \<open>Properties of Claim\<close>

text \<open>A small queue for the witnesses.\<close>

definition demo_cfg :: Config where
  "demo_cfg = \<lparr>cfg_Name = ''q'', cfg_NotifyChannel = [], cfg_Retention = DefaultRetention,
     cfg_MaxAttempts = 3, cfg_MaxClaimBatch = 2, cfg_ReapBatchSize = 2, cfg_WriteAttempts = 3,
     cfg_MinWakeInterval = DefaultMinWakeInterval\<rparr>"

definition demo_io :: wq_io where
  "demo_io = \<lparr>clk = (\<lambda>_. 1000), locked = (\<lambda>_. False), fault = (\<lambda>_. None), mint = ''c1'', truncateError = take 5\<rparr>"

definition demo_row :: "string \<Rightarrow> int \<Rightarrow> wq_row" where
  "demo_row k p = insert_row ''q'' 0 0 \<lparr>key = k, entry_priority = p, delayMicros = 0\<rparr>"

definition demo_state :: wq_state where
  "demo_state = \<lparr>items = [demo_row ''a'' 1, demo_row ''b'' 5, demo_row ''c'' 3], notified = [], lastWake = 0\<rparr>"

lemmas demo_defs = demo_cfg_def demo_io_def demo_row_def demo_state_def insert_row_def

lemma demo_state_ok:
  "distinct (map item_pk (items demo_state))" "\<forall>r \<in> set (items demo_state). leased_by r \<noteq> Some h"
  "fault demo_io n = None" "clk demo_io n = 1000" "mint demo_io = ''c1''"
  by (auto simp: demo_defs item_pk_def)

lemma Claim_cases:
  assumes "fault io 0 = None" "distinct (map item_pk (items st))"
    and "\<forall>r \<in> set (items st). leased_by r \<noteq> Some (mint io)" "clk io 0 \<le> clk io 1" "0 < lease"
  shows "Claim d cfg codec io limit lease st =
    (let due = due_batch d cfg io (claim_limit cfg limit) (items st);
         st' = st\<lparr>items := claim_table due (lease_horizon d io lease) (mint io) (items st)\<rparr> in
     case claim_result codec (mint io) due of
       Inl e \<Rightarrow> (Inl e, if d = Postgres then st' else st)
     | Inr its \<Rightarrow> (Inr its, st'))"
proof (cases "d = Postgres")
  case True
  then show ?thesis using assms(1,5)
    by (simp add: Claim_def claimOnce_postgres Let_def split: sum.split)
next
  case False
  then show ?thesis using assms
    by (simp add: Claim_def claimOnce_def claimSplit_refines Let_def case_prod_beta split: sum.split)
qed

text \<open>
  C6: On every dialect, a claim whose database work succeeds is the abstract claim: the batch is the
  due rows of the queue in claim order, cut at the limit, and the table afterwards is the old one
  with exactly that batch leased under the minted name. The one Postgres statement and the
  three-statement transaction of MySQL and SQLite differ only in the lease horizon's clock and in
  what a key that will not decode leaves behind: Postgres keeps the leases, the transaction rolls
  them back.
\<close>

theorem Claim_refines:
  assumes "fault io 0 = None" "distinct (map item_pk (items st))"
    and "\<forall>r \<in> set (items st). leased_by r \<noteq> Some (mint io)" "clk io 0 \<le> clk io 1" "0 < lease"
  shows "Claim d cfg codec io limit lease st =
    (let due = due_batch d cfg io (claim_limit cfg limit) (items st);
         st' = st\<lparr>items := claim_table due (lease_horizon d io lease) (mint io) (items st)\<rparr> in
     case claim_result codec (mint io) due of
       Inl e \<Rightarrow> (Inl e, if d = Postgres then st' else st)
     | Inr its \<Rightarrow> (Inr its, st'))"
  using assms by (rule Claim_cases)

theorem Claim_refines_witness:
  "map LeasedBy (projr (fst (Claim MySQL demo_cfg stringKeyCodec demo_io 10 Second demo_state)))
     = [''c1'', ''c1'']"
proof -
  have "Claim MySQL demo_cfg stringKeyCodec demo_io 10 Second demo_state =
    (let due = due_batch MySQL demo_cfg demo_io (claim_limit demo_cfg 10) (items demo_state);
         st' = demo_state\<lparr>items := claim_table due (lease_horizon MySQL demo_io Second) (mint demo_io)
                 (items demo_state)\<rparr> in
     case claim_result stringKeyCodec (mint demo_io) due of
       Inl e \<Rightarrow> (Inl e, if MySQL = Postgres then st' else demo_state)
     | Inr its \<Rightarrow> (Inr its, st'))"
    by (rule Claim_refines) (simp_all add: demo_state_ok Second_def)
  then show ?thesis by simp (code_simp)
qed

lemma at_claim_table:
  assumes "distinct (map item_pk t)" "r \<in> set t"
  shows "row_at item_pk (claim_table (due_rows q ceiling limit now lk t) u h t) (item_pk r) =
    Some (if r \<in> set (due_rows q ceiling limit now lk t) then leased u h r else r)"
  using assms by (simp add: claim_table_def items.at_update row_at_distinct due_mem_pk)

lemma leased_neq [simp]: "leased u h r \<noteq> r"
proof
  assume "leased u h r = r"
  then have "attempts (leased u h r) = attempts r" by (rule arg_cong)
  then show False by (simp add: leased_def)
qed

lemma Claim_InrD:
  assumes "fault io 0 = None" "distinct (map item_pk (items st))"
    and "\<forall>r \<in> set (items st). leased_by r \<noteq> Some (mint io)" "clk io 0 \<le> clk io 1"
    and "Claim d cfg codec io limit lease st = (Inr its, st')"
  shows "length its = length (due_batch d cfg io (claim_limit cfg limit) (items st))"
    and "items st' = claim_table (due_batch d cfg io (claim_limit cfg limit) (items st))
           (lease_horizon d io lease) (mint io) (items st)"
proof -
  let ?D = "due_batch d cfg io (claim_limit cfg limit) (items st)"
  have "0 < lease" using assms(5) by (auto simp: Claim_def split: if_splits)
  from Claim_cases [OF assms(1-4) this, of d cfg codec limit] assms(5)
  have 1: "claim_result codec (mint io) ?D = Inr its"
      "items st' = claim_table ?D (lease_horizon d io lease) (mint io) (items st)"
    by (auto simp: Let_def split: sum.splits)
  then show "items st' = claim_table ?D (lease_horizon d io lease) (mint io) (items st)" by simp
  from 1(1) have "map Inr its = map (\<lambda>r. claimedItem codec (item_key r) (priority r) (attempts r + 1) (mint io)
      (epoch < lease_until r)) ?D" unfolding claim_result_def by (rule try_map_InrD [symmetric])
  then show "length its = length ?D" by (rule map_eq_imp_length_eq)
qed

text \<open>
  A claim that returns items hands out as many as there are claimable unlocked rows, up to the
  clamped limit, and it hands out the best of them: a claimable row it left alone never sorts before
  (higher priority, then longer available, then by key) one it leased.
\<close>

theorem Claim_takes_the_best:
  assumes "fault io 0 = None" "distinct (map item_pk (items st))"
    and "\<forall>r \<in> set (items st). leased_by r \<noteq> Some (mint io)" "clk io 0 \<le> clk io 1"
    and "Claim d cfg codec io limit lease st = (Inr its, st')"
  shows "length its = min (nat (claim_limit cfg limit))
           (length (filter (\<lambda>r. claimablePredicate (cfg_Name cfg) (attemptCeiling cfg) (split_now d (clk io 0)) r \<and>
                               \<not> (d \<noteq> SQLite \<and> locked io (item_key r))) (items st)))
       \<and> (\<forall>r \<in> set (items st). \<forall>s \<in> set (items st).
            claimablePredicate (cfg_Name cfg) (attemptCeiling cfg) (split_now d (clk io 0)) r \<longrightarrow>
            \<not> (d \<noteq> SQLite \<and> locked io (item_key r)) \<longrightarrow>
            row_at item_pk (items st') (item_pk r) = Some r \<longrightarrow>
            row_at item_pk (items st') (item_pk s) \<noteq> Some s \<longrightarrow> claim_order s \<le> claim_order r)"
proof -
  let ?D = "due_batch d cfg io (claim_limit cfg limit) (items st)"
  note 1 = Claim_InrD [OF assms]
  from 1(1) have len: "length its = min (nat (claim_limit cfg limit))
           (length (filter (\<lambda>r. claimablePredicate (cfg_Name cfg) (attemptCeiling cfg) (split_now d (clk io 0)) r \<and>
                               \<not> (d \<noteq> SQLite \<and> locked io (item_key r))) (items st)))"
    by (simp add: due_batch_def due_rows_def length_sql_top)
  have best: "claim_order s \<le> claim_order r"
    if "r \<in> set (items st)" "s \<in> set (items st)"
      "claimablePredicate (cfg_Name cfg) (attemptCeiling cfg) (split_now d (clk io 0)) r"
      "\<not> (d \<noteq> SQLite \<and> locked io (item_key r))"
      "row_at item_pk (items st') (item_pk r) = Some r" "row_at item_pk (items st') (item_pk s) \<noteq> Some s" for r s
  proof -
    have "r \<notin> set ?D" "s \<in> set ?D"
      using that at_claim_table [OF assms(2), of r] at_claim_table [OF assms(2), of s]
      unfolding 1(2) due_batch_def by (auto split: if_splits)
    then show ?thesis unfolding due_batch_def due_rows_def using that(1,3,4)
      by (intro sql_top_least [of r "items st"]) auto
  qed
  from len best show ?thesis by blast
qed

theorem Claim_takes_the_best_witness:
  "length (projr (fst (Claim SQLite demo_cfg stringKeyCodec demo_io 0 Second demo_state))) = 2"
proof -
  let ?c = "Claim SQLite demo_cfg stringKeyCodec demo_io 0 Second demo_state"
  have "isl (fst ?c) = False" by code_simp
  then have "?c = (Inr (projr (fst ?c)), snd ?c)" by (cases ?c) (auto simp: isl_def split: sum.splits)
  from Claim_takes_the_best [OF _ _ _ _ this] have
    "length (projr (fst ?c)) = min (nat (claim_limit demo_cfg 0))
       (length (filter (\<lambda>r. claimablePredicate (cfg_Name demo_cfg) (attemptCeiling demo_cfg)
          (split_now SQLite (clk demo_io 0)) r \<and> \<not> (SQLite \<noteq> SQLite \<and> locked demo_io (item_key r)))
          (items demo_state)))"
    by (simp add: demo_state_ok)
  also have "\<dots> = 2" by code_simp
  finally show ?thesis .
qed

text \<open>
  C15: Whatever the environment does (an error, a decode failure, rows locked elsewhere), a claim
  either leaves a row exactly as it was or leases a row that was due: unfinished, under the attempt
  ceiling, and whose lease had run out by the clock the statement read. A live lease is never taken
  over, and the new lease runs at least the requested number of microseconds past the clock at the
  start of the call on every dialect, SQLite's millisecond clock included.
\<close>

theorem Claim_never_steals:
  assumes "distinct (map item_pk (items st))" "clk io 0 \<le> clk io 1" "r \<in> set (items st)"
  shows "row_at item_pk (items (snd (Claim d cfg codec io limit lease st))) (item_pk r) = Some r \<or>
    (\<exists>until. row_at item_pk (items (snd (Claim d cfg codec io limit lease st))) (item_pk r) =
               Some (leased until (mint io) r) \<and>
             clk io 0 + Microseconds lease \<le> until \<and>
             outstanding r \<and> lease_until r \<le> clk io 1 \<and> available_at r \<le> clk io 1 \<and>
             (0 < attemptCeiling cfg \<longrightarrow> attempts r < attemptCeiling cfg))"
proof -
  have same: "row_at item_pk (items st) (item_pk r) = Some r"
    using assms by (simp add: row_at_distinct)
  consider "snd (Claim d cfg codec io limit lease st) = st"
    | "0 < lease" "d = Postgres" "items (snd (Claim d cfg codec io limit lease st)) =
         claim_table (due_batch d cfg io (claim_limit cfg limit) (items st)) (clk io 0 + Microseconds lease) (mint io) (items st)"
    | ks where "0 < lease" "items (snd (Claim d cfg codec io limit lease st)) =
         leaseItems d (cfg_Name cfg) (attemptCeiling cfg) (Microseconds lease) (mint io) ks (clk io 1) (items st)"
    by (force simp: Claim_def claimOnce_def claimSplit_def claimDueItems_def claim_table_def due_batch_def
        split_now_def Let_def case_prod_beta split: option.splits sum.splits if_splits)
  then show ?thesis
  proof cases
    case 1
    with same show ?thesis by simp
  next
    case 2
    let ?D = "due_batch d cfg io (claim_limit cfg limit) (items st)"
    have "claimablePredicate (cfg_Name cfg) (attemptCeiling cfg) (clk io 0) r" if "r \<in> set ?D"
      using that 2(2) by (auto simp: due_batch_def split_now_def dest: due_rows_set)
    then show ?thesis
      using at_claim_table [OF assms(1,3)] 2(3) assms(2)
      by (auto simp: due_batch_def claimablePredicate_def)
  next
    case 3
    have le: "split_now d (clk io 1) \<le> clk io 1" by (rule split_now_le)
    have "clk io 0 + Microseconds lease \<le> split_after d (Microseconds lease) True (clk io 1)"
      using split_after_lease [of "Microseconds lease" "clk io 1" d] 3(1) assms(2)
      by (simp add: Microseconds_nonneg)
    then show ?thesis unfolding 3(2) leaseItems_def using same le
      by (auto simp: items.at_update claimablePredicate_def)
  qed
qed

theorem Claim_never_steals_witness:
  "\<exists>until. row_at item_pk (items (snd (Claim SQLite demo_cfg stringKeyCodec demo_io 10 Second demo_state)))
             (''q'', ''b'') = Some (leased until ''c1'' (demo_row ''b'' 5)) \<and> 1000 + Microseconds Second \<le> until"
proof -
  let ?st' = "snd (Claim SQLite demo_cfg stringKeyCodec demo_io 10 Second demo_state)"
  have "demo_row ''b'' 5 \<in> set (items demo_state)" "item_pk (demo_row ''b'' 5) = (''q'', ''b'')"
    by (simp_all add: demo_defs item_pk_def)
  moreover have "row_at item_pk (items ?st') (''q'', ''b'') \<noteq> Some (demo_row ''b'' 5)" by code_simp
  ultimately show ?thesis
    using Claim_never_steals [of demo_state demo_io "demo_row ''b'' 5" SQLite demo_cfg stringKeyCodec 10 Second]
    by (auto simp: demo_state_ok)
qed

lemma row_ready_readStats:
  "row_ready (readStats d cfg clock t) =
   sql_count (claimablePredicate (cfg_Name cfg) (attemptCeiling cfg) (split_now d clock)) t"
proof -
  have "sql_count (claimablePredicate q c now) (filter (\<lambda>r. queue_name r = q) t) =
        sql_count (claimablePredicate q c now) t" for q c now
    by (simp add: sql_count_def claimablePredicate_def [abs_def] conj_ac)
  then show ?thesis
    by (simp add: readStats_def readQueueStats_def split_readQueueStats_def Let_def split_now_def)
qed

text \<open>
  \<^verbatim>\<open>Stats.Ready\<close> counts what a claim can hand out: when no row is locked elsewhere and the limit
  admits them, a claim at the same clock returns exactly that many items.
\<close>

theorem Stats_Ready_is_claimable:
  assumes "fault io 0 = None" "distinct (map item_pk (items st))"
    and "\<forall>r \<in> set (items st). leased_by r \<noteq> Some (mint io)" "clk io 0 \<le> clk io 1"
    and "\<forall>k. \<not> locked io k" "wq_Stats d cfg io st = Inr stats" "Ready stats \<le> claim_limit cfg limit"
    and "Claim d cfg codec io limit lease st = (Inr its, st')"
  shows "int (length its) = Ready stats"
proof -
  let ?D = "due_batch d cfg io (claim_limit cfg limit) (items st)"
  have "length its = length ?D" by (rule Claim_InrD(1) [OF assms(1-4,8)])
  moreover have "Ready stats = sql_count (claimablePredicate (cfg_Name cfg) (attemptCeiling cfg) (split_now d (clk io 0))) (items st)"
    using assms(1,6) by (auto simp: wq_Stats_def Let_def row_ready_readStats)
  ultimately show ?thesis using assms(5,7)
    by (simp add: due_batch_def due_rows_def length_sql_top sql_count_def)
qed

lemma demo_claim_ok:
  "\<not> isl (fst (Claim MySQL (demo_cfg\<lparr>cfg_MaxClaimBatch := 5\<rparr>) stringKeyCodec demo_io 0 Second demo_state))"
  "\<not> isl (fst (Claim SQLite demo_cfg stringKeyCodec demo_io 0 Second demo_state))"
  by code_simp+

theorem Stats_Ready_is_claimable_witness:
  "length (projr (fst (Claim MySQL (demo_cfg\<lparr>cfg_MaxClaimBatch := 5\<rparr>) stringKeyCodec demo_io 0 Second demo_state))) = 3"
proof -
  let ?cfg = "demo_cfg\<lparr>cfg_MaxClaimBatch := 5\<rparr>"
  let ?c = "Claim MySQL ?cfg stringKeyCodec demo_io 0 Second demo_state"
  let ?s = "projr (wq_Stats MySQL ?cfg demo_io demo_state)"
  have c: "?c = (Inr (projr (fst ?c)), snd ?c)"
    by (cases ?c) (use demo_claim_ok in \<open>auto simp: isl_def split: sum.splits\<close>)
  have s: "wq_Stats MySQL ?cfg demo_io demo_state = Inr ?s" by (simp add: wq_Stats_def demo_state_ok Let_def)
  have "Ready ?s = 3" by code_simp
  moreover have "claim_limit ?cfg 0 = 5" by code_simp
  ultimately show ?thesis
    using Stats_Ready_is_claimable [OF _ _ _ _ _ s _ c] by (simp add: demo_state_ok demo_io_def)
qed

end
