(* ===== verification/WQ_Enqueue.thy ===== *)
theory WQ_Enqueue
  imports WQ_Claim
begin

text \<open>
  The enqueue. \<open>enqueued\<close> is the abstract upsert of one entry at one key; the lemmas show that the
  Postgres statement over arrays and the row-at-a-time transaction of MySQL and SQLite both compute
  it at every key, that merging two entries before they are written is writing them in turn, and
  that an enqueue never takes anything away from work already outstanding.
\<close>

section \<open>The abstract upsert\<close>

definition available_from :: "dialect \<Rightarrow> time \<Rightarrow> encodedEntry \<Rightarrow> time" where
  "available_from d clock e = split_after d (delayMicros e) False clock"

definition enqueued :: "dialect \<Rightarrow> string \<Rightarrow> time \<Rightarrow> encodedEntry \<Rightarrow> wq_row option \<Rightarrow> wq_row" where
  "enqueued d q clock e old =
     (let x = insert_row q (split_now d clock) (available_from d clock e) e in
      case old of None \<Rightarrow> x | Some r \<Rightarrow> on_conflict x r)"

lemma item_pk_insert_row [simp]: "item_pk (insert_row q now at e) = (q, key e)"
  by (simp add: item_pk_def insert_row_def)

lemma at_upsert_row:
  "row_at item_pk (upsert_row on_conflict x t) pk =
   (if pk = item_pk x then Some (case row_at item_pk t pk of None \<Rightarrow> x | Some r \<Rightarrow> on_conflict x r)
    else row_at item_pk t pk)"
proof (cases "item_pk x \<in> item_pk ` set t")
  case True
  let ?f = "\<lambda>r. if item_pk r = item_pk x then on_conflict x r else r"
  have at: "row_at item_pk (upsert_row on_conflict x t) pk = map_option ?f (row_at item_pk t pk)"
    using True by (simp add: upsert_row_def items.at_update)
  show ?thesis
  proof (cases "row_at item_pk t pk")
    case None
    then have "pk \<noteq> item_pk x" using True by (auto simp: row_at_None_iff)
    with None at show ?thesis by simp
  next
    case (Some r)
    then have "item_pk r = pk" by (auto dest: row_at_SomeD)
    then show ?thesis unfolding at Some by simp
  qed
next
  case False
  then have "row_at item_pk t (item_pk x) = None" by (auto simp: row_at_None_iff image_iff)
  with False show ?thesis by (auto simp: upsert_row_def row_at_append split: option.splits)
qed

lemma enqueueItem_eq:
  "enqueueItem d q e clock t =
     (if d = MySQL \<and> \<not> fits_int4 (entry_priority e) then Inl NumericOutOfRange
      else Inr (upsert_row on_conflict (insert_row q (split_now d clock) (available_from d clock e) e) t))"
  by (simp add: enqueueItem_def on_duplicate_key_eq' available_from_def)

section \<open>Merging before writing\<close>

lemma upsert_row_again:
  assumes "item_pk y = item_pk x"
    and "\<And>r. item_pk r = item_pk x \<Longrightarrow> on_conflict y (on_conflict x r) = on_conflict z r"
    and "on_conflict y x = z" "item_pk z = item_pk x"
  shows "upsert_row on_conflict y (upsert_row on_conflict x t) = upsert_row on_conflict z t"
proof (cases "item_pk x \<in> item_pk ` set t")
  case True
  then have "item_pk ` set (sql_update (\<lambda>r. item_pk r = item_pk x) (on_conflict x) t) = item_pk ` set t"
    by (simp add: items.pk_update flip: set_map)
  with True assms show ?thesis by (auto simp: upsert_row_def sql_update_def)
next
  case False
  then have "sql_update (\<lambda>r. item_pk r = item_pk x) (on_conflict y) (t @ [x]) = t @ [z]"
    using assms(1,3) by (auto simp: sql_update_def image_iff intro!: map_idI)
  with False assms show ?thesis by (simp add: upsert_row_def)
qed

lemma on_conflict_twice:
  "on_conflict (insert_row q now u f) (on_conflict (insert_row q now v e) r) =
   on_conflict (insert_row q now (min v u) (mergeEntries e f)) r"
  by (rule wq_row.equality)
    (simp_all add: on_conflict_def insert_row_def mergeEntries_def outstanding_def max.assoc min.assoc)

lemma on_conflict_fresh:
  "on_conflict (insert_row q now u f) (insert_row q now v e) =
   insert_row q now (min v u) (mergeEntries e f)"
  by (simp add: on_conflict_def insert_row_def mergeEntries_def outstanding_def)

lemma merge_upsert:
  assumes "key e = key f" "available_from d clock (mergeEntries e f) = min (available_from d clock e) (available_from d clock f)"
  shows "upsert_row on_conflict (insert_row q now (available_from d clock f) f)
           (upsert_row on_conflict (insert_row q now (available_from d clock e) e) t) =
         upsert_row on_conflict (insert_row q now (available_from d clock (mergeEntries e f)) (mergeEntries e f)) t"
  unfolding assms(2)
  by (rule upsert_row_again) (simp_all add: assms(1) on_conflict_twice on_conflict_fresh mergeEntries_def)

lemma available_from_merge:
  assumes "0 \<le> delayMicros e" "0 \<le> delayMicros f"
  shows "available_from d clock (mergeEntries e f) = min (available_from d clock e) (available_from d clock f)"
  using assms by (simp add: available_from_def mergeEntries_def split_after_min)

text \<open>
  C31: The batcher's merge agrees with the database's. On every dialect, writing the merge of two
  entries for one key is writing the first and then the second at the same clock: the row ends up
  with the higher priority and the earlier availability either way, whether it was absent,
  outstanding or completed, and on MySQL although its assignments run left to right.
\<close>

theorem mergeEntries_is_two_upserts:
  assumes "key e = key f" "0 \<le> delayMicros e" "0 \<le> delayMicros f"
    and "fits_int4 (entry_priority e)" "fits_int4 (entry_priority f)"
  shows "upsertSplit_rows d q (\<lambda>_. clock) n [e, f] t = upsertSplit_rows d q (\<lambda>_. clock) n [mergeEntries e f] t \<and>
    (case enqueueItems q [e] clock t of Inl err \<Rightarrow> Inl err | Inr t1 \<Rightarrow> enqueueItems q [f] clock t1)
      = enqueueItems q [mergeEntries e f] clock t"
proof
  have fits: "fits_int4 (entry_priority (mergeEntries e f))"
    using assms(4,5) by (simp add: mergeEntries_def max_def)
  show "upsertSplit_rows d q (\<lambda>_. clock) n [e, f] t = upsertSplit_rows d q (\<lambda>_. clock) n [mergeEntries e f] t"
    using assms fits by (simp add: enqueueItem_eq merge_upsert available_from_merge)
  have pg: "clock + delayMicros x = available_from Postgres clock x" for x
    by (simp add: available_from_def split_after_def split_now_def)
  show "(case enqueueItems q [e] clock t of Inl err \<Rightarrow> Inl err | Inr t1 \<Rightarrow> enqueueItems q [f] clock t1)
      = enqueueItems q [mergeEntries e f] clock t"
    using assms fits by (simp add: enqueueItems_def pg merge_upsert available_from_merge)
qed

section \<open>The batch\<close>

lemma at_foldl_upsert:
  assumes "distinct (map key es)"
  shows "row_at item_pk (foldl (\<lambda>t e. upsert_row on_conflict (insert_row q now (at e) e) t) t es) pk =
    (case find (\<lambda>e. (q, key e) = pk) es of
       None \<Rightarrow> row_at item_pk t pk
     | Some e \<Rightarrow> Some (case row_at item_pk t pk of
                         None \<Rightarrow> insert_row q now (at e) e
                       | Some r \<Rightarrow> on_conflict (insert_row q now (at e) e) r))"
  using assms
proof (induction es arbitrary: t)
  case (Cons e es)
  from Cons.prems have "find (\<lambda>e'. (q, key e') = (q, key e)) es = None"
    by (auto simp: find_None_iff image_iff)
  with Cons show ?case by (auto simp: at_upsert_row split: option.splits)
qed simp

lemma upsertSplit_rows_foldl:
  assumes "d = MySQL \<longrightarrow> (\<forall>e \<in> set es. fits_int4 (entry_priority e))"
  shows "upsertSplit_rows d q (\<lambda>_. clock) n es t =
    Inr (foldl (\<lambda>t e. upsert_row on_conflict (insert_row q (split_now d clock) (available_from d clock e) e) t) t es)"
  using assms by (induction es arbitrary: n t) (auto simp: enqueueItem_eq)

lemma find_sort_key:
  assumes "distinct (map key es)"
  shows "find (\<lambda>e. (q, key e) = pk) (sort_key key es) = find (\<lambda>e. (q, key e) = pk) es"
proof -
  have *: "find (\<lambda>e. (q, key e) = pk) xs = Some e \<longleftrightarrow> e \<in> set xs \<and> (q, key e) = pk"
    if "distinct (map key xs)" for e xs
    using that by (induction xs) auto
  have "mset (map key (sort_key key es)) = mset (map key es)" by simp
  then have "distinct (map key (sort_key key es))" using assms by (metis mset_eq_imp_distinct_iff)
  from * [OF this] * [OF assms] show ?thesis by (metis option.exhaust set_sort)
qed

text \<open>The Postgres statement reads its clock in microseconds and adds the delay to it.\<close>

lemma pg_available_from: "clock + delayMicros e = available_from Postgres clock e"
  by (simp add: available_from_def split_after_def split_now_def)

definition demo_entries :: "encodedEntry list" where
  "demo_entries = [\<lparr>key = ''d'', entry_priority = 7, delayMicros = 500\<rparr>,
                   \<lparr>key = ''a'', entry_priority = 9, delayMicros = 0\<rparr>]"

text \<open>
  C30: A batch with one entry per key and priorities that fit the column always lands, and at every
  key it does what the abstract upsert says: the array statement of Postgres, which sorts its rows,
  and the row-at-a-time transaction of MySQL and SQLite leave the same rows but for the dialect's
  clock. Keys outside the batch and other queues' rows are untouched.
\<close>

theorem upsert_effect:
  assumes "distinct (map key rows)" "\<forall>e \<in> set rows. fits_int4 (entry_priority e)"
    and "fault io 0 = None" "clk io = (\<lambda>_. clock)"
  shows "fst (upsert d cfg io rows st) = Inr () \<and>
    row_at item_pk (items (snd (upsert d cfg io rows st))) pk =
      (case find (\<lambda>e. (cfg_Name cfg, key e) = pk) rows of
         None \<Rightarrow> row_at item_pk (items st) pk
       | Some e \<Rightarrow> Some (enqueued d (cfg_Name cfg) clock e (row_at item_pk (items st) pk)))"
proof (cases "rows = []")
  case True
  then show ?thesis by (simp add: upsert_def)
next
  case False
  show ?thesis
  proof (cases "d = Postgres")
    case True
    have now: "split_now Postgres clock = clock" by (simp add: split_now_def)
    have "distinct (map key (sort_key key rows))"
      using assms(1) by (metis mset_eq_imp_distinct_iff mset_map mset_sort)
    with True False assms show ?thesis
      by (simp add: upsert_def enqueueItems_def pg_available_from at_foldl_upsert find_sort_key enqueued_def
          now Let_def split: option.split)
  next
    case ne: False
    have "upsertSplit d cfg io rows (items st) = Inr (foldl (\<lambda>t e. upsert_row on_conflict
        (insert_row (cfg_Name cfg) (split_now d clock) (available_from d clock e) e) t) (items st) rows)"
      using assms(2,4) by (simp add: upsertSplit_def upsertSplit_rows_foldl)
    with ne False assms show ?thesis
      by (simp add: upsert_def at_foldl_upsert enqueued_def Let_def split: option.split)
  qed
qed

theorem upsert_effect_witness:
  "map_option priority (row_at item_pk (items (snd (upsert MySQL demo_cfg demo_io demo_entries demo_state)))
     (''q'', ''a'')) = Some 9"
proof -
  have "distinct (map key demo_entries)" "\<forall>e \<in> set demo_entries. fits_int4 (entry_priority e)"
    by (simp_all add: demo_entries_def fits_int4_def)
  moreover have "clk demo_io = (\<lambda>_. 1000)" by (simp add: demo_io_def)
  ultimately have "row_at item_pk (items (snd (upsert MySQL demo_cfg demo_io demo_entries demo_state))) (''q'', ''a'') =
    (case find (\<lambda>e. (cfg_Name demo_cfg, key e) = (''q'', ''a'')) demo_entries of
       None \<Rightarrow> row_at item_pk (items demo_state) (''q'', ''a'')
     | Some e \<Rightarrow> Some (enqueued MySQL (cfg_Name demo_cfg) 1000 e (row_at item_pk (items demo_state) (''q'', ''a''))))"
    using upsert_effect [of demo_entries demo_io 1000 MySQL demo_cfg demo_state "(''q'', ''a'')"]
    by (simp add: demo_state_ok)
  also have "map_option priority \<dots> = Some 9" by code_simp
  finally show ?thesis .
qed

theorem mergeEntries_is_two_upserts_witness:
  "upsertSplit_rows SQLite ''q'' (\<lambda>_. 1500) 0 [\<lparr>key = ''a'', entry_priority = 2, delayMicros = 7\<rparr>,
       \<lparr>key = ''a'', entry_priority = 1, delayMicros = 3\<rparr>] [] =
   upsertSplit_rows SQLite ''q'' (\<lambda>_. 1500) 0 [\<lparr>key = ''a'', entry_priority = 2, delayMicros = 3\<rparr>] []"
  using mergeEntries_is_two_upserts [of "\<lparr>key = ''a'', entry_priority = 2, delayMicros = 7\<rparr>"
      "\<lparr>key = ''a'', entry_priority = 1, delayMicros = 3\<rparr>" SQLite "''q''" 1500 0 "[]"]
  by (simp add: mergeEntries_def fits_int4_def)

section \<open>What an enqueue keeps\<close>

text \<open>The promise to work already outstanding: it can only be raised and hurried.\<close>

definition promoted :: "wq_row \<Rightarrow> wq_row \<Rightarrow> bool" where
  "promoted r r' \<longleftrightarrow>
     priority r \<le> priority r' \<and> available_at r' \<le> available_at r \<and> outstanding r' \<and>
     leased_by r' = leased_by r \<and> lease_until r' = lease_until r \<and> attempts r' = attempts r \<and>
     enqueued_at r' = enqueued_at r \<and> last_error r' = last_error r"

lemma promoted_refl: "outstanding r \<Longrightarrow> promoted r r"
  by (simp add: promoted_def)

lemma promoted_trans: "promoted r s \<Longrightarrow> promoted s u \<Longrightarrow> promoted r u"
  by (auto simp: promoted_def)

lemma upsert_row_promotes:
  assumes "row_at item_pk t pk = Some r" "outstanding r"
  shows "\<exists>r'. row_at item_pk (upsert_row on_conflict x t) pk = Some r' \<and> promoted r r'"
  using assms by (auto simp: at_upsert_row promoted_def on_conflict_def outstanding_def)

lemma foldl_upsert_promotes:
  assumes "row_at item_pk t pk = Some r" "outstanding r"
  shows "\<exists>r'. row_at item_pk (foldl (\<lambda>t e. upsert_row on_conflict (g e) t) t es) pk = Some r' \<and> promoted r r'"
  using assms
proof (induction es arbitrary: t r)
  case (Cons e es)
  from upsert_row_promotes [OF Cons.prems] obtain s where
    s: "row_at item_pk (upsert_row on_conflict (g e) t) pk = Some s" "promoted r s" by blast
  from Cons.IH [OF s(1)] s(2) show ?case by (auto simp: promoted_def intro: order_trans)
qed (auto intro: promoted_refl)

lemma upsertSplit_rows_promotes:
  assumes "row_at item_pk t pk = Some r" "outstanding r" "upsertSplit_rows d q clock n es t = Inr t'"
  shows "\<exists>r'. row_at item_pk t' pk = Some r' \<and> promoted r r'"
  using assms
proof (induction es arbitrary: n t r)
  case (Cons e es)
  then obtain u where u: "enqueueItem d q e (clock n) t = Inr u" "upsertSplit_rows d q clock (Suc n) es u = Inr t'"
    by (auto split: sum.splits)
  then obtain x where "u = upsert_row on_conflict x t" by (auto simp: enqueueItem_eq split: if_splits)
  with upsert_row_promotes [OF Cons.prems(1,2)] obtain s where
    s: "row_at item_pk u pk = Some s" "promoted r s" by blast
  from Cons.IH [OF s(1) _ u(2)] s(2) show ?case by (auto simp: promoted_def intro: order_trans)
qed (auto intro: promoted_refl)

text \<open>
  Enqueueing never hurts outstanding work: after any batch, on any dialect and whatever the
  outcome, a row that was outstanding is still there and outstanding, with a priority no lower and
  an availability no later, under the same lease, the same holder and the same count of attempts.
\<close>

theorem upsert_only_promotes:
  assumes "row_at item_pk (items st) pk = Some r" "outstanding r"
  shows "\<exists>r'. row_at item_pk (items (snd (upsert d cfg io rows st))) pk = Some r' \<and> promoted r r'"
proof -
  have same: "\<exists>r'. row_at item_pk (items st) pk = Some r' \<and> promoted r r'"
    using assms by (simp add: promoted_refl)
  show ?thesis
    using same foldl_upsert_promotes [OF assms] upsertSplit_rows_promotes [OF assms]
    by (auto simp: upsert_def upsertSplit_def enqueueItems_def split: option.splits sum.splits)
qed

theorem upsert_only_promotes_witness:
  "\<exists>r'. row_at item_pk (items (snd (upsert SQLite demo_cfg demo_io demo_entries demo_state))) (''q'', ''a'') = Some r' \<and>
        promoted (demo_row ''a'' 1) r'"
  by (rule upsert_only_promotes) (simp_all add: demo_defs item_pk_def outstanding_def)

lemma upsertSplit_rows_overflow:
  "\<exists>e \<in> set es. \<not> fits_int4 (entry_priority e) \<Longrightarrow>
   upsertSplit_rows MySQL q clock n es t = Inl NumericOutOfRange"
  by (induction es arbitrary: n t) (auto simp: enqueueItem_eq)

text \<open>
  The priority of an entry is not checked before its batch is written: one that does not fit the
  column's 32 bits fails the whole batch on Postgres and MySQL, and nothing of it is written.
\<close>

theorem upsert_priority_overflow:
  assumes "distinct (map key rows)" "e \<in> set rows" "\<not> fits_int4 (entry_priority e)"
    and "d \<noteq> SQLite" "fault io 0 = None"
  shows "upsert d cfg io rows st = (Inl (SQLError NumericOutOfRange), st)"
proof (cases "d = Postgres")
  case False
  with assms(4) have "d = MySQL" by (cases d) auto
  moreover have "upsertSplit_rows MySQL (cfg_Name cfg) (clk io) 0 rows (items st) = Inl NumericOutOfRange"
    using assms(2,3) by (intro upsertSplit_rows_overflow) blast
  ultimately show ?thesis using assms(2,5) by (auto simp: upsert_def upsertSplit_def)
qed (use assms in \<open>auto simp: upsert_def enqueueItems_def\<close>)

theorem upsert_priority_overflow_witness:
  "upsert Postgres demo_cfg demo_io [\<lparr>key = ''ok'', entry_priority = 1, delayMicros = 0\<rparr>,
       \<lparr>key = ''big'', entry_priority = 2 ^ 31, delayMicros = 0\<rparr>] demo_state =
   (Inl (SQLError NumericOutOfRange), demo_state)"
  by (rule upsert_priority_overflow [where e = "\<lparr>key = ''big'', entry_priority = 2 ^ 31, delayMicros = 0\<rparr>"])
    (simp_all add: demo_state_ok fits_int4_def)

section \<open>Validation\<close>

lemma encodeKey_valid:
  assumes "encodeKey codec k = Inr s"
  shows "s \<noteq> [] \<and> length s \<le> MaxKeyLength \<and> set s \<inter> control_characters = {}"
  using assms by (auto simp: encodeKey_def split: sum.splits if_splits)

text \<open>
  \<^verbatim>\<open>Enqueue\<close> validates before it submits. Either some entry's key is refused and the call fails
  with that refusal having submitted nothing, or the batcher receives one row per entry, in order,
  each with the entry's priority, a delay that is not negative, and a key that is not empty, not
  longer than 512 bytes and free of control characters.
\<close>

theorem Enqueue_validates:
  assumes "entries \<noteq> []"
  shows "(\<exists>err. \<exists>x \<in> set entries. encodeKey codec (Entry_Key x) = Inl err \<and>
            Enqueue codec submit entries st = (Inl err, st)) \<or>
    (\<exists>rows. map entry_priority rows = map Entry_Priority entries \<and>
       map (Inr \<circ> key) rows = map (encodeKey codec \<circ> Entry_Key) entries \<and>
       (\<forall>row \<in> set rows. 0 \<le> delayMicros row \<and> key row \<noteq> [] \<and> length (key row) \<le> MaxKeyLength \<and>
          set (key row) \<inter> control_characters = {}) \<and>
       snd (Enqueue codec submit entries st) = snd (submit rows st))"
proof (cases "try_map (encodeEntry codec) entries")
  case (Inl err)
  then obtain x where "x \<in> set entries" "encodeEntry codec x = Inl err" by (blast dest: try_map_Inl)
  with Inl assms show ?thesis by (auto simp: Enqueue_def encodeEntry_def split: sum.splits)
next
  case (Inr rows)
  then have m: "map (encodeEntry codec) entries = map Inr rows" by (rule try_map_InrD)
  have snd: "snd (Enqueue codec submit entries st) = snd (submit rows st)"
    using Inr assms by (auto simp: Enqueue_def split: prod.splits sum.splits submit_error.splits)
  have valid: "0 \<le> delayMicros row \<and> key row \<noteq> [] \<and> length (key row) \<le> MaxKeyLength \<and>
      set (key row) \<inter> control_characters = {}" if "row \<in> set rows" for row
  proof -
    from that m have "Inr row \<in> set (map (encodeEntry codec) entries)" by simp
    then obtain x where "encodeEntry codec x = Inr row" by auto
    then have "encodeKey codec (Entry_Key x) = Inr (key row)" "0 \<le> delayMicros row"
      by (auto simp: encodeEntry_def Microseconds_nonneg split: sum.splits)
    then show ?thesis by (simp add: encodeKey_valid)
  qed
  have "map entry_priority rows = map Entry_Priority entries \<and>
        map (Inr \<circ> key) rows = map (encodeKey codec \<circ> Entry_Key) entries"
    using m by (induction rows arbitrary: entries)
      (auto simp: encodeEntry_def Cons_eq_map_conv split: sum.splits)
  with valid snd show ?thesis by blast
qed

theorem Enqueue_validates_witness:
  "\<exists>rows. snd (Enqueue stringKeyCodec (\<lambda>rows st. (Inr (), snd (upsert MySQL demo_cfg demo_io rows st)))
      [\<lparr>Entry_Key = ''z'', Entry_Priority = 4, Entry_Delay = - 5\<rparr>] demo_state)
     = snd (upsert MySQL demo_cfg demo_io rows demo_state) \<and> map entry_priority rows = [4]"
  using Enqueue_validates [of "[\<lparr>Entry_Key = ''z'', Entry_Priority = 4, Entry_Delay = - 5\<rparr>]" stringKeyCodec
      "\<lambda>rows st. (Inr (), snd (upsert MySQL demo_cfg demo_io rows st))" demo_state]
  by (auto simp: encodeKey_def stringKeyCodec_def MaxKeyLength_def control_characters_def)

end
