(* ===== verification/WQ_Writers.thy ===== *)
theory WQ_Writers
  imports WQ_Enqueue
begin

text \<open>
  The writers of a claim (\<^verbatim>\<open>Complete\<close>, \<^verbatim>\<open>Extend\<close>, \<^verbatim>\<open>Release\<close>), the keyed writers (\<^verbatim>\<open>Remove\<close>,
  \<^verbatim>\<open>Requeue\<close>), \<^verbatim>\<open>Reap\<close> and the wake floor. \<open>held_refs\<close> is the abstract target of a claim's writers:
  the rows whose key and holder are among the references. The single statement over two arrays and
  the loop of one statement per claim are both shown to update exactly those rows.
\<close>

section \<open>The rows a claim's items name\<close>

definition held_refs :: "string \<Rightarrow> bool \<Rightarrow> itemRef list \<Rightarrow> wq_row \<Rightarrow> bool" where
  "held_refs q unfinished refs r \<longleftrightarrow>
     queue_name r = q \<and> (unfinished \<longrightarrow> outstanding r) \<and>
     (case leased_by r of None \<Rightarrow> False | Some h \<Rightarrow> (item_key r, h) \<in> set refs)"

lemma set_remdups_adj_sort [simp]: "set (remdups_adj (sort xs)) = set xs"
  by simp

lemma lockedTargets_refs:
  "lockedTargets q outstanding (leasedPairs (map fst refs) (map snd refs)) = held_refs q True refs"
  "lockedTargets q (\<lambda>_. True) (leasedPairs (map fst refs) (map snd refs)) = held_refs q False refs"
  by (auto simp: fun_eq_iff lockedTargets_def held_refs_def leasedPairs_heldBy split: option.splits)

lemma held_refs_cong: "set refs = set refs' \<Longrightarrow> held_refs q u refs = held_refs q u refs'"
  by (auto simp: fun_eq_iff held_refs_def split: option.splits)

text \<open>The references of the holders \<open>hs\<close> are what the loop over \<open>hs\<close> addresses.\<close>

definition held_by_any :: "string \<Rightarrow> bool \<Rightarrow> string list \<Rightarrow> (string \<Rightarrow> string list) \<Rightarrow> wq_row \<Rightarrow> bool" where
  "held_by_any q u hs ks r \<longleftrightarrow> (\<exists>h \<in> set hs. heldBy q u h (ks h) r)"

lemma held_by_any_refs: "held_by_any q u (sort (remdups (map snd refs))) (holder_keys refs) = held_refs q u refs"
  by (force simp: fun_eq_iff held_by_any_def heldBy_def held_refs_def keyedItems_def holder_keys_def
      split: option.splits)

lemma sql_update_twice:
  assumes "\<And>r. r \<in> set t \<Longrightarrow> p r \<Longrightarrow> \<not> p' (f r)"
  shows "sql_update p' f (sql_update p f t) = sql_update (\<lambda>r. p r \<or> p' r) f t"
  using assms by (auto simp: sql_update_def)

lemma sql_count_update:
  assumes "\<And>r. r \<in> set t \<Longrightarrow> p r \<Longrightarrow> \<not> p' r \<and> \<not> p' (f r)"
  shows "sql_count p t + sql_count p' (sql_update p f t) = sql_count (\<lambda>r. p r \<or> p' r) t"
  using assms by (induction t) (auto simp: sql_count_def sql_update_def)

lemma writeHeld_effect:
  assumes "\<And>n. fault io n = None" "distinct hs"
    and held: "\<And>n h ks t. held n h ks t = (sql_count (heldBy q u h ks) t, sql_update (heldBy q u h ks) f t)"
    and keep: "\<And>r. leased_by (f r) = None \<or> leased_by (f r) = leased_by r"
  shows "writeHeld io n hs ks held tot t =
    (Inr (tot + sql_count (held_by_any q u hs ks) t), sql_update (held_by_any q u hs ks) f t)"
  using assms(2)
proof (induction hs arbitrary: n tot t)
  case Nil
  then show ?case by (simp add: held_by_any_def sql_count_def sql_update_def)
next
  case (Cons h hs)
  let ?p = "heldBy q u h (ks h)" and ?p' = "held_by_any q u hs ks"
  have apart: "\<not> ?p' r \<and> \<not> ?p' (f r)" if "?p r" for r
    using that Cons.prems keep [of r] by (auto simp: held_by_any_def heldBy_def)
  have "held_by_any q u (h # hs) ks = (\<lambda>r. ?p r \<or> ?p' r)" by (auto simp: fun_eq_iff held_by_any_def)
  moreover have "sql_count ?p t + sql_count ?p' (sql_update ?p f t) = sql_count (\<lambda>r. ?p r \<or> ?p' r) t"
    using apart by (rule sql_count_update)
  moreover have "sql_update ?p' f (sql_update ?p f t) = sql_update (\<lambda>r. ?p r \<or> ?p' r) f t"
    using apart by (intro sql_update_twice) simp
  ultimately show ?case using Cons by (simp add: assms(1) held)
qed

lemma writeItems_effect:
  assumes "\<And>n. fault io n = None" "try_map (itemRef_of codec) its = Inr refs"
    and one: "\<And>ks hs t. d = Postgres \<Longrightarrow> write ks hs t =
      (sql_count (lockedTargets q guard (leasedPairs ks hs)) t, sql_update (lockedTargets q guard (leasedPairs ks hs)) f t)"
    and guard: "guard = (\<lambda>r. u \<longrightarrow> outstanding r)"
    and held: "\<And>n h ks t. d \<noteq> Postgres \<Longrightarrow>
      held n h ks t = (sql_count (heldBy q u h ks) t, sql_update (heldBy q u h ks) f t)"
    and keep: "\<And>r. leased_by (f r) = None \<or> leased_by (f r) = leased_by r"
  shows "writeItems d codec io its write held t = (Inr (sql_count (held_refs q u refs) t), sql_update (held_refs q u refs) f t)"
proof (cases "its = []")
  case True
  with assms(2) have "held_refs q u refs = (\<lambda>_. False)"
    by (auto simp: fun_eq_iff held_refs_def split: option.splits)
  with True show ?thesis by (simp add: writeItems_def sql_count_def sql_update_def)
next
  case False
  let ?S = "sortAndDedupeItems refs"
  have S: "held_refs q u ?S = held_refs q u refs"
    by (rule held_refs_cong) (simp add: sortAndDedupeItems_def)
  show ?thesis
  proof (cases "d = Postgres")
    case True
    have "lockedTargets q guard (leasedPairs (map fst ?S) (map snd ?S)) = held_refs q u refs"
      unfolding S [symmetric] guard by (cases u) (simp_all add: lockedTargets_refs)
    with True False assms(1,2) show ?thesis by (simp add: writeItems_def one Let_def)
  next
    case ne: False
    have "distinct (sort (remdups (map snd ?S)))" by simp
    from writeHeld_effect [where held = held and ks = "holder_keys ?S" and u = u, OF assms(1) this held [OF ne] keep]
    have "writeHeld io 0 (sort (remdups (map snd ?S))) (holder_keys ?S) held 0 t =
      (Inr (sql_count (held_refs q u refs) t), sql_update (held_refs q u refs) f t)"
      by (simp add: held_by_any_refs S)
    with ne False assms(2) show ?thesis by (simp add: writeItems_def byHolder_def Let_def)
  qed
qed

section \<open>Complete, Release and Extend\<close>

lemma affected_all: "(\<And>r. p r \<Longrightarrow> f r \<noteq> r) \<Longrightarrow> affected_rows d p f t = sql_count p t"
  by (simp add: affected_rows_def sql_count_def) (metis (mono_tags, lifting) filter_cong)

lemma clears_holder: "leased_by r = Some h \<Longrightarrow> leased_by (f r) = None \<Longrightarrow> f r \<noteq> r"
  by (metis option.distinct(1))

lemma split_completeItems_eq:
  "split_completeItems d q h ks clock t =
   (sql_count (heldBy q False h ks) t, sql_update (heldBy q False h ks) (retired (split_now d clock)) t)"
  by (simp add: split_completeItems_def Let_def)
    (rule affected_all, rule clears_holder, auto simp: heldBy_def retired_def)

lemma split_releaseItems_eq:
  "split_releaseItems d q us cause h ks clock t =
   (sql_count (heldBy q True h ks) t,
    sql_update (heldBy q True h ks) (handed_back (split_after d us False clock) cause) t)"
  by (simp add: split_releaseItems_def Let_def)
    (rule affected_all, rule clears_holder, auto simp: heldBy_def handed_back_def)

lemma extendHeld_eq:
  "extendHeld d cfg lease clock h ks t =
   (sql_count (heldBy (cfg_Name cfg) True h ks) t,
    sql_update (heldBy (cfg_Name cfg) True h ks) (extended (split_after d (Microseconds lease) True clock)) t)"
proof -
  have "heldBy q True h ks (extended u r) = heldBy q True h ks r" for q u r
    by (simp add: heldBy_def extended_def outstanding_def keyedItems_def)
  then have "sql_count (heldBy q True h ks) (sql_update p (extended u) t) = sql_count (heldBy q True h ks) t" for q u p
    by (induction t) (auto simp: sql_count_def sql_update_def)
  then show ?thesis by (simp add: extendHeld_def countHeldItems_def split_extendItems_def Let_def)
qed

text \<open>A queue whose row \<^verbatim>\<open>b\<close> a claim \<^verbatim>\<open>c0\<close> holds.\<close>

definition held_row :: wq_row where
  "held_row = leased 5000 ''c0'' (demo_row ''b'' 5)"

definition held_state :: wq_state where
  "held_state = \<lparr>items = [demo_row ''a'' 1, held_row], notified = [], lastWake = 0\<rparr>"

definition held_item :: "string Item" where
  "held_item = \<lparr>Key = ''b'', LeasedBy = ''c0'', Priority = 5, Attempts = 1, Reclaimed = False\<rparr>"

lemma held_item_ref: "try_map (itemRef_of stringKeyCodec) [held_item] = Inr [(''b'', ''c0'')]"
  by (simp add: held_item_def itemRef_of_def encodeKey_def stringKeyCodec_def MaxKeyLength_def control_characters_def)

lemma demo_clk: "clk demo_io = (\<lambda>_. 1000)"
  by (simp add: demo_io_def)

lemma Complete_spec:
  assumes "\<And>n. fault io n = None" "clk io = (\<lambda>_. clock)" "try_map (itemRef_of codec) its = Inr refs"
  shows "Complete d cfg codec io its st =
    (Inr (), st\<lparr>items := sql_update (held_refs (cfg_Name cfg) False refs) (retired (split_now d clock)) (items st)\<rparr>)"
  unfolding Complete_def assms(2)
  by (subst writeItems_effect [OF assms(1,3), where q = "cfg_Name cfg" and u = False and guard = "\<lambda>_. True"
        and f = "retired (split_now d clock)"])
    (simp_all add: completeItems_def split_completeItems_eq split_now_def retired_def discard_count_def Let_def)

text \<open>
  Completing retires exactly the rows still held under the names the items carry. Once no
  statement fails, on every dialect the call succeeds, each row of the queue whose key and holder
  are among the items is marked complete and freed, and no other row changes, whichever order the
  items come in and however often one is repeated.
\<close>

theorem Complete_effect:
  assumes "\<And>n. fault io n = None" "clk io = (\<lambda>_. clock)" "try_map (itemRef_of codec) its = Inr refs"
  shows "Complete d cfg codec io its st =
    (Inr (), st\<lparr>items := sql_update (held_refs (cfg_Name cfg) False refs) (retired (split_now d clock)) (items st)\<rparr>)"
  using assms by (rule Complete_spec)

theorem Complete_effect_witness:
  "map completed_at (items (snd (Complete SQLite demo_cfg stringKeyCodec demo_io [held_item, held_item] held_state)))
     = [None, Some 1000]"
proof -
  have "try_map (itemRef_of stringKeyCodec) [held_item, held_item] = Inr [(''b'', ''c0''), (''b'', ''c0'')]"
    using held_item_ref by (simp split: sum.splits)
  from Complete_effect [OF demo_state_ok(3) demo_clk this, of SQLite demo_cfg held_state]
  show ?thesis by simp code_simp
qed

lemma Release_spec:
  assumes "\<And>n. fault io n = None" "clk io = (\<lambda>_. clock)" "try_map (itemRef_of codec) its = Inr refs"
  shows "Release d cfg codec io delay cause its st =
    (Inr (), st\<lparr>items := sql_update (held_refs (cfg_Name cfg) True refs)
       (handed_back (split_after d (Microseconds (max delay 0)) False clock) (truncatedCause io cause)) (items st)\<rparr>)"
  unfolding Release_def assms(2) Let_def
  by (subst writeItems_effect [OF assms(1,3), where q = "cfg_Name cfg" and u = True and guard = outstanding
        and f = "handed_back (split_after d (Microseconds (max delay 0)) False clock) (truncatedCause io cause)"])
    (simp_all add: releaseItems_def split_releaseItems_eq split_now_def split_after_def handed_back_def
      discard_count_def Let_def fun_eq_iff)

text \<open>
  Releasing hands back exactly the unfinished rows still held under the names the items carry:
  on every dialect each becomes unheld, available again after the delay (no delay counts as
  negative), with the truncated cause recorded, and no other row changes.
\<close>

theorem Release_effect:
  assumes "\<And>n. fault io n = None" "clk io = (\<lambda>_. clock)" "try_map (itemRef_of codec) its = Inr refs"
  shows "Release d cfg codec io delay cause its st =
    (Inr (), st\<lparr>items := sql_update (held_refs (cfg_Name cfg) True refs)
       (handed_back (split_after d (Microseconds (max delay 0)) False clock) (truncatedCause io cause)) (items st)\<rparr>)"
  using assms by (rule Release_spec)

theorem Release_effect_witness:
  "map leased_by (items (snd (Release MySQL demo_cfg stringKeyCodec demo_io Second (Some ''boom'') [held_item] held_state)))
     = [None, None]"
  using Release_effect [OF demo_state_ok(3) demo_clk held_item_ref, of MySQL demo_cfg Second "Some ''boom''" held_state]
  by simp code_simp

text \<open>
  Extending pushes the lease of exactly the unfinished rows still held under the names the items
  carry, never to an earlier instant, and reports how many there were: a worker that lost a lease
  learns it from the count. On every dialect the new horizon is at least the requested number of
  microseconds past the server's clock.
\<close>

theorem Extend_effect:
  assumes "\<And>n. fault io n = None" "clk io = (\<lambda>_. clock)" "try_map (itemRef_of codec) its = Inr refs"
    and "0 < lease"
  shows "\<exists>until. clock + Microseconds lease \<le> until \<and>
    Extend d cfg codec io lease its st =
      (Inr (sql_count (held_refs (cfg_Name cfg) True refs) (items st)),
       st\<lparr>items := sql_update (held_refs (cfg_Name cfg) True refs)
             (\<lambda>r. r\<lparr>lease_until := max (lease_until r) until\<rparr>) (items st)\<rparr>)"
proof (intro exI conjI)
  let ?u = "if d = Postgres then clock + Microseconds lease else split_after d (Microseconds lease) True clock"
  show "clock + Microseconds lease \<le> ?u"
    using split_after_lease [of "Microseconds lease" clock d] assms(4) by (simp add: Microseconds_nonneg)
  have ext: "(\<lambda>r. r\<lparr>lease_until := max (lease_until r) ?u\<rparr>) = extended ?u" by (simp add: fun_eq_iff extended_def)
  show "Extend d cfg codec io lease its st =
      (Inr (sql_count (held_refs (cfg_Name cfg) True refs) (items st)),
       st\<lparr>items := sql_update (held_refs (cfg_Name cfg) True refs)
             (\<lambda>r. r\<lparr>lease_until := max (lease_until r) ?u\<rparr>) (items st)\<rparr>)"
    unfolding Extend_def assms(2) ext
    by (subst writeItems_effect [OF assms(1,3), where q = "cfg_Name cfg" and u = True and guard = outstanding
          and f = "extended ?u"])
      (use assms(4) in \<open>simp_all add: extendItems_def extendHeld_eq extended_def Let_def fun_eq_iff\<close>)
qed

theorem Extend_effect_witness:
  "fst (Extend SQLite demo_cfg stringKeyCodec demo_io Second [held_item] held_state) = Inr 1"
proof -
  have "sql_count (held_refs (cfg_Name demo_cfg) True [(''b'', ''c0'')]) (items held_state) = 1" by code_simp
  with Extend_effect [OF demo_state_ok(3) demo_clk held_item_ref, of Second SQLite demo_cfg held_state]
  show ?thesis by (auto simp: Second_def)
qed

section \<open>A claim that lost its item is fenced out\<close>

definition unheld :: "string \<Rightarrow> string \<Rightarrow> string \<Rightarrow> wq_table \<Rightarrow> bool" where
  "unheld q k h t \<longleftrightarrow> (\<forall>r \<in> set t. item_pk r = (q, k) \<longrightarrow> leased_by r \<noteq> Some h)"

text \<open>References nobody holds address no row, in a single statement or in the loop.\<close>

lemma writeHeld_idle:
  "(\<And>n h. h \<in> set hs \<Longrightarrow> snd (held n h (ks h) t) = t) \<Longrightarrow> snd (writeHeld io n hs ks held tot t) = t"
  by (induction hs arbitrary: n tot) (simp_all add: case_prod_beta split: option.splits)

lemma held_refs_stale:
  assumes "\<And>k h. (k, h) \<in> set refs \<Longrightarrow> unheld q k h t" "r \<in> set t"
  shows "\<not> held_refs q u refs r"
  using assms by (fastforce simp: held_refs_def unheld_def item_pk_def split: option.splits)

lemma writeItems_stale:
  assumes stale: "\<And>it k. it \<in> set its \<Longrightarrow> encodeKey codec (Key it) = Inr k \<Longrightarrow> unheld q k (LeasedBy it) t"
    and one: "\<And>refs. (\<And>r. r \<in> set t \<Longrightarrow> \<not> held_refs q False refs r) \<Longrightarrow> snd (write (map fst refs) (map snd refs) t) = t"
    and held: "\<And>n h ks. (\<And>r. r \<in> set t \<Longrightarrow> \<not> heldBy q False h ks r) \<Longrightarrow> snd (held n h ks t) = t"
  shows "snd (writeItems d codec io its write held t) = t"
proof (cases "try_map (itemRef_of codec) its")
  case (Inl e)
  then show ?thesis by (simp add: writeItems_def)
next
  case (Inr refs)
  let ?S = "sortAndDedupeItems refs"
  have "unheld q k h t" if "(k, h) \<in> set refs" for k h
  proof -
    from that try_map_InrD [OF Inr] have "Inr (k, h) \<in> set (map (itemRef_of codec) its)" by simp
    then show ?thesis using stale by (auto simp: itemRef_of_def split: sum.splits)
  qed
  then have S: "\<not> held_refs q False ?S r" if "r \<in> set t" for r
    using that by (intro held_refs_stale) (auto simp: sortAndDedupeItems_def)
  then have "snd (held n h (holder_keys ?S h) t) = t" if "h \<in> set (fst (byHolder ?S))" for n h
    using that held_by_any_refs [of q False ?S]
    by (intro held) (auto simp: byHolder_def held_by_any_def fun_eq_iff)
  then have "snd (writeHeld io 0 (fst (byHolder ?S)) (holder_keys ?S) held 0 t) = t" by (rule writeHeld_idle)
  then show ?thesis using one [OF S] Inr
    by (auto simp: writeItems_def byHolder_def Let_def case_prod_beta split: option.splits)
qed

lemma unfinished_held: "\<not> held_refs q False refs r \<Longrightarrow> \<not> held_refs q True refs r"
  "\<not> heldBy q False h ks r \<Longrightarrow> \<not> heldBy q True h ks r"
  by (auto simp: held_refs_def heldBy_def)

lemma stale_writers:
  assumes "\<And>it k. it \<in> set its \<Longrightarrow> encodeKey codec (Key it) = Inr k \<Longrightarrow> unheld (cfg_Name cfg) k (LeasedBy it) (items st)"
  shows "items (snd (Complete d cfg codec io its st)) = items st"
    and "items (snd (Extend d cfg codec io lease its st)) = items st"
    and "items (snd (Release d cfg codec io delay cause its st)) = items st"
  using assms
  by (auto simp: Complete_def Extend_def Release_def items_discard_count case_prod_beta Let_def
      completeItems_def split_completeItems_def extendItems_def extendHeld_def split_extendItems_def
      releaseItems_def split_releaseItems_def lockedTargets_refs unfinished_held
      intro!: writeItems_stale sql_update_id)

lemma unheld_step:
  assumes "wq_inv (attemptCeiling cfg) s" "wq_step d cfg codec s s'"
    and "h \<in> set (minted s)" "unheld q k h (items (queue s))"
  shows "unheld q k h (items (queue s')) \<and> h \<in> set (minted s')"
proof -
  from assms(2) obtain io now' op where 1: "mono (clk io)" "sys_now s \<le> clk io 0"
      "s' = \<lparr>queue = run_op d cfg codec io op (queue s),
             minted = (if claims op then mint io # minted s else minted s), sys_now = now'\<rparr>"
      "claims op \<longrightarrow> mint io \<notin> set (minted s)"
    unfolding wq_step_iff by blast
  have "epoch < clk io n" for n
    using 1(1,2) assms(1) mono_clk [of io n] by (auto simp: wq_inv_def)
  then have evo: "table_evo (if claims op then Some (mint io) else None) (attemptCeiling cfg)
      (items (queue s)) (items (queue s'))"
    using run_op_evo [of "queue s" io op cfg d codec] assms(1) 1(3) by (simp add: wq_inv_def wf_items_def)
  have "leased_by r' \<noteq> Some h" if "r' \<in> set (items (queue s'))" "item_pk r' = (q, k)" for r'
    using table_evo_holder [OF evo that(1)] that(2) assms(3,4) 1(4)
    by (auto simp: unheld_def split: if_splits)
  with 1(3) assms(3) show ?thesis by (auto simp: unheld_def)
qed

lemma unheld_steps:
  assumes "(wq_step d cfg codec)\<^sup>*\<^sup>* s s'" "wq_inv (attemptCeiling cfg) s"
    and "h \<in> set (minted s)" "unheld q k h (items (queue s))"
  shows "unheld q k h (items (queue s')) \<and> h \<in> set (minted s')"
  using assms
proof (induction rule: rtranclp_induct)
  case (step s' s'')
  then show ?case using wq.steps_inv [OF step.hyps(1)] unheld_step by blast
qed simp

text \<open>
  C1: The fencing of stragglers. Take any reachable state of a shared queue in which a claim that
  was made no longer holds an item (its lease was taken over, released, completed, or the row
  removed), and any further interleaving of operations by any workers. Completing, extending or
  releasing that item under the old claim's name then changes no row at all: a worker that slept
  through its lease cannot complete, prolong or hand back what another claim now holds, on any
  dialect and whatever errors occur.
\<close>

theorem straggler_fenced:
  assumes "reach wq_init (wq_step d cfg codec) s" "(wq_step d cfg codec)\<^sup>*\<^sup>* s s'"
    and "LeasedBy it \<in> set (minted s)" "encodeKey codec (Key it) = Inr k"
    and "\<forall>r \<in> set (items (queue s)). item_pk r = (cfg_Name cfg, k) \<longrightarrow> leased_by r \<noteq> Some (LeasedBy it)"
  shows "items (snd (Complete d cfg codec io [it] (queue s'))) = items (queue s') \<and>
    items (snd (Extend d cfg codec io lease [it] (queue s'))) = items (queue s') \<and>
    items (snd (Release d cfg codec io delay cause [it] (queue s'))) = items (queue s')"
proof -
  have "unheld (cfg_Name cfg) k (LeasedBy it) (items (queue s'))"
    using unheld_steps [OF assms(2) wq.reach_inv [OF assms(1)] assms(3)] assms(5) by (simp add: unheld_def)
  then show ?thesis by (intro conjI stale_writers) (use assms(4) in auto)
qed

text \<open>Concrete runs: one operation at one clock reading, under the name it mints.\<close>

definition run_at :: "dialect \<Rightarrow> Config \<Rightarrow> 'k KeyCodec \<Rightarrow> time \<Rightarrow> string \<Rightarrow> 'k wq_op \<Rightarrow> wq_sys \<Rightarrow> wq_sys" where
  "run_at d cfg codec clock m op s =
     \<lparr>queue = run_op d cfg codec \<lparr>clk = (\<lambda>_. clock), locked = (\<lambda>_. False), fault = (\<lambda>_. None), mint = m, truncateError = id\<rparr> op (queue s),
      minted = (if claims op then m # minted s else minted s), sys_now = clock\<rparr>"

lemma run_at_reach:
  assumes "reach wq_init (wq_step d cfg codec) s" "sys_now s \<le> clock" "claims op \<longrightarrow> m \<notin> set (minted s)"
  shows "reach wq_init (wq_step d cfg codec) (run_at d cfg codec clock m op s)"
  using assms wq_op [of "\<lparr>clk = (\<lambda>_. clock), locked = (\<lambda>_. False), fault = (\<lambda>_. None), mint = m, truncateError = id\<rparr>" s clock op d cfg codec]
  by (intro reach_step [OF assms(1)], cases "claims op") (simp_all add: run_at_def mono_def)

definition demo_start :: wq_sys where
  "demo_start = \<lparr>queue = \<lparr>items = [], notified = [], lastWake = 0\<rparr>, minted = [], sys_now = 1\<rparr>"

text \<open>An item is enqueued, claimed for a millisecond as \<^verbatim>\<open>c0\<close>, and taken over two milliseconds later.\<close>

definition demo_taken_over :: wq_sys where
  "demo_taken_over =
     run_at Postgres demo_cfg stringKeyCodec 4000 ''c1'' (OpClaim 1 Second)
       (run_at Postgres demo_cfg stringKeyCodec 2000 ''c0'' (OpClaim 1 Millisecond)
         (run_at Postgres demo_cfg stringKeyCodec 1000 [] (OpUpsert [\<lparr>key = ''b'', entry_priority = 1, delayMicros = 0\<rparr>])
           demo_start))"

lemma demo_taken_over_reach: "reach wq_init (wq_step Postgres demo_cfg stringKeyCodec) demo_taken_over"
proof -
  have "reach wq_init (wq_step Postgres demo_cfg stringKeyCodec) demo_start"
    by (rule reach_init) (simp add: wq_init_def demo_start_def epoch_def)
  then show ?thesis unfolding demo_taken_over_def
    by (intro run_at_reach) (simp_all add: run_at_def demo_start_def)
qed

theorem straggler_fenced_witness:
  "map leased_by (items (snd (Complete Postgres demo_cfg stringKeyCodec demo_io [held_item] (queue demo_taken_over))))
     = [Some ''c1'']"
proof -
  have "\<forall>r \<in> set (items (queue demo_taken_over)).
      item_pk r = (cfg_Name demo_cfg, ''b'') \<longrightarrow> leased_by r \<noteq> Some (LeasedBy held_item)" by code_simp
  moreover have "LeasedBy held_item \<in> set (minted demo_taken_over)"
    "encodeKey stringKeyCodec (Key held_item) = Inr ''b''" by code_simp+
  ultimately have "items (snd (Complete Postgres demo_cfg stringKeyCodec demo_io [held_item] (queue demo_taken_over)))
      = items (queue demo_taken_over)"
    using straggler_fenced [OF demo_taken_over_reach rtranclp.rtrancl_refl] by blast
  moreover have "map leased_by (items (queue demo_taken_over)) = [Some ''c1'']" by code_simp
  ultimately show ?thesis by simp
qed

text \<open>
  C24: In every reachable state of a shared queue, on every dialect: primary keys are unique, a row has
  a holder exactly when it carries a lease, a completed row has none, the holder is a name some claim
  minted, and no row was handed out more often than the attempt ceiling allows.
\<close>

theorem reachable_items_wf:
  assumes "reach wq_init (wq_step d cfg codec) s"
  shows "distinct (map item_pk (items (queue s))) \<and>
    (\<forall>r \<in> set (items (queue s)).
       (leased_by r = None \<longleftrightarrow> lease_until r = epoch) \<and>
       (completed_at r \<noteq> None \<longrightarrow> leased_by r = None) \<and>
       (\<forall>h. leased_by r = Some h \<longrightarrow> h \<in> set (minted s)) \<and>
       0 \<le> attempts r \<and> (0 < attemptCeiling cfg \<longrightarrow> attempts r \<le> attemptCeiling cfg))"
  using wq.reach_inv [OF assms] by (auto simp: wq_inv_def wf_items_def wf_row_def outstanding_def)

theorem reachable_items_wf_witness:
  "list_all (\<lambda>r. attempts r \<le> 3) (items (queue demo_taken_over))"
proof -
  have "attemptCeiling demo_cfg = 3" by code_simp
  with reachable_items_wf [OF demo_taken_over_reach] show ?thesis by (auto simp: list_all_iff)
qed

section \<open>Remove, Requeue and Reap\<close>

lemma writeKeys_effect:
  assumes "fault io 0 = None" "encodeKeys codec ks = Inr enc"
    and "\<And>es. snd (write [] t) = t" "fst (write [] t) = 0"
  shows "writeKeys codec io ks write t = (Inr (fst (write (sortAndDedupe enc) t)), snd (write (sortAndDedupe enc) t))"
proof (cases "ks = []")
  case True
  with assms(2) have "enc = []" by (simp add: encodeKeys_def)
  with True assms(3,4) show ?thesis by (simp add: writeKeys_def sortAndDedupe_def)
qed (simp add: writeKeys_def assms(1,2) case_prod_beta)

text \<open>
  Requeueing revives exactly the outstanding rows under the given keys, on every dialect: their
  attempts start over and they are available at once, so each is claimable again as soon as no live
  lease is on it, whatever ceiling had stalled it. A completed row, and any row not named, is left
  as it was.
\<close>

theorem Requeue_effect:
  assumes "fault io 0 = None" "encodeKeys codec ks = Inr enc"
    and "row_at item_pk (items st) (cfg_Name cfg, k) = Some r"
  shows "\<exists>r'. row_at item_pk (items (snd (Requeue d cfg codec io ks st))) (cfg_Name cfg, k) = Some r' \<and>
    (if k \<in> set enc \<and> outstanding r
     then r' = r\<lparr>attempts := 0, available_at := split_now d (clk io 0)\<rparr> \<and>
          (lease_until r \<le> split_now d (clk io 0) \<longrightarrow>
           claimablePredicate (cfg_Name cfg) ceiling (split_now d (clk io 0)) r')
     else r' = r)"
proof -
  have rk: "queue_name r = cfg_Name cfg" "item_key r = k"
    using row_at_SomeD [OF assms(3)] by (auto simp: item_pk_def)
  let ?p = "\<lambda>es r. queue_name r = cfg_Name cfg \<and> outstanding r \<and> keyedItems es r"
  let ?w = "\<lambda>enc. if d \<noteq> Postgres then split_requeueItems d (cfg_Name cfg) enc (clk io 0)
                 else requeueItems (cfg_Name cfg) enc (clk io 0)"
  have w: "snd (?w es t) = sql_update (?p es) (revived (split_now d (clk io 0))) t" for es t
    by (simp add: split_requeueItems_def requeueItems_def lockedTargets_def [abs_def] split_now_def Let_def)
  have "fst (?w [] t) = 0" for t
    by (simp add: split_requeueItems_def requeueItems_def lockedTargets_def keyedItems_def affected_rows_def
        sql_count_def Let_def)
  moreover have "snd (?w [] t) = t" for t by (simp add: w) (simp add: keyedItems_def sql_update_def)
  ultimately have "items (snd (Requeue d cfg codec io ks st)) =
      sql_update (?p (sortAndDedupe enc)) (revived (split_now d (clk io 0))) (items st)"
    unfolding items_Requeue by (subst writeKeys_effect [OF assms(1,2)]) (simp_all add: w)
  moreover have p: "?p (sortAndDedupe enc) r \<longleftrightarrow> k \<in> set enc \<and> outstanding r"
    using rk by (auto simp: keyedItems_def sortAndDedupe_def)
  ultimately have "row_at item_pk (items (snd (Requeue d cfg codec io ks st))) (cfg_Name cfg, k) =
      Some (if k \<in> set enc \<and> outstanding r then revived (split_now d (clk io 0)) r else r)"
    using assms(3) by (simp only: items.at_update item_pk_simps option.map p)
  then show ?thesis using rk by (auto simp: revived_def claimablePredicate_def outstanding_def)
qed

theorem Requeue_effect_witness:
  "\<exists>r'. row_at item_pk (items (snd (Requeue SQLite demo_cfg stringKeyCodec demo_io [''b''] held_state))) (''q'', ''b'') = Some r' \<and>
        attempts r' = 0 \<and> leased_by r' = Some ''c0''"
proof -
  have "row_at item_pk (items held_state) (cfg_Name demo_cfg, ''b'') = Some held_row"
    "encodeKeys stringKeyCodec [''b''] = Inr [''b'']" "outstanding held_row" "leased_by held_row = Some ''c0''"
    "cfg_Name demo_cfg = ''q''"
    by code_simp+
  with Requeue_effect [OF demo_state_ok(3), of stringKeyCodec "[''b'']" "[''b'']" held_state demo_cfg "''b''" held_row SQLite 0]
  show ?thesis by auto
qed

text \<open>
  Removing deletes exactly the rows of the queue under the given keys, finished or not, held or
  not, on every dialect; every other row stays as it was.
\<close>

theorem Remove_effect:
  assumes "fault io 0 = None" "encodeKeys codec ks = Inr enc"
  shows "Remove d cfg codec io ks st =
    (Inr (), st\<lparr>items := filter (\<lambda>r. \<not> (queue_name r = cfg_Name cfg \<and> item_key r \<in> set enc)) (items st)\<rparr>)"
proof -
  let ?w = "\<lambda>enc. if d \<noteq> Postgres then split_removeItems (cfg_Name cfg) enc else removeItems (cfg_Name cfg) enc"
  have w: "snd (?w es t) = filter (\<lambda>r. \<not> (queue_name r = cfg_Name cfg \<and> item_key r \<in> set es)) t" for es t
    by (simp add: split_removeItems_def removeItems_def lockedTargets_def keyedItems_def sql_delete_def Let_def)
  have "fst (?w [] t) = 0" for t
    by (simp add: split_removeItems_def removeItems_def lockedTargets_def keyedItems_def sql_count_def Let_def)
  then have "writeKeys codec io ks ?w (items st) =
      (Inr (fst (?w (sortAndDedupe enc) (items st))), snd (?w (sortAndDedupe enc) (items st)))"
    by (intro writeKeys_effect [OF assms]) (simp_all only: w, simp_all)
  then show ?thesis unfolding Remove_def by (simp only: discard_count_def w) (simp add: sortAndDedupe_def)
qed

theorem Remove_effect_witness:
  "map item_key (items (snd (Remove MySQL demo_cfg stringKeyCodec demo_io [''b''] held_state))) = [''a'']"
proof -
  have "encodeKeys stringKeyCodec [''b''] = Inr [''b'']" by code_simp
  from Remove_effect [OF demo_state_ok(3) this, of MySQL demo_cfg held_state] show ?thesis by simp code_simp
qed

section \<open>Reap\<close>

lemma length_sql_delete: "sql_count p t = int (length t) - int (length (sql_delete p t))"
  using sum_length_filter_compl [of p t] by (simp add: sql_count_def sql_delete_def)

lemma sql_count_keys:
  assumes "distinct (map f t)" "finite K" "\<And>r. r \<in> set t \<Longrightarrow> p r \<Longrightarrow> f r \<in> K"
  shows "sql_count p t \<le> int (card K)"
proof -
  have "length (filter p t) = card (f ` set (filter p t))"
    using assms(1) by (metis distinct_card distinct_map_filter length_map list.set_map)
  also have "\<dots> \<le> card K" using assms(2,3) by (intro card_mono) auto
  finally show ?thesis by (simp add: sql_count_def)
qed

lemma sql_count_selected:
  assumes "distinct (map pk t)"
  shows "sql_count (\<lambda>r. pk r \<in> pk ` set (sql_top n k p t)) t = int (length (sql_top n k p t))"
proof -
  let ?D = "sql_top n k p t"
  have D: "distinct (map pk ?D)" by (rule distinct_map_sql_top [OF assms])
  have "pk ` set (filter (\<lambda>r. pk r \<in> pk ` set ?D) t) = pk ` set ?D" by (auto dest: set_sql_top)
  moreover have "length (filter (\<lambda>r. pk r \<in> pk ` set ?D) t) = card (pk ` set (filter (\<lambda>r. pk r \<in> pk ` set ?D) t))"
    using assms by (metis distinct_card distinct_map_filter length_map list.set_map)
  moreover have "length ?D = card (pk ` set ?D)" using D by (metis distinct_card length_map list.set_map)
  ultimately show ?thesis by (simp add: sql_count_def)
qed

text \<open>With distinct primary keys, a selected key is a selected row.\<close>

lemma selected_row:
  assumes "distinct (map pk t)" "r \<in> set t" "pk r \<in> pk ` set (sql_top n k p t)"
  shows "p r"
proof -
  from assms(3) obtain s where "s \<in> set (sql_top n k p t)" "pk s = pk r" by auto
  then have "s \<in> set t" "p s" "pk s = pk r" by (auto dest: set_sql_top)
  with assms(1,2) show ?thesis by (metis option.inject row_at_distinct)
qed

lemma reapCompletedItems_effect:
  assumes "distinct (map item_pk t)" "reapCompletedItems q us limit now lk t = (n, t')" "0 \<le> limit"
  shows "\<exists>p. t' = sql_delete p t \<and> n = sql_count p t \<and> n \<le> limit \<and> (\<forall>r \<in> set t. p r \<longrightarrow> past_retention q (now - us) r)"
proof (intro exI conjI ballI impI)
  let ?P = "\<lambda>r. past_retention q (now - us) r \<and> \<not> lk (item_key r)"
  let ?p = "\<lambda>r. item_pk r \<in> item_pk ` set (sql_top limit item_pk ?P t)"
  show "t' = sql_delete ?p t" using assms(2) by (simp add: reapCompletedItems_def Let_def)
  show "n = sql_count ?p t" using assms(1,2) by (simp add: reapCompletedItems_def Let_def sql_count_selected)
  then show "n \<le> limit" using assms(1,3) length_sql_top_le [of limit item_pk ?P t] by (simp add: sql_count_selected)
  show "past_retention q (now - us) r" if "r \<in> set t" "?p r" for r
    using selected_row [OF assms(1) that] by simp
qed

lemma reapSplit_effect:
  assumes "distinct (map item_pk t)" "reapSplit d cfg io t = (n, t')" "0 \<le> cfg_ReapBatchSize cfg"
  shows "\<exists>p. t' = sql_delete p t \<and> n = sql_count p t \<and> n \<le> cfg_ReapBatchSize cfg \<and>
    (\<forall>r \<in> set t. p r \<longrightarrow> past_retention (cfg_Name cfg) (split_before d (Microseconds (cfg_Retention cfg)) (clk io 1)) r)"
proof -
  let ?D = "selectReapableItems d (cfg_Name cfg) (Microseconds (cfg_Retention cfg)) (cfg_ReapBatchSize cfg) (clk io 0) (locked io) t"
  let ?R = "past_retention (cfg_Name cfg) (split_before d (Microseconds (cfg_Retention cfg)) (clk io 1))"
  let ?p = "\<lambda>r. ?R r \<and> keyedItems ?D r"
  have "t' = sql_delete ?p t \<and> n = sql_count ?p t"
  proof (cases "?D = []")
    case True
    then show ?thesis using assms(2)
      by (simp add: reapSplit_def Let_def keyedItems_def sql_delete_def sql_count_def)
  next
    case False
    then show ?thesis using assms(2)
      by (auto simp: reapSplit_def Let_def deleteReapedItems_def keyedItems_def)
  qed
  moreover have "sql_count ?p t \<le> cfg_ReapBatchSize cfg"
  proof -
    have "sql_count ?p t \<le> int (card (Pair (cfg_Name cfg) ` set ?D))"
      using assms(1) by (intro sql_count_keys [of item_pk]) (auto simp: keyedItems_def past_retention_def item_pk_def)
    also have "\<dots> \<le> int (length ?D)" by (metis card_image_le card_length le_trans List.finite_set of_nat_mono)
    also have "\<dots> \<le> cfg_ReapBatchSize cfg" using assms(3) by (simp add: selectReapableItems_def length_sql_top)
    finally show ?thesis .
  qed
  ultimately show ?thesis by blast
qed

text \<open>
  Reaping only ever deletes rows that were completed and stayed so past the retention period:
  what is left is a sublist of what was there, each missing row had completed more than the
  configured retention before the clock of the delete, the number deleted is the number reported,
  and it never exceeds the batch size.
\<close>

theorem Reap_only_retired:
  assumes "distinct (map item_pk (items st))" "0 \<le> cfg_Retention cfg" "0 \<le> cfg_ReapBatchSize cfg"
    and "clk io 0 \<le> clk io 1" "Reap d cfg io st = (Inr n, st')"
  shows "(\<exists>keep. items st' = filter keep (items st) \<and>
            (\<forall>r \<in> set (items st). \<not> keep r \<longrightarrow> queue_name r = cfg_Name cfg \<and>
               (\<exists>c. completed_at r = Some c \<and> c < clk io 1 - Microseconds (cfg_Retention cfg)))) \<and>
         n = int (length (items st)) - int (length (items st')) \<and> n \<le> cfg_ReapBatchSize cfg"
proof -
  let ?us = "Microseconds (cfg_Retention cfg)"
  obtain p where p: "items st' = sql_delete p (items st)" "n = sql_count p (items st)" "n \<le> cfg_ReapBatchSize cfg"
    "\<forall>r \<in> set (items st). p r \<longrightarrow> past_retention (cfg_Name cfg) (clk io 1 - ?us) r"
  proof (cases "d = Postgres")
    case True
    with assms(5) have "reapCompletedItems (cfg_Name cfg) ?us (cfg_ReapBatchSize cfg) (clk io 0) (locked io) (items st)
        = (n, items st')" by (auto simp: Reap_def split: option.splits prod.splits)
    from reapCompletedItems_effect [OF assms(1) this assms(3)] assms(4) that show ?thesis
      by (fastforce simp: past_retention_def split: option.splits)
  next
    case False
    with assms(5) have "reapSplit d cfg io (items st) = (n, items st')"
      by (auto simp: Reap_def split: option.splits prod.splits)
    from reapSplit_effect [OF assms(1) this assms(3)] that split_before_le [of ?us d "clk io 1"] assms(2)
    show ?thesis by (fastforce simp: past_retention_def Microseconds_nonneg split: option.splits)
  qed
  have keep: "items st' = filter (\<lambda>r. \<not> p r) (items st)" using p(1) by (simp add: sql_delete_def)
  have gone: "queue_name r = cfg_Name cfg \<and> (\<exists>c. completed_at r = Some c \<and> c < clk io 1 - ?us)"
    if "r \<in> set (items st)" "\<not> \<not> p r" for r
    using p(4) that by (auto simp: past_retention_def split: option.splits)
  have "n = int (length (items st)) - int (length (items st'))" using p(1,2) by (simp add: length_sql_delete)
  with keep gone p(3) show ?thesis by blast
qed

definition done_state :: wq_state where
  "done_state = \<lparr>items = [retired 10 (demo_row ''a'' 1), demo_row ''b'' 2, retired 900000 (demo_row ''c'' 3)],
     notified = [], lastWake = 0\<rparr>"

theorem Reap_only_retired_witness:
  "items (snd (Reap SQLite (demo_cfg\<lparr>cfg_Retention := Millisecond\<rparr>) (demo_io\<lparr>clk := (\<lambda>_. 900000)\<rparr>) done_state))
     = [demo_row ''b'' 2, retired 900000 (demo_row ''c'' 3)]
   \<and> fst (Reap SQLite (demo_cfg\<lparr>cfg_Retention := Millisecond\<rparr>) (demo_io\<lparr>clk := (\<lambda>_. 900000)\<rparr>) done_state) = Inr 1"
proof -
  let ?cfg = "demo_cfg\<lparr>cfg_Retention := Millisecond\<rparr>" and ?io = "demo_io\<lparr>clk := (\<lambda>_. 900000)\<rparr>"
  let ?r = "Reap SQLite ?cfg ?io done_state"
  have i: "items (snd ?r) = [demo_row ''b'' 2, retired 900000 (demo_row ''c'' 3)]" by code_simp
  have f: "fst ?r = Inr (projr (fst ?r))" by code_simp
  have "distinct (map item_pk (items done_state))" "length (items done_state) = 3"
    "0 \<le> cfg_Retention ?cfg" "0 \<le> cfg_ReapBatchSize ?cfg" "clk ?io 0 \<le> clk ?io 1"
    by (simp_all add: done_state_def demo_defs item_pk_def retired_def Millisecond_def)
  with Reap_only_retired [of done_state ?cfg ?io SQLite "projr (fst ?r)" "snd ?r"] f
  have "projr (fst ?r) = int 3 - int (length (items (snd ?r)))" by (metis prod.collapse)
  with i f show ?thesis by simp
qed

section \<open>The wake floor\<close>

text \<open>The instants at which callers that arrived at \<open>nows\<close> are let through.\<close>

fun wakes :: "Config \<Rightarrow> time list \<Rightarrow> wq_state \<Rightarrow> time list" where
  "wakes cfg [] st = []"
| "wakes cfg (now # nows) st =
     (let (hold, st') = reserveWake cfg now st in (now + hold) # wakes cfg nows st')"

fun spaced :: "int \<Rightarrow> time \<Rightarrow> time list \<Rightarrow> bool" where
  "spaced gap prev [] = True"
| "spaced gap prev (w # ws) \<longleftrightarrow> prev + gap \<le> w \<and> spaced gap w ws"

text \<open>
  However many workers a burst of notifications wakes, and whenever each arrives, the instants at
  which they are let through are at least the minimum wake interval apart from each other and from
  the previous wake, and nobody is let through before it arrived.
\<close>

theorem reserveWake_floor:
  "spaced (cfg_MinWakeInterval cfg) (lastWake st) (wakes cfg nows st) \<and> list_all2 (\<le>) nows (wakes cfg nows st)"
proof (induction nows arbitrary: st)
  case (Cons now nows)
  from Cons [of "st\<lparr>lastWake := now\<rparr>"] Cons [of "st\<lparr>lastWake := lastWake st + cfg_MinWakeInterval cfg\<rparr>"]
  show ?case by (auto simp: reserveWake_def Let_def)
qed simp

end
