(* ===== verification/WQ_Runner.thy ===== *)
theory WQ_Runner
  imports WQ_Writers
begin

text \<open>
  The claim-work-complete loop over a queue, \<^verbatim>\<open>workqueue/runner.go\<close>.

  The handler is a parameter. \<^verbatim>\<open>work\<close> starts a goroutine per item under a bounded number of slots;
  \<open>work_step\<close> is its step relation, one rule per point at which goroutines interleave, and the
  cancellation of the runner's context is a step of its own. The lemmas show that it always ends and
  what it has decided when it does; \<open>lease_settler\<close> is the contract of the queue that the recording
  of those decisions rests on, interpreted on the queue's own writers.
\<close>

section \<open>Configuration\<close>

record RunnerConfig =
  rc_Poll :: duration
  rc_Lease :: duration
  rc_ExtendInterval :: duration
  rc_RetryDelay :: duration
  rc_Batch :: int
  rc_Concurrency :: int

definition DefaultRunnerPoll :: duration where "DefaultRunnerPoll = 5 * Second"
definition DefaultRunnerLease :: duration where "DefaultRunnerLease = 60 * Second"
definition DefaultRunnerExtendDivisor :: int where "DefaultRunnerExtendDivisor = 3"
definition DefaultRunnerRetryDelay :: duration where "DefaultRunnerRetryDelay = 30 * Second"
definition DefaultRunnerBatch :: int where "DefaultRunnerBatch = 20"
definition DefaultRunnerConcurrency :: int where "DefaultRunnerConcurrency = 4"

definition RunnerConfig_EnsureDefaults :: "RunnerConfig \<Rightarrow> RunnerConfig" where
  "RunnerConfig_EnsureDefaults cfg =
     (let lease = (if rc_Lease cfg \<le> 0 then DefaultRunnerLease else rc_Lease cfg) in
      \<lparr>rc_Poll = (if rc_Poll cfg \<le> 0 then DefaultRunnerPoll else rc_Poll cfg),
       rc_Lease = lease,
       rc_ExtendInterval = (if rc_ExtendInterval cfg \<le> 0 then tdiv lease DefaultRunnerExtendDivisor
                            else rc_ExtendInterval cfg),
       rc_RetryDelay = (if rc_RetryDelay cfg \<le> 0 then DefaultRunnerRetryDelay else rc_RetryDelay cfg),
       rc_Batch = (if rc_Batch cfg \<le> 0 then DefaultRunnerBatch else rc_Batch cfg),
       rc_Concurrency = (if rc_Concurrency cfg \<le> 0 then DefaultRunnerConcurrency else rc_Concurrency cfg)\<rparr>)"

definition RunnerConfig_Validate :: "RunnerConfig \<Rightarrow> bool" where
  "RunnerConfig_Validate cfg \<longleftrightarrow>
     Millisecond \<le> rc_Poll cfg \<and> Second \<le> rc_Lease cfg \<and>
     100 * Millisecond \<le> rc_ExtendInterval cfg \<and> rc_ExtendInterval cfg \<le> tdiv (rc_Lease cfg) 2 \<and>
     Millisecond \<le> rc_RetryDelay cfg \<and> 1 \<le> rc_Batch cfg \<and> 1 \<le> rc_Concurrency cfg"

text \<open>\<^verbatim>\<open>NewRunner\<close>: the batch resolved against the queue's own ceiling.\<close>

definition runner_batch :: "RunnerConfig \<Rightarrow> Config \<Rightarrow> int" where
  "runner_batch rc cfg =
     (if 0 < cfg_MaxClaimBatch cfg \<and> cfg_MaxClaimBatch cfg < rc_Batch rc then cfg_MaxClaimBatch cfg else rc_Batch rc)"

definition NewRunner :: "RunnerConfig \<Rightarrow> Config \<Rightarrow> (RunnerConfig \<times> int) option" where
  "NewRunner rc cfg =
     (let rc' = RunnerConfig_EnsureDefaults rc in
      if RunnerConfig_Validate rc' then Some (rc', runner_batch rc' cfg) else None)"

section \<open>Handling one item\<close>

text \<open>
  What a handler does to itself, and the two renderings of another module that wrap its error: the
  one \<^verbatim>\<open>op.Error\<close> adds and the one a contained panic is reported under.
\<close>

datatype handler_result = HandlerReturned | HandlerFailed string | HandlerPanicked string

record rendering =
  wrap_error :: "string \<Rightarrow> string"
  wrap_panic :: "string \<Rightarrow> string"

definition handle :: "rendering \<Rightarrow> ('k Item \<Rightarrow> handler_result) \<Rightarrow> 'k Item \<Rightarrow> string option" where
  "handle rend handler it =
     (case handler it of
        HandlerReturned \<Rightarrow> None
      | HandlerFailed msg \<Rightarrow> Some (wrap_error rend msg)
      | HandlerPanicked v \<Rightarrow> Some (wrap_error rend (wrap_panic rend v)))"

section \<open>The items in flight\<close>

definition item_ref :: "'k Item \<Rightarrow> 'k \<times> string" where
  "item_ref it = (Key it, LeasedBy it)"

definition inFlight_add :: "'k Item \<Rightarrow> 'k Item list \<Rightarrow> 'k Item list" where
  "inFlight_add it fs = fs @ [it]"

fun inFlight_remove :: "'k Item \<Rightarrow> 'k Item list \<Rightarrow> 'k Item list" where
  "inFlight_remove it [] = []"
| "inFlight_remove it (f # fs) =
     (if Key f = Key it \<and> LeasedBy f = LeasedBy it then fs else f # inFlight_remove it fs)"

section \<open>Working a batch\<close>

text \<open>
  A goroutine holds its slot from the moment it is spawned until it has left: it enters the set in
  flight, runs the handler and records the outcome, leaves the set, and frees the slot.
\<close>

datatype phase = Spawned | Handling | Recorded

type_synonym 'k failureGroup = "string \<times> 'k Item list"

record 'k work_state =
  todo :: "'k Item list"
  slots :: "('k Item \<times> phase) list"
  in_flight :: "'k Item list"
  handled :: "'k Item list"
  failed :: "'k failureGroup list"
  undispatched :: "'k Item list"
  ctx_done :: bool

definition work_start :: "'k Item list \<Rightarrow> bool \<Rightarrow> 'k work_state" where
  "work_start its cancelled =
     \<lparr>todo = its, slots = [], in_flight = [], handled = [], failed = [], undispatched = [], ctx_done = cancelled\<rparr>"

text \<open>Failures are grouped by rendered message, in the order the messages first appeared.\<close>

fun add_failure :: "string \<Rightarrow> 'k Item \<Rightarrow> 'k failureGroup list \<Rightarrow> 'k failureGroup list" where
  "add_failure msg it [] = [(msg, [it])]"
| "add_failure msg it (g # gs) =
     (if fst g = msg then (msg, snd g @ [it]) # gs else g # add_failure msg it gs)"

definition record_outcome :: "'k Item \<Rightarrow> string option \<Rightarrow> 'k work_state \<Rightarrow> 'k work_state" where
  "record_outcome it outcome w =
     (case outcome of
        Some msg \<Rightarrow> w\<lparr>failed := add_failure msg it (failed w)\<rparr>
      | None \<Rightarrow> w\<lparr>handled := handled w @ [it]\<rparr>)"

inductive work_step ::
  "nat \<Rightarrow> ('k Item \<Rightarrow> string option) \<Rightarrow> 'k work_state \<Rightarrow> 'k work_state \<Rightarrow> bool"
  for conc :: nat and run :: "'k Item \<Rightarrow> string option" where
  ws_cancel: "\<not> ctx_done w \<Longrightarrow> work_step conc run w (w\<lparr>ctx_done := True\<rparr>)"
| ws_spawn: "todo w = it # rest \<Longrightarrow> length (slots w) < conc \<Longrightarrow> \<not> ctx_done w \<Longrightarrow>
     work_step conc run w (w\<lparr>todo := rest, slots := slots w @ [(it, Spawned)]\<rparr>)"
| ws_break: "todo w \<noteq> [] \<Longrightarrow> length (slots w) < conc \<Longrightarrow> ctx_done w \<Longrightarrow>
     work_step conc run w (w\<lparr>todo := [], undispatched := undispatched w @ todo w\<rparr>)"
| ws_enter: "slots w = xs @ (it, Spawned) # ys \<Longrightarrow>
     work_step conc run w (w\<lparr>slots := xs @ (it, Handling) # ys, in_flight := inFlight_add it (in_flight w)\<rparr>)"
| ws_record: "slots w = xs @ (it, Handling) # ys \<Longrightarrow>
     work_step conc run w (record_outcome it (run it) (w\<lparr>slots := xs @ (it, Recorded) # ys\<rparr>))"
| ws_leave: "slots w = xs @ (it, Recorded) # ys \<Longrightarrow>
     work_step conc run w (w\<lparr>slots := xs @ ys, in_flight := inFlight_remove it (in_flight w)\<rparr>)"

definition work_done :: "'k work_state \<Rightarrow> bool" where
  "work_done w \<longleftrightarrow> todo w = [] \<and> slots w = []"

section \<open>The pass\<close>

definition ErrRunnerStopped :: string where
  "ErrRunnerStopped = ''work queue runner stopped before the item was started''"

text \<open>\<^verbatim>\<open>record\<close>: the outcome writes, each with its own environment; a failed one is only logged.\<close>

fun release_groups ::
  "dialect \<Rightarrow> Config \<Rightarrow> 'k KeyCodec \<Rightarrow> (nat \<Rightarrow> wq_io) \<Rightarrow> duration \<Rightarrow> nat \<Rightarrow> 'k failureGroup list \<Rightarrow> wq_state \<Rightarrow> wq_state" where
  "release_groups d cfg codec ios delay n [] st = st"
| "release_groups d cfg codec ios delay n (g # gs) st =
     release_groups d cfg codec ios delay (Suc n) gs
       (snd (Release d cfg codec (ios n) delay (Some (fst g)) (snd g) st))"

definition runner_record ::
  "dialect \<Rightarrow> Config \<Rightarrow> 'k KeyCodec \<Rightarrow> RunnerConfig \<Rightarrow> (nat \<Rightarrow> wq_io)
    \<Rightarrow> 'k Item list \<Rightarrow> 'k failureGroup list \<Rightarrow> 'k Item list \<Rightarrow> wq_state \<Rightarrow> wq_state" where
  "runner_record d cfg codec rc ios hs fs us st =
     (let st1 = (if hs = [] then st else snd (Complete d cfg codec (ios 0) hs st));
          st2 = release_groups d cfg codec ios (rc_RetryDelay rc) 1 fs st1
      in if us = [] then st2
         else snd (Release d cfg codec (ios (Suc (length fs))) 0 (Some ErrRunnerStopped) us st2))"

text \<open>\<^verbatim>\<open>extend\<close>: one tick of the heartbeat, and how many leases it found lost.\<close>

definition runner_extend ::
  "dialect \<Rightarrow> Config \<Rightarrow> 'k KeyCodec \<Rightarrow> RunnerConfig \<Rightarrow> wq_io \<Rightarrow> 'k Item list \<Rightarrow> wq_state \<Rightarrow> int \<times> wq_state" where
  "runner_extend d cfg codec rc io running st =
     (if running = [] then (0, st)
      else (case Extend d cfg codec io (rc_Lease rc) running st of
              (Inl e, st') \<Rightarrow> (0, st')
            | (Inr held, st') \<Rightarrow>
                (if 0 < int (length running) - held then int (length running) - held else 0, st')))"

text \<open>
  \<^verbatim>\<open>pass\<close>. \<open>working\<close> is what happens between the claim and the outcome writes: the decisions of
  \<^verbatim>\<open>work\<close>, and the queue as the heartbeat and every other worker have left it meanwhile.
\<close>

definition pass ::
  "dialect \<Rightarrow> Config \<Rightarrow> 'k KeyCodec \<Rightarrow> RunnerConfig \<Rightarrow> wq_io \<Rightarrow> (nat \<Rightarrow> wq_io)
    \<Rightarrow> ('k Item list \<Rightarrow> wq_state \<Rightarrow> 'k work_state \<times> wq_state) \<Rightarrow> wq_state
    \<Rightarrow> (wq_error + int) \<times> wq_state" where
  "pass d cfg codec rc io ios working st =
     (case Claim d cfg codec io (runner_batch rc cfg) (rc_Lease rc) st of
        (Inl e, st1) \<Rightarrow> (Inl e, st1)
      | (Inr its, st1) \<Rightarrow>
          if its = [] then (Inr 0, st1)
          else (let (w, st2) = working its st1 in
                (Inr (int (length its)), runner_record d cfg codec rc ios (handled w) (failed w) (undispatched w) st2)))"

text \<open>
  \<^verbatim>\<open>Run\<close>, over the iterations that happen: whether the context was already done, what the pass
  returned, and what the wait returned. It ends with an error or is still running.
\<close>

datatype run_end = RunStopped wq_error | RunWorking

fun Run :: "int \<Rightarrow> (bool \<times> (wq_error + int) \<times> (wq_error + unit)) list \<Rightarrow> run_end" where
  "Run batch [] = RunWorking"
| "Run batch ((cancelled, passed, waited) # rest) =
     (if cancelled then RunStopped ContextDone
      else (case passed of
              Inr claimed \<Rightarrow>
                if batch \<le> claimed then Run batch rest
                else (case waited of Inl e \<Rightarrow> RunStopped e | Inr _ \<Rightarrow> Run batch rest)
            | Inl _ \<Rightarrow> (case waited of Inl e \<Rightarrow> RunStopped e | Inr _ \<Rightarrow> Run batch rest)))"

section \<open>The bookkeeping of a batch\<close>

definition pending :: "('k Item \<times> phase) list \<Rightarrow> 'k Item list" where
  "pending gs = map fst (filter (\<lambda>g. snd g \<noteq> Recorded) gs)"

definition entered :: "('k Item \<times> phase) list \<Rightarrow> 'k Item list" where
  "entered gs = map fst (filter (\<lambda>g. snd g \<noteq> Spawned) gs)"

definition decided :: "'k work_state \<Rightarrow> 'k Item multiset" where
  "decided w = mset (handled w) + mset (concat (map snd (failed w))) + mset (undispatched w)"

definition outcomes_ok :: "('k Item \<Rightarrow> string option) \<Rightarrow> 'k Item list \<Rightarrow> 'k failureGroup list \<Rightarrow> bool" where
  "outcomes_ok run hs fs \<longleftrightarrow>
     (\<forall>it \<in> set hs. run it = None) \<and>
     (\<forall>g \<in> set fs. snd g \<noteq> [] \<and> (\<forall>it \<in> set (snd g). run it = Some (fst g))) \<and> distinct (map fst fs)"

definition work_inv :: "nat \<Rightarrow> ('k Item \<Rightarrow> string option) \<Rightarrow> 'k Item list \<Rightarrow> 'k work_state \<Rightarrow> bool" where
  "work_inv conc run its w \<longleftrightarrow>
     mset its = mset (todo w) + mset (pending (slots w)) + decided w \<and>
     length (slots w) \<le> conc \<and>
     mset (map item_ref (in_flight w)) = mset (map item_ref (entered (slots w))) \<and>
     outcomes_ok run (handled w) (failed w) \<and>
     (undispatched w \<noteq> [] \<longrightarrow> ctx_done w \<and> todo w = [])"

lemma add_failure_mset: "mset (concat (map snd (add_failure msg it gs))) = add_mset it (mset (concat (map snd gs)))"
  by (induction gs) auto

lemma add_failure_groups:
  "g \<in> set (add_failure msg it gs) \<Longrightarrow>
   g \<in> set gs \<or> (\<exists>old. fst g = msg \<and> snd g = old @ [it] \<and> (old = [] \<or> (msg, old) \<in> set gs))"
  by (induction gs) (auto split: if_splits)

lemma add_failure_fst: "fst ` set (add_failure msg it gs) = insert msg (fst ` set gs)"
  by (induction gs) auto

lemma add_failure_distinct: "distinct (map fst gs) \<Longrightarrow> distinct (map fst (add_failure msg it gs))"
  by (induction gs) (auto simp: add_failure_fst)

lemma inFlight_remove_mset:
  "item_ref it \<in> set (map item_ref fs) \<Longrightarrow>
   add_mset (item_ref it) (mset (map item_ref (inFlight_remove it fs))) = mset (map item_ref fs)"
  by (induction fs) (auto simp: item_ref_def add_mset_commute)

lemma pending_simps [simp]:
  "pending (xs @ ys) = pending xs @ pending ys" "pending [] = []"
  "pending ((it, ph) # gs) = (if ph = Recorded then pending gs else it # pending gs)"
  by (simp_all add: pending_def)

lemma entered_simps [simp]:
  "entered (xs @ ys) = entered xs @ entered ys" "entered [] = []"
  "entered ((it, ph) # gs) = (if ph = Spawned then entered gs else it # entered gs)"
  by (simp_all add: entered_def)

lemma record_outcome_sel [simp]:
  "todo (record_outcome it out w) = todo w" "slots (record_outcome it out w) = slots w"
  "in_flight (record_outcome it out w) = in_flight w" "undispatched (record_outcome it out w) = undispatched w"
  "ctx_done (record_outcome it out w) = ctx_done w"
  by (simp_all add: record_outcome_def split: option.splits)

lemma decided_record: "decided (record_outcome it out w) = add_mset it (decided w)"
  by (simp add: record_outcome_def decided_def add_failure_mset split: option.splits)

lemma decided_frame:
  "handled w' = handled w \<Longrightarrow> failed w' = failed w \<Longrightarrow> undispatched w' = undispatched w \<Longrightarrow> decided w' = decided w"
  by (simp add: decided_def)

lemma outcomes_ok_record:
  assumes "outcomes_ok run (handled w) (failed w)"
  shows "outcomes_ok run (handled (record_outcome it (run it) w)) (failed (record_outcome it (run it) w))"
proof (cases "run it")
  case (Some msg)
  have "snd g \<noteq> [] \<and> (\<forall>it' \<in> set (snd g). run it' = Some (fst g))"
    if "g \<in> set (add_failure msg it (failed w))" for g
    using add_failure_groups [OF that] assms Some by (fastforce simp: outcomes_ok_def)
  with Some assms show ?thesis by (simp add: outcomes_ok_def record_outcome_def add_failure_distinct)
qed (use assms in \<open>simp add: outcomes_ok_def record_outcome_def\<close>)

lemma work_step_inv:
  assumes "work_step conc run w w'" "work_inv conc run its w"
  shows "work_inv conc run its w'"
  using assms
proof (induction rule: work_step.induct)
  case (ws_record w xs it ys)
  let ?w = "w\<lparr>slots := xs @ (it, Recorded) # ys\<rparr>"
  have "decided ?w = decided w" by (simp add: decided_def)
  with ws_record show ?case
    using outcomes_ok_record [of run ?w it] by (simp add: work_inv_def decided_record)
next
  case (ws_leave w xs it ys)
  then have "item_ref it \<in># mset (map item_ref (in_flight w))" by (auto simp: work_inv_def)
  then have "add_mset (item_ref it) (mset (map item_ref (inFlight_remove it (in_flight w)))) = mset (map item_ref (in_flight w))"
    by (intro inFlight_remove_mset) simp
  with ws_leave show ?case by (auto simp: work_inv_def decided_def)
qed (auto simp: work_inv_def decided_def inFlight_add_def)

lemma work_inv_start: "work_inv conc run its (work_start its cancelled)"
  by (simp add: work_inv_def work_start_def decided_def outcomes_ok_def)

interpretation work: invariant_system "\<lambda>w. \<exists>c. w = work_start its c" "work_step conc run" "work_inv conc run its"
  for its conc run
  by unfold_locales (auto simp: work_inv_start intro: work_step_inv)

text \<open>Every step uses up some of the work left.\<close>

fun phase_left :: "phase \<Rightarrow> nat" where
  "phase_left Spawned = 3"
| "phase_left Handling = 2"
| "phase_left Recorded = 1"

definition work_left :: "'k work_state \<Rightarrow> nat" where
  "work_left w = 4 * length (todo w) + (\<Sum>g \<leftarrow> slots w. phase_left (snd g)) + (if ctx_done w then 0 else 1)"

lemma work_step_decreases: "work_step conc run w w' \<Longrightarrow> work_left w' < work_left w"
  by (induction rule: work_step.induct) (auto simp: work_left_def)

lemma work_progress:
  assumes "0 < conc" "length (slots w) \<le> conc" "\<not> work_done w"
  shows "\<exists>w'. work_step conc run w w'"
proof (cases "slots w")
  case Nil
  with assms have "todo w \<noteq> []" by (simp add: work_done_def)
  then obtain it rest where "todo w = it # rest" by (cases "todo w") auto
  with Nil assms(1) ws_spawn [of w it rest conc run] ws_break [of w conc run] show ?thesis
    by (cases "ctx_done w") auto
next
  case (Cons g gs)
  obtain it ph where "g = (it, ph)" by (cases g)
  with Cons have "slots w = [] @ (it, ph) # gs" by simp
  then show ?thesis by (cases ph) (blast intro: ws_enter ws_record ws_leave)+
qed

text \<open>
  C32: Working a batch ends and decides every item exactly once. However the goroutines interleave and
  whenever the context is cancelled, when it is over the claimed items are, as a multiset, those
  handled, those failed and those never started; each handled item's handler returned no error, each
  group of failures is not empty and holds only items that failed with its message, no message has
  two groups, nothing is left in flight, and nothing was left unstarted unless the context was
  cancelled.
\<close>

theorem work_decides_every_item:
  assumes "(work_step conc run)\<^sup>*\<^sup>* (work_start its cancelled) w" "work_done w"
  shows "mset its = mset (handled w) + mset (concat (map snd (failed w))) + mset (undispatched w) \<and>
    (\<forall>it \<in> set (handled w). run it = None) \<and>
    (\<forall>g \<in> set (failed w). snd g \<noteq> [] \<and> (\<forall>it \<in> set (snd g). run it = Some (fst g))) \<and>
    distinct (map fst (failed w)) \<and> in_flight w = [] \<and> (undispatched w \<noteq> [] \<longrightarrow> ctx_done w)"
  using work.steps_inv [OF assms(1) work_inv_start] assms(2)
  by (simp add: work_inv_def work_done_def decided_def outcomes_ok_def)

definition demo_run :: "nat Item \<Rightarrow> string option" where
  "demo_run it = (if Key it = 0 then Some ''boom'' else None)"

definition demo_item :: "nat \<Rightarrow> nat Item" where
  "demo_item n = \<lparr>Key = n, LeasedBy = ''c'', Priority = 0, Attempts = 1, Reclaimed = False\<rparr>"

definition demo_done :: "nat work_state" where
  "demo_done = \<lparr>todo = [], slots = [], in_flight = [], handled = [], failed = [(''boom'', [demo_item 0])],
     undispatched = [demo_item 1], ctx_done = True\<rparr>"

lemma demo_run_steps: "(work_step 1 demo_run)\<^sup>*\<^sup>* (work_start [demo_item 0, demo_item 1] False) demo_done"
proof -
  let ?a = "demo_item 0" and ?b = "demo_item 1"
  let ?w = "\<lambda>td sl fl fa un cx. \<lparr>todo = td, slots = sl, in_flight = fl, handled = [], failed = fa, undispatched = un, ctx_done = cx\<rparr>"
  have s1: "work_step 1 demo_run (?w [?a, ?b] [] [] [] [] False) (?w [?b] [(?a, Spawned)] [] [] [] False)"
    using ws_spawn [of "?w [?a, ?b] [] [] [] [] False" ?a "[?b]" 1 demo_run] by simp
  have s2: "work_step 1 demo_run (?w [?b] [(?a, Spawned)] [] [] [] False) (?w [?b] [(?a, Handling)] [?a] [] [] False)"
    using ws_enter [of "?w [?b] [(?a, Spawned)] [] [] [] False" "[]" ?a "[]" 1 demo_run] by (simp add: inFlight_add_def)
  have s3: "work_step 1 demo_run (?w [?b] [(?a, Handling)] [?a] [] [] False) (?w [?b] [(?a, Handling)] [?a] [] [] True)"
    using ws_cancel [of "?w [?b] [(?a, Handling)] [?a] [] [] False" 1 demo_run] by simp
  have s4: "work_step 1 demo_run (?w [?b] [(?a, Handling)] [?a] [] [] True)
      (?w [?b] [(?a, Recorded)] [?a] [(''boom'', [?a])] [] True)"
    using ws_record [of "?w [?b] [(?a, Handling)] [?a] [] [] True" "[]" ?a "[]" 1 demo_run]
    by (simp add: record_outcome_def demo_run_def demo_item_def)
  have s5: "work_step 1 demo_run (?w [?b] [(?a, Recorded)] [?a] [(''boom'', [?a])] [] True)
      (?w [?b] [] [] [(''boom'', [?a])] [] True)"
    using ws_leave [of "?w [?b] [(?a, Recorded)] [?a] [(''boom'', [?a])] [] True" "[]" ?a "[]" 1 demo_run] by simp
  have s6: "work_step 1 demo_run (?w [?b] [] [] [(''boom'', [?a])] [] True) demo_done"
    using ws_break [of "?w [?b] [] [] [(''boom'', [?a])] [] True" 1 demo_run] by (simp add: demo_done_def)
  from s1 s2 s3 s4 s5 s6 show ?thesis unfolding work_start_def
    by (rule converse_rtranclp_into_rtranclp [OF _ converse_rtranclp_into_rtranclp [OF _ converse_rtranclp_into_rtranclp
          [OF _ converse_rtranclp_into_rtranclp [OF _ converse_rtranclp_into_rtranclp [OF _ r_into_rtranclp]]]]])
qed

theorem work_decides_every_item_witness:
  "mset [demo_item 0, demo_item 1] =
   mset (handled demo_done) + mset (concat (map snd (failed demo_done))) + mset (undispatched demo_done)"
  using work_decides_every_item [OF demo_run_steps] by (simp add: work_done_def demo_done_def)

text \<open>
  With at least one slot, \<^verbatim>\<open>work\<close> cannot deadlock and cannot run forever: every state its goroutines
  can reach either is over or has a next step, never holds more items than there are slots, extends
  at most the items whose handlers are running, and every sequence of steps is finite.
\<close>

theorem work_returns:
  assumes "0 < conc" "(work_step conc run)\<^sup>*\<^sup>* (work_start its cancelled) w"
  shows "length (in_flight w) \<le> conc \<and> (work_done w \<or> (\<exists>w'. work_step conc run w w')) \<and>
    wfp (\<lambda>w' w. work_step conc run w w')"
proof (intro conjI)
  from work.steps_inv [OF assms(2) work_inv_start] have inv: "work_inv conc run its w" .
  then have "length (in_flight w) = length (entered (slots w))"
    unfolding work_inv_def by (metis length_map mset_eq_length)
  also have "\<dots> \<le> length (slots w)" by (simp add: entered_def)
  finally show "length (in_flight w) \<le> conc" using inv by (simp add: work_inv_def)
  show "work_done w \<or> (\<exists>w'. work_step conc run w w')"
    using work_progress [OF assms(1)] inv by (auto simp: work_inv_def)
  show "wfp (\<lambda>w' w. work_step conc run w w')"
    by (rule wfp_if_convertible_to_nat [of _ work_left]) (rule work_step_decreases)
qed

theorem work_returns_witness: "length (in_flight demo_done) \<le> 1"
  using work_returns [OF _ demo_run_steps] by simp

section \<open>Settling what was claimed\<close>

text \<open>
  The contract the recording of a pass relies on: in a quiet environment (no statement fails),
  completing or releasing items gives up the leases they name and no others.
\<close>

locale lease_settler =
  fixes quiet :: "'e \<Rightarrow> bool" and inv :: "'s \<Rightarrow> bool" and holds :: "'s \<Rightarrow> 'r set"
    and good :: "'i \<Rightarrow> bool" and ref :: "'i \<Rightarrow> 'r"
    and complete :: "'e \<Rightarrow> 'i list \<Rightarrow> 's \<Rightarrow> 's" and release :: "'e \<Rightarrow> 'c \<Rightarrow> 'i list \<Rightarrow> 's \<Rightarrow> 's"
  assumes complete_inv: "quiet e \<Longrightarrow> (\<And>i. i \<in> set its \<Longrightarrow> good i) \<Longrightarrow> inv s \<Longrightarrow> inv (complete e its s)"
    and release_inv: "quiet e \<Longrightarrow> (\<And>i. i \<in> set its \<Longrightarrow> good i) \<Longrightarrow> inv s \<Longrightarrow> inv (release e c its s)"
    and complete_holds: "quiet e \<Longrightarrow> (\<And>i. i \<in> set its \<Longrightarrow> good i) \<Longrightarrow> inv s \<Longrightarrow>
      holds (complete e its s) = holds s - ref ` set its"
    and release_holds: "quiet e \<Longrightarrow> (\<And>i. i \<in> set its \<Longrightarrow> good i) \<Longrightarrow> inv s \<Longrightarrow>
      holds (release e c its s) = holds s - ref ` set its"
begin

lemma releases:
  assumes "inv s" "\<And>e c its i. (e, c, its) \<in> set xs \<Longrightarrow> quiet e \<and> (i \<in> set its \<longrightarrow> good i)"
  shows "inv (fold (\<lambda>(e, c, its). release e c its) xs s) \<and>
    holds (fold (\<lambda>(e, c, its). release e c its) xs s) = holds s - ref ` set (concat (map (snd \<circ> snd) xs))"
  using assms
proof (induction xs arbitrary: s)
  case (Cons x xs)
  obtain e c its where x: "x = (e, c, its)" by (cases x)
  have q: "quiet e" "\<And>i. i \<in> set its \<Longrightarrow> good i" using Cons.prems(2) [of e c its] x by auto
  then have "inv (release e c its s)" "holds (release e c its s) = holds s - ref ` set its"
    using release_inv [of e its] release_holds [of e its] Cons.prems(1) by blast+
  moreover have sub: "\<And>e c its i. (e, c, its) \<in> set xs \<Longrightarrow> quiet e \<and> (i \<in> set its \<longrightarrow> good i)"
    using Cons.prems(2) by (meson list.set_intros(2))
  moreover from calculation(1) have "inv (fold (\<lambda>(e, c, its). release e c its) xs (release e c its s)) \<and>
      holds (fold (\<lambda>(e, c, its). release e c its) xs (release e c its s)) =
      holds (release e c its s) - ref ` set (concat (map (snd \<circ> snd) xs))"
    using sub by (rule Cons.IH)
  ultimately show ?case using x by auto
qed simp

lemma settles:
  assumes "inv s" "quiet e" "\<And>e c its. (e, c, its) \<in> set xs \<Longrightarrow> quiet e"
    and "\<And>i. i \<in> set hs \<union> set (concat (map (snd \<circ> snd) xs)) \<Longrightarrow> good i"
  shows "holds (fold (\<lambda>(e, c, its). release e c its) xs (complete e hs s)) =
    holds s - ref ` (set hs \<union> set (concat (map (snd \<circ> snd) xs)))"
proof -
  have "inv (complete e hs s)" "holds (complete e hs s) = holds s - ref ` set hs"
    using assms complete_inv [of e hs] complete_holds [of e hs] by auto
  with releases [of "complete e hs s" xs] assms(3,4) show ?thesis by (force simp: image_Un)
qed

end

definition quiet_io :: "wq_io \<Rightarrow> bool" where
  "quiet_io io \<longleftrightarrow> (\<forall>n. fault io n = None \<and> clk io n = clk io 0)"

definition held_unfinished :: "wq_state \<Rightarrow> bool" where
  "held_unfinished st \<longleftrightarrow> (\<forall>r \<in> set (items st). leased_by r \<noteq> None \<longrightarrow> outstanding r)"

definition held_pairs :: "string \<Rightarrow> wq_state \<Rightarrow> (string \<times> string) set" where
  "held_pairs q st = {(k, h). \<exists>r \<in> set (items st). item_pk r = (q, k) \<and> leased_by r = Some h}"

definition encodable :: "'k KeyCodec \<Rightarrow> 'k Item \<Rightarrow> bool" where
  "encodable codec it \<longleftrightarrow> \<not> isl (encodeKey codec (Key it))"

definition stored_ref :: "'k KeyCodec \<Rightarrow> 'k Item \<Rightarrow> string \<times> string" where
  "stored_ref codec it = (projr (encodeKey codec (Key it)), LeasedBy it)"

lemma refs_of_encodable:
  "(\<And>i. i \<in> set its \<Longrightarrow> encodable codec i) \<Longrightarrow> try_map (itemRef_of codec) its = Inr (map (stored_ref codec) its)"
  by (rule try_map_total) (auto simp: itemRef_of_def encodable_def stored_ref_def isl_def split: sum.splits)

lemma quiet_clk: "quiet_io io \<Longrightarrow> clk io = (\<lambda>_. clk io 0)" "quiet_io io \<Longrightarrow> fault io n = None"
  by (auto simp: quiet_io_def)

lemma held_pairs_map:
  assumes "\<And>r. item_pk (g r) = item_pk r"
    and "\<And>r k h. r \<in> set (items st) \<Longrightarrow> item_pk r = (q, k) \<Longrightarrow>
      leased_by (g r) = Some h \<longleftrightarrow> leased_by r = Some h \<and> (k, h) \<notin> R"
  shows "held_pairs q (st\<lparr>items := map g (items st)\<rparr>) = held_pairs q st - R"
  using assms by (auto simp: held_pairs_def)

lemma held_pairs_update:
  assumes "held_unfinished st" "\<And>r. leased_by (f r) = None" "\<And>r. item_pk (f r) = item_pk r"
  shows "held_pairs q (st\<lparr>items := sql_update (held_refs q u refs) f (items st)\<rparr>) = held_pairs q st - set refs"
proof -
  let ?g = "\<lambda>r. if held_refs q u refs r then f r else r"
  have pk: "item_pk (?g r) = item_pk r" for r using assms(3) by simp
  have "leased_by (?g r) = Some h \<longleftrightarrow> leased_by r = Some h \<and> (k, h) \<notin> set refs"
    if "r \<in> set (items st)" "item_pk r = (q, k)" for r k h
    using assms(1,2) that by (auto simp: held_unfinished_def held_refs_def item_pk_def)
  from held_pairs_map [of ?g, OF pk this] show ?thesis by (simp add: sql_update_def)
qed

lemma held_unfinished_update:
  assumes "held_unfinished st" "\<And>r. leased_by (f r) = None"
  shows "held_unfinished (st\<lparr>items := sql_update p f (items st)\<rparr>)"
  using assms by (auto simp: held_unfinished_def set_sql_update)

lemma holder_cleared [simp]: "leased_by (retired n r) = None" "leased_by (handed_back a c r) = None"
  by (simp_all add: retired_def handed_back_def)

interpretation settle: lease_settler quiet_io held_unfinished "held_pairs (cfg_Name cfg)" "encodable codec"
    "stored_ref codec" "\<lambda>io its st. snd (Complete d cfg codec io its st)"
    "\<lambda>io c its st. snd (Release d cfg codec io (fst c) (snd c) its st)"
  for d :: dialect and cfg :: Config and codec :: "'k KeyCodec"
proof unfold_locales
  fix io :: wq_io and its :: "'k Item list" and st :: wq_state and c :: "duration \<times> string option"
  assume q: "quiet_io io" and g: "\<And>i. i \<in> set its \<Longrightarrow> encodable codec i" and inv: "held_unfinished st"
  note refs = refs_of_encodable [OF g]
  have C: "snd (Complete d cfg codec io its st) = st\<lparr>items := sql_update (held_refs (cfg_Name cfg) False
      (map (stored_ref codec) its)) (retired (split_now d (clk io 0))) (items st)\<rparr>"
    by (simp add: Complete_spec [OF quiet_clk(2) [OF q] quiet_clk(1) [OF q] refs])
  have R: "snd (Release d cfg codec io (fst c) (snd c) its st) = st\<lparr>items := sql_update (held_refs (cfg_Name cfg) True
      (map (stored_ref codec) its)) (handed_back (split_after d (Microseconds (max (fst c) 0)) False (clk io 0)) (truncatedCause io (snd c))) (items st)\<rparr>"
    by (simp add: Release_spec [OF quiet_clk(2) [OF q] quiet_clk(1) [OF q] refs])
  show "held_unfinished (snd (Complete d cfg codec io its st))"
    and "held_unfinished (snd (Release d cfg codec io (fst c) (snd c) its st))"
    unfolding C R by (intro held_unfinished_update inv; simp)+
  show "held_pairs (cfg_Name cfg) (snd (Complete d cfg codec io its st)) = held_pairs (cfg_Name cfg) st - stored_ref codec ` set its"
    and "held_pairs (cfg_Name cfg) (snd (Release d cfg codec io (fst c) (snd c) its st)) =
      held_pairs (cfg_Name cfg) st - stored_ref codec ` set its"
    unfolding C R by (subst held_pairs_update [OF inv]; simp)+
qed

lemma release_groups_fold:
  "release_groups d cfg codec ios delay n gs st =
   fold (\<lambda>(io, c, its) st. snd (Release d cfg codec io (fst c) (snd c) its st))
     (map (\<lambda>(i, g). (ios i, (delay, Some (fst g)), snd g)) (enumerate n gs)) st"
  by (induction gs arbitrary: n st) simp_all

definition record_writes ::
  "(nat \<Rightarrow> wq_io) \<Rightarrow> duration \<Rightarrow> 'k failureGroup list \<Rightarrow> 'k Item list
    \<Rightarrow> (wq_io \<times> (duration \<times> string option) \<times> 'k Item list) list" where
  "record_writes ios delay fs us =
     map (\<lambda>(i, g). (ios i, (delay, Some (fst g)), snd g)) (enumerate 1 fs) @
     (if us = [] then [] else [(ios (Suc (length fs)), (0, Some ErrRunnerStopped), us)])"

lemma Complete_Nil: "snd (Complete d cfg codec io [] st) = st"
  by (simp add: Complete_def writeItems_def discard_count_def)

lemma runner_record_fold:
  "runner_record d cfg codec rc ios hs fs us st =
   fold (\<lambda>(io, c, its) st. snd (Release d cfg codec io (fst c) (snd c) its st))
     (record_writes ios (rc_RetryDelay rc) fs us) (snd (Complete d cfg codec (ios 0) hs st))"
  by (simp add: runner_record_def record_writes_def release_groups_fold Complete_Nil)

lemma record_writes_items:
  "concat (map (snd \<circ> snd) (record_writes ios delay fs us)) = concat (map snd fs) @ us"
proof -
  have "map ((snd \<circ> snd) \<circ> (\<lambda>(i, g). (ios i, (delay, Some (fst g)), snd g))) (enumerate n fs) = map snd fs" for n
    by (induction fs arbitrary: n) simp_all
  then show ?thesis by (simp add: record_writes_def)
qed

lemma runner_record_settles:
  assumes "held_unfinished st" "\<And>n. quiet_io (ios n)"
    and "\<And>it. it \<in> set hs \<union> set (concat (map snd fs)) \<union> set us \<Longrightarrow> encodable codec it"
  shows "held_pairs (cfg_Name cfg) (runner_record d cfg codec rc ios hs fs us st) =
    held_pairs (cfg_Name cfg) st - stored_ref codec ` (set hs \<union> set (concat (map snd fs)) \<union> set us)"
proof -
  have "quiet_io e" if "(e, c, its) \<in> set (record_writes ios (rc_RetryDelay rc) fs us)" for e c its
    using that assms(2) by (auto simp: record_writes_def split: if_splits)
  then show ?thesis unfolding runner_record_fold
    using assms settle.settles [of st "ios 0" "record_writes ios (rc_RetryDelay rc) fs us" hs codec cfg d]
    by (simp only: record_writes_items) (simp add: Un_assoc)
qed

text \<open>
  A pass that could write its outcomes leaves nothing it claimed to lapse. Whatever the
  interleaving of the handlers, whichever of them failed or panicked, and wherever a shutdown cut the
  batch, once \<^verbatim>\<open>record\<close> has run against the queue as it then is, the leases on every item of the batch
  are given up, by completion or by hand-back, and no other claim's lease is touched.
\<close>

theorem pass_settles:
  assumes "(work_step conc (handle rend handler))\<^sup>*\<^sup>* (work_start its cancelled) w" "work_done w"
    and "\<forall>r \<in> set (items st). leased_by r \<noteq> None \<longrightarrow> completed_at r = None"
    and "\<And>n. quiet_io (ios n)" "\<And>it. it \<in> set its \<Longrightarrow> encodable codec it"
  shows "held_pairs (cfg_Name cfg) (runner_record d cfg codec rc ios (handled w) (failed w) (undispatched w) st) =
    held_pairs (cfg_Name cfg) st - stored_ref codec ` set its"
proof -
  have "work_inv conc (handle rend handler) its w" by (rule work.steps_inv [OF assms(1) work_inv_start])
  with assms(2) have "mset its = mset (handled w @ concat (map snd (failed w)) @ undispatched w)"
    by (simp add: work_inv_def work_done_def decided_def)
  from mset_eq_setD [OF this]
  have S: "set its = set (handled w) \<union> set (concat (map snd (failed w))) \<union> set (undispatched w)" by auto
  have "held_unfinished st" using assms(3) by (simp add: held_unfinished_def outstanding_def)
  then show ?thesis unfolding S using assms(4,5) S by (intro runner_record_settles) auto
qed

definition demo_handler :: "string Item \<Rightarrow> handler_result" where
  "demo_handler it = HandlerPanicked ''boom''"

definition demo_rend :: rendering where
  "demo_rend = \<lparr>wrap_error = (\<lambda>m. ''handling: '' @ m), wrap_panic = (\<lambda>m. ''panicked: '' @ m)\<rparr>"

definition demo_rc :: RunnerConfig where
  "demo_rc = \<lparr>rc_Poll = Second, rc_Lease = Second, rc_ExtendInterval = Millisecond, rc_RetryDelay = Second,
     rc_Batch = 2, rc_Concurrency = 1\<rparr>"

theorem pass_settles_witness:
  "held_pairs ''q'' (runner_record MySQL demo_cfg stringKeyCodec demo_rc (\<lambda>_. demo_io) [] [] [held_item] held_state) = {}"
proof -
  let ?w = "(work_start [held_item] True)\<lparr>todo := [], undispatched := [held_item]\<rparr>"
  have "work_step 1 (handle demo_rend demo_handler) (work_start [held_item] True) ?w"
    using ws_break [of "work_start [held_item] True" 1 "handle demo_rend demo_handler"] by (simp add: work_start_def)
  then have s: "(work_step 1 (handle demo_rend demo_handler))\<^sup>*\<^sup>* (work_start [held_item] True) ?w" by simp
  have w: "work_done ?w" "handled ?w = []" "failed ?w = []" "undispatched ?w = [held_item]"
    by (simp_all add: work_done_def work_start_def)
  have u: "\<forall>r \<in> set (items held_state). leased_by r \<noteq> None \<longrightarrow> completed_at r = None" by code_simp
  have q: "quiet_io ((\<lambda>_. demo_io) n)" for n :: nat by (simp add: quiet_io_def demo_io_def)
  have "encodable stringKeyCodec held_item" by code_simp
  then have e: "encodable stringKeyCodec it" if "it \<in> set [held_item]" for it using that by simp
  have "held_pairs ''q'' held_state - stored_ref stringKeyCodec ` set [held_item] = {}"
    by (auto simp: held_pairs_def held_state_def held_row_def demo_defs leased_def item_pk_def
        stored_ref_def held_item_def encodeKey_def stringKeyCodec_def MaxKeyLength_def control_characters_def)
  moreover have "cfg_Name demo_cfg = ''q''" by (simp add: demo_cfg_def)
  ultimately show ?thesis
    using pass_settles [OF s w(1) u q e, of demo_cfg MySQL demo_rc] unfolding w(2-4) by simp
qed

section \<open>Pacing\<close>

text \<open>
  The batch a runner reasons about is one the queue can fill. With a positive batch and ceiling,
  a claim of the runner's batch is not clamped further, so on an untroubled queue a pass reports a
  full batch, and the loop goes round again without waiting, exactly when at least that many rows
  are claimable.
\<close>

theorem pass_full_iff_backlog:
  assumes "fault io 0 = None" "distinct (map item_pk (items st))"
    and "\<forall>r \<in> set (items st). leased_by r \<noteq> Some (mint io)" "clk io 0 \<le> clk io 1" "\<forall>k. \<not> locked io k"
    and "0 < rc_Batch rc" "0 < cfg_MaxClaimBatch cfg"
    and "pass d cfg codec rc io ios working st = (Inr n, st')"
  shows "runner_batch rc cfg \<le> n \<longleftrightarrow>
    runner_batch rc cfg \<le> sql_count (claimablePredicate (cfg_Name cfg) (attemptCeiling cfg) (split_now d (clk io 0))) (items st)"
proof -
  let ?b = "runner_batch rc cfg"
  have b: "claim_limit cfg ?b = ?b" "0 < ?b"
    using assms(6,7) by (auto simp: claim_limit_def runner_batch_def)
  from assms(8) obtain its st1 where c: "Claim d cfg codec io ?b (rc_Lease rc) st = (Inr its, st1)"
    and n: "n = int (length its)"
    by (auto simp: pass_def split: prod.splits sum.splits if_splits)
  have "length its = length (due_batch d cfg io ?b (items st))"
    using Claim_InrD(1) [OF assms(1-4) c] by (simp add: b)
  then show ?thesis using b(2) assms(5) n
    by (simp add: due_batch_def due_rows_def length_sql_top sql_count_def) linarith
qed

theorem pass_full_iff_backlog_witness:
  "2 \<le> projr (fst (pass MySQL demo_cfg stringKeyCodec demo_rc demo_io (\<lambda>_. demo_io) (\<lambda>its st. (work_start its False, st)) demo_state))"
proof -
  let ?p = "pass MySQL demo_cfg stringKeyCodec demo_rc demo_io (\<lambda>_. demo_io) (\<lambda>its st. (work_start its False, st)) demo_state"
  have "\<not> isl (fst ?p)" by code_simp
  then have "?p = (Inr (projr (fst ?p)), snd ?p)" by (cases ?p) (auto simp: isl_def split: sum.splits)
  from pass_full_iff_backlog [OF _ _ _ _ _ _ _ this]
  have "runner_batch demo_rc demo_cfg \<le> projr (fst ?p) \<longleftrightarrow> runner_batch demo_rc demo_cfg \<le>
      sql_count (claimablePredicate (cfg_Name demo_cfg) (attemptCeiling demo_cfg) (split_now MySQL (clk demo_io 0))) (items demo_state)"
    by (simp add: demo_state_ok demo_rc_def) (simp add: demo_defs)
  moreover have "runner_batch demo_rc demo_cfg = 2" by code_simp
  moreover have "2 \<le> sql_count (claimablePredicate (cfg_Name demo_cfg) (attemptCeiling demo_cfg)
      (split_now MySQL (clk demo_io 0))) (items demo_state)" by code_simp
  ultimately show ?thesis by simp
qed

text \<open>
  Every configuration a runner accepts leaves room for a missed extension: the heartbeat fits
  into the lease at least twice, and at least three times when it was derived from it. The zero
  configuration is accepted.
\<close>

theorem NewRunner_heartbeat_fits:
  assumes "NewRunner rc cfg = Some (rc', b)"
  shows "0 < rc_ExtendInterval rc' \<and> 2 * rc_ExtendInterval rc' \<le> rc_Lease rc' \<and>
    (rc_ExtendInterval rc \<le> 0 \<longrightarrow> 3 * rc_ExtendInterval rc' \<le> rc_Lease rc') \<and> 0 < rc_RetryDelay rc' \<and> 1 \<le> rc_Concurrency rc' \<and> 1 \<le> b"
proof -
  let ?r = "RunnerConfig_EnsureDefaults rc"
  have r: "rc' = ?r" "b = runner_batch ?r cfg" "RunnerConfig_Validate ?r"
    using assms by (auto simp: NewRunner_def Let_def split: if_splits)
  have "0 \<le> rc_Lease ?r" using r(3) by (simp add: RunnerConfig_Validate_def Second_def)
  then have "rc_ExtendInterval ?r \<le> rc_Lease ?r div 2" using r(3) by (simp add: RunnerConfig_Validate_def tdiv_pos)
  moreover have "rc_ExtendInterval ?r = rc_Lease ?r div 3" if "rc_ExtendInterval rc \<le> 0"
    using that by (simp add: RunnerConfig_EnsureDefaults_def Let_def DefaultRunnerExtendDivisor_def
        DefaultRunnerLease_def Second_def tdiv_pos)
  moreover have "1 \<le> rc_Concurrency ?r" "1 \<le> runner_batch ?r cfg" "0 < rc_RetryDelay ?r" "0 < rc_ExtendInterval ?r"
    using r(3) by (auto simp: RunnerConfig_Validate_def runner_batch_def Millisecond_def)
  ultimately show ?thesis using r(1,2) by auto
qed

theorem NewRunner_heartbeat_fits_witness:
  "\<exists>rc' b. NewRunner \<lparr>rc_Poll = 0, rc_Lease = 0, rc_ExtendInterval = 0, rc_RetryDelay = 0, rc_Batch = 0, rc_Concurrency = 0\<rparr> demo_cfg
      = Some (rc', b) \<and> 3 * rc_ExtendInterval rc' \<le> rc_Lease rc'"
proof -
  let ?z = "\<lparr>rc_Poll = 0, rc_Lease = 0, rc_ExtendInterval = 0, rc_RetryDelay = 0, rc_Batch = 0, rc_Concurrency = 0\<rparr>"
  have "NewRunner ?z demo_cfg \<noteq> None" by code_simp
  then obtain rc' b where n: "NewRunner ?z demo_cfg = Some (rc', b)" by auto
  with NewRunner_heartbeat_fits [OF n] show ?thesis by auto
qed

text \<open>
  A queue that could be built meets what its operations assume of it: after \<^verbatim>\<open>New\<close> the batch sizes,
  the retention, the write attempts and the wake floor are positive and the attempt ceiling is never
  negative nor wider than the column, and a notification channel is only kept where the dialect can
  notify. A configuration that only names its queue is accepted.
\<close>

theorem New_config_sound:
  assumes "wq_New validIdentifier supportsNotify table d cfg = Inr cfg'"
  shows "0 < cfg_MaxClaimBatch cfg' \<and> 0 < cfg_ReapBatchSize cfg' \<and> 0 < Microseconds (cfg_Retention cfg') \<and>
    0 < cfg_MinWakeInterval cfg' \<and> 0 < cfg_WriteAttempts cfg' \<and>
    0 \<le> attemptCeiling cfg' \<and> fits_int4 (attemptCeiling cfg') \<and> 1 \<le> claim_limit cfg' limit \<and>
    (cfg_NotifyChannel cfg' \<noteq> [] \<longrightarrow> supportsNotify d)"
proof -
  have v: "Config_Validate cfg'" "cfg_NotifyChannel cfg' \<noteq> [] \<longrightarrow> supportsNotify d"
    using assms by (auto simp: wq_New_def Let_def split: if_splits)
  then have "Microsecond \<le> cfg_Retention cfg'" by (simp add: Config_Validate_def Second_def Microsecond_def)
  from Microseconds_pos [OF this] v show ?thesis
    by (auto simp: Config_Validate_def Millisecond_def attemptCeiling_def MaxInt32_def fits_int4_def claim_limit_def)
qed

theorem New_config_sound_witness:
  "\<exists>cfg'. wq_New (\<lambda>_. True) (\<lambda>d. d = Postgres) ''work_queue_items'' SQLite
      \<lparr>cfg_Name = ''q'', cfg_NotifyChannel = [], cfg_Retention = 0, cfg_MaxAttempts = 2 ^ 40, cfg_MaxClaimBatch = 0,
       cfg_ReapBatchSize = 0, cfg_WriteAttempts = 0, cfg_MinWakeInterval = 0\<rparr> = Inr cfg' \<and>
     fits_int4 (attemptCeiling cfg')"
proof -
  let ?n = "wq_New (\<lambda>_. True) (\<lambda>d. d = Postgres) ''work_queue_items'' SQLite
      \<lparr>cfg_Name = ''q'', cfg_NotifyChannel = [], cfg_Retention = 0, cfg_MaxAttempts = 2 ^ 40, cfg_MaxClaimBatch = 0,
       cfg_ReapBatchSize = 0, cfg_WriteAttempts = 0, cfg_MinWakeInterval = 0\<rparr>"
  have "\<not> isl ?n" by code_simp
  then obtain cfg' where "?n = Inr cfg'" by (cases ?n) auto
  with New_config_sound [OF this] show ?thesis by auto
qed

end
