(* ===== verification/Outbox_Store.thy ===== *)
theory Outbox_Store
  imports Prelude
begin

text \<open>
  The outbox table and the statements of \<^verbatim>\<open>outbox/internal/queries/queries.go\<close>.

  The table is a list of rows; every statement is a function of it, its bound arguments and, where
  the dialect locks, the predicate \<open>locked\<close> of the ids another transaction holds. The per-key order
  lives in the candidate read: \<open>earlier\<close> is the tuple comparison the statement spells out, and
  \<open>heads_key\<close> its correlated \<^verbatim>\<open>NOT EXISTS\<close>. The lemmas say what each statement does to a row, to
  its identity and to whether it is still waiting.
\<close>

section \<open>Rows\<close>

record outbox_row =
  ob_id :: string
  ob_topic :: string
  ob_partition_key :: string
  ob_payload :: string
  ob_created_at :: time
  ob_next_attempt :: time
  ob_claimed_until :: "time option"
  ob_claimed_by :: "string option"
  ob_published_at :: "time option"
  ob_attempts :: int
  ob_last_error :: "string option"
  ob_quarantined_at :: "time option"

type_synonym outbox_table = "outbox_row list"

interpretation messages: keyed_table ob_id .

text \<open>The enqueued row: due at its creation, nothing else set.\<close>

definition InsertOutboxMessage :: "string \<Rightarrow> string \<Rightarrow> string \<Rightarrow> string \<Rightarrow> time \<Rightarrow> outbox_row" where
  "InsertOutboxMessage i topic key payload at =
     \<lparr>ob_id = i, ob_topic = topic, ob_partition_key = key, ob_payload = payload, ob_created_at = at,
      ob_next_attempt = at, ob_claimed_until = None, ob_claimed_by = None, ob_published_at = None,
      ob_attempts = 0, ob_last_error = None, ob_quarantined_at = None\<rparr>"

section \<open>Statements\<close>

definition ob_pending :: "outbox_row \<Rightarrow> bool" where
  "ob_pending r \<longleftrightarrow> ob_published_at r = None \<and> ob_quarantined_at r = None"

definition earlier :: "outbox_row \<Rightarrow> outbox_row \<Rightarrow> bool" where
  "earlier prior m \<longleftrightarrow>
     ob_created_at prior < ob_created_at m \<or>
     ob_created_at prior = ob_created_at m \<and> ob_id prior < ob_id m"

definition publish_order :: "outbox_row \<Rightarrow> time \<times> string" where
  "publish_order r = (ob_created_at r, ob_id r)"

definition claimableRowState :: "time \<Rightarrow> outbox_row \<Rightarrow> bool" where
  "claimableRowState now r \<longleftrightarrow>
     ob_pending r \<and> ob_next_attempt r \<le> now \<and>
     (case ob_claimed_until r of None \<Rightarrow> True | Some u \<Rightarrow> u \<le> now)"

definition heads_key :: "outbox_table \<Rightarrow> outbox_row \<Rightarrow> bool" where
  "heads_key t m \<longleftrightarrow>
     ob_partition_key m = [] \<or>
     \<not> (\<exists>prior \<in> set t. ob_partition_key prior = ob_partition_key m \<and> ob_pending prior \<and> earlier prior m)"

definition selectable :: "time \<Rightarrow> outbox_table \<Rightarrow> outbox_row \<Rightarrow> bool" where
  "selectable now t m \<longleftrightarrow> claimableRowState now m \<and> heads_key t m"

text \<open>The candidates in publish order, and one page of their ids.\<close>

definition claimable_rows :: "time \<Rightarrow> outbox_table \<Rightarrow> outbox_row list" where
  "claimable_rows now t = sort_key publish_order (filter (selectable now t) t)"

definition SelectClaimableOutboxMessages :: "time \<Rightarrow> nat \<Rightarrow> nat \<Rightarrow> outbox_table \<Rightarrow> string list" where
  "SelectClaimableOutboxMessages now limit offset t =
     map ob_id (take limit (drop offset (claimable_rows now t)))"

text \<open>
  \<^verbatim>\<open>FOR UPDATE SKIP LOCKED\<close> by primary key. The statement has no \<^verbatim>\<open>ORDER BY\<close>; the model returns table
  order.
\<close>

definition SelectClaimableOutboxMessagesSkipLocked ::
  "time \<Rightarrow> (string \<Rightarrow> bool) \<Rightarrow> string list \<Rightarrow> outbox_table \<Rightarrow> string list" where
  "SelectClaimableOutboxMessagesSkipLocked now locked ids t =
     map ob_id (filter (\<lambda>r. claimableRowState now r \<and> ob_id r \<in> set ids \<and> \<not> locked (ob_id r)) t)"

definition ob_leased_row :: "time \<Rightarrow> string \<Rightarrow> outbox_row \<Rightarrow> outbox_row" where
  "ob_leased_row until token r =
     r\<lparr>ob_claimed_until := Some until, ob_claimed_by := Some token, ob_attempts := ob_attempts r + 1\<rparr>"

definition ClaimOutboxMessages ::
  "time \<Rightarrow> string \<Rightarrow> time \<Rightarrow> string list \<Rightarrow> outbox_table \<Rightarrow> outbox_table" where
  "ClaimOutboxMessages until token now ids t =
     sql_update (\<lambda>r. claimableRowState now r \<and> ob_id r \<in> set ids) (ob_leased_row until token) t"

definition held_by :: "string \<Rightarrow> string list \<Rightarrow> outbox_row \<Rightarrow> bool" where
  "held_by token ids r \<longleftrightarrow> ob_claimed_by r = Some token \<and> ob_id r \<in> set ids"

definition FetchClaimedOutboxMessages :: "string \<Rightarrow> string list \<Rightarrow> outbox_table \<Rightarrow> outbox_row list" where
  "FetchClaimedOutboxMessages token ids t = sort_key publish_order (filter (held_by token ids) t)"

definition published_row :: "time \<Rightarrow> outbox_row \<Rightarrow> outbox_row" where
  "published_row at r =
     r\<lparr>ob_published_at := Some at, ob_claimed_until := None, ob_claimed_by := None, ob_last_error := None\<rparr>"

definition MarkOutboxMessagesPublished ::
  "time \<Rightarrow> string \<Rightarrow> string list \<Rightarrow> outbox_table \<Rightarrow> int \<times> outbox_table" where
  "MarkOutboxMessagesPublished at token ids t =
     (sql_count (held_by token ids) t, sql_update (held_by token ids) (published_row at) t)"

definition failed_row :: "time \<Rightarrow> string \<Rightarrow> time option \<Rightarrow> outbox_row \<Rightarrow> outbox_row" where
  "failed_row nextAttempt lastErr quarantinedAt r =
     r\<lparr>ob_claimed_until := None, ob_claimed_by := None, ob_next_attempt := nextAttempt,
       ob_last_error := Some lastErr, ob_quarantined_at := quarantinedAt\<rparr>"

definition RecordOutboxMessageFailure ::
  "string \<Rightarrow> string \<Rightarrow> time \<Rightarrow> string \<Rightarrow> time option \<Rightarrow> outbox_table \<Rightarrow> int \<times> outbox_table" where
  "RecordOutboxMessageFailure i token nextAttempt lastErr quarantinedAt t =
     (sql_count (held_by token [i]) t,
      sql_update (held_by token [i]) (failed_row nextAttempt lastErr quarantinedAt) t)"

section \<open>Quarantine, backlog, retention\<close>

definition quarantined :: "outbox_row \<Rightarrow> bool" where
  "quarantined r \<longleftrightarrow> ob_quarantined_at r \<noteq> None"

definition quarantineOrder :: "outbox_row \<Rightarrow> time \<times> string" where
  "quarantineOrder r = (case ob_quarantined_at r of None \<Rightarrow> 0 | Some q \<Rightarrow> q, ob_id r)"

definition quarantineHorizon :: "time \<Rightarrow> outbox_row \<Rightarrow> bool" where
  "quarantineHorizon before r \<longleftrightarrow> (case ob_quarantined_at r of None \<Rightarrow> False | Some q \<Rightarrow> q \<le> before)"

definition SelectQuarantinedOutboxMessages :: "int \<Rightarrow> outbox_table \<Rightarrow> outbox_row list" where
  "SelectQuarantinedOutboxMessages limit t = sql_top limit quarantineOrder quarantined t"

definition released_row :: "time \<Rightarrow> outbox_row \<Rightarrow> outbox_row" where
  "released_row nextAttempt r = r\<lparr>ob_quarantined_at := None, ob_next_attempt := nextAttempt\<rparr>"

definition ReleaseQuarantinedOutboxMessages ::
  "time \<Rightarrow> string list \<Rightarrow> outbox_table \<Rightarrow> int \<times> outbox_table" where
  "ReleaseQuarantinedOutboxMessages nextAttempt ids t =
     (let p = (\<lambda>r. quarantined r \<and> ob_id r \<in> set ids) in
      (sql_count p t, sql_update p (released_row nextAttempt) t))"

text \<open>The grouped aggregate: no row at all when nothing is waiting.\<close>

definition OutboxBacklog :: "outbox_table \<Rightarrow> (int \<times> time) option" where
  "OutboxBacklog t =
     (case sort_key ob_created_at (filter ob_pending t) of
        [] \<Rightarrow> None
      | oldest # _ \<Rightarrow> Some (sql_count ob_pending t, ob_created_at oldest))"

definition prune ::
  "int \<Rightarrow> (outbox_row \<Rightarrow> 'k::linorder) \<Rightarrow> (outbox_row \<Rightarrow> bool) \<Rightarrow> (string \<Rightarrow> bool) \<Rightarrow> outbox_table \<Rightarrow> int \<times> outbox_table" where
  "prune limit k p locked t =
     (let doomed = map ob_id (sql_top limit k (\<lambda>r. p r \<and> \<not> locked (ob_id r)) t) in
      (sql_count (\<lambda>r. ob_id r \<in> set doomed) t, sql_delete (\<lambda>r. ob_id r \<in> set doomed) t))"

definition past_horizon :: "time \<Rightarrow> outbox_row \<Rightarrow> bool" where
  "past_horizon before r \<longleftrightarrow> (case ob_published_at r of None \<Rightarrow> False | Some p \<Rightarrow> p \<le> before)"

definition ReapPublishedOutboxMessages ::
  "time \<Rightarrow> int \<Rightarrow> (string \<Rightarrow> bool) \<Rightarrow> outbox_table \<Rightarrow> int \<times> outbox_table" where
  "ReapPublishedOutboxMessages before limit locked t =
     prune limit (\<lambda>r. case ob_published_at r of None \<Rightarrow> 0 | Some p \<Rightarrow> p) (past_horizon before) locked t"

definition SelectReapableQuarantinedOutboxMessages :: "time \<Rightarrow> int \<Rightarrow> outbox_table \<Rightarrow> outbox_row list" where
  "SelectReapableQuarantinedOutboxMessages before limit t = sql_top limit quarantineOrder (quarantineHorizon before) t"

definition ReapQuarantinedOutboxMessages ::
  "time \<Rightarrow> int \<Rightarrow> (string \<Rightarrow> bool) \<Rightarrow> outbox_table \<Rightarrow> int \<times> outbox_table" where
  "ReapQuarantinedOutboxMessages before limit locked t = prune limit quarantineOrder (quarantineHorizon before) locked t"

lemmas row_writes = ob_leased_row_def published_row_def failed_row_def released_row_def

section \<open>What a statement keeps\<close>

text \<open>The columns no statement assigns once the row is inserted.\<close>

definition envelope :: "outbox_row \<Rightarrow> string \<times> string \<times> string \<times> string \<times> time" where
  "envelope r = (ob_id r, ob_topic r, ob_partition_key r, ob_payload r, ob_created_at r)"

lemma envelope_writes [simp]:
  "envelope (ob_leased_row u tok r) = envelope r"
  "envelope (published_row at r) = envelope r"
  "envelope (failed_row n e q r) = envelope r"
  "envelope (released_row n r) = envelope r"
  by (simp_all add: row_writes envelope_def)

lemma envelope_ob: "envelope r = envelope q \<Longrightarrow>
    ob_id r = ob_id q \<and> ob_topic r = ob_topic q \<and> ob_partition_key r = ob_partition_key q \<and>
    ob_payload r = ob_payload q \<and> ob_created_at r = ob_created_at q"
  by (simp add: envelope_def)

lemma earlier_envelope: "envelope r = envelope r' \<Longrightarrow> envelope q = envelope q' \<Longrightarrow> earlier r q = earlier r' q'"
  by (simp add: earlier_def envelope_def)

lemma ob_id_writes [simp]:
  "ob_id (ob_leased_row u tok r) = ob_id r" "ob_id (published_row at r) = ob_id r"
  "ob_id (failed_row n e q r) = ob_id r" "ob_id (released_row n r) = ob_id r"
  by (simp_all add: row_writes)

lemma pending_writes [simp]:
  "ob_pending (ob_leased_row u tok r) = ob_pending r"
  "\<not> ob_pending (published_row at r)"
  "ob_pending (released_row n r) \<longleftrightarrow> ob_published_at r = None"
  "ob_pending (failed_row n e q r) \<longleftrightarrow> ob_published_at r = None \<and> q = None"
  by (simp_all add: row_writes ob_pending_def)

lemma claimable_pending: "claimableRowState now r \<Longrightarrow> ob_pending r"
  by (simp add: claimableRowState_def)

lemma earlier_iff: "earlier r q \<longleftrightarrow> publish_order r < publish_order q"
  by (simp add: earlier_def publish_order_def less_prod_def')

lemma earlier_total: "ob_id r \<noteq> ob_id q \<Longrightarrow> earlier r q \<or> earlier q r"
  unfolding earlier_def by auto

lemma earlier_irrefl [simp]: "\<not> earlier r r"
  by (simp add: earlier_def)

lemma earlier_trans: "earlier r q \<Longrightarrow> earlier q p \<Longrightarrow> earlier r p"
  by (simp add: earlier_iff)

lemma set_claimable_rows: "set (claimable_rows now t) = {r \<in> set t. selectable now t r}"
  by (auto simp: claimable_rows_def)

lemma distinct_claimable_rows: "distinct (map ob_id t) \<Longrightarrow> distinct (map ob_id (claimable_rows now t))"
proof -
  assume "distinct (map ob_id t)"
  then have "distinct (map ob_id (filter (selectable now t) t))" by (rule distinct_map_filter)
  moreover have "mset (map ob_id (claimable_rows now t)) = mset (map ob_id (filter (selectable now t) t))"
    by (simp add: claimable_rows_def)
  ultimately show ?thesis by (metis mset_eq_imp_distinct_iff)
qed

lemma sorted_claimable_rows: "sorted (map publish_order (claimable_rows now t))"
  by (simp add: claimable_rows_def)

text \<open>A retention pass removes exactly the rows it selected.\<close>

lemma set_prune: "r \<in> set (snd (prune n k p locked t)) \<Longrightarrow> r \<in> set t"
  by (auto simp: prune_def sql_delete_def Let_def)

lemma prune_removed:
  assumes "distinct (map ob_id t)" "r \<in> set t" "r \<notin> set (snd (prune n k p locked t))"
  shows "p r \<and> \<not> locked (ob_id r)"
proof -
  let ?D = "sql_top n k (\<lambda>r. p r \<and> \<not> locked (ob_id r)) t"
  have "ob_id r \<in> ob_id ` set ?D" using assms(2,3) by (auto simp: prune_def sql_delete_def Let_def)
  then have "r \<in> set ?D"
    using selected_by_key [OF assms(1) _ assms(2), of ?D] set_sql_top by (metis subsetI)
  then show ?thesis using set_sql_top by metis
qed

lemma prune_ids: "distinct (map ob_id t) \<Longrightarrow> distinct (map ob_id (snd (prune n k p locked t)))"
  by (simp add: prune_def Let_def messages.distinct_delete)

lemma length_prune:
  "int (length t) = fst (prune n k p locked t) + int (length (snd (prune n k p locked t)))"
proof -
  define D where "D = set (map ob_id (sql_top n k (\<lambda>r. p r \<and> \<not> locked (ob_id r)) t))"
  have "prune n k p locked t = (sql_count (\<lambda>r. ob_id r \<in> D) t, sql_delete (\<lambda>r. ob_id r \<in> D) t)"
    unfolding prune_def Let_def D_def ..
  with sum_length_filter_compl [of "\<lambda>r. ob_id r \<in> D" t] show ?thesis
    by (simp add: sql_count_def sql_delete_def)
qed

end
