(* ===== verification/Outbox_Relay.thy ===== *)
theory Outbox_Relay
  imports Outbox_Store
begin

text \<open>
  The relay of \<^verbatim>\<open>outbox/relay.go\<close> and its configuration, \<^verbatim>\<open>outbox/config.go\<close>.

  A \<open>relay_env\<close> is what the relay cannot decide: the readings of its clock, the claim's minted name,
  the rows other transactions have locked, the failures of statements, of publisher construction and
  of the broker, the retry module's delay and the error truncation. A \<open>relay_state\<close> is the table, the
  cached publishers, what the broker accepted, and the counters; the two indices number the clock
  readings and the calls made so far. A transaction counts as one call: a failure anywhere in it rolls
  it back. The table changes only through the relay's own statements here; what several relays do to
  one table is the subject of \<^verbatim>\<open>Outbox_System\<close>.
\<close>

section \<open>Configuration\<close>

text \<open>A claim mode is a string in Go; the empty one is \<open>OtherMode []\<close>.\<close>

datatype ClaimMode = ClaimSkipLocked | ClaimLease | OtherMode string

fun ClaimMode_Valid :: "ClaimMode \<Rightarrow> bool" where
  "ClaimMode_Valid ClaimSkipLocked = True"
| "ClaimMode_Valid ClaimLease = True"
| "ClaimMode_Valid (OtherMode _) = False"

record RelayConfig =
  rc_ClaimMode :: ClaimMode
  rc_MaxAttempts :: nat
  rc_BatchSize :: int
  rc_PollInterval :: duration
  rc_LeaseDuration :: duration
  rc_Retention :: duration
  rc_QuarantineRetention :: duration
  rc_ReapInterval :: duration
  rc_ReapBatchSize :: int
  rc_MinWakeInterval :: duration

definition Relay_DefaultBatchSize :: int where "Relay_DefaultBatchSize = 100"
definition Relay_DefaultPollInterval :: duration where "Relay_DefaultPollInterval = Second"
definition Relay_DefaultLeaseDuration :: duration where "Relay_DefaultLeaseDuration = 30 * Second"
definition Relay_DefaultRetention :: duration where "Relay_DefaultRetention = 24 * 3600 * Second"
definition DefaultQuarantineRetention :: duration where "DefaultQuarantineRetention = 30 * 24 * 3600 * Second"
definition DefaultReapInterval :: duration where "DefaultReapInterval = 300 * Second"
definition Relay_DefaultReapBatchSize :: int where "Relay_DefaultReapBatchSize = 1000"
definition DefaultQuarantineLimit :: int where "DefaultQuarantineLimit = 100"
definition Relay_DefaultMinWakeInterval :: duration where "Relay_DefaultMinWakeInterval = 100 * Millisecond"

lemmas relay_defaults =
  Relay_DefaultBatchSize_def Relay_DefaultPollInterval_def Relay_DefaultLeaseDuration_def
  Relay_DefaultRetention_def DefaultQuarantineRetention_def DefaultReapInterval_def
  Relay_DefaultReapBatchSize_def Relay_DefaultMinWakeInterval_def Second_def Millisecond_def

text \<open>\<open>attemptsDefault\<close> is what the retry module's \<^verbatim>\<open>EnsureDefaults\<close> does to the attempt limit.\<close>

definition RelayConfig_EnsureDefaults :: "(nat \<Rightarrow> nat) \<Rightarrow> RelayConfig \<Rightarrow> RelayConfig" where
  "RelayConfig_EnsureDefaults attemptsDefault cfg =
     (let pos = (\<lambda>v d. if v \<le> 0 then d else v) :: int \<Rightarrow> int \<Rightarrow> int in
      \<lparr>rc_ClaimMode = (if rc_ClaimMode cfg = OtherMode [] then ClaimSkipLocked else rc_ClaimMode cfg),
       rc_MaxAttempts = attemptsDefault (rc_MaxAttempts cfg),
       rc_BatchSize = pos (rc_BatchSize cfg) Relay_DefaultBatchSize,
       rc_PollInterval = pos (rc_PollInterval cfg) Relay_DefaultPollInterval,
       rc_LeaseDuration = pos (rc_LeaseDuration cfg) Relay_DefaultLeaseDuration,
       rc_Retention = pos (rc_Retention cfg) Relay_DefaultRetention,
       rc_QuarantineRetention = pos (rc_QuarantineRetention cfg) DefaultQuarantineRetention,
       rc_ReapInterval = pos (rc_ReapInterval cfg) DefaultReapInterval,
       rc_ReapBatchSize = pos (rc_ReapBatchSize cfg) Relay_DefaultReapBatchSize,
       rc_MinWakeInterval = pos (rc_MinWakeInterval cfg) Relay_DefaultMinWakeInterval\<rparr>)"

definition RelayConfig_Validate :: "RelayConfig \<Rightarrow> bool" where
  "RelayConfig_Validate cfg \<longleftrightarrow>
     ClaimMode_Valid (rc_ClaimMode cfg) \<and> 1 \<le> rc_BatchSize cfg \<and> Millisecond \<le> rc_PollInterval cfg \<and>
     Second \<le> rc_LeaseDuration cfg \<and> 60 * Second \<le> rc_Retention cfg \<and>
     60 * Second \<le> rc_QuarantineRetention cfg \<and> Second \<le> rc_ReapInterval cfg \<and>
     1 \<le> rc_ReapBatchSize cfg \<and> Millisecond \<le> rc_MinWakeInterval cfg"

datatype relay_error =
    NilConfig | ErrNilDatabaseClient | ErrNilPublisherProvider | ErrDialectNotSupported
  | ErrInvalidTableName string | ErrNoQuerier string | ErrInvalidRelayConfig | RelayDriverError string

text \<open>The dialect is read off the client: whether it is one of the three, and whether it has \<^verbatim>\<open>SKIP LOCKED\<close>.\<close>

definition resolveForDialect :: "bool \<Rightarrow> bool \<Rightarrow> RelayConfig \<Rightarrow> relay_error + RelayConfig" where
  "resolveForDialect dialectValid skipLocked cfg =
     (if \<not> dialectValid then Inl ErrDialectNotSupported
      else if rc_ClaimMode cfg = ClaimSkipLocked \<and> \<not> skipLocked then Inr (cfg\<lparr>rc_ClaimMode := ClaimLease\<rparr>)
      else Inr cfg)"

text \<open>
  \<open>table\<close> is the qualified table name, \<open>querierErr\<close> what building the querier answered. Instruments and
  options other than the clock and the wakeup are telemetry.
\<close>

definition NewRelay ::
  "(nat \<Rightarrow> nat) \<Rightarrow> RelayConfig option \<Rightarrow> (bool \<times> bool) option \<Rightarrow> bool \<Rightarrow> (string \<Rightarrow> bool) \<Rightarrow> string \<Rightarrow>
   string option \<Rightarrow> relay_error + RelayConfig" where
  "NewRelay attemptsDefault cfg client provider validIdentifier table querierErr =
     (case cfg of
        None \<Rightarrow> Inl NilConfig
      | Some c \<Rightarrow>
          (case client of
             None \<Rightarrow> Inl ErrNilDatabaseClient
           | Some (dialectValid, skipLocked) \<Rightarrow>
               if \<not> provider then Inl ErrNilPublisherProvider
               else (case resolveForDialect dialectValid skipLocked (RelayConfig_EnsureDefaults attemptsDefault c) of
                       Inl e \<Rightarrow> Inl e
                     | Inr c' \<Rightarrow>
                         if \<not> validIdentifier table then Inl (ErrInvalidTableName table)
                         else (case querierErr of
                                 Some e \<Rightarrow> Inl (ErrNoQuerier e)
                               | None \<Rightarrow> if RelayConfig_Validate c' then Inr c' else Inl ErrInvalidRelayConfig))))"

section \<open>State\<close>

record claimedMessage =
  cm_id :: string
  cm_topic :: string
  cm_key :: string
  cm_claimToken :: string
  cm_payload :: string
  cm_attempts :: int

record QuarantinedMessage =
  qm_CreatedAt :: time
  qm_QuarantinedAt :: time
  qm_ID :: string
  qm_Topic :: string
  qm_Key :: string
  qm_LastError :: string
  qm_Attempts :: int

record relay_env =
  clock_reading :: "nat \<Rightarrow> time"
  minted_token :: "nat \<Rightarrow> string"
  locked_ids :: "string \<Rightarrow> bool"
  call_err :: "nat \<Rightarrow> string option"
  new_publisher_err :: "string \<Rightarrow> string option"
  broker_err :: "nat \<Rightarrow> string \<Rightarrow> string \<Rightarrow> string option"
  scheduled_delay :: "int \<Rightarrow> duration"
  truncate_cause :: "string \<Rightarrow> string"

record relay_state =
  rl_table :: outbox_table
  rl_publishers :: "string list"
  rl_sent :: "claimedMessage list"
  rl_reads :: nat
  rl_calls :: nat
  rl_published :: int
  rl_failed :: int
  rl_quarantined :: int
  rl_fenced :: int
  rl_reaped :: int
  rl_quarantine_reaped :: int
  rl_claim_errors :: int
  rl_discarded :: "(string \<times> string) list"

definition read_clock :: "relay_env \<Rightarrow> relay_state \<Rightarrow> time \<times> relay_state" where
  "read_clock env st = (clock_reading env (rl_reads st), st\<lparr>rl_reads := Suc (rl_reads st)\<rparr>)"

definition next_call :: "relay_env \<Rightarrow> relay_state \<Rightarrow> string option \<times> relay_state" where
  "next_call env st = (call_err env (rl_calls st), st\<lparr>rl_calls := Suc (rl_calls st)\<rparr>)"

section \<open>Claiming\<close>

definition candidates :: "time \<Rightarrow> nat \<Rightarrow> nat \<Rightarrow> outbox_table \<Rightarrow> string list" where
  "candidates now limit offset t = SelectClaimableOutboxMessages now limit offset t"

lemma candidates_advance: "candidates now n off t \<noteq> [] \<Longrightarrow> off < length (claimable_rows now t)"
  by (auto simp: candidates_def SelectClaimableOutboxMessages_def)

text \<open>The skip-locked loop: lock a page of what is still wanted, read on until the batch is full.\<close>

function lock_pages ::
  "time \<Rightarrow> (string \<Rightarrow> bool) \<Rightarrow> outbox_table \<Rightarrow> nat \<Rightarrow> nat \<Rightarrow> string list \<Rightarrow> string list" where
  "lock_pages now locked t limit offset claimed =
     (if limit \<le> length claimed then claimed
      else (let want = limit - length claimed; page = candidates now want offset t in
            if page = [] then claimed
            else (let claimed' = claimed @ SelectClaimableOutboxMessagesSkipLocked now locked page t in
                  if length page < want then claimed'
                  else lock_pages now locked t limit (offset + length page) claimed')))"
  by pat_completeness auto

termination
proof (relation "measure (\<lambda>(now, locked, t, limit, offset, claimed). length (claimable_rows now t) - offset)")
  fix now locked t limit offset claimed want page claimed'
  assume "page = candidates now want offset t" "page \<noteq> []"
  then have "0 < length page" "offset < length (claimable_rows now t)" using candidates_advance by auto
  then show "((now, locked, t, limit, offset + length page, claimed'), now, locked, t, limit, offset, claimed)
      \<in> measure (\<lambda>(now, locked, t, limit, offset, claimed). length (claimable_rows now t) - offset)"
    by (simp only: in_measure prod.case diff_less_mono2)
qed simp

declare lock_pages.simps [simp del]

definition selectClaimable :: "RelayConfig \<Rightarrow> (string \<Rightarrow> bool) \<Rightarrow> time \<Rightarrow> outbox_table \<Rightarrow> string list" where
  "selectClaimable cfg locked now t =
     (if rc_ClaimMode cfg \<noteq> ClaimSkipLocked then candidates now (nat (rc_BatchSize cfg)) 0 t
      else lock_pages now locked t (nat (rc_BatchSize cfg)) 0 [])"

definition claimed_message :: "string \<Rightarrow> outbox_row \<Rightarrow> claimedMessage" where
  "claimed_message token r =
     \<lparr>cm_id = ob_id r, cm_topic = ob_topic r, cm_key = ob_partition_key r, cm_claimToken = token,
      cm_payload = ob_payload r, cm_attempts = ob_attempts r\<rparr>"

text \<open>The lease and the read-back of one claim over the ids its select returned.\<close>

definition lease_batch ::
  "RelayConfig \<Rightarrow> string \<Rightarrow> time \<Rightarrow> string list \<Rightarrow> outbox_table \<Rightarrow> claimedMessage list \<times> outbox_table" where
  "lease_batch cfg token now ids t =
     (let t' = ClaimOutboxMessages (now + rc_LeaseDuration cfg) token now ids t in
      (map (claimed_message token) (FetchClaimedOutboxMessages token ids t'), t'))"

definition Relay_claim ::
  "relay_env \<Rightarrow> RelayConfig \<Rightarrow> relay_state \<Rightarrow> (relay_error + claimedMessage list) \<times> relay_state" where
  "Relay_claim env cfg st =
     (let token = minted_token env (rl_calls st);
          (now, st1) = read_clock env st;
          (err, st2) = next_call env st1 in
      (case err of
         Some e \<Rightarrow> (Inl (RelayDriverError e), st2)
       | None \<Rightarrow>
           (let ids = selectClaimable cfg (locked_ids env) now (rl_table st2) in
            if ids = [] then (Inr [], st2)
            else (let (claimed, t') = lease_batch cfg token now ids (rl_table st2) in
                  (Inr claimed, st2\<lparr>rl_table := t'\<rparr>)))))"

section \<open>Publishing\<close>

definition publisherFor :: "relay_env \<Rightarrow> string \<Rightarrow> relay_state \<Rightarrow> (string + unit) \<times> relay_state" where
  "publisherFor env topic st =
     (if topic \<in> set (rl_publishers st) then (Inr (), st)
      else (case new_publisher_err env topic of
              Some e \<Rightarrow> (Inl e, st)
            | None \<Rightarrow> (Inr (), st\<lparr>rl_publishers := topic # rl_publishers st\<rparr>)))"

definition Relay_publish :: "relay_env \<Rightarrow> claimedMessage \<Rightarrow> relay_state \<Rightarrow> (string + unit) \<times> relay_state" where
  "Relay_publish env m st =
     (case publisherFor env (cm_topic m) st of
        (Inl e, st1) \<Rightarrow> (Inl e, st1)
      | (Inr _, st1) \<Rightarrow>
          (let st2 = st1\<lparr>rl_calls := Suc (rl_calls st1)\<rparr> in
           (case broker_err env (rl_calls st1) (cm_topic m) (cm_payload m) of
              Some e \<Rightarrow> (Inl e, st2)
            | None \<Rightarrow> (Inr (), st2\<lparr>rl_sent := rl_sent st2 @ [m]\<rparr>))))"

text \<open>The attempt count is compared as a 64-bit unsigned integer.\<close>

definition gives_up :: "RelayConfig \<Rightarrow> claimedMessage \<Rightarrow> bool" where
  "gives_up cfg m \<longleftrightarrow> int (rc_MaxAttempts cfg) \<le> cm_attempts m mod 2 ^ 64"

definition failure_write ::
  "relay_env \<Rightarrow> RelayConfig \<Rightarrow> claimedMessage \<Rightarrow> string \<Rightarrow> time \<Rightarrow> outbox_table \<Rightarrow> int \<times> outbox_table" where
  "failure_write env cfg m cause now t =
     RecordOutboxMessageFailure (cm_id m) (cm_claimToken m) (now + scheduled_delay env (cm_attempts m))
       (truncate_cause env cause) (if gives_up cfg m then Some now else None) t"

definition recordFailure ::
  "relay_env \<Rightarrow> RelayConfig \<Rightarrow> claimedMessage \<Rightarrow> string \<Rightarrow> relay_state \<Rightarrow> relay_state" where
  "recordFailure env cfg m cause st =
     (let (now, st1) = read_clock env (st\<lparr>rl_failed := rl_failed st + 1\<rparr>);
          (err, st2) = next_call env st1 in
      (case err of
         Some e \<Rightarrow> st2
       | None \<Rightarrow>
           (let (affected, t') = failure_write env cfg m cause now (rl_table st2);
                st3 = st2\<lparr>rl_table := t'\<rparr> in
            if affected = 0 then st3\<lparr>rl_fenced := rl_fenced st3 + 1\<rparr>
            else if gives_up cfg m then st3\<lparr>rl_quarantined := rl_quarantined st3 + 1\<rparr>
            else st3)))"

definition markPublished :: "relay_env \<Rightarrow> string \<Rightarrow> string list \<Rightarrow> relay_state \<Rightarrow> relay_state" where
  "markPublished env token ids st =
     (let (at, st1) = read_clock env st;
          (err, st2) = next_call env st1 in
      (case err of
         Some e \<Rightarrow> st2
       | None \<Rightarrow>
           (let (retired, t') = MarkOutboxMessagesPublished at token ids (rl_table st2);
                lost = int (length ids) - retired in
            st2\<lparr>rl_table := t', rl_fenced := rl_fenced st2 + max 0 lost\<rparr>)))"

text \<open>The serial loop over the batch; it returns the ids the broker accepted.\<close>

fun publish_batch ::
  "relay_env \<Rightarrow> RelayConfig \<Rightarrow> claimedMessage list \<Rightarrow> relay_state \<Rightarrow> string list \<times> relay_state" where
  "publish_batch env cfg [] st = ([], st)"
| "publish_batch env cfg (m # ms) st =
     (case Relay_publish env m st of
        (Inl cause, st1) \<Rightarrow> publish_batch env cfg ms (recordFailure env cfg m cause st1)
      | (Inr _, st1) \<Rightarrow>
          (case publish_batch env cfg ms (st1\<lparr>rl_published := rl_published st1 + 1\<rparr>) of
             (ids, st2) \<Rightarrow> (cm_id m # ids, st2)))"

definition Relay_cycle :: "relay_env \<Rightarrow> RelayConfig \<Rightarrow> relay_state \<Rightarrow> relay_state" where
  "Relay_cycle env cfg st =
     (case Relay_claim env cfg st of
        (Inl e, st1) \<Rightarrow> st1\<lparr>rl_claim_errors := rl_claim_errors st1 + 1\<rparr>
      | (Inr msgs, st1) \<Rightarrow>
          (case msgs of
             [] \<Rightarrow> st1
           | m # ms \<Rightarrow>
               (case publish_batch env cfg msgs st1 of
                  (published, st2) \<Rightarrow>
                    if published = [] then st2 else markPublished env (cm_claimToken m) published st2)))"

section \<open>Backlog, retention, quarantine\<close>

definition backlog :: "relay_env \<Rightarrow> relay_state \<Rightarrow> (relay_error + int \<times> duration) \<times> relay_state" where
  "backlog env st =
     (let (err, st1) = next_call env st in
      (case err of
         Some e \<Rightarrow> (Inl (RelayDriverError e), st1)
       | None \<Rightarrow>
           (case OutboxBacklog (rl_table st1) of
              None \<Rightarrow> (Inr (0, 0), st1)
            | Some (depth, oldest) \<Rightarrow>
                (let (now, st2) = read_clock env st1 in (Inr (depth, max 0 (now - oldest)), st2)))))"

definition reapPublished :: "relay_env \<Rightarrow> RelayConfig \<Rightarrow> relay_state \<Rightarrow> relay_state" where
  "reapPublished env cfg st =
     (let (now, st1) = read_clock env st;
          (err, st2) = next_call env st1 in
      (case err of
         Some e \<Rightarrow> st2
       | None \<Rightarrow>
           (let (affected, t') = ReapPublishedOutboxMessages (now - rc_Retention cfg) (rc_ReapBatchSize cfg)
                                   (locked_ids env) (rl_table st2) in
            st2\<lparr>rl_table := t', rl_reaped := rl_reaped st2 + max 0 affected\<rparr>)))"

definition stringValue :: "string option \<Rightarrow> string" where
  "stringValue s = (case s of None \<Rightarrow> [] | Some v \<Rightarrow> v)"

definition reapQuarantined :: "relay_env \<Rightarrow> RelayConfig \<Rightarrow> relay_state \<Rightarrow> relay_state" where
  "reapQuarantined env cfg st =
     (let (now, st1) = read_clock env st;
          before = now - rc_QuarantineRetention cfg;
          (err, st2) = next_call env st1 in
      (case err of
         Some e \<Rightarrow> st2
       | None \<Rightarrow>
           (let doomed = SelectReapableQuarantinedOutboxMessages before (rc_ReapBatchSize cfg) (rl_table st2) in
            if doomed = [] then st2
            else (let (err', st3) = next_call env st2 in
                  (case err' of
                     Some e \<Rightarrow> st3
                   | None \<Rightarrow>
                       (let (affected, t') = ReapQuarantinedOutboxMessages before (rc_ReapBatchSize cfg)
                                               (locked_ids env) (rl_table st3) in
                        st3\<lparr>rl_table := t', rl_quarantine_reaped := rl_quarantine_reaped st3 + affected,
                            rl_discarded := rl_discarded st3 @
                              map (\<lambda>r. (ob_id r, stringValue (ob_last_error r))) doomed\<rparr>))))))"

definition reap :: "relay_env \<Rightarrow> RelayConfig \<Rightarrow> relay_state \<Rightarrow> relay_state" where
  "reap env cfg st = reapQuarantined env cfg (reapPublished env cfg st)"

definition timeValue :: "time option \<Rightarrow> time" where
  "timeValue t = (case t of None \<Rightarrow> 0 | Some v \<Rightarrow> v)"

definition quarantined_message :: "outbox_row \<Rightarrow> QuarantinedMessage" where
  "quarantined_message r =
     \<lparr>qm_CreatedAt = ob_created_at r, qm_QuarantinedAt = timeValue (ob_quarantined_at r), qm_ID = ob_id r,
      qm_Topic = ob_topic r, qm_Key = ob_partition_key r, qm_LastError = stringValue (ob_last_error r),
      qm_Attempts = ob_attempts r\<rparr>"

definition Relay_Quarantined ::
  "relay_env \<Rightarrow> int \<Rightarrow> relay_state \<Rightarrow> (relay_error + QuarantinedMessage list) \<times> relay_state" where
  "Relay_Quarantined env limit st =
     (let (err, st1) = next_call env st;
          n = (if limit \<le> 0 then DefaultQuarantineLimit else limit) in
      (case err of
         Some e \<Rightarrow> (Inl (RelayDriverError e), st1)
       | None \<Rightarrow> (Inr (map quarantined_message (SelectQuarantinedOutboxMessages n (rl_table st1))), st1)))"

definition Relay_Release ::
  "relay_env \<Rightarrow> string list \<Rightarrow> relay_state \<Rightarrow> (relay_error + int) \<times> relay_state" where
  "Relay_Release env ids st =
     (if ids = [] then (Inr 0, st)
      else (let (now, st1) = read_clock env st;
                (err, st2) = next_call env st1 in
            (case err of
               Some e \<Rightarrow> (Inl (RelayDriverError e), st2)
             | None \<Rightarrow>
                 (let (released, t') = ReleaseQuarantinedOutboxMessages now ids (rl_table st2) in
                  (Inr released, st2\<lparr>rl_table := t'\<rparr>)))))"

section \<open>The loop\<close>

text \<open>
  One iteration of \<^verbatim>\<open>Run\<close> per case its select takes. \<open>lastCycle\<close> is \<open>None\<close> for Go's zero time, which every
  clock reading is far past.
\<close>

datatype run_case = Stopped | PollTick | Woken | FloorTick | ReapTick
datatype run_action = Return | Idle | CycleAction | ReapAction

record run_state =
  run_lastCycle :: "time option"
  run_wakePending :: bool

definition Run_select :: "duration \<Rightarrow> time \<Rightarrow> run_case \<Rightarrow> run_state \<Rightarrow> run_action \<times> run_state" where
  "Run_select minWake now c s =
     (case c of
        Stopped \<Rightarrow> (Return, s)
      | PollTick \<Rightarrow> (CycleAction, s\<lparr>run_lastCycle := Some now\<rparr>)
      | Woken \<Rightarrow>
          if (case run_lastCycle s of None \<Rightarrow> False | Some l \<Rightarrow> now - l < minWake)
          then (Idle, s\<lparr>run_wakePending := True\<rparr>)
          else (CycleAction, s\<lparr>run_lastCycle := Some now\<rparr>)
      | FloorTick \<Rightarrow>
          if run_wakePending s then (CycleAction, s\<lparr>run_wakePending := False, run_lastCycle := Some now\<rparr>)
          else (Idle, s)
      | ReapTick \<Rightarrow> (ReapAction, s))"

fun Run_trace :: "duration \<Rightarrow> (time \<times> run_case) list \<Rightarrow> run_state \<Rightarrow> (time \<times> run_case \<times> run_action) list" where
  "Run_trace minWake [] s = []"
| "Run_trace minWake ((now, c) # es) s =
     (case Run_select minWake now c s of
        (a, s') \<Rightarrow> (now, c, a) # (if a = Return then [] else Run_trace minWake es s'))"

text \<open>\<^verbatim>\<open>Close\<close>: waits for a loop that was started, then stops and forgets the publishers.\<close>

definition Relay_Close :: "bool \<Rightarrow> bool \<Rightarrow> relay_state \<Rightarrow> bool \<times> string list \<times> relay_state" where
  "Relay_Close started drained st =
     (if started \<and> \<not> drained then (False, [], st)
      else (True, rl_publishers st, st\<lparr>rl_publishers := []\<rparr>))"

lemmas relay_call_defs = read_clock_def next_call_def

end
