(* ===== verification/Outbox_System.thy ===== *)
theory Outbox_System
  imports Outbox_Relay
begin

text \<open>
  Several writers, relays and operators over one outbox table, as a step relation.

  The state adds to the table what the processes hold in memory and what has happened: the rows as
  they were enqueued, each claim by its name (the ids it has selected, or the batch it is publishing
  and the ids the broker has accepted), the calls that reached the broker in order, and the messages
  the fleet has ever given up on. A step is one statement, one transaction whose rows nobody else can
  write meanwhile, or one call to the broker, so every interleaving of the relays' statements is a
  run. A selection may be stale by the time it is leased; a claim may stall past its lease, or vanish.

  With \<open>ordered\<close> the writers commit the messages of one key in publish order and nobody releases from
  the quarantine; those are the runs for which the per-key order is proved.
\<close>

section \<open>State and steps\<close>

datatype claim_state =
    Selecting time "string list"
  | Publishing "claimedMessage list" "string list"

record outbox_system =
  os_table :: outbox_table
  os_enqueued :: "outbox_row list"
  os_claims :: "string \<Rightarrow> claim_state option"
  os_tokens :: "string set"
  os_sent :: "claimedMessage list"
  os_given_up :: "string set"

definition outbox_init :: "outbox_system \<Rightarrow> bool" where
  "outbox_init s \<longleftrightarrow> os_table s = [] \<and> os_enqueued s = [] \<and> os_claims s = Map.empty \<and> os_sent s = []"

definition in_publish_order :: "outbox_row list \<Rightarrow> outbox_row \<Rightarrow> bool" where
  "in_publish_order enq r \<longleftrightarrow>
     ob_partition_key r = [] \<or> (\<forall>e \<in> set enq. ob_partition_key e = ob_partition_key r \<longrightarrow> earlier e r)"

inductive outbox_step :: "RelayConfig \<Rightarrow> bool \<Rightarrow> outbox_system \<Rightarrow> outbox_system \<Rightarrow> bool"
  for cfg :: RelayConfig and ordered :: bool where
  os_enqueue: "r = InsertOutboxMessage i topic key payload at \<Longrightarrow> i \<notin> ob_id ` set (os_enqueued s) \<Longrightarrow>
    (ordered \<longrightarrow> in_publish_order (os_enqueued s) r) \<Longrightarrow>
    outbox_step cfg ordered s (s\<lparr>os_table := os_table s @ [r], os_enqueued := os_enqueued s @ [r]\<rparr>)"
| os_begin: "tok \<notin> os_tokens s \<Longrightarrow>
    outbox_step cfg ordered s (s\<lparr>os_claims := (os_claims s)(tok \<mapsto> Selecting now []), os_tokens := insert tok (os_tokens s)\<rparr>)"
| os_page: "os_claims s tok = Some (Selecting now ids) \<Longrightarrow>
    set page \<subseteq> ob_id ` {r \<in> set (os_table s). selectable now (os_table s) r} \<Longrightarrow>
    outbox_step cfg ordered s (s\<lparr>os_claims := (os_claims s)(tok \<mapsto> Selecting now (ids @ page))\<rparr>)"
| os_lease: "os_claims s tok = Some (Selecting now ids) \<Longrightarrow> lease_batch cfg tok now ids (os_table s) = (msgs, t') \<Longrightarrow>
    outbox_step cfg ordered s (s\<lparr>os_table := t', os_claims := (os_claims s)(tok \<mapsto> Publishing msgs [])\<rparr>)"
| os_reached: "os_claims s tok = Some (Publishing (m # ms) done) \<Longrightarrow>
    outbox_step cfg ordered s (s\<lparr>os_sent := os_sent s @ [m]\<rparr>)"
| os_accepted: "os_claims s tok = Some (Publishing (m # ms) done) \<Longrightarrow>
    outbox_step cfg ordered s
      (s\<lparr>os_sent := os_sent s @ [m], os_claims := (os_claims s)(tok \<mapsto> Publishing ms (done @ [cm_id m]))\<rparr>)"
| os_refused: "os_claims s tok = Some (Publishing (m # ms) done) \<Longrightarrow>
    t' = os_table s \<or> t' = snd (failure_write env cfg m cause now (os_table s)) \<Longrightarrow>
    outbox_step cfg ordered s
      (s\<lparr>os_table := t', os_claims := (os_claims s)(tok \<mapsto> Publishing ms done),
         os_given_up := os_given_up s \<union> ob_id ` {r \<in> set t'. quarantined r}\<rparr>)"
| os_mark: "os_claims s tok = Some (Publishing [] done) \<Longrightarrow>
    outbox_step cfg ordered s
      (s\<lparr>os_table := snd (MarkOutboxMessagesPublished at tok done (os_table s)), os_claims := (os_claims s)(tok := None)\<rparr>)"
| os_forget: "outbox_step cfg ordered s (s\<lparr>os_claims := (os_claims s)(tok := None)\<rparr>)"
| os_reap: "outbox_step cfg ordered s
      (s\<lparr>os_table := snd (ReapPublishedOutboxMessages before limit locked (os_table s))\<rparr>)"
| os_discard: "outbox_step cfg ordered s
      (s\<lparr>os_table := snd (ReapQuarantinedOutboxMessages before limit locked (os_table s))\<rparr>)"
| os_release: "\<not> ordered \<Longrightarrow>
    outbox_step cfg ordered s (s\<lparr>os_table := snd (ReleaseQuarantinedOutboxMessages now ids (os_table s))\<rparr>)"

inductive_cases outbox_stepE: "outbox_step cfg ordered s s'"

section \<open>Rows and the history\<close>

text \<open>
  A row is one of the enqueued ones; a name on it belongs to a claim and the row is waiting; published
  rows reached the broker, quarantined ones were given up.
\<close>

definition row_ok :: "outbox_row set \<Rightarrow> string set \<Rightarrow> string set \<Rightarrow> string set \<Rightarrow> outbox_row \<Rightarrow> bool" where
  "row_ok enq toks sent given r \<longleftrightarrow>
     envelope r \<in> envelope ` enq \<and>
     (\<forall>tok. ob_claimed_by r = Some tok \<longrightarrow> tok \<in> toks \<and> ob_pending r) \<and>
     (ob_published_at r \<noteq> None \<longrightarrow> ob_id r \<in> sent) \<and>
     (quarantined r \<longrightarrow> ob_id r \<in> given)"

lemma row_ok_mono:
  "row_ok enq toks sent given r \<Longrightarrow> enq \<subseteq> enq' \<Longrightarrow> toks \<subseteq> toks' \<Longrightarrow> sent \<subseteq> sent' \<Longrightarrow> given \<subseteq> given' \<Longrightarrow>
   row_ok enq' toks' sent' given' r"
  unfolding row_ok_def by (elim conjE) (intro conjI, blast+)

lemma row_ok_leased:
  "row_ok enq toks sent given r \<Longrightarrow> ob_pending r \<Longrightarrow> tok \<in> toks \<Longrightarrow> row_ok enq toks sent given (ob_leased_row u tok r)"
  by (simp add: row_ok_def ob_pending_def quarantined_def ob_leased_row_def envelope_def)

lemma row_ok_published:
  "row_ok enq toks sent given r \<Longrightarrow> ob_id r \<in> sent \<Longrightarrow> row_ok enq toks sent given (published_row at r)"
  by (simp add: row_ok_def ob_pending_def quarantined_def published_row_def envelope_def)

lemma row_ok_failed:
  "row_ok enq toks sent given r \<Longrightarrow> (q \<noteq> None \<longrightarrow> ob_id r \<in> given) \<Longrightarrow>
   row_ok enq toks sent given (failed_row n e q r)"
  by (simp add: row_ok_def ob_pending_def quarantined_def failed_row_def envelope_def)

lemma row_ok_released:
  "row_ok enq toks sent given r \<Longrightarrow> quarantined r \<Longrightarrow> row_ok enq toks sent given (released_row n r)"
  by (auto simp: row_ok_def ob_pending_def quarantined_def released_row_def envelope_def)

definition table_ok :: "outbox_row set \<Rightarrow> string set \<Rightarrow> string set \<Rightarrow> string set \<Rightarrow> outbox_table \<Rightarrow> bool" where
  "table_ok enq toks sent given t \<longleftrightarrow> distinct (map ob_id t) \<and> (\<forall>r \<in> set t. row_ok enq toks sent given r)"

lemma table_ok_mono:
  "table_ok enq toks sent given t \<Longrightarrow> enq \<subseteq> enq' \<Longrightarrow> toks \<subseteq> toks' \<Longrightarrow> sent \<subseteq> sent' \<Longrightarrow> given \<subseteq> given' \<Longrightarrow>
   table_ok enq' toks' sent' given' t"
  unfolding table_ok_def using row_ok_mono by blast

lemma table_ok_update:
  assumes "table_ok enq toks sent given t" "\<And>r. ob_id (f r) = ob_id r"
    and "\<And>r. r \<in> set t \<Longrightarrow> p r \<Longrightarrow> row_ok enq toks sent given r \<Longrightarrow> row_ok enq toks sent given (f r)"
  shows "table_ok enq toks sent given (sql_update p f t)"
  using assms by (auto simp: table_ok_def set_sql_update messages.pk_update)

lemma table_ok_prune:
  "table_ok enq toks sent given t \<Longrightarrow> table_ok enq toks sent given (snd (prune n k p locked t))"
  unfolding table_ok_def using prune_ids set_prune by blast

text \<open>Nothing is lost: an enqueued message is waiting, or reached the broker, or was given up.\<close>

definition accounted :: "outbox_row set \<Rightarrow> string set \<Rightarrow> string set \<Rightarrow> outbox_table \<Rightarrow> bool" where
  "accounted enq sent given t \<longleftrightarrow>
     (\<forall>e \<in> enq. (\<exists>r \<in> set t. ob_id r = ob_id e \<and> ob_pending r) \<or> ob_id e \<in> sent \<or> ob_id e \<in> given)"

lemma accounted_mono:
  "accounted enq sent given t \<Longrightarrow> sent \<subseteq> sent' \<Longrightarrow> given \<subseteq> given' \<Longrightarrow> accounted enq sent' given' t"
  unfolding accounted_def by blast

lemma accounted_update:
  assumes "accounted enq sent given t" "\<And>r. ob_id (f r) = ob_id r"
    and "\<And>r. r \<in> set t \<Longrightarrow> p r \<Longrightarrow> ob_pending r \<Longrightarrow> ob_pending (f r) \<or> ob_id r \<in> sent \<or> ob_id r \<in> given"
  shows "accounted enq sent given (sql_update p f t)"
  unfolding accounted_def
proof
  fix e assume "e \<in> enq"
  with assms(1) consider "ob_id e \<in> sent \<or> ob_id e \<in> given" | r where "r \<in> set t" "ob_id r = ob_id e" "ob_pending r"
    unfolding accounted_def by blast
  then show "(\<exists>r \<in> set (sql_update p f t). ob_id r = ob_id e \<and> ob_pending r) \<or> ob_id e \<in> sent \<or> ob_id e \<in> given"
  proof cases
    case 2
    let ?r = "if p r then f r else r"
    have "?r \<in> set (sql_update p f t)" using 2(1) by (simp add: set_sql_update)
    moreover have "ob_id ?r = ob_id e" using 2(2) assms(2) by simp
    moreover have "ob_pending ?r \<or> ob_id e \<in> sent \<or> ob_id e \<in> given" using 2 assms(3) [of r] by auto
    ultimately show ?thesis by blast
  qed blast
qed

lemma accounted_prune:
  assumes "accounted enq sent given t" "table_ok E toks S G t" "\<And>r. p r \<Longrightarrow> \<not> ob_pending r"
  shows "accounted enq sent given (snd (prune n k p locked t))"
proof -
  have "r \<in> set (snd (prune n k p locked t))" if "r \<in> set t" "ob_pending r" for r
    using prune_removed [of t r n k p locked] assms(2,3) that unfolding table_ok_def by blast
  then show ?thesis using assms(1) unfolding accounted_def by blast
qed

lemma past_horizon_not_pending: "past_horizon before r \<Longrightarrow> \<not> ob_pending r"
  by (auto simp: past_horizon_def ob_pending_def)

lemma quarantineHorizon_not_pending: "quarantineHorizon before r \<Longrightarrow> \<not> ob_pending r"
  by (auto simp: quarantineHorizon_def ob_pending_def)

section \<open>Claims and the broker's log\<close>

text \<open>A message in a batch or at the broker is an enqueued one, byte for byte.\<close>

definition carries :: "outbox_row set \<Rightarrow> claimedMessage \<Rightarrow> bool" where
  "carries enq m \<longleftrightarrow> (\<exists>e \<in> enq. cm_id m = ob_id e \<and> cm_topic m = ob_topic e \<and> cm_key m = ob_partition_key e \<and>
                              cm_payload m = ob_payload e)"

lemma carries_mono: "carries enq m \<Longrightarrow> enq \<subseteq> enq' \<Longrightarrow> carries enq' m"
  unfolding carries_def by blast

fun claim_ok :: "outbox_row set \<Rightarrow> string set \<Rightarrow> string \<Rightarrow> claim_state \<Rightarrow> bool" where
  "claim_ok enq sent tok (Selecting now ids) = (set ids \<subseteq> ob_id ` enq)"
| "claim_ok enq sent tok (Publishing ms done) =
     ((\<forall>m \<in> set ms. carries enq m \<and> cm_claimToken m = tok) \<and> set done \<subseteq> sent)"

lemma claim_ok_mono: "claim_ok enq sent tok c \<Longrightarrow> enq \<subseteq> enq' \<Longrightarrow> sent \<subseteq> sent' \<Longrightarrow> claim_ok enq' sent' tok c"
  by (cases c) (auto intro: carries_mono)

definition claims_ok :: "outbox_row set \<Rightarrow> string set \<Rightarrow> string set \<Rightarrow> (string \<Rightarrow> claim_state option) \<Rightarrow> bool" where
  "claims_ok enq toks sent cs \<longleftrightarrow> (\<forall>tok c. cs tok = Some c \<longrightarrow> tok \<in> toks \<and> claim_ok enq sent tok c)"

lemma claims_ok_mono:
  "claims_ok enq toks sent cs \<Longrightarrow> enq \<subseteq> enq' \<Longrightarrow> toks \<subseteq> toks' \<Longrightarrow> sent \<subseteq> sent' \<Longrightarrow> claims_ok enq' toks' sent' cs"
  unfolding claims_ok_def using claim_ok_mono by blast

lemma claims_ok_upd:
  "claims_ok enq toks sent cs \<Longrightarrow> tok \<in> toks \<Longrightarrow> claim_ok enq sent tok c \<Longrightarrow> claims_ok enq toks sent (cs(tok \<mapsto> c))"
  by (auto simp: claims_ok_def)

lemma claims_ok_del: "claims_ok enq toks sent cs \<Longrightarrow> claims_ok enq toks sent (cs(tok := None))"
  by (auto simp: claims_ok_def)

abbreviation sent_ids :: "outbox_system \<Rightarrow> string set" where
  "sent_ids s \<equiv> cm_id ` set (os_sent s)"

abbreviation enq :: "outbox_system \<Rightarrow> outbox_row set" where
  "enq s \<equiv> set (os_enqueued s)"

definition outbox_inv :: "outbox_system \<Rightarrow> bool" where
  "outbox_inv s \<longleftrightarrow>
     distinct (map ob_id (os_enqueued s)) \<and>
     table_ok (enq s) (os_tokens s) (sent_ids s) (os_given_up s) (os_table s) \<and>
     accounted (enq s) (sent_ids s) (os_given_up s) (os_table s) \<and>
     claims_ok (enq s) (os_tokens s) (sent_ids s) (os_claims s) \<and>
     (\<forall>m \<in> set (os_sent s). carries (enq s) m)"

section \<open>The invariant holds in every run\<close>

lemma lease_batch_table:
  "lease_batch cfg tok now ids t = (msgs, t') \<Longrightarrow>
   t' = ClaimOutboxMessages (now + rc_LeaseDuration cfg) tok now ids t \<and>
   msgs = map (claimed_message tok) (FetchClaimedOutboxMessages tok ids t')"
  by (auto simp: lease_batch_def Let_def)

lemma lease_batch_msgs:
  assumes "lease_batch cfg tok now ids t = (msgs, t')" "m \<in> set msgs"
  obtains r where "r \<in> set t'" "m = claimed_message tok r" "held_by tok ids r"
  using assms(2) unfolding lease_batch_table [OF assms(1), THEN conjunct2]
  by (auto simp: FetchClaimedOutboxMessages_def)

lemma claimed_message_carries: "row_ok E toks sent given r \<Longrightarrow> carries E (claimed_message tok r)"
  by (auto simp: row_ok_def carries_def claimed_message_def envelope_def)

lemma os_claimed:
  assumes "outbox_inv s" "os_claims s tok = Some c"
  shows "tok \<in> os_tokens s" "claim_ok (enq s) (sent_ids s) tok c"
  using assms by (auto simp: outbox_inv_def claims_ok_def)

lemma lease_inv:
  assumes inv: "outbox_inv s" and c: "os_claims s tok = Some (Selecting now ids)"
    and l: "lease_batch cfg tok now ids (os_table s) = (msgs, t')"
  shows "outbox_inv (s\<lparr>os_table := t', os_claims := (os_claims s)(tok \<mapsto> Publishing msgs [])\<rparr>)"
proof -
  have tok: "tok \<in> os_tokens s" by (rule os_claimed [OF inv c])
  have t': "t' = ClaimOutboxMessages (now + rc_LeaseDuration cfg) tok now ids (os_table s)"
    using lease_batch_table [OF l] by simp
  have T: "table_ok (enq s) (os_tokens s) (sent_ids s) (os_given_up s) t'"
    unfolding t' ClaimOutboxMessages_def
    by (rule table_ok_update) (use inv tok in \<open>auto simp: outbox_inv_def intro: row_ok_leased claimable_pending\<close>)
  have A: "accounted (enq s) (sent_ids s) (os_given_up s) t'"
    unfolding t' ClaimOutboxMessages_def
    by (rule accounted_update) (use inv in \<open>auto simp: outbox_inv_def\<close>)
  have "claim_ok (enq s) (sent_ids s) tok (Publishing msgs [])"
    using T by (auto elim!: lease_batch_msgs [OF l] simp: table_ok_def claimed_message_carries)
      (simp add: claimed_message_def)
  with inv tok T A show ?thesis by (simp add: outbox_inv_def claims_ok_upd)
qed

lemma sent_inv:
  assumes inv: "outbox_inv s" and m: "carries (enq s) m"
  shows "outbox_inv (s\<lparr>os_sent := os_sent s @ [m]\<rparr>)"
proof -
  have sub: "sent_ids s \<subseteq> insert (cm_id m) (sent_ids s)" by blast
  show ?thesis
    using inv m table_ok_mono [OF _ order_refl order_refl sub order_refl]
      accounted_mono [OF _ sub order_refl] claims_ok_mono [OF _ order_refl order_refl sub]
    unfolding outbox_inv_def by simp
qed

lemma claims_inv:
  assumes "outbox_inv s" "claims_ok (enq s) (os_tokens s) (sent_ids s) cs"
  shows "outbox_inv (s\<lparr>os_claims := cs\<rparr>)"
  using assms by (simp add: outbox_inv_def)

lemma table_inv:
  assumes "outbox_inv s"
    and "table_ok (enq s) (os_tokens s) (sent_ids s) (os_given_up s) t'"
    and "accounted (enq s) (sent_ids s) (os_given_up s) t'"
  shows "outbox_inv (s\<lparr>os_table := t'\<rparr>)"
  using assms by (simp add: outbox_inv_def)

lemma given_up_inv:
  assumes "outbox_inv s" "os_given_up s \<subseteq> G"
  shows "outbox_inv (s\<lparr>os_given_up := G\<rparr>)"
  using assms table_ok_mono [OF _ order_refl order_refl order_refl assms(2)] accounted_mono [OF _ order_refl assms(2)]
  by (simp add: outbox_inv_def)

lemma enqueue_inv:
  assumes inv: "outbox_inv s" and r: "r = InsertOutboxMessage i topic key payload at" and i: "i \<notin> ob_id ` enq s"
  shows "outbox_inv (s\<lparr>os_table := os_table s @ [r], os_enqueued := os_enqueued s @ [r]\<rparr>)"
proof -
  have sub: "enq s \<subseteq> insert r (enq s)" by blast
  have id: "ob_id r = i" and p: "ob_pending r" using r by (simp_all add: InsertOutboxMessage_def ob_pending_def)
  have T0: "table_ok (enq s) (os_tokens s) (sent_ids s) (os_given_up s) (os_table s)"
    and A: "accounted (enq s) (sent_ids s) (os_given_up s) (os_table s)" using inv by (simp_all add: outbox_inv_def)
  have "ob_id q \<in> ob_id ` enq s" if "q \<in> set (os_table s)" for q
    using T0 that by (auto simp: table_ok_def row_ok_def envelope_def)
  then have i': "i \<notin> ob_id ` set (os_table s)" using i by auto
  have T1: "table_ok (insert r (enq s)) (os_tokens s) (sent_ids s) (os_given_up s) (os_table s)"
    by (rule table_ok_mono [OF T0 sub order_refl order_refl order_refl])
  have "row_ok (insert r (enq s)) (os_tokens s) (sent_ids s) (os_given_up s) r"
    by (simp add: row_ok_def r InsertOutboxMessage_def quarantined_def)
  with T1 i' id have T: "table_ok (insert r (enq s)) (os_tokens s) (sent_ids s) (os_given_up s) (os_table s @ [r])"
    by (auto simp: table_ok_def)
  have A': "accounted (insert r (enq s)) (sent_ids s) (os_given_up s) (os_table s @ [r])"
    using A p unfolding accounted_def by auto
  show ?thesis
    using inv T A' i id claims_ok_mono [OF _ sub order_refl order_refl] carries_mono [OF _ sub]
    unfolding outbox_inv_def by auto
qed

lemma failed_table:
  assumes "table_ok E T S G t" "accounted E S G t"
    and given: "\<And>r. r \<in> set t \<Longrightarrow> p r \<Longrightarrow> q \<noteq> None \<Longrightarrow> ob_id r \<in> G"
  shows "table_ok E T S G (sql_update p (failed_row n e q) t)" "accounted E S G (sql_update p (failed_row n e q) t)"
proof -
  show "table_ok E T S G (sql_update p (failed_row n e q) t)"
    by (rule table_ok_update [OF assms(1)]) (use given in \<open>auto intro!: row_ok_failed\<close>)
  show "accounted E S G (sql_update p (failed_row n e q) t)"
    by (rule accounted_update [OF assms(2)]) (use given in \<open>auto simp: ob_pending_def failed_row_def\<close>)
qed

lemma failure_write_table:
  "snd (failure_write env cfg m cause now t) =
     sql_update (held_by (cm_claimToken m) [cm_id m])
       (failed_row (now + scheduled_delay env (cm_attempts m)) (truncate_cause env cause)
          (if gives_up cfg m then Some now else None)) t"
  by (simp add: failure_write_def RecordOutboxMessageFailure_def)

lemma quarantined_failed: "quarantined (failed_row n e q r) \<longleftrightarrow> q \<noteq> None"
  by (simp add: quarantined_def failed_row_def)

lemma refused_inv:
  assumes inv: "outbox_inv s" and c: "os_claims s tok = Some (Publishing (m # ms) done)"
    and t': "t' = os_table s \<or> t' = snd (failure_write env cfg m cause now (os_table s))"
  shows "outbox_inv (s\<lparr>os_table := t', os_claims := (os_claims s)(tok \<mapsto> Publishing ms done),
         os_given_up := os_given_up s \<union> ob_id ` {r \<in> set t'. quarantined r}\<rparr>)"
proof -
  define G where "G = os_given_up s \<union> ob_id ` {r \<in> set t'. quarantined r}"
  let ?s = "s\<lparr>os_given_up := G\<rparr>"
  have inv1: "outbox_inv ?s" using given_up_inv [OF inv] by (simp add: G_def)
  then have T: "table_ok (enq s) (os_tokens s) (sent_ids s) G (os_table s)"
    and A: "accounted (enq s) (sent_ids s) G (os_table s)" by (simp_all add: outbox_inv_def)
  have "table_ok (enq s) (os_tokens s) (sent_ids s) G t' \<and> accounted (enq s) (sent_ids s) G t'"
    using t'
  proof
    assume t': "t' = snd (failure_write env cfg m cause now (os_table s))"
    let ?p = "held_by (cm_claimToken m) [cm_id m]" and ?q = "if gives_up cfg m then Some now else None"
    define f where "f = failed_row (now + scheduled_delay env (cm_attempts m)) (truncate_cause env cause) ?q"
    have t'': "t' = sql_update ?p f (os_table s)" by (simp only: t' failure_write_table f_def)
    have "ob_id r \<in> G" if "r \<in> set (os_table s)" "?p r" "?q \<noteq> None" for r
    proof -
      have "f r \<in> set t'" using that(1,2) by (auto simp: t'' set_sql_update)
      moreover have "quarantined (f r)" "ob_id (f r) = ob_id r"
        unfolding f_def quarantined_failed by (fact that(3), simp)
      ultimately show ?thesis unfolding G_def by (intro UnI2 image_eqI [of _ _ "f r"]) simp_all
    qed
    then show ?thesis unfolding t'' f_def using failed_table [OF T A] by blast
  qed (use T A in simp)
  then have inv2: "outbox_inv (?s\<lparr>os_table := t'\<rparr>)" using table_inv [OF inv1, of t'] by simp
  have "claims_ok (enq s) (os_tokens s) (sent_ids s) ((os_claims s)(tok \<mapsto> Publishing ms done))"
    using inv os_claimed [OF inv c] by (intro claims_ok_upd) (auto simp: outbox_inv_def)
  with inv2 show ?thesis by (simp add: outbox_inv_def G_def)
qed

lemma mark_inv:
  assumes inv: "outbox_inv s" and c: "os_claims s tok = Some (Publishing [] done)"
  shows "outbox_inv (s\<lparr>os_table := snd (MarkOutboxMessagesPublished at tok done (os_table s))\<rparr>)"
proof -
  have d: "set done \<subseteq> sent_ids s" using os_claimed(2) [OF inv c] by simp
  then have sent: "ob_id r \<in> sent_ids s" if "held_by tok done r" for r using that by (auto simp: held_by_def)
  show ?thesis
    unfolding MarkOutboxMessagesPublished_def snd_conv
  proof (rule table_inv [OF inv])
    show "table_ok (enq s) (os_tokens s) (sent_ids s) (os_given_up s)
        (sql_update (held_by tok done) (published_row at) (os_table s))"
      by (rule table_ok_update) (use inv sent in \<open>auto simp: outbox_inv_def intro!: row_ok_published\<close>)
    show "accounted (enq s) (sent_ids s) (os_given_up s)
        (sql_update (held_by tok done) (published_row at) (os_table s))"
      by (rule accounted_update) (use inv sent in \<open>auto simp: outbox_inv_def\<close>)
  qed
qed

lemma prune_inv:
  assumes "outbox_inv s" "\<And>r. p r \<Longrightarrow> \<not> ob_pending r"
  shows "outbox_inv (s\<lparr>os_table := snd (prune n k p locked (os_table s))\<rparr>)"
  using assms unfolding outbox_inv_def by (auto intro: table_ok_prune accounted_prune)

lemma release_inv:
  assumes "outbox_inv s"
  shows "outbox_inv (s\<lparr>os_table := snd (ReleaseQuarantinedOutboxMessages now ids (os_table s))\<rparr>)"
  unfolding ReleaseQuarantinedOutboxMessages_def Let_def snd_conv
proof (rule table_inv [OF assms])
  let ?u = "sql_update (\<lambda>r. quarantined r \<and> ob_id r \<in> set ids) (released_row now) (os_table s)"
  show "table_ok (enq s) (os_tokens s) (sent_ids s) (os_given_up s) ?u"
    by (rule table_ok_update) (use assms in \<open>auto simp: outbox_inv_def intro!: row_ok_released\<close>)
  show "accounted (enq s) (sent_ids s) (os_given_up s) ?u"
    by (rule accounted_update) (use assms in \<open>auto simp: outbox_inv_def ob_pending_def quarantined_def released_row_def\<close>)
qed

lemma batch_head_carries: "outbox_inv s \<Longrightarrow> os_claims s tok = Some (Publishing (m # ms) done) \<Longrightarrow> carries (enq s) m"
  using os_claimed(2) by fastforce

lemma outbox_step_inv:
  assumes "outbox_step cfg ordered s s'" "outbox_inv s"
  shows "outbox_inv s'"
  using assms
proof (induction rule: outbox_step.induct)
  case (os_enqueue r i topic key payload at s)
  then show ?case by (intro enqueue_inv)
next
  case (os_begin tok s now)
  let ?T = "insert tok (os_tokens s)"
  have sub: "os_tokens s \<subseteq> ?T" by blast
  from os_begin show ?case
    using table_ok_mono [OF _ order_refl sub order_refl order_refl] claims_ok_mono [OF _ order_refl sub order_refl]
    by (simp add: outbox_inv_def claims_ok_upd)
next
  case (os_page s tok now ids page)
  have "ob_id ` set (os_table s) \<subseteq> ob_id ` enq s"
    using os_page.prems by (auto simp: outbox_inv_def table_ok_def row_ok_def envelope_def)
  with os_page(2) have "set page \<subseteq> ob_id ` enq s" by blast
  with os_claimed [OF os_page.prems os_page(1)] have "claim_ok (enq s) (sent_ids s) tok (Selecting now (ids @ page))" by simp
  with os_claimed(1) [OF os_page.prems os_page(1)] show ?case
    using os_page.prems by (intro claims_inv claims_ok_upd) (simp_all add: outbox_inv_def)
next
  case (os_lease s tok now ids msgs t')
  then show ?case by (intro lease_inv)
next
  case (os_reached s tok m ms dn)
  then show ?case using sent_inv batch_head_carries by blast
next
  case (os_accepted s tok m ms dn)
  let ?s = "s\<lparr>os_sent := os_sent s @ [m]\<rparr>"
  have inv: "outbox_inv ?s" using sent_inv [OF os_accepted.prems] batch_head_carries [OF os_accepted.prems] os_accepted(1) by blast
  have "claims_ok (enq ?s) (os_tokens ?s) (sent_ids ?s) ((os_claims s)(tok \<mapsto> Publishing ms (dn @ [cm_id m])))"
    using inv os_claimed [OF os_accepted.prems os_accepted(1)]
    by (intro claims_ok_upd) (auto simp: outbox_inv_def)
  from claims_inv [OF inv this] show ?case by simp
next
  case (os_refused s tok m ms dn t' env cause now)
  then show ?case by (intro refused_inv)
next
  case (os_mark s tok dn at)
  have inv: "outbox_inv (s\<lparr>os_table := snd (MarkOutboxMessagesPublished at tok dn (os_table s))\<rparr>)"
    using os_mark by (intro mark_inv)
  then show ?case by (simp add: outbox_inv_def claims_ok_del)
next
  case (os_forget s tok)
  then show ?case by (intro claims_inv) (simp_all add: outbox_inv_def claims_ok_del)
next
  case (os_reap s before limit locked)
  then show ?case
    unfolding ReapPublishedOutboxMessages_def by (intro prune_inv past_horizon_not_pending)
next
  case (os_discard s before limit locked)
  then show ?case
    unfolding ReapQuarantinedOutboxMessages_def by (intro prune_inv quarantineHorizon_not_pending)
next
  case (os_release s now ids)
  then show ?case by (intro release_inv)
qed

interpretation outbox: invariant_system outbox_init "outbox_step cfg ordered" outbox_inv
proof unfold_locales
  show "outbox_init s \<Longrightarrow> outbox_inv s" for s
    by (simp add: outbox_init_def outbox_inv_def table_ok_def accounted_def claims_ok_def)
qed (rule outbox_step_inv)

end
