(* ===== verification/Outbox_Order.thy ===== *)
theory Outbox_Order
  imports Outbox_System
begin

text \<open>
  Per-key order. In the runs where the writers commit a key's messages in publish order and nothing is
  released from the quarantine, a message that has been selected, leased or sent has no earlier waiting
  message of its key, and it never gets one again: \<open>clear\<close> is stable. The order of the broker's log
  follows, and with it that at most one message of a key is leased at any time.
\<close>

section \<open>A message with nothing waiting before it\<close>

definition clear :: "outbox_row set \<Rightarrow> outbox_table \<Rightarrow> string \<Rightarrow> bool" where
  "clear E t i \<longleftrightarrow>
     (\<forall>q \<in> E. ob_id q = i \<and> ob_partition_key q \<noteq> [] \<longrightarrow>
        (\<forall>r \<in> set t. ob_pending r \<and> ob_partition_key r = ob_partition_key q \<longrightarrow> \<not> earlier r q))"

definition no_new_pending :: "outbox_table \<Rightarrow> outbox_table \<Rightarrow> bool" where
  "no_new_pending t t' \<longleftrightarrow> (\<forall>r' \<in> set t'. ob_pending r' \<longrightarrow> (\<exists>r \<in> set t. envelope r = envelope r' \<and> ob_pending r))"

lemma no_new_pending_refl [simp]: "no_new_pending t t"
  by (auto simp: no_new_pending_def)

lemma no_new_pending_update:
  assumes "\<And>r. envelope (f r) = envelope r" "\<And>r. r \<in> set t \<Longrightarrow> p r \<Longrightarrow> ob_pending (f r) \<Longrightarrow> ob_pending r"
  shows "no_new_pending t (sql_update p f t)"
  using assms by (auto simp: no_new_pending_def set_sql_update)

lemma no_new_pending_prune: "no_new_pending t (snd (prune n k p locked t))"
  using set_prune by (fastforce simp: no_new_pending_def)

lemma clear_stable: "clear E t i \<Longrightarrow> no_new_pending t t' \<Longrightarrow> clear E t' i"
proof -
  assume c: "clear E t i" and n: "no_new_pending t t'"
  have "\<not> earlier r' q"
    if prem: "q \<in> E" "ob_id q = i" "ob_partition_key q \<noteq> []" "r' \<in> set t'" "ob_pending r'"
      "ob_partition_key r' = ob_partition_key q" for q r'
  proof -
    obtain r where r: "r \<in> set t" "envelope r = envelope r'" "ob_pending r"
      using n prem(4,5) by (auto simp: no_new_pending_def)
    then have "ob_partition_key r = ob_partition_key q" using prem(6) by (simp add: envelope_def)
    then have "\<not> earlier r q" using c r prem(1-3) unfolding clear_def by blast
    then show ?thesis using earlier_envelope [OF r(2) refl] by simp
  qed
  then show ?thesis unfolding clear_def by blast
qed

text \<open>The id of an enqueued message determines everything about it.\<close>

lemma enqueued_unique:
  assumes "distinct (map ob_id es)" "row_ok (set es) T S G r" "q \<in> set es" "ob_id q = ob_id r"
  shows "envelope r = envelope q"
proof -
  obtain e where e: "e \<in> set es" "envelope r = envelope e" using assms(2) by (auto simp: row_ok_def)
  then have "ob_id e = ob_id q" using assms(4) envelope_ob by metis
  then have "e = q" using inj_onD [of ob_id "set es" e q] assms(1,3) e(1) by (simp add: distinct_map)
  with e show ?thesis by simp
qed

lemma selectable_clear:
  assumes inv: "outbox_inv s" and r: "r \<in> set (os_table s)" "selectable now (os_table s) r"
  shows "clear (enq s) (os_table s) (ob_id r)"
  unfolding clear_def
proof (intro ballI impI)
  fix q p assume q: "q \<in> enq s" "ob_id q = ob_id r \<and> ob_partition_key q \<noteq> []"
    and p: "p \<in> set (os_table s)" "ob_pending p \<and> ob_partition_key p = ob_partition_key q"
  have e: "envelope r = envelope q"
    using inv r(1) q by (intro enqueued_unique [of "os_enqueued s"]) (auto simp: outbox_inv_def table_ok_def)
  then have "ob_partition_key r = ob_partition_key q" by (simp add: envelope_def)
  then have "\<not> earlier p r" using r(2) p q unfolding selectable_def heads_key_def by metis
  then show "\<not> earlier p q" using earlier_envelope [OF refl e, of p] by simp
qed

section \<open>The broker's log\<close>

definition log_ok :: "outbox_row set \<Rightarrow> string set \<Rightarrow> claimedMessage list \<Rightarrow> bool" where
  "log_ok E given log \<longleftrightarrow>
     (\<forall>n < length log. \<forall>q \<in> E. \<forall>e \<in> E.
        ob_id q = cm_id (log ! n) \<and> ob_partition_key q \<noteq> [] \<and> ob_partition_key e = ob_partition_key q \<and> earlier e q \<longrightarrow>
        ob_id e \<in> given \<or> ob_id e \<in> cm_id ` set (take n log))"

lemma log_ok_mono: "log_ok E given log \<Longrightarrow> given \<subseteq> given' \<Longrightarrow> log_ok E given' log"
  unfolding log_ok_def by blast

lemma log_ok_snoc:
  assumes "log_ok E given log"
    and "\<And>q e. q \<in> E \<Longrightarrow> e \<in> E \<Longrightarrow> ob_id q = cm_id m \<Longrightarrow> ob_partition_key q \<noteq> [] \<Longrightarrow>
           ob_partition_key e = ob_partition_key q \<Longrightarrow> earlier e q \<Longrightarrow> ob_id e \<in> given \<or> ob_id e \<in> cm_id ` set log"
  shows "log_ok E given (log @ [m])"
  using assms unfolding log_ok_def by (auto simp: nth_append less_Suc_eq)

lemma log_ok_insert:
  assumes log: "log_ok E given log" and fresh: "\<And>n. n < length log \<Longrightarrow> cm_id (log ! n) \<noteq> ob_id r"
    and late: "\<And>q. q \<in> E \<Longrightarrow> ob_partition_key r = ob_partition_key q \<Longrightarrow> ob_partition_key q \<noteq> [] \<Longrightarrow> \<not> earlier r q"
  shows "log_ok (insert r E) given log"
  unfolding log_ok_def
proof (intro allI ballI impI)
  fix n q e
  assume n: "n < length log" and q: "q \<in> insert r E" and e: "e \<in> insert r E"
    and h: "ob_id q = cm_id (log ! n) \<and> ob_partition_key q \<noteq> [] \<and> ob_partition_key e = ob_partition_key q \<and> earlier e q"
  have "q \<noteq> r" using fresh [OF n] h by auto
  then have q': "q \<in> E" using q by simp
  then have "e \<noteq> r" using late h by auto
  then have "e \<in> E" using e by simp
  with log n q' h show "ob_id e \<in> given \<or> ob_id e \<in> cm_id ` set (take n log)" unfolding log_ok_def by blast
qed

text \<open>What has no earlier waiting message finds every earlier one sent or given up.\<close>

lemma clear_earlier_settled:
  assumes inv: "outbox_inv s" and c: "clear (enq s) (os_table s) (ob_id q)"
    and q: "q \<in> enq s" "ob_partition_key q \<noteq> []" and e: "e \<in> enq s" "ob_partition_key e = ob_partition_key q" "earlier e q"
  shows "ob_id e \<in> os_given_up s \<or> ob_id e \<in> sent_ids s"
proof (rule ccontr)
  assume "\<not> ?thesis"
  then obtain r where r: "r \<in> set (os_table s)" "ob_id r = ob_id e" "ob_pending r"
    using inv e(1) unfolding outbox_inv_def accounted_def by blast
  have "envelope r = envelope e"
    using inv r e(1) by (intro enqueued_unique [of "os_enqueued s"]) (auto simp: outbox_inv_def table_ok_def)
  then have "ob_partition_key r = ob_partition_key q" "earlier r q"
    using e(2,3) earlier_envelope [of r e q q] by (simp_all add: envelope_def)
  with c q r show False unfolding clear_def by blast
qed

section \<open>The invariant\<close>

fun claim_ids :: "claim_state \<Rightarrow> string set" where
  "claim_ids (Selecting now ids) = set ids"
| "claim_ids (Publishing ms done) = cm_id ` set ms \<union> set done"

definition in_play :: "outbox_system \<Rightarrow> string set" where
  "in_play s =
     {i. \<exists>tok c. os_claims s tok = Some c \<and> i \<in> claim_ids c} \<union> sent_ids s \<union>
     ob_id ` {r \<in> set (os_table s). ob_claimed_by r \<noteq> None}"

definition order_inv :: "outbox_system \<Rightarrow> bool" where
  "order_inv s \<longleftrightarrow>
     outbox_inv s \<and> (\<forall>i \<in> in_play s. clear (enq s) (os_table s) i) \<and> log_ok (enq s) (os_given_up s) (os_sent s)"

lemma in_play_claim: "os_claims s tok = Some c \<Longrightarrow> i \<in> claim_ids c \<Longrightarrow> i \<in> in_play s"
  by (auto simp: in_play_def)

lemma in_play_cases:
  assumes "i \<in> in_play s"
  obtains (claim) tok c where "os_claims s tok = Some c" "i \<in> claim_ids c"
  | (sent) "i \<in> sent_ids s"
  | (held) r where "r \<in> set (os_table s)" "ob_claimed_by r \<noteq> None" "i = ob_id r"
  using assms by (auto simp: in_play_def)

lemma in_play_claims_upd:
  "i \<in> in_play (s\<lparr>os_claims := (os_claims s)(tok \<mapsto> c)\<rparr>) \<Longrightarrow> i \<in> claim_ids c \<or> i \<in> in_play s"
  unfolding in_play_def by (simp split: if_splits) blast

lemma carries_id: "carries E m \<Longrightarrow> cm_id m \<in> ob_id ` E"
  by (auto simp: carries_def)

lemma sent_enqueued: "outbox_inv s \<Longrightarrow> sent_ids s \<subseteq> ob_id ` enq s"
  using carries_id by (auto simp: outbox_inv_def)

lemma in_play_enqueued: "outbox_inv s \<Longrightarrow> i \<in> in_play s \<Longrightarrow> i \<in> ob_id ` enq s"
proof (erule in_play_cases)
  fix tok c assume inv: "outbox_inv s" and "os_claims s tok = Some c" "i \<in> claim_ids c"
  then have "claim_ok (enq s) (sent_ids s) tok c" "i \<in> claim_ids c" using os_claimed(2) by blast+
  then show ?thesis using sent_enqueued [OF inv] carries_id by (cases c) auto
next
  assume "outbox_inv s" "i \<in> sent_ids s"
  then show ?thesis using sent_enqueued by blast
next
  fix r assume "outbox_inv s" "r \<in> set (os_table s)" "ob_claimed_by r \<noteq> None" "i = ob_id r"
  then show ?thesis by (auto simp: outbox_inv_def table_ok_def row_ok_def envelope_def)
qed

text \<open>A step that adds no waiting message and puts nothing new in play keeps the order.\<close>

lemma order_kept:
  assumes o: "order_inv s" and inv: "outbox_inv s'" and play: "in_play s' \<subseteq> in_play s"
    and same: "os_enqueued s' = os_enqueued s" "os_sent s' = os_sent s" and given: "os_given_up s \<subseteq> os_given_up s'"
    and tab: "no_new_pending (os_table s) (os_table s')"
  shows "order_inv s'"
  unfolding order_inv_def same
  using o inv play given tab clear_stable log_ok_mono unfolding order_inv_def by blast

lemma order_page:
  assumes o: "order_inv s" and inv: "outbox_inv s'"
    and c: "os_claims s tok = Some (Selecting now ids)"
    and page: "set page \<subseteq> ob_id ` {r \<in> set (os_table s). selectable now (os_table s) r}"
    and s': "s' = s\<lparr>os_claims := (os_claims s)(tok \<mapsto> Selecting now (ids @ page))\<rparr>"
  shows "order_inv s'"
proof -
  have "clear (enq s) (os_table s) i" if i: "i \<in> in_play s'" for i
  proof -
    consider "i \<in> in_play s" | "i \<in> set page"
      using in_play_claims_upd [OF i [unfolded s']] in_play_claim [OF c] by auto
    then show ?thesis
    proof cases
      case 1
      then show ?thesis using o by (simp add: order_inv_def)
    next
      case 2
      then show ?thesis using page o selectable_clear by (auto simp: order_inv_def)
    qed
  qed
  then show ?thesis using o inv by (simp add: order_inv_def s')
qed

lemma order_enqueue:
  assumes o: "order_inv s" and inv: "outbox_inv s'" and i: "ob_id r \<notin> ob_id ` enq s"
    and ord: "in_publish_order (os_enqueued s) r"
    and r0: "ob_claimed_by r = None"
    and s': "s' = s\<lparr>os_table := os_table s @ [r], os_enqueued := os_enqueued s @ [r]\<rparr>"
  shows "order_inv s'"
proof -
  have inv0: "outbox_inv s" using o by (simp add: order_inv_def)
  have late: "\<not> earlier r q" if "q \<in> enq s" "ob_partition_key r = ob_partition_key q" "ob_partition_key q \<noteq> []" for q
    using ord that earlier_trans [of r q r] by (auto simp: in_publish_order_def)
  have play: "in_play s' = in_play s" using r0 by (auto simp: in_play_def s')
  have fresh: "ob_id r \<notin> in_play s" using in_play_enqueued [OF inv0] i by blast
  have cl: "clear (enq s') (os_table s') j" if j: "j \<in> in_play s" for j
  proof -
    have "clear (enq s) (os_table s) j" using o j by (simp add: order_inv_def)
    moreover have "j \<noteq> ob_id r" using fresh j by blast
    ultimately show ?thesis using late by (auto simp: clear_def s')
  qed
  have "cm_id (os_sent s ! n) \<noteq> ob_id r" if "n < length (os_sent s)" for n
  proof -
    have "cm_id (os_sent s ! n) \<in> in_play s" using that by (simp add: in_play_def)
    then show ?thesis using fresh by metis
  qed
  then have "log_ok (enq s') (os_given_up s) (os_sent s)"
    using o late log_ok_insert [of "enq s" "os_given_up s" "os_sent s" r] by (simp add: order_inv_def s')
  with cl inv play show ?thesis by (simp add: order_inv_def s')
qed

lemma order_sent:
  assumes o: "order_inv s" and c: "os_claims s tok = Some (Publishing (m # ms) done)"
  shows "order_inv (s\<lparr>os_sent := os_sent s @ [m]\<rparr>)"
proof -
  have inv: "outbox_inv s" using o by (simp add: order_inv_def)
  have m: "cm_id m \<in> in_play s" by (rule in_play_claim [OF c]) simp
  have cl: "clear (enq s) (os_table s) (cm_id m)" using o m by (simp add: order_inv_def)
  have "in_play (s\<lparr>os_sent := os_sent s @ [m]\<rparr>) = in_play s" using m by (auto simp: in_play_def)
  moreover have "log_ok (enq s) (os_given_up s) (os_sent s @ [m])"
  proof (rule log_ok_snoc)
    show "log_ok (enq s) (os_given_up s) (os_sent s)" using o by (simp add: order_inv_def)
    show "ob_id e \<in> os_given_up s \<or> ob_id e \<in> sent_ids s"
      if "q \<in> enq s" "e \<in> enq s" "ob_id q = cm_id m" "ob_partition_key q \<noteq> []"
        "ob_partition_key e = ob_partition_key q" "earlier e q" for q e
      using clear_earlier_settled [OF inv] cl that by metis
  qed
  ultimately show ?thesis
    using o sent_inv [OF inv batch_head_carries [OF inv c]] by (simp add: order_inv_def)
qed

lemma held_update:
  assumes "\<And>r. r \<in> set t \<Longrightarrow> p r \<Longrightarrow> ob_claimed_by (f r) = None"
  shows "{r \<in> set (sql_update p f t). ob_claimed_by r \<noteq> None} \<subseteq> {r \<in> set t. ob_claimed_by r \<noteq> None}"
  using assms by (auto simp: set_sql_update split: if_splits)

lemma order_lease:
  assumes o: "order_inv s" and inv: "outbox_inv s'" and c: "os_claims s tok = Some (Selecting now ids)"
    and l: "lease_batch cfg tok now ids (os_table s) = (msgs, t')"
    and s': "s' = s\<lparr>os_table := t', os_claims := (os_claims s)(tok \<mapsto> Publishing msgs [])\<rparr>"
  shows "order_inv s'"
proof (rule order_kept [OF o inv])
  have t': "t' = ClaimOutboxMessages (now + rc_LeaseDuration cfg) tok now ids (os_table s)"
    using lease_batch_table [OF l] by simp
  have ids: "set ids \<subseteq> in_play s" using in_play_claim [OF c] by auto
  have msgs: "cm_id ` set msgs \<subseteq> set ids"
    by (auto elim!: lease_batch_msgs [OF l] simp: claimed_message_def held_by_def)
  have h: "ob_id r \<in> in_play s" if r: "r \<in> set t'" "ob_claimed_by r \<noteq> None" for r
  proof -
    obtain r0 where r0: "r0 \<in> set (os_table s)" "r = r0 \<or> (ob_id r0 \<in> set ids \<and> ob_id r = ob_id r0)"
      using r(1) by (auto simp: t' ClaimOutboxMessages_def set_sql_update split: if_splits)
    then show ?thesis using ids r(2) by (auto simp: in_play_def)
  qed
  show "in_play s' \<subseteq> in_play s"
  proof
    fix i assume "i \<in> in_play s'"
    then show "i \<in> in_play s"
    proof (cases rule: in_play_cases)
      case (claim tk c')
      show ?thesis
      proof (cases "tk = tok")
        case True
        then have "i \<in> cm_id ` set msgs" using claim by (auto simp: s')
        then show ?thesis using msgs ids by blast
      next
        case False
        then show ?thesis using claim in_play_claim [of s tk c' i] by (simp add: s')
      qed
    next
      case sent
      then show ?thesis by (simp add: in_play_def s')
    next
      case (held r)
      then show ?thesis using h by (simp add: s')
    qed
  qed
  show "no_new_pending (os_table s) (os_table s')"
    unfolding s' by (simp add: t' ClaimOutboxMessages_def) (rule no_new_pending_update, simp_all)
qed (simp_all add: s')

text \<open>The steps that take messages out of play: a claim shortened or dropped, a row's name cleared.\<close>

lemma in_play_shrink:
  assumes "\<And>tok c. os_claims s' tok = Some c \<Longrightarrow> \<exists>c0. os_claims s tok = Some c0 \<and> claim_ids c \<subseteq> claim_ids c0"
    and "os_sent s' = os_sent s"
    and "{r \<in> set (os_table s'). ob_claimed_by r \<noteq> None} \<subseteq> {r \<in> set (os_table s). ob_claimed_by r \<noteq> None}"
  shows "in_play s' \<subseteq> in_play s"
proof
  fix i assume "i \<in> in_play s'"
  then show "i \<in> in_play s"
  proof (cases rule: in_play_cases)
    case (claim tok c)
    then show ?thesis using assms(1) [of tok c] in_play_claim by blast
  qed (use assms(2,3) in \<open>auto simp: in_play_def\<close>)
qed

lemma order_refused:
  assumes o: "order_inv s" and inv: "outbox_inv s'" and c: "os_claims s tok = Some (Publishing (m # ms) done)"
    and t': "t' = os_table s \<or> t' = snd (failure_write env cfg m cause now (os_table s))"
    and s': "s' = s\<lparr>os_table := t', os_claims := (os_claims s)(tok \<mapsto> Publishing ms done),
               os_given_up := os_given_up s \<union> ob_id ` {r \<in> set t'. quarantined r}\<rparr>"
  shows "order_inv s'"
proof (rule order_kept [OF o inv])
  have held: "ob_pending r" if "r \<in> set (os_table s)" "held_by tk ids r" for r tk ids
    using o that by (auto simp: order_inv_def outbox_inv_def table_ok_def row_ok_def held_by_def)
  have *: "{r \<in> set t'. ob_claimed_by r \<noteq> None} \<subseteq> {r \<in> set (os_table s). ob_claimed_by r \<noteq> None}"
    using t'
  proof
    assume "t' = snd (failure_write env cfg m cause now (os_table s))"
    then show ?thesis unfolding failure_write_table by (simp only:) (rule held_update, simp add: failed_row_def)
  qed simp
  show "in_play s' \<subseteq> in_play s"
    by (rule in_play_shrink) (use c * in \<open>auto simp: s' split: if_splits\<close>)
  show "no_new_pending (os_table s) (os_table s')"
    using t'
  proof
    assume "t' = snd (failure_write env cfg m cause now (os_table s))"
    then show ?thesis unfolding s' failure_write_table using held by (auto intro!: no_new_pending_update)
  qed (simp add: s')
qed (simp_all add: s')

lemma order_mark:
  assumes o: "order_inv s" and inv: "outbox_inv s'"
    and s': "s' = s\<lparr>os_table := snd (MarkOutboxMessagesPublished at tok done (os_table s)), os_claims := (os_claims s)(tok := None)\<rparr>"
  shows "order_inv s'"
proof (rule order_kept [OF o inv])
  have t': "os_table s' = sql_update (held_by tok done) (published_row at) (os_table s)"
    by (simp add: s' MarkOutboxMessagesPublished_def)
  have "{r \<in> set (os_table s'). ob_claimed_by r \<noteq> None} \<subseteq> {r \<in> set (os_table s). ob_claimed_by r \<noteq> None}"
    unfolding t' by (rule held_update) (simp add: published_row_def)
  then show "in_play s' \<subseteq> in_play s"
    by (intro in_play_shrink) (auto simp: s' split: if_splits)
  show "no_new_pending (os_table s) (os_table s')"
    unfolding t' by (rule no_new_pending_update) simp_all
qed (simp_all add: s')

lemma order_prune:
  assumes "order_inv s" "outbox_inv (s\<lparr>os_table := snd (prune n k p locked (os_table s))\<rparr>)"
  shows "order_inv (s\<lparr>os_table := snd (prune n k p locked (os_table s))\<rparr>)"
proof (rule order_kept [OF assms])
  show "in_play (s\<lparr>os_table := snd (prune n k p locked (os_table s))\<rparr>) \<subseteq> in_play s"
    using set_prune by (intro in_play_shrink) fastforce+
qed (simp_all add: no_new_pending_prune)

lemma order_step_inv:
  assumes "outbox_step cfg True s s'" "order_inv s"
  shows "order_inv s'"
proof -
  have inv: "outbox_inv s'" using outbox_step_inv [OF assms(1)] assms(2) by (simp add: order_inv_def)
  from assms(1) show ?thesis
  proof (cases rule: outbox_step.cases)
    case (os_enqueue r i topic key payload at)
    then show ?thesis by (intro order_enqueue [OF assms(2) inv, of r]) (simp_all add: InsertOutboxMessage_def)
  next
    case (os_begin tok now)
    have "in_play s' \<subseteq> in_play s"
      using in_play_claims_upd [of _ s tok "Selecting now []"] by (auto simp: os_begin in_play_def)
    then show ?thesis by (intro order_kept [OF assms(2) inv]) (simp_all add: os_begin)
  next
    case (os_page tok now ids page)
    then show ?thesis by (intro order_page [OF assms(2) inv])
  next
    case (os_lease tok now ids msgs t')
    then show ?thesis by (intro order_lease [OF assms(2) inv])
  next
    case (os_reached tok m ms dn)
    then show ?thesis using order_sent [OF assms(2)] by simp
  next
    case (os_accepted tok m ms dn)
    let ?s = "s\<lparr>os_sent := os_sent s @ [m]\<rparr>"
    have "in_play s' \<subseteq> in_play ?s"
      by (rule in_play_shrink) (use os_accepted(2) in \<open>auto simp: os_accepted(1) split: if_splits\<close>)
    then show ?thesis
      by (intro order_kept [OF order_sent [OF assms(2) os_accepted(2)] inv]) (simp_all add: os_accepted(1))
  next
    case (os_refused tok m ms dn t' env cause now)
    then show ?thesis by (intro order_refused [OF assms(2) inv])
  next
    case (os_mark tok dn at)
    then show ?thesis by (intro order_mark [OF assms(2) inv])
  next
    case (os_forget tok)
    then show ?thesis
      by (intro order_kept [OF assms(2) inv]) (auto simp: in_play_def split: if_splits)
  next
    case (os_reap before limit locked)
    then show ?thesis using order_prune [OF assms(2)] inv unfolding ReapPublishedOutboxMessages_def by blast
  next
    case (os_discard before limit locked)
    then show ?thesis using order_prune [OF assms(2)] inv unfolding ReapQuarantinedOutboxMessages_def by blast
  next
    case (os_release now ids)
    then show ?thesis by simp
  qed
qed

interpretation ordered_outbox: invariant_system outbox_init "outbox_step cfg True" order_inv
proof unfold_locales
  show "outbox_init s \<Longrightarrow> order_inv s" for s
    using outbox.init_inv [of s] by (auto simp: outbox_init_def order_inv_def in_play_def log_ok_def)
qed (rule order_step_inv)

end
