(* ===== verification/Outbox_Writer.thy ===== *)
theory Outbox_Writer
  imports Outbox_Order
begin

text \<open>
  The enqueue side, \<^verbatim>\<open>outbox/outbox.go\<close>: the writer's construction, its side effects and the two
  enqueue operations.

  A transaction is the outbox table, the notifications it will deliver and the caller's other tables,
  which side effects may write. A payload is \<open>None\<close> for Go's nil. The environment of one call holds the
  clock reading, the minted identifiers, the JSON encoder and the failures of the statements.
  Telemetry is left out.
\<close>

section \<open>Messages and writers\<close>

record 'p Message =
  msg_Payload :: "'p option"
  msg_Topic :: string
  msg_Key :: string

record 'd tx =
  tx_outbox :: outbox_table
  tx_notified :: "string list"
  tx_rest :: 'd

type_synonym ('p, 'd) SideEffect = "'d tx \<Rightarrow> 'p Message list \<Rightarrow> (string + 'p Message list) \<times> 'd tx"

record ('p, 'd) Writer =
  w_notifyChannel :: string
  w_sideEffects :: "(string \<times> ('p, 'd) SideEffect option) list"

record 'p writer_env =
  we_now :: time
  we_mint :: "nat \<Rightarrow> string"
  we_marshal :: "'p \<Rightarrow> string + string"
  we_insert_err :: "nat \<Rightarrow> string option"
  we_notify_err :: "string option"

datatype writer_error =
    OutboxErrNilExecutor | OutboxErrEmptyTopic | OutboxErrNilPayload string
  | OutboxMarshal string string | OutboxInsert string string | OutboxNotify string string
  | OutboxSideEffect string string
  | OutboxErrUnsupported | OutboxErrInvalidTable string | OutboxErrNotifyUnsupported | OutboxErrInvalidChannel string
  | OutboxErrUnnamedSideEffect | OutboxErrNilSideEffect string | OutboxErrDuplicateSideEffect string
  | OutboxQuerier string

text \<open>The registrations are refused one at a time, in order.\<close>

fun check_side_effects :: "string list \<Rightarrow> (string \<times> ('p, 'd) SideEffect option) list \<Rightarrow> writer_error option" where
  "check_side_effects seen [] = None"
| "check_side_effects seen ((name, effect) # ses) =
     (if name = [] then Some OutboxErrUnnamedSideEffect
      else if effect = None then Some (OutboxErrNilSideEffect name)
      else if name \<in> set seen then Some (OutboxErrDuplicateSideEffect name)
      else check_side_effects (name # seen) ses)"

definition NewWriter ::
  "bool \<Rightarrow> bool \<Rightarrow> (string \<Rightarrow> bool) \<Rightarrow> string \<Rightarrow> string option \<Rightarrow> ('p, 'd) Writer \<Rightarrow> writer_error + ('p, 'd) Writer" where
  "NewWriter dialectValid supportsNotify validIdentifier table querierErr w =
     (if \<not> dialectValid then Inl OutboxErrUnsupported
      else if \<not> validIdentifier table then Inl (OutboxErrInvalidTable table)
      else if w_notifyChannel w \<noteq> [] \<and> \<not> supportsNotify then Inl OutboxErrNotifyUnsupported
      else if w_notifyChannel w \<noteq> [] \<and> \<not> validIdentifier (w_notifyChannel w)
      then Inl (OutboxErrInvalidChannel (w_notifyChannel w))
      else (case check_side_effects [] (w_sideEffects w) of
              Some e \<Rightarrow> Inl e
            | None \<Rightarrow> (case querierErr of Some e \<Rightarrow> Inl (OutboxQuerier e) | None \<Rightarrow> Inr w)))"

section \<open>Enqueueing\<close>

definition message_row :: "'p writer_env \<Rightarrow> nat \<Rightarrow> 'p Message \<Rightarrow> writer_error + outbox_row" where
  "message_row env k msg =
     (if msg_Topic msg = [] then Inl OutboxErrEmptyTopic
      else (case msg_Payload msg of
              None \<Rightarrow> Inl (OutboxErrNilPayload (msg_Topic msg))
            | Some p \<Rightarrow>
                (case we_marshal env p of
                   Inl e \<Rightarrow> Inl (OutboxMarshal (msg_Topic msg) e)
                 | Inr payload \<Rightarrow>
                     Inr (InsertOutboxMessage (we_mint env k) (msg_Topic msg) (msg_Key msg) payload (we_now env)))))"

fun message_rows :: "'p writer_env \<Rightarrow> nat \<Rightarrow> 'p Message list \<Rightarrow> writer_error + outbox_row list" where
  "message_rows env k [] = Inr []"
| "message_rows env k (msg # msgs) =
     (case message_row env k msg of
        Inl e \<Rightarrow> Inl e
      | Inr r \<Rightarrow> (case message_rows env (Suc k) msgs of Inl e \<Rightarrow> Inl e | Inr rs \<Rightarrow> Inr (r # rs)))"

text \<open>One insert per row; a taken primary key is a failure of the statement too.\<close>

fun insert_rows :: "'p writer_env \<Rightarrow> nat \<Rightarrow> outbox_row list \<Rightarrow> 'd tx \<Rightarrow> writer_error option \<times> 'd tx" where
  "insert_rows env k [] tx = (None, tx)"
| "insert_rows env k (r # rs) tx =
     (case (if ob_id r \<in> ob_id ` set (tx_outbox tx) then Some ''duplicate key'' else we_insert_err env k) of
        Some e \<Rightarrow> (Some (OutboxInsert (ob_topic r) e), tx)
      | None \<Rightarrow> insert_rows env (Suc k) rs (tx\<lparr>tx_outbox := tx_outbox tx @ [r]\<rparr>))"

definition Writer_write ::
  "'p writer_env \<Rightarrow> ('p, 'd) Writer \<Rightarrow> 'p Message list \<Rightarrow> 'd tx \<Rightarrow> writer_error option \<times> 'd tx" where
  "Writer_write env w msgs tx =
     (case message_rows env 0 msgs of
        Inl e \<Rightarrow> (Some e, tx)
      | Inr rows \<Rightarrow>
          (case insert_rows env 0 rows tx of
             (Some e, tx') \<Rightarrow> (Some e, tx')
           | (None, tx') \<Rightarrow>
               if w_notifyChannel w = [] then (None, tx')
               else (case we_notify_err env of
                       Some e \<Rightarrow> (Some (OutboxNotify (w_notifyChannel w) e), tx')
                     | None \<Rightarrow> (None, tx'\<lparr>tx_notified := tx_notified tx' @ [w_notifyChannel w]\<rparr>))))"

text \<open>\<open>Writer.withSideEffects\<close>: every effect sees the caller's messages, never another effect's.\<close>

fun run_side_effects ::
  "(string \<times> ('p, 'd) SideEffect option) list \<Rightarrow> 'p Message list \<Rightarrow> 'p Message list \<Rightarrow> 'd tx \<Rightarrow>
   (writer_error + 'p Message list) \<times> 'd tx" where
  "run_side_effects [] msgs acc tx = (Inr acc, tx)"
| "run_side_effects ((name, effect) # ses) msgs acc tx =
     (case effect of
        None \<Rightarrow> (Inl (OutboxErrNilSideEffect name), tx)
      | Some f \<Rightarrow>
          (case f tx msgs of
             (Inl e, tx') \<Rightarrow> (Inl (OutboxSideEffect name e), tx')
           | (Inr derived, tx') \<Rightarrow> run_side_effects ses msgs (acc @ derived) tx'))"

definition withSideEffects ::
  "('p, 'd) Writer \<Rightarrow> 'p Message list \<Rightarrow> 'd tx \<Rightarrow> (writer_error + 'p Message list) \<times> 'd tx" where
  "withSideEffects w msgs tx = run_side_effects (w_sideEffects w) msgs msgs tx"

definition Writer_Enqueue ::
  "'p writer_env \<Rightarrow> ('p, 'd) Writer \<Rightarrow> 'p Message list \<Rightarrow> 'd tx option \<Rightarrow> writer_error option \<times> 'd tx option" where
  "Writer_Enqueue env w msgs q =
     (case q of
        None \<Rightarrow> (Some OutboxErrNilExecutor, None)
      | Some tx \<Rightarrow>
          if msgs = [] then (None, Some tx)
          else (case withSideEffects w msgs tx of
                  (Inl e, tx') \<Rightarrow> (Some e, Some tx')
                | (Inr all, tx') \<Rightarrow> (case Writer_write env w all tx' of (err, tx'') \<Rightarrow> (err, Some tx''))))"

definition EnqueueDerived ::
  "'p writer_env \<Rightarrow> ('p, 'd) Writer \<Rightarrow> 'p Message list \<Rightarrow> 'd tx option \<Rightarrow> writer_error option \<times> 'd tx option" where
  "EnqueueDerived env w msgs q =
     (case q of
        None \<Rightarrow> (Some OutboxErrNilExecutor, None)
      | Some tx \<Rightarrow>
          if msgs = [] then (None, Some tx)
          else (case withSideEffects w msgs tx of
                  (Inl e, tx') \<Rightarrow> (Some e, Some tx')
                | (Inr all, tx') \<Rightarrow>
                    (let derived = drop (length msgs) all in
                     if derived = [] then (None, Some tx')
                     else (case Writer_write env w derived tx' of (err, tx'') \<Rightarrow> (err, Some tx'')))))"

section \<open>What an enqueue writes\<close>

lemma message_rows_Inr:
  "message_rows env k msgs = Inr rows \<Longrightarrow>
   length rows = length msgs \<and> (\<forall>n < length msgs. message_row env (k + n) (msgs ! n) = Inr (rows ! n))"
proof (induction msgs arbitrary: k rows)
  case (Cons msg msgs)
  then obtain r rs where r: "message_row env k msg = Inr r" "message_rows env (Suc k) msgs = Inr rs" "rows = r # rs"
    by (auto split: sum.splits)
  with Cons.IH [OF r(2)] show ?case by (auto simp: nth_Cons split: nat.splits)
qed simp

lemma message_rows_Inl: "message_rows env k msgs = Inl e \<Longrightarrow> \<exists>n < length msgs. message_row env (k + n) (msgs ! n) = Inl e"
proof (induction msgs arbitrary: k)
  case (Cons msg msgs)
  show ?case
  proof (cases "message_row env k msg")
    case (Inl e')
    then show ?thesis using Cons.prems by (intro exI [of _ 0]) simp
  next
    case (Inr r)
    then have "message_rows env (Suc k) msgs = Inl e" using Cons.prems by (auto split: sum.splits)
    then obtain n where "n < length msgs" "message_row env (Suc k + n) (msgs ! n) = Inl e" using Cons.IH by blast
    then show ?thesis by (intro exI [of _ "Suc n"]) simp
  qed
qed simp

lemma insert_rows_None:
  "insert_rows env k rows tx = (None, tx') \<Longrightarrow>
   tx' = tx\<lparr>tx_outbox := tx_outbox tx @ rows\<rparr> \<and> distinct (map ob_id rows) \<and>
   ob_id ` set rows \<inter> ob_id ` set (tx_outbox tx) = {}"
proof (induction rows arbitrary: k tx)
  case (Cons r rs)
  then have new: "ob_id r \<notin> ob_id ` set (tx_outbox tx)" "we_insert_err env k = None"
    by (auto split: if_splits option.splits)
  then have "insert_rows env (Suc k) rs (tx\<lparr>tx_outbox := tx_outbox tx @ [r]\<rparr>) = (None, tx')"
    using Cons.prems by simp
  from Cons.IH [OF this] new(1) show ?case by auto
qed simp

lemma insert_rows_prefix:
  "insert_rows env k rows tx = (err, tx') \<Longrightarrow> \<exists>rs rs'. rows = rs @ rs' \<and> tx' = tx\<lparr>tx_outbox := tx_outbox tx @ rs\<rparr>"
proof (induction rows arbitrary: k tx)
  case (Cons r rs)
  show ?case
  proof (cases "if ob_id r \<in> ob_id ` set (tx_outbox tx) then Some ''duplicate key'' else we_insert_err env k")
    case None
    then have "insert_rows env (Suc k) rs (tx\<lparr>tx_outbox := tx_outbox tx @ [r]\<rparr>) = (err, tx')" using Cons.prems by simp
    from Cons.IH [OF this] obtain qs qs' where "rs = qs @ qs'"
      "tx' = tx\<lparr>tx_outbox := (tx_outbox tx @ [r]) @ qs\<rparr>" by auto
    then show ?thesis by (intro exI [of _ "r # qs"] exI [of _ qs']) simp
  next
    case (Some e)
    then have "tx' = tx" using Cons.prems by simp
    then show ?thesis by (intro exI [of _ "[]"] exI [of _ "r # rs"]) (cases tx, simp)
  qed
qed auto

lemma write_ok:
  assumes "Writer_write env w msgs tx = (None, tx')"
  obtains rows where "message_rows env 0 msgs = Inr rows" "tx_outbox tx' = tx_outbox tx @ rows"
    "tx_rest tx' = tx_rest tx" "distinct (map ob_id rows)" "ob_id ` set rows \<inter> ob_id ` set (tx_outbox tx) = {}"
proof -
  obtain rows where r: "message_rows env 0 msgs = Inr rows"
    using assms by (auto simp: Writer_write_def split: sum.splits)
  obtain err tx1 where i: "insert_rows env 0 rows tx = (err, tx1)" by fastforce
  then have "err = None" "tx_outbox tx' = tx_outbox tx1" "tx_rest tx' = tx_rest tx1"
    using assms r by (auto simp: Writer_write_def split: option.splits if_splits)
  with i insert_rows_None [of env 0 rows tx tx1] r show thesis by (intro that [of rows]) auto
qed

text \<open>The caller's messages come first and the derived ones follow in registration order.\<close>

lemma run_side_effects_prefix:
  "run_side_effects ses msgs acc tx = (Inr all, tx') \<Longrightarrow> \<exists>derived. all = acc @ derived"
  by (induction ses msgs acc tx rule: run_side_effects.induct) (fastforce split: option.splits sum.splits prod.splits)+

lemma message_row_fields:
  "message_row env k msg = Inr r \<Longrightarrow>
   \<exists>p payload. msg_Payload msg = Some p \<and> we_marshal env p = Inr payload \<and> msg_Topic msg \<noteq> [] \<and>
     r = InsertOutboxMessage (we_mint env k) (msg_Topic msg) (msg_Key msg) payload (we_now env)"
  by (auto simp: message_row_def split: if_splits option.splits sum.splits)

section \<open>An enqueue as a run\<close>

text \<open>
  Identifiers are minted in increasing order and the clock is not behind what was enqueued before; then
  the rows of one enqueue arrive in publish order.
\<close>

definition mints_after :: "'p writer_env \<Rightarrow> outbox_row list \<Rightarrow> bool" where
  "mints_after env es \<longleftrightarrow>
     (\<forall>e \<in> set es. ob_created_at e \<le> we_now env \<and> (\<forall>k. ob_id e < we_mint env k)) \<and>
     (\<forall>k l. k < l \<longrightarrow> we_mint env k < we_mint env l)"

lemma rows_run:
  assumes "\<And>n. n < length rows \<Longrightarrow> \<exists>topic key payload. rows ! n = InsertOutboxMessage (we_mint env (k + n)) topic key payload (we_now env)"
    and "\<And>e. e \<in> set (os_enqueued s) \<Longrightarrow> ob_created_at e \<le> we_now env \<and> (\<forall>l \<ge> k. ob_id e < we_mint env l)"
    and "\<And>i j. i < j \<Longrightarrow> we_mint env i < we_mint env j"
  shows "(outbox_step cfg ordered)\<^sup>*\<^sup>* s (s\<lparr>os_table := os_table s @ rows, os_enqueued := os_enqueued s @ rows\<rparr>)"
  using assms
proof (induction rows arbitrary: s k)
  case (Cons r rows)
  obtain topic key payload where r: "r = InsertOutboxMessage (we_mint env k) topic key payload (we_now env)"
    using Cons.prems(1) [of 0] by auto
  let ?s = "s\<lparr>os_table := os_table s @ [r], os_enqueued := os_enqueued s @ [r]\<rparr>"
  have rid: "ob_id r = we_mint env k" "ob_created_at r = we_now env" by (simp_all add: r InsertOutboxMessage_def)
  have "earlier e r" if "e \<in> set (os_enqueued s)" for e
    using Cons.prems(2) [OF that] by (auto simp: earlier_def rid)
  then have "in_publish_order (os_enqueued s) r" by (simp add: in_publish_order_def)
  moreover have "we_mint env k \<notin> ob_id ` enq s" using Cons.prems(2) by fastforce
  ultimately have step: "outbox_step cfg ordered s ?s" by (intro outbox_step.os_enqueue [OF r]) simp_all
  have "(outbox_step cfg ordered)\<^sup>*\<^sup>* ?s (?s\<lparr>os_table := os_table ?s @ rows, os_enqueued := os_enqueued ?s @ rows\<rparr>)"
  proof (rule Cons.IH [of "Suc k"])
    show "\<exists>topic key payload. rows ! n = InsertOutboxMessage (we_mint env (Suc k + n)) topic key payload (we_now env)"
      if "n < length rows" for n using Cons.prems(1) [of "Suc n"] that by simp
    show "ob_created_at e \<le> we_now env \<and> (\<forall>l \<ge> Suc k. ob_id e < we_mint env l)" if "e \<in> set (os_enqueued ?s)" for e
      using that Cons.prems(2) [of e] Cons.prems(3) [of k] rid by auto
  qed (rule Cons.prems(3))
  with step show ?case by (simp add: converse_rtranclp_into_rtranclp)
qed simp

lemma write_run:
  assumes "message_rows env 0 msgs = Inr rows" "mints_after env (os_enqueued s)"
  shows "(outbox_step cfg ordered)\<^sup>*\<^sup>* s (s\<lparr>os_table := os_table s @ rows, os_enqueued := os_enqueued s @ rows\<rparr>)"
proof (rule rows_run [of _ _ 0])
  show "\<exists>topic key payload. rows ! n = InsertOutboxMessage (we_mint env (0 + n)) topic key payload (we_now env)"
    if "n < length rows" for n
  proof -
    have "message_row env n (msgs ! n) = Inr (rows ! n)" using message_rows_Inr [OF assms(1)] that by simp
    from message_row_fields [OF this] show ?thesis by auto
  qed
qed (use assms(2) in \<open>auto simp: mints_after_def\<close>)

section \<open>Enqueue\<close>

definition duo_writer :: "(string, unit) Writer" where
  "duo_writer = \<lparr>w_notifyChannel = ''outbox'',
     w_sideEffects = [(''index'', Some (\<lambda>tx msgs. (Inr [\<lparr>msg_Payload = Some ''i'', msg_Topic = ''index'', msg_Key = []\<rparr>], tx)))]\<rparr>"

definition duo_writer_env :: "string writer_env" where
  "duo_writer_env = \<lparr>we_now = 7, we_mint = (\<lambda>n. replicate (Suc n) CHR ''m''), we_marshal = Inr,
     we_insert_err = (\<lambda>_. None), we_notify_err = None\<rparr>"

definition duo_tx :: "unit tx" where
  "duo_tx = \<lparr>tx_outbox = [], tx_notified = [], tx_rest = ()\<rparr>"

definition duo_messages :: "string Message list" where
  "duo_messages = [\<lparr>msg_Payload = Some ''p'', msg_Topic = ''orders'', msg_Key = ''k''\<rparr>]"

text \<open>
  An enqueue that returns no error has run the side effects over the caller's messages and appended
  exactly one row per message, the caller's first and the derived ones after them in registration order,
  each with its own identifier, its topic, key and encoded payload, and the one creation instant; the
  rows take no primary key that was in use.
\<close>

theorem Enqueue_writes:
  assumes "Writer_Enqueue env w msgs (Some tx) = (None, Some tx')" "msgs \<noteq> []"
  shows "\<exists>derived tx1 rows. withSideEffects w msgs tx = (Inr (msgs @ derived), tx1) \<and>
           tx_outbox tx' = tx_outbox tx1 @ rows \<and> tx_rest tx' = tx_rest tx1 \<and>
           length rows = length (msgs @ derived) \<and>
           (\<forall>n < length rows. message_row env n ((msgs @ derived) ! n) = Inr (rows ! n)) \<and>
           distinct (map ob_id rows) \<and> ob_id ` set rows \<inter> ob_id ` set (tx_outbox tx1) = {}"
proof -
  obtain all tx1 where s: "withSideEffects w msgs tx = (Inr all, tx1)" and wr: "Writer_write env w all tx1 = (None, tx')"
    using assms by (auto simp: Writer_Enqueue_def split: prod.splits sum.splits)
  obtain derived where d: "all = msgs @ derived"
    using run_side_effects_prefix s unfolding withSideEffects_def by blast
  obtain rows where r: "message_rows env 0 all = Inr rows" "tx_outbox tx' = tx_outbox tx1 @ rows"
    "tx_rest tx' = tx_rest tx1" "distinct (map ob_id rows)" "ob_id ` set rows \<inter> ob_id ` set (tx_outbox tx1) = {}"
    by (rule write_ok [OF wr])
  show ?thesis using s r message_rows_Inr [OF r(1)] unfolding d by (intro exI [of _ derived] exI [of _ tx1] exI [of _ rows]) simp
qed

theorem Enqueue_writes_witness:
  "\<exists>tx' derived tx1 rows. Writer_Enqueue duo_writer_env duo_writer duo_messages (Some duo_tx) = (None, Some tx') \<and>
     withSideEffects duo_writer duo_messages duo_tx = (Inr (duo_messages @ derived), tx1) \<and>
     tx_outbox tx' = tx_outbox tx1 @ rows \<and> length rows = length (duo_messages @ derived)"
proof -
  obtain tx' where e: "Writer_Enqueue duo_writer_env duo_writer duo_messages (Some duo_tx) = (None, Some tx')"
    by (simp add: Writer_Enqueue_def withSideEffects_def Writer_write_def message_row_def duo_messages_def
        duo_writer_def duo_writer_env_def duo_tx_def InsertOutboxMessage_def)
  show ?thesis using Enqueue_writes [OF e] e by (simp add: duo_messages_def) blast
qed

text \<open>
  Nothing is written before everything has been checked: a message without a topic, without a payload or
  whose payload does not encode fails the write with the transaction as it was.
\<close>

theorem write_checks_first:
  assumes "n < length msgs" "message_row env n (msgs ! n) = Inl e"
  shows "\<exists>e'. Writer_write env w msgs tx = (Some e', tx)"
proof (cases "message_rows env 0 msgs")
  case (Inr rows)
  then show ?thesis using message_rows_Inr [OF Inr] assms by auto
qed (simp add: Writer_write_def)

text \<open>The derived-only path writes the rows the full path writes past the caller's own, but for their ids.\<close>

definition content :: "outbox_row \<Rightarrow> string \<times> string \<times> string \<times> time" where
  "content r = (ob_topic r, ob_partition_key r, ob_payload r, ob_created_at r)"

lemma message_row_content:
  "message_row env k msg = Inr r \<Longrightarrow> message_row env l msg = Inr q \<Longrightarrow> content r = content q"
  by (auto simp: message_row_def content_def InsertOutboxMessage_def split: if_splits option.splits sum.splits)

lemma message_rows_content:
  assumes "message_rows env k msgs = Inr rows" "message_rows env l msgs = Inr rows'"
  shows "map content rows = map content rows'"
proof (rule nth_equalityI)
  show "length (map content rows) = length (map content rows')"
    using message_rows_Inr [OF assms(1)] message_rows_Inr [OF assms(2)] by simp
  show "map content rows ! n = map content rows' ! n" if "n < length (map content rows)" for n
    using message_rows_Inr [OF assms(1)] message_rows_Inr [OF assms(2)] that message_row_content
    by (metis length_map nth_map)
qed

lemma message_rows_append:
  "message_rows env k (xs @ ys) = Inr rows \<Longrightarrow>
   message_rows env k xs = Inr (take (length xs) rows) \<and> message_rows env (k + length xs) ys = Inr (drop (length xs) rows)"
proof (induction xs arbitrary: k rows)
  case (Cons x xs)
  then obtain r rs where r: "message_row env k x = Inr r" "message_rows env (Suc k) (xs @ ys) = Inr rs" "rows = r # rs"
    by (auto split: sum.splits)
  with Cons.IH [OF r(2)] show ?case by simp
qed simp

theorem derived_rows_agree:
  assumes "message_rows env 0 (msgs @ derived) = Inr rows" "message_rows env 0 derived = Inr rows'"
  shows "map content rows' = drop (length msgs) (map content rows)"
  using message_rows_append [OF assms(1)] message_rows_content [OF assms(2), of "length msgs"]
  by (simp add: drop_map)

end
