(* ===== verification/Outbox_Laws.thy ===== *)
theory Outbox_Laws
  imports Outbox_Order
begin

text \<open>
  What one relay does: the batch its select picks, the fences on its outcome writes, the fate of a
  message whose publish failed, a cycle as a run of the system, and that a healthy relay drains the
  outbox.
\<close>

section \<open>The batch\<close>

lemma mset_ids_eq:
  assumes "distinct (map ob_id P)" "distinct (map ob_id Q)" "set P = set Q"
  shows "mset (map ob_id P) = mset (map ob_id Q)"
  using assms by (metis distinct_map mset_map set_eq_iff_mset_eq_distinct)

lemma page_rows: "candidates now n off t = map ob_id (take n (drop off (claimable_rows now t)))"
  by (simp add: candidates_def SelectClaimableOutboxMessages_def)

lemma lock_page:
  assumes d: "distinct (map ob_id t)" and P: "P = take n (drop off (claimable_rows now t))"
  shows "mset (SelectClaimableOutboxMessagesSkipLocked now locked (map ob_id P) t) =
         mset (map ob_id (filter (\<lambda>r. \<not> locked (ob_id r)) P))"
  unfolding SelectClaimableOutboxMessagesSkipLocked_def
proof (rule mset_ids_eq)
  have sub: "set P \<subseteq> {r \<in> set t. selectable now t r}"
    using set_claimable_rows unfolding P by (blast dest: in_set_takeD in_set_dropD)
  have "distinct (map ob_id P)"
    unfolding P using distinct_claimable_rows [OF d] by (simp add: take_map [symmetric] drop_map [symmetric])
  then show "distinct (map ob_id (filter (\<lambda>r. \<not> locked (ob_id r)) P))" by (rule distinct_map_filter)
  show "distinct (map ob_id (filter (\<lambda>r. claimableRowState now r \<and> ob_id r \<in> set (map ob_id P) \<and> \<not> locked (ob_id r)) t))"
    using d by (rule distinct_map_filter)
  have "ob_id r \<in> set (map ob_id P) \<longleftrightarrow> r \<in> set P" if "r \<in> set t" for r
    using selected_by_key [OF d _ that, of P] sub by auto
  with sub show "set (filter (\<lambda>r. claimableRowState now r \<and> ob_id r \<in> set (map ob_id P) \<and> \<not> locked (ob_id r)) t) =
      set (filter (\<lambda>r. \<not> locked (ob_id r)) P)"
    by (auto simp: selectable_def)
qed

lemma filter_take_all: "length xs \<le> n \<Longrightarrow> filter u (take n xs) = filter u xs"
  by simp

lemma take_filter_prefix: "length (filter u (take k xs)) = n \<Longrightarrow> take n (filter u xs) = filter u (take k xs)"
proof -
  assume "length (filter u (take k xs)) = n"
  moreover have "filter u xs = filter u (take k xs) @ filter u (drop k xs)"
    by (metis append_take_drop_id filter_append)
  ultimately show ?thesis by simp
qed

lemma take_filter_short:
  "length (filter u (take k xs)) \<le> n \<Longrightarrow> length xs \<le> k \<Longrightarrow> take n (filter u xs) = filter u (take k xs)"
  by simp

text \<open>The paging loop picks the first unlocked candidates, whatever the pages were.\<close>

lemma lock_pages_spec:
  assumes "distinct (map ob_id t)"
    and "mset claimed = mset (map ob_id (filter (\<lambda>r. \<not> locked (ob_id r)) (take off (claimable_rows now t))))"
    and "length claimed \<le> limit"
  shows "mset (lock_pages now locked t limit off claimed) =
         mset (map ob_id (take limit (filter (\<lambda>r. \<not> locked (ob_id r)) (claimable_rows now t))))"
  using assms
proof (induction now locked t limit off claimed rule: lock_pages.induct)
  case (1 now locked t limit off claimed)
  define C where "C = claimable_rows now t"
  define u :: "outbox_row \<Rightarrow> bool" where "u = (\<lambda>r. \<not> locked (ob_id r))"
  define want where "want = limit - length claimed"
  define P where "P = take want (drop off C)"
  define page where "page = candidates now want off t"
  define claimed' where "claimed' = claimed @ SelectClaimableOutboxMessagesSkipLocked now locked page t"
  have m: "mset claimed = mset (map ob_id (filter u (take off C)))" using 1(3) by (simp add: C_def u_def)
  then have len: "length claimed = length (filter u (take off C))" by (metis length_map mset_eq_length)
  have page: "page = map ob_id P" by (simp add: page_def page_rows P_def C_def)
  have step: "lock_pages now locked t limit off claimed =
      (if limit \<le> length claimed then claimed else if page = [] then claimed
       else if length page < want then claimed' else lock_pages now locked t limit (off + length page) claimed')"
    by (subst lock_pages.simps) (simp add: Let_def want_def page_def claimed'_def)
  have P': "take (off + length P) C = take off C @ P"
    unfolding take_add by (simp add: P_def min_def)
  have m': "mset claimed' = mset (map ob_id (filter u (take (off + length P) C)))"
    unfolding claimed'_def page mset_append m P' filter_append map_append
    using lock_page [OF 1(2), of P want off now locked] by (simp add: u_def P_def C_def)
  then have len': "length claimed' = length (filter u (take (off + length P) C))" by (metis length_map mset_eq_length)
  have len'': "length claimed' = length claimed + length (filter u P)" using len len' P' by simp
  have "length (filter u P) \<le> want" using length_filter_le [of u P] by (simp add: P_def)
  then have le: "length claimed' \<le> limit" if "\<not> limit \<le> length claimed"
    using that len'' unfolding want_def by linarith
  have done1: ?case if "limit \<le> length claimed"
    using that 1(4) m len take_filter_prefix [of u off C limit] unfolding step by (simp add: C_def u_def)
  have done2: ?case if "\<not> limit \<le> length claimed" "page = []"
  proof -
    have "length C \<le> off" using that by (simp add: page P_def want_def)
    then show ?thesis using that m len 1(4) unfolding step by (simp add: C_def u_def)
  qed
  have done3: ?case if "\<not> limit \<le> length claimed" "page \<noteq> []" "length page < want"
  proof -
    have "length C \<le> off + length P" using that(3) by (simp add: page P_def)
    then have "take limit (filter u C) = filter u (take (off + length P) C)"
      using take_filter_short [of u "off + length P" C limit] le [OF that(1)] len' by simp
    then show ?thesis using that m' unfolding step by (simp add: C_def u_def)
  qed
  have done4: ?case if c: "\<not> limit \<le> length claimed" "page \<noteq> []" "\<not> length page < want"
    unfolding step using c m' le [OF c(1)]
      1(1) [OF c(1) want_def page_def c(2) claimed'_def c(3) 1(2)]
    by (simp add: page C_def u_def)
  show ?case using done1 done2 done3 done4 by blast
qed

lemma lock_pages_selects:
  "set claimed \<subseteq> S \<Longrightarrow> (\<And>r. r \<in> set (claimable_rows now t) \<Longrightarrow> ob_id r \<in> S) \<Longrightarrow>
   set (lock_pages now locked t limit off claimed) \<subseteq> S"
proof (induction now locked t limit off claimed rule: lock_pages.induct)
  case (1 now locked t limit off claimed)
  have page: "set (candidates now n off t) \<subseteq> S" for n
    using 1(3) by (auto simp: page_rows dest!: in_set_takeD in_set_dropD)
  have "set (SelectClaimableOutboxMessagesSkipLocked now locked (candidates now n off t) t) \<subseteq> S" for n
    using page [of n] by (auto simp: SelectClaimableOutboxMessagesSkipLocked_def)
  then show ?case using 1 by (subst lock_pages.simps) (auto simp: Let_def)
qed

lemma selectClaimable_selectable:
  "set (selectClaimable cfg locked now t) \<subseteq> ob_id ` {r \<in> set t. selectable now t r}"
proof -
  have "set (candidates now n 0 t) \<subseteq> ob_id ` {r \<in> set t. selectable now t r}" for n
    using set_claimable_rows [of now t] by (auto simp: page_rows dest!: in_set_takeD)
  moreover have "set (lock_pages now locked t n 0 []) \<subseteq> ob_id ` {r \<in> set t. selectable now t r}" for n
    by (rule lock_pages_selects) (auto simp: set_claimable_rows)
  ultimately show ?thesis by (simp add: selectClaimable_def)
qed

section \<open>Outcome writes\<close>

lemma held_by_iff: "held_by token ids r \<longleftrightarrow> ob_claimed_by r = Some token \<and> ob_id r \<in> set ids"
  by (simp add: held_by_def)

lemma mark_row:
  "row_at ob_id (snd (MarkOutboxMessagesPublished at token ids t)) i =
     map_option (\<lambda>r. if held_by token ids r then published_row at r else r) (row_at ob_id t i)"
  unfolding MarkOutboxMessagesPublished_def snd_conv by (rule messages.at_update) simp

lemma failure_row:
  "row_at ob_id (snd (failure_write env cfg m cause now t)) i =
     map_option (\<lambda>r. if held_by (cm_claimToken m) [cm_id m] r
                      then failed_row (now + scheduled_delay env (cm_attempts m)) (truncate_cause env cause)
                             (if gives_up cfg m then Some now else None) r
                      else r) (row_at ob_id t i)"
  unfolding failure_write_table by (rule messages.at_update) simp

section \<open>A cycle is a run\<close>

text \<open>The relay's state and the system's agree on the table and on what the broker has.\<close>

definition in_step :: "relay_state \<Rightarrow> outbox_system \<Rightarrow> bool" where
  "in_step st s \<longleftrightarrow> os_table s = rl_table st \<and> os_sent s = rl_sent st"

lemma publish_calls:
  "Relay_publish env m st = (res, st') \<Longrightarrow>
   rl_table st' = rl_table st \<and> rl_sent st' = (case res of Inl _ \<Rightarrow> rl_sent st | Inr _ \<Rightarrow> rl_sent st @ [m])"
  by (auto simp: Relay_publish_def publisherFor_def Let_def split: if_splits option.splits)

lemma recordFailure_table:
  "rl_table (recordFailure env cfg m cause st) =
     (if call_err env (rl_calls st) = None
      then snd (failure_write env cfg m cause (clock_reading env (rl_reads st)) (rl_table st)) else rl_table st)"
  "rl_sent (recordFailure env cfg m cause st) = rl_sent st"
  by (auto simp: recordFailure_def relay_call_defs Let_def split: option.splits prod.splits)

lemma markPublished_table:
  "rl_table (markPublished env tok ids st) =
     (if call_err env (rl_calls st) = None
      then snd (MarkOutboxMessagesPublished (clock_reading env (rl_reads st)) tok ids (rl_table st)) else rl_table st)"
  "rl_sent (markPublished env tok ids st) = rl_sent st"
  by (auto simp: markPublished_def relay_call_defs Let_def split: option.splits prod.splits)

lemma publish_batch_run:
  assumes "in_step st s" "os_claims s tok = Some (Publishing ms done)" "publish_batch env cfg ms st = (ids, st')"
  shows "\<exists>s'. (outbox_step cfg ordered)\<^sup>*\<^sup>* s s' \<and> in_step st' s' \<and> os_enqueued s' = os_enqueued s \<and>
              os_claims s' tok = Some (Publishing [] (done @ ids))"
  using assms
proof (induction ms arbitrary: s st ids "done")
  case Nil
  then show ?case by auto
next
  case (Cons m ms)
  obtain res st1 where p: "Relay_publish env m st = (res, st1)" by fastforce
  show ?case
  proof (cases res)
    case (Inl cause)
    let ?st2 = "recordFailure env cfg m cause st1"
    obtain s1 where s1: "outbox_step cfg ordered s s1" "in_step ?st2 s1" "os_enqueued s1 = os_enqueued s"
      "os_claims s1 tok = Some (Publishing ms done)"
    proof -
      let ?s = "\<lambda>t. s\<lparr>os_table := t, os_claims := (os_claims s)(tok \<mapsto> Publishing ms done),
                       os_given_up := os_given_up s \<union> ob_id ` {r \<in> set t. quarantined r}\<rparr>"
      let ?now = "clock_reading env (rl_reads st1)"
      have "rl_table ?st2 = os_table s \<or> rl_table ?st2 = snd (failure_write env cfg m cause ?now (os_table s))"
        using publish_calls [OF p] Cons.prems(1) by (simp add: recordFailure_table in_step_def)
      then have "outbox_step cfg ordered s (?s (rl_table ?st2))" by (rule outbox_step.os_refused [OF Cons.prems(2)])
      then show thesis
        using publish_calls [OF p] Cons.prems(1)
        by (intro that [of "?s (rl_table ?st2)"]) (simp_all add: in_step_def Inl recordFailure_table)
    qed
    have "publish_batch env cfg ms ?st2 = (ids, st')" using Cons.prems(3) p by (simp add: Inl)
    from Cons.IH [OF s1(2,4) this] s1(1,3) show ?thesis by (metis converse_rtranclp_into_rtranclp)
  next
    case (Inr u)
    let ?st2 = "st1\<lparr>rl_published := rl_published st1 + 1\<rparr>"
    let ?s1 = "s\<lparr>os_sent := os_sent s @ [m], os_claims := (os_claims s)(tok \<mapsto> Publishing ms (done @ [cm_id m]))\<rparr>"
    obtain ids' where b: "publish_batch env cfg ms ?st2 = (ids', st')" "ids = cm_id m # ids'"
      using Cons.prems(3) p by (auto simp: Inr split: prod.splits)
    have "outbox_step cfg ordered s ?s1" by (rule outbox_step.os_accepted [OF Cons.prems(2)])
    moreover have "in_step ?st2 ?s1" using publish_calls [OF p] Cons.prems(1) by (simp add: in_step_def Inr)
    ultimately show ?thesis
      using Cons.IH [OF _ _ b(1), of ?s1 "done @ [cm_id m]"] b(2)
      by (auto intro: converse_rtranclp_into_rtranclp)
  qed
qed

lemma mark_run:
  assumes "in_step st s" "os_claims s tok = Some (Publishing [] ids)"
  shows "\<exists>s'. (outbox_step cfg ordered)\<^sup>*\<^sup>* s s' \<and> in_step (markPublished env tok ids st) s' \<and> os_enqueued s' = os_enqueued s"
proof -
  let ?at = "clock_reading env (rl_reads st)"
  let ?s = "s\<lparr>os_table := snd (MarkOutboxMessagesPublished ?at tok ids (os_table s)), os_claims := (os_claims s)(tok := None)\<rparr>"
  show ?thesis
  proof (cases "call_err env (rl_calls st) = None")
    case True
    have "outbox_step cfg ordered s ?s" by (rule outbox_step.os_mark [OF assms(2)])
    moreover have "in_step (markPublished env tok ids st) ?s"
      using assms(1) True by (simp add: in_step_def markPublished_table)
    ultimately show ?thesis by (intro exI [of _ ?s]) auto
  next
    case False
    then show ?thesis using assms(1) by (intro exI [of _ s]) (auto simp: in_step_def markPublished_table)
  qed
qed

lemma claim_run:
  assumes "in_step st s" "tok \<notin> os_tokens s" "ids = selectClaimable cfg locked now (rl_table st)"
    and "lease_batch cfg tok now ids (rl_table st) = (msgs, t')"
  shows "\<exists>s'. (outbox_step cfg ordered)\<^sup>*\<^sup>* s s' \<and> os_table s' = t' \<and> os_sent s' = os_sent s \<and>
              os_enqueued s' = os_enqueued s \<and> os_claims s' tok = Some (Publishing msgs [])"
proof -
  have t: "os_table s = rl_table st" using assms(1) by (simp add: in_step_def)
  let ?s1 = "s\<lparr>os_claims := (os_claims s)(tok \<mapsto> Selecting now []), os_tokens := insert tok (os_tokens s)\<rparr>"
  let ?s2 = "?s1\<lparr>os_claims := (os_claims ?s1)(tok \<mapsto> Selecting now ([] @ ids))\<rparr>"
  let ?s3 = "?s2\<lparr>os_table := t', os_claims := (os_claims ?s2)(tok \<mapsto> Publishing msgs [])\<rparr>"
  have "outbox_step cfg ordered s ?s1" by (rule outbox_step.os_begin [OF assms(2)])
  moreover have "outbox_step cfg ordered ?s1 ?s2"
    using selectClaimable_selectable [of cfg locked now "rl_table st"] t assms(3)
    by (intro outbox_step.os_page) auto
  moreover have "outbox_step cfg ordered ?s2 ?s3"
    using assms(4) t by (intro outbox_step.os_lease [of _ _ now ids]) simp_all
  ultimately have "(outbox_step cfg ordered)\<^sup>*\<^sup>* s ?s3" by (meson converse_rtranclp_into_rtranclp rtranclp.rtrancl_refl)
  then show ?thesis by (intro exI [of _ ?s3]) simp
qed

lemma lease_batch_token: "lease_batch cfg tok now ids t = (msgs, t') \<Longrightarrow> m \<in> set msgs \<Longrightarrow> cm_claimToken m = tok"
  by (erule (1) lease_batch_msgs) (simp add: claimed_message_def)

lemma cycle_run:
  assumes "in_step st s" "minted_token env (rl_calls st) \<notin> os_tokens s"
  shows "\<exists>s'. (outbox_step cfg ordered)\<^sup>*\<^sup>* s s' \<and> in_step (Relay_cycle env cfg st) s' \<and> os_enqueued s' = os_enqueued s"
proof -
  let ?now = "clock_reading env (rl_reads st)" and ?tok = "minted_token env (rl_calls st)"
  define st2 where "st2 = st\<lparr>rl_reads := Suc (rl_reads st), rl_calls := Suc (rl_calls st)\<rparr>"
  define ids where "ids = selectClaimable cfg (locked_ids env) ?now (rl_table st)"
  have sync: "in_step st2 s" using assms(1) by (simp add: in_step_def st2_def)
  have claim: "Relay_claim env cfg st =
      (case call_err env (rl_calls st) of
         Some e \<Rightarrow> (Inl (RelayDriverError e), st2)
       | None \<Rightarrow> if ids = [] then (Inr [], st2)
                 else (case lease_batch cfg ?tok ?now ids (rl_table st) of (msgs, t') \<Rightarrow> (Inr msgs, st2\<lparr>rl_table := t'\<rparr>)))"
    by (simp add: Relay_claim_def relay_call_defs Let_def st2_def ids_def split: option.splits)
  obtain msgs t' where l: "lease_batch cfg ?tok ?now ids (rl_table st) = (msgs, t')" by fastforce
  obtain s1 where s1: "(outbox_step cfg ordered)\<^sup>*\<^sup>* s s1" "os_table s1 = t'" "os_sent s1 = os_sent s"
    "os_enqueued s1 = os_enqueued s" "os_claims s1 ?tok = Some (Publishing msgs [])"
    using claim_run [OF assms(1,2) ids_def l] by blast
  let ?st3 = "st2\<lparr>rl_table := t'\<rparr>"
  have sync1: "in_step ?st3 s1" using sync s1(2,3) by (simp add: in_step_def)
  obtain pub st4 where b: "publish_batch env cfg msgs ?st3 = (pub, st4)" by fastforce
  obtain s2 where s2: "(outbox_step cfg ordered)\<^sup>*\<^sup>* s1 s2" "in_step st4 s2" "os_enqueued s2 = os_enqueued s"
    "os_claims s2 ?tok = Some (Publishing [] pub)"
    using publish_batch_run [OF sync1 s1(5) b] s1(4) by auto
  obtain s3 where s3: "(outbox_step cfg ordered)\<^sup>*\<^sup>* s2 s3" "in_step (markPublished env ?tok pub st4) s3" "os_enqueued s3 = os_enqueued s"
    using mark_run [OF s2(2,4)] s2(3) by metis
  consider (idle) "in_step (Relay_cycle env cfg st) s"
    | (empty) "Relay_cycle env cfg st = ?st3" "msgs = []"
    | (none) "Relay_cycle env cfg st = st4" | (some) "Relay_cycle env cfg st = markPublished env ?tok pub st4"
  proof (cases "call_err env (rl_calls st) = None \<and> ids \<noteq> []")
    case True
    then have "Relay_claim env cfg st = (Inr msgs, ?st3)" using claim l by simp
    then have "Relay_cycle env cfg st = (case msgs of [] \<Rightarrow> ?st3 | m # _ \<Rightarrow>
        if pub = [] then st4 else markPublished env (cm_claimToken m) pub st4)"
      using b by (cases msgs) (simp_all add: Relay_cycle_def del: publish_batch.simps)
    moreover have "cm_claimToken m = ?tok" if "msgs = m # ms" for m ms using lease_batch_token [OF l] that by simp
    ultimately show thesis using that(2-4) by (cases msgs; cases "pub = []") simp_all
  next
    case False
    then show thesis using that(1) claim sync by (auto simp: Relay_cycle_def in_step_def split: option.splits)
  qed
  then show ?thesis
  proof cases
    case empty
    then show ?thesis using s1 sync1 by auto
  next
    case none
    then show ?thesis using s1(1) s2 by (auto intro: rtranclp_trans)
  next
    case some
    then show ?thesis using s1(1) s2(1) s3 by (auto intro: rtranclp_trans)
  qed auto
qed

end
