(* ===== verification/Outbox_Drain.thy ===== *)
theory Outbox_Drain
  imports Outbox_Laws
begin

text \<open>
  A healthy relay drains the outbox. With no failing call, no refused message and nothing locked, a
  cycle publishes the whole batch it selects; the first waiting message is always selectable, so every
  cycle shortens the backlog until nothing is left.
\<close>

definition healthy :: "relay_env \<Rightarrow> bool" where
  "healthy env \<longleftrightarrow>
     (\<forall>n. call_err env n = None) \<and> (\<forall>topic. new_publisher_err env topic = None) \<and>
     (\<forall>n topic payload. broker_err env n topic payload = None) \<and> (\<forall>i. \<not> locked_ids env i)"

definition all_due :: "time \<Rightarrow> outbox_table \<Rightarrow> bool" where
  "all_due now t \<longleftrightarrow> distinct (map ob_id t) \<and> (\<forall>r \<in> set t. ob_pending r \<longrightarrow> claimableRowState now r)"

lemma rowState_later: "claimableRowState now r \<Longrightarrow> now \<le> now' \<Longrightarrow> claimableRowState now' r"
  by (auto simp: claimableRowState_def split: option.splits)

lemma all_due_later: "all_due now t \<Longrightarrow> now \<le> now' \<Longrightarrow> all_due now' t"
  unfolding all_due_def using rowState_later by blast

lemma publish_healthy:
  assumes "healthy env"
  shows "\<exists>st'. Relay_publish env m st = (Inr (), st') \<and> rl_table st' = rl_table st \<and> rl_sent st' = rl_sent st @ [m]"
  using assms by (auto simp: healthy_def Relay_publish_def publisherFor_def Let_def)

lemma publish_batch_healthy:
  assumes "healthy env" "publish_batch env cfg ms st = (ids, st')"
  shows "ids = map cm_id ms \<and> rl_table st' = rl_table st \<and> rl_sent st' = rl_sent st @ ms"
  using assms(2)
proof (induction ms arbitrary: st ids)
  case (Cons m ms)
  obtain st1 where 1: "Relay_publish env m st = (Inr (), st1)" "rl_table st1 = rl_table st" "rl_sent st1 = rl_sent st @ [m]"
    using publish_healthy [OF assms(1)] by blast
  obtain ids' where 2: "publish_batch env cfg ms (st1\<lparr>rl_published := rl_published st1 + 1\<rparr>) = (ids', st')" "ids = cm_id m # ids'"
    using Cons.prems 1(1) by (auto split: prod.splits)
  show ?case using Cons.IH [OF 2(1)] 1 2(2) by simp
qed simp

section \<open>The batch is never empty while something waits\<close>

lemma select_unlocked:
  assumes "distinct (map ob_id t)" "\<And>i. \<not> locked i"
  shows "mset (selectClaimable cfg locked now t) = mset (map ob_id (take (nat (rc_BatchSize cfg)) (claimable_rows now t)))"
  using lock_pages_spec [OF assms(1), of "[]" locked 0 now "nat (rc_BatchSize cfg)"] assms(2)
  by (simp add: selectClaimable_def page_rows)

lemma first_pending_selectable:
  assumes "all_due now t" "filter ob_pending t \<noteq> []"
  shows "claimable_rows now t \<noteq> []"
proof -
  let ?P = "sort_key publish_order (filter ob_pending t)"
  obtain m ms where P: "?P = m # ms" using assms(2) by (metis list.exhaust length_0_conv length_sort)
  have sP: "set (m # ms) = {r \<in> set t. ob_pending r}" unfolding P [symmetric] by simp
  then have m: "m \<in> set t" "ob_pending m" by auto
  have "sorted (map publish_order (m # ms))" using P by (metis sorted_sort_key)
  then have least: "publish_order m \<le> publish_order r" if "r \<in> set t" "ob_pending r" for r
  proof -
    have "r \<in> set (m # ms)" using that sP by blast
    then show ?thesis using \<open>sorted (map publish_order (m # ms))\<close> by auto
  qed
  have "heads_key t m" unfolding heads_key_def earlier_iff using least by (auto simp: not_less)
  then have "selectable now t m" using assms(1) m by (simp add: selectable_def all_due_def)
  then have "m \<in> set (claimable_rows now t)" using m by (simp add: set_claimable_rows)
  then show ?thesis by auto
qed

section \<open>One cycle\<close>

lemma claimed_rows_table:
  assumes d: "distinct (map ob_id t)" and ids: "set ids \<subseteq> ob_id ` {r \<in> set t. selectable now t r}"
  shows "ClaimOutboxMessages until tok now ids t = sql_update (\<lambda>r. ob_id r \<in> set ids) (ob_leased_row until tok) t"
  unfolding ClaimOutboxMessages_def
proof (rule sql_update_cong)
  fix r assume r: "r \<in> set t"
  have "claimableRowState now r" if i: "ob_id r \<in> set ids"
  proof -
    have "ob_id r \<in> ob_id ` {r \<in> set t. selectable now t r}" using ids i by blast
    then obtain q where q: "q \<in> set t" "selectable now t q" "ob_id q = ob_id r" by auto
    then have "q = r" using inj_onD [of ob_id "set t" q r] d r by (simp add: distinct_map)
    with q show ?thesis by (simp add: selectable_def)
  qed
  then show "(claimableRowState now r \<and> ob_id r \<in> set ids) = (ob_id r \<in> set ids)" by blast
qed simp

lemma batch_ids:
  assumes d: "distinct (map ob_id t)" and ids: "set ids \<subseteq> ob_id ` {r \<in> set t. selectable now t r}"
    and l: "lease_batch cfg tok now ids t = (msgs, t')"
  shows "cm_id ` set msgs = set ids"
proof -
  have t': "t' = sql_update (\<lambda>r. ob_id r \<in> set ids) (ob_leased_row (now + rc_LeaseDuration cfg) tok) t"
    using lease_batch_table [OF l] claimed_rows_table [OF d ids] by simp
  have msgs: "msgs = map (claimed_message tok) (FetchClaimedOutboxMessages tok ids t')"
    using lease_batch_table [OF l] by simp
  have "i \<in> cm_id ` set msgs" if i: "i \<in> set ids" for i
  proof -
    obtain r where r: "r \<in> set t" "ob_id r = i" using ids i by auto
    let ?r = "ob_leased_row (now + rc_LeaseDuration cfg) tok r"
    have "?r \<in> set t'" using r i by (auto simp: t' set_sql_update)
    moreover have "held_by tok ids ?r" using r i by (simp add: held_by_def ob_leased_row_def)
    ultimately have "claimed_message tok ?r \<in> set msgs" by (simp add: msgs FetchClaimedOutboxMessages_def)
    moreover have "cm_id (claimed_message tok ?r) = i" using r by (simp add: claimed_message_def ob_leased_row_def)
    ultimately show ?thesis by force
  qed
  moreover have "cm_id ` set msgs \<subseteq> set ids"
    by (auto elim!: lease_batch_msgs [OF l] simp: claimed_message_def held_by_def)
  ultimately show ?thesis by blast
qed

lemma healthy_cycle:
  assumes h: "healthy env" and d: "distinct (map ob_id (rl_table st))"
    and ids: "ids = selectClaimable cfg (locked_ids env) (clock_reading env (rl_reads st)) (rl_table st)"
  shows "\<exists>until tok at. rl_table (Relay_cycle env cfg st) =
           sql_update (\<lambda>r. ob_id r \<in> set ids) (\<lambda>r. published_row at (ob_leased_row until tok r)) (rl_table st)"
    and "cm_id ` set (rl_sent (Relay_cycle env cfg st)) = cm_id ` set (rl_sent st) \<union> set ids"
proof -
  let ?now = "clock_reading env (rl_reads st)" and ?tok = "minted_token env (rl_calls st)"
  define st2 where "st2 = st\<lparr>rl_reads := Suc (rl_reads st), rl_calls := Suc (rl_calls st)\<rparr>"
  obtain msgs t' where l: "lease_batch cfg ?tok ?now ids (rl_table st) = (msgs, t')" by fastforce
  have sub: "set ids \<subseteq> ob_id ` {r \<in> set (rl_table st). selectable ?now (rl_table st) r}"
    unfolding ids by (rule selectClaimable_selectable)
  have bi: "cm_id ` set msgs = set ids" by (rule batch_ids [OF d sub l])
  have claim: "Relay_claim env cfg st = (if ids = [] then (Inr [], st2) else (Inr msgs, st2\<lparr>rl_table := t'\<rparr>))"
    using h l by (simp add: Relay_claim_def relay_call_defs Let_def st2_def ids healthy_def)
  obtain pub st4 where b: "publish_batch env cfg msgs (st2\<lparr>rl_table := t'\<rparr>) = (pub, st4)" by fastforce
  have pb: "pub = map cm_id msgs" "rl_table st4 = t'" "rl_sent st4 = rl_sent st @ msgs"
    using publish_batch_healthy [OF h b] by (simp_all add: st2_def)
  have cyc: "Relay_cycle env cfg st = (if ids = [] then st2 else markPublished env ?tok pub st4)"
  proof (cases "ids = []")
    case False
    then obtain m ms where m: "msgs = m # ms" using bi by (cases msgs) auto
    have "cm_claimToken m = ?tok" using lease_batch_token [OF l] m by simp
    then show ?thesis using False claim b pb(1) m by (simp add: Relay_cycle_def del: publish_batch.simps)
  qed (simp add: Relay_cycle_def claim)
  show "cm_id ` set (rl_sent (Relay_cycle env cfg st)) = cm_id ` set (rl_sent st) \<union> set ids"
    using bi by (simp add: cyc markPublished_table pb(3) image_Un) (simp add: st2_def)
  let ?at = "clock_reading env (rl_reads st4)" and ?u = "?now + rc_LeaseDuration cfg"
  have t': "t' = sql_update (\<lambda>r. ob_id r \<in> set ids) (ob_leased_row ?u ?tok) (rl_table st)"
    using lease_batch_table [OF l] claimed_rows_table [OF d sub] by simp
  have "rl_table (Relay_cycle env cfg st) =
      sql_update (\<lambda>r. ob_id r \<in> set ids) (\<lambda>r. published_row ?at (ob_leased_row ?u ?tok r)) (rl_table st)"
  proof (cases "ids = []")
    case False
    have "rl_table (markPublished env ?tok pub st4) = sql_update (held_by ?tok pub) (published_row ?at) t'"
      using h by (simp add: markPublished_table healthy_def MarkOutboxMessagesPublished_def pb(2))
    also have "\<dots> = sql_update (\<lambda>r. ob_id r \<in> set ids) (\<lambda>r. published_row ?at (ob_leased_row ?u ?tok r)) (rl_table st)"
      unfolding t' sql_update_def using bi by (auto simp: held_by_def ob_leased_row_def pb(1))
    finally show ?thesis using False by (simp add: cyc)
  qed (simp add: cyc st2_def sql_update_def)
  then show "\<exists>until tok at. rl_table (Relay_cycle env cfg st) =
           sql_update (\<lambda>r. ob_id r \<in> set ids) (\<lambda>r. published_row at (ob_leased_row until tok r)) (rl_table st)" by blast
qed

text \<open>The waiting rows of a cycle's result are the waiting rows it did not select.\<close>

lemma filter_pending_update:
  assumes "\<And>r. \<not> ob_pending (f r)"
  shows "filter ob_pending (sql_update p f t) = filter (\<lambda>r. ob_pending r \<and> \<not> p r) t"
  using assms by (induction t) (auto simp: sql_update_def)

lemma cycle_progress:
  assumes h: "healthy env" and due: "all_due (clock_reading env (rl_reads st)) (rl_table st)"
    and b: "1 \<le> rc_BatchSize cfg" and ne: "filter ob_pending (rl_table st) \<noteq> []"
  shows "length (filter ob_pending (rl_table (Relay_cycle env cfg st))) < length (filter ob_pending (rl_table st))"
proof -
  let ?now = "clock_reading env (rl_reads st)" and ?t = "rl_table st"
  define ids where "ids = selectClaimable cfg (locked_ids env) ?now ?t"
  have d: "distinct (map ob_id ?t)" using due by (simp add: all_due_def)
  have "mset ids = mset (map ob_id (take (nat (rc_BatchSize cfg)) (claimable_rows ?now ?t)))"
    unfolding ids_def using h by (intro select_unlocked [OF d]) (simp add: healthy_def)
  then have "ids \<noteq> []" using first_pending_selectable [OF due ne] b by auto
  then have i: "hd ids \<in> set ids" by simp
  moreover have "set ids \<subseteq> ob_id ` {r \<in> set ?t. selectable ?now ?t r}"
    unfolding ids_def by (rule selectClaimable_selectable)
  ultimately have "hd ids \<in> ob_id ` {r \<in> set ?t. selectable ?now ?t r}" by blast
  then obtain r where r: "r \<in> set ?t" "selectable ?now ?t r" "ob_id r \<in> set ids" using i by auto
  obtain until tok at where t': "rl_table (Relay_cycle env cfg st) =
      sql_update (\<lambda>r. ob_id r \<in> set ids) (\<lambda>r. published_row at (ob_leased_row until tok r)) ?t"
    using healthy_cycle(1) [OF h d ids_def] by blast
  have "ob_pending r" using r(2) by (auto simp: selectable_def intro: claimable_pending)
  have "length (filter (\<lambda>r. ob_pending r \<and> ob_id r \<notin> set ids) ?t) = length (filter (\<lambda>r. ob_id r \<notin> set ids) (filter ob_pending ?t))"
    by (simp add: conj_commute)
  also have "\<dots> < length (filter ob_pending ?t)"
    by (rule length_filter_less [of r]) (use r \<open>ob_pending r\<close> in auto)
  finally show ?thesis unfolding t' by (simp add: filter_pending_update)
qed

lemma cycle_keeps:
  assumes h: "healthy env" and due: "all_due T (rl_table st)"
  shows "all_due T (rl_table (Relay_cycle env cfg st))"
    and "r \<in> set (rl_table st) \<Longrightarrow> ob_pending r \<Longrightarrow>
         r \<in> set (rl_table (Relay_cycle env cfg st)) \<or> ob_id r \<in> cm_id ` set (rl_sent (Relay_cycle env cfg st))"
    and "cm_id ` set (rl_sent st) \<subseteq> cm_id ` set (rl_sent (Relay_cycle env cfg st))"
proof -
  define ids where "ids = selectClaimable cfg (locked_ids env) (clock_reading env (rl_reads st)) (rl_table st)"
  have d: "distinct (map ob_id (rl_table st))" using due by (simp add: all_due_def)
  obtain until tok at where t': "rl_table (Relay_cycle env cfg st) =
      sql_update (\<lambda>r. ob_id r \<in> set ids) (\<lambda>r. published_row at (ob_leased_row until tok r)) (rl_table st)"
    using healthy_cycle(1) [OF h d ids_def] by blast
  have s: "cm_id ` set (rl_sent (Relay_cycle env cfg st)) = cm_id ` set (rl_sent st) \<union> set ids"
    by (rule healthy_cycle(2) [OF h d ids_def])
  show "all_due T (rl_table (Relay_cycle env cfg st))"
    using due unfolding all_due_def t' by (auto simp: messages.pk_update set_sql_update split: if_splits)
  show "r \<in> set (rl_table st) \<Longrightarrow> ob_pending r \<Longrightarrow>
         r \<in> set (rl_table (Relay_cycle env cfg st)) \<or> ob_id r \<in> cm_id ` set (rl_sent (Relay_cycle env cfg st))"
    unfolding s t' by (force simp: set_sql_update)
  show "cm_id ` set (rl_sent st) \<subseteq> cm_id ` set (rl_sent (Relay_cycle env cfg st))" unfolding s by blast
qed

lemma drained:
  assumes h: "healthy env" and b: "1 \<le> rc_BatchSize cfg" and clk: "\<And>n. T \<le> clock_reading env n"
    and "all_due T (rl_table st)" "length (filter ob_pending (rl_table st)) \<le> n"
  shows "filter ob_pending (rl_table ((Relay_cycle env cfg ^^ n) st)) = [] \<and>
         (\<forall>r \<in> set (rl_table st). ob_pending r \<longrightarrow> ob_id r \<in> cm_id ` set (rl_sent ((Relay_cycle env cfg ^^ n) st))) \<and>
         cm_id ` set (rl_sent st) \<subseteq> cm_id ` set (rl_sent ((Relay_cycle env cfg ^^ n) st))"
  using assms(4,5)
proof (induction n arbitrary: st)
  case 0
  then show ?case by (auto simp: filter_empty_conv)
next
  case (Suc n)
  let ?st = "Relay_cycle env cfg st"
  have due: "all_due T (rl_table ?st)" by (rule cycle_keeps(1) [OF h Suc.prems(1)])
  have len: "length (filter ob_pending (rl_table ?st)) \<le> n"
  proof (cases "filter ob_pending (rl_table st) = []")
    case True
    have "r \<in> set (rl_table ?st) \<Longrightarrow> \<not> ob_pending r" for r
    proof -
      define ids where "ids = selectClaimable cfg (locked_ids env) (clock_reading env (rl_reads st)) (rl_table st)"
      have d: "distinct (map ob_id (rl_table st))" using Suc.prems(1) by (simp add: all_due_def)
      show "r \<in> set (rl_table ?st) \<Longrightarrow> \<not> ob_pending r"
        using healthy_cycle(1) [OF h d ids_def] True by (auto simp: set_sql_update filter_empty_conv split: if_splits)
    qed
    then have "filter ob_pending (rl_table ?st) = []" by (simp add: filter_empty_conv)
    then show ?thesis by simp
  next
    case False
    then show ?thesis
      using cycle_progress [OF h all_due_later [OF Suc.prems(1) clk] b] Suc.prems(2) by simp
  qed
  have IH: "filter ob_pending (rl_table ((Relay_cycle env cfg ^^ n) ?st)) = [] \<and>
      (\<forall>r \<in> set (rl_table ?st). ob_pending r \<longrightarrow> ob_id r \<in> cm_id ` set (rl_sent ((Relay_cycle env cfg ^^ n) ?st))) \<and>
      cm_id ` set (rl_sent ?st) \<subseteq> cm_id ` set (rl_sent ((Relay_cycle env cfg ^^ n) ?st))"
    by (rule Suc.IH [OF due len])
  have "(Relay_cycle env cfg ^^ Suc n) st = (Relay_cycle env cfg ^^ n) ?st" by (simp only: funpow_Suc_right o_apply)
  then show ?case using IH cycle_keeps(2,3) [OF h Suc.prems(1), where cfg = cfg] by (metis subset_iff)
qed

end
