(* ===== verification/Outbox_Outcomes.thy ===== *)
theory Outbox_Outcomes
  imports Outbox_Laws
begin

text \<open>
  What the relay's operations do, branch by branch: the batch of the skip-locked select, the outcome of
  a failed publish, the fence on a claim that lost its row, release from the quarantine, the retention
  of quarantined rows and the wakeups of the loop.
\<close>

section \<open>Environments of the examples\<close>

definition plain_env :: relay_env where
  "plain_env = \<lparr>clock_reading = (\<lambda>n. 100 + int n), minted_token = (\<lambda>_. ''tok''), locked_ids = (\<lambda>_. False),
     call_err = (\<lambda>_. None), new_publisher_err = (\<lambda>_. None), broker_err = (\<lambda>_ _ _. None),
     scheduled_delay = (\<lambda>a. 10 * a), truncate_cause = take 1024\<rparr>"

definition plain_cfg :: RelayConfig where
  "plain_cfg = \<lparr>rc_ClaimMode = ClaimSkipLocked, rc_MaxAttempts = 3, rc_BatchSize = 2, rc_PollInterval = 1,
     rc_LeaseDuration = 30, rc_Retention = 60, rc_QuarantineRetention = 60, rc_ReapInterval = 5,
     rc_ReapBatchSize = 1, rc_MinWakeInterval = 100\<rparr>"

definition state_of :: "outbox_table \<Rightarrow> relay_state" where
  "state_of t = \<lparr>rl_table = t, rl_publishers = [], rl_sent = [], rl_reads = 0, rl_calls = 0, rl_published = 0,
     rl_failed = 0, rl_quarantined = 0, rl_fenced = 0, rl_reaped = 0, rl_quarantine_reaped = 0,
     rl_claim_errors = 0, rl_discarded = []\<rparr>"

definition waiting :: "string \<Rightarrow> string \<Rightarrow> time \<Rightarrow> outbox_row" where
  "waiting i key at = InsertOutboxMessage i ''orders'' key ''{}'' at"

definition abandoned :: "string \<Rightarrow> time \<Rightarrow> outbox_row" where
  "abandoned i at = (waiting i [] 1)\<lparr>ob_attempts := 3, ob_last_error := Some ''boom'', ob_quarantined_at := Some at\<rparr>"

lemmas outcome_examples = plain_env_def plain_cfg_def state_of_def waiting_def abandoned_def InsertOutboxMessage_def

section \<open>The skip-locked batch\<close>

text \<open>
  C26: The skip-locked select, which locks page after page until its batch is full, picks exactly the
  first \<^verbatim>\<open>BatchSize\<close> claimable messages in publish order that no other transaction holds: a locked
  candidate costs the batch nothing as long as there are others behind it, and the loop ends.
\<close>

theorem skip_locked_batch:
  assumes "distinct (map ob_id t)" "rc_ClaimMode cfg = ClaimSkipLocked"
  shows "mset (selectClaimable cfg locked now t) =
         mset (map ob_id (take (nat (rc_BatchSize cfg)) (filter (\<lambda>r. \<not> locked (ob_id r))
           (sort_key publish_order (filter (selectable now t) t)))))"
  using lock_pages_spec [OF assms(1), of "[]" locked 0 now "nat (rc_BatchSize cfg)"] assms(2)
  by (simp add: selectClaimable_def claimable_rows_def)

theorem skip_locked_batch_witness:
  "mset (selectClaimable plain_cfg (\<lambda>i. i = ''b'') 9 [waiting ''c'' [] 3, waiting ''a'' [] 1, waiting ''b'' [] 2, waiting ''d'' [] 4]) =
   mset [''a'', ''c'']"
proof -
  let ?t = "[waiting ''c'' [] 3, waiting ''a'' [] 1, waiting ''b'' [] 2, waiting ''d'' [] 4]"
  have d: "distinct (map ob_id ?t)" by (simp add: outcome_examples)
  have e: "map ob_id (take (nat (rc_BatchSize plain_cfg)) (filter (\<lambda>r. \<not> (ob_id r = ''b''))
      (sort_key publish_order (filter (selectable 9 ?t) ?t)))) = [''a'', ''c'']" by code_simp
  show ?thesis using skip_locked_batch [OF d, of plain_cfg "\<lambda>i. i = ''b''" 9] unfolding e by (simp add: plain_cfg_def)
qed

section \<open>Failed publishes\<close>

lemma row_at_held:
  assumes "distinct (map ob_id t)" "row_at ob_id t i = Some r"
  shows "q \<in> set t \<Longrightarrow> held_by tok [i] q \<longleftrightarrow> q = r \<and> ob_claimed_by r = Some tok"
proof -
  assume q: "q \<in> set t"
  have r: "r \<in> set t" "ob_id r = i" using row_at_SomeD [OF assms(2)] by auto
  have "ob_id q = i \<longleftrightarrow> q = r"
    using inj_onD [of ob_id "set t" q r] assms(1) r q by (auto simp: distinct_map)
  then show ?thesis using r by (auto simp: held_by_def)
qed

lemma held_count:
  assumes "distinct (map ob_id t)" "row_at ob_id t i = Some r"
  shows "sql_count (held_by tok [i]) t = 0 \<longleftrightarrow> ob_claimed_by r \<noteq> Some tok"
proof -
  have r: "r \<in> set t" using row_at_SomeD [OF assms(2)] by blast
  have "sql_count (held_by tok [i]) t = 0 \<longleftrightarrow> (\<forall>q \<in> set t. \<not> held_by tok [i] q)"
    by (simp add: sql_count_def filter_empty_conv)
  also have "\<dots> \<longleftrightarrow> ob_claimed_by r \<noteq> Some tok" using row_at_held [OF assms] r by blast
  finally show ?thesis .
qed

lemma recordFailure_counts:
  assumes "distinct (map ob_id (rl_table st))" "row_at ob_id (rl_table st) (cm_id m) = Some r" "call_err env (rl_calls st) = None"
  shows "rl_fenced (recordFailure env cfg m cause st) =
           rl_fenced st + (if ob_claimed_by r = Some (cm_claimToken m) then 0 else 1)"
    and "rl_quarantined (recordFailure env cfg m cause st) =
           rl_quarantined st + (if ob_claimed_by r = Some (cm_claimToken m) \<and> gives_up cfg m then 1 else 0)"
  using held_count [OF assms(1,2), of "cm_claimToken m"] assms(3)
  by (auto simp: recordFailure_def relay_call_defs failure_write_def RecordOutboxMessageFailure_def Let_def)

lemma failure_rows:
  assumes "row_at ob_id (rl_table st) (cm_id m) = Some r" "ob_claimed_by r = Some (cm_claimToken m)"
    and "call_err env (rl_calls st) = None"
  shows "row_at ob_id (rl_table (recordFailure env cfg m cause st)) i =
     (if i = cm_id m
      then Some (failed_row (clock_reading env (rl_reads st) + scheduled_delay env (cm_attempts m)) (truncate_cause env cause)
             (if gives_up cfg m then Some (clock_reading env (rl_reads st)) else None) r)
      else row_at ob_id (rl_table st) i)"
proof -
  have "ob_id r = cm_id m" using row_at_SomeD [OF assms(1)] by simp
  then have "held_by (cm_claimToken m) [cm_id m] r" using assms(2) by (simp add: held_by_def)
  moreover have "\<not> held_by (cm_claimToken m) [cm_id m] q" if "row_at ob_id (rl_table st) i = Some q" "i \<noteq> cm_id m" for q
    using row_at_SomeD [OF that(1)] that(2) by (auto simp: held_by_def)
  ultimately show ?thesis using assms(1,3)
    by (cases "row_at ob_id (rl_table st) i") (auto simp: recordFailure_table failure_row)
qed

text \<open>
  When a publish fails and the claim still holds the message, the failure releases the lease,
  records the truncated cause and schedules the retry; the message is claimable again exactly from the
  scheduled instant on, unless its attempts are spent: then it is quarantined, counted, and no later
  claim takes it. Every other message is left alone.
\<close>

theorem failure_outcome:
  assumes "distinct (map ob_id (rl_table st))" "row_at ob_id (rl_table st) (cm_id m) = Some r"
    and "ob_claimed_by r = Some (cm_claimToken m)" "ob_pending r" "call_err env (rl_calls st) = None"
  shows "(\<exists>r'. row_at ob_id (rl_table (recordFailure env cfg m cause st)) (cm_id m) = Some r' \<and>
           ob_claimed_by r' = None \<and> ob_attempts r' = ob_attempts r \<and>
           ob_last_error r' = Some (truncate_cause env cause) \<and> quarantined r' = gives_up cfg m \<and>
           (\<forall>now. claimableRowState now r' \<longleftrightarrow>
              \<not> gives_up cfg m \<and> clock_reading env (rl_reads st) + scheduled_delay env (cm_attempts m) \<le> now)) \<and>
         (\<forall>i. i \<noteq> cm_id m \<longrightarrow> row_at ob_id (rl_table (recordFailure env cfg m cause st)) i = row_at ob_id (rl_table st) i) \<and>
         rl_quarantined (recordFailure env cfg m cause st) = rl_quarantined st + (if gives_up cfg m then 1 else 0)"
  using failure_rows [OF assms(2,3,5)] recordFailure_counts(2) [OF assms(1,2,5)] assms(3,4)
  by (simp add: failed_row_def claimableRowState_def ob_pending_def quarantined_def)

definition spent_message :: claimedMessage where
  "spent_message = claimed_message ''tok'' ((waiting ''a'' ''k'' 1)\<lparr>ob_attempts := 3\<rparr>)"

definition spent_row :: outbox_row where
  "spent_row = (waiting ''a'' ''k'' 1)\<lparr>ob_attempts := 3, ob_claimed_until := Some 130, ob_claimed_by := Some ''tok''\<rparr>"

theorem failure_outcome_witness:
  "\<exists>r'. row_at ob_id (rl_table (recordFailure plain_env plain_cfg spent_message ''boom'' (state_of [spent_row]))) ''a'' = Some r' \<and>
        quarantined r' \<and> (\<forall>now. \<not> claimableRowState now r')"
proof -
  have g: "gives_up plain_cfg spent_message" "cm_id spent_message = ''a''" by code_simp+
  show ?thesis
    using failure_outcome [of "state_of [spent_row]" spent_message spent_row plain_env plain_cfg "''boom''"] g
    by (auto simp: outcome_examples spent_row_def spent_message_def claimed_message_def ob_pending_def)
qed

section \<open>A claim that lost its row\<close>

text \<open>
  A relay that overran its lease cannot report on a message somebody else has since taken, retired
  or released: neither its retirement nor its failure changes that row, the failure changes no row at
  all, quarantines nothing, and is counted as fenced.
\<close>

theorem straggler_report_void:
  assumes "distinct (map ob_id (rl_table st))" "row_at ob_id (rl_table st) (cm_id m) = Some r"
    and "ob_claimed_by r \<noteq> Some (cm_claimToken m)" "call_err env (rl_calls st) = None"
  shows "row_at ob_id (rl_table (markPublished env (cm_claimToken m) ids st)) (cm_id m) = Some r \<and>
         rl_table (recordFailure env cfg m cause st) = rl_table st \<and>
         rl_quarantined (recordFailure env cfg m cause st) = rl_quarantined st \<and>
         rl_fenced (recordFailure env cfg m cause st) = rl_fenced st + 1"
proof -
  have "\<not> held_by (cm_claimToken m) [cm_id m] q" if "q \<in> set (rl_table st)" for q
    using row_at_held [OF assms(1,2) that] assms(3) by simp
  then have "rl_table (recordFailure env cfg m cause st) = rl_table st"
    using assms(4) by (simp add: recordFailure_table failure_write_table sql_update_id)
  moreover have "\<not> held_by (cm_claimToken m) ids r" using assms(3) by (simp add: held_by_def)
  ultimately show ?thesis
    using recordFailure_counts [OF assms(1,2,4)] assms(2-4) by (simp add: markPublished_table mark_row)
qed

definition retaken_row :: outbox_row where
  "retaken_row = spent_row\<lparr>ob_claimed_by := Some ''other''\<rparr>"

theorem straggler_report_void_witness:
  "rl_table (recordFailure plain_env plain_cfg spent_message ''boom'' (state_of [retaken_row])) = [retaken_row] \<and>
   rl_fenced (recordFailure plain_env plain_cfg spent_message ''boom'' (state_of [retaken_row])) = 1"
  using straggler_report_void [of "state_of [retaken_row]" spent_message retaken_row plain_env "[''a'']" plain_cfg "''boom''"]
  by (simp add: outcome_examples retaken_row_def spent_row_def spent_message_def claimed_message_def)

section \<open>Release\<close>

text \<open>
  A message released from the quarantine after its budget was spent is due at once and keeps its
  attempt count, so it gets one publish: if the claim that takes it fails, it gives up again.
\<close>

theorem release_grants_one_attempt:
  assumes "row_at ob_id (rl_table st) i = Some r" "quarantined r" "ob_published_at r = None" "ob_claimed_until r = None"
    and "i \<in> set ids" "call_err env (rl_calls st) = None"
    and "int (rc_MaxAttempts cfg) \<le> ob_attempts r" "ob_attempts r + 1 < 2 ^ 64"
  shows "\<exists>r'. row_at ob_id (rl_table (snd (Relay_Release env ids st))) i = Some r' \<and> ob_attempts r' = ob_attempts r \<and>
              claimableRowState (clock_reading env (rl_reads st)) r' \<and>
              gives_up cfg (claimed_message tok (ob_leased_row until tok r'))"
proof -
  let ?now = "clock_reading env (rl_reads st)"
  have ne: "ids \<noteq> []" using assms(5) by auto
  have id: "ob_id r = i" using row_at_SomeD [OF assms(1)] by simp
  let ?p = "\<lambda>r. quarantined r \<and> ob_id r \<in> set ids"
  have "rl_table (snd (Relay_Release env ids st)) = sql_update ?p (released_row ?now) (rl_table st)"
    using ne assms(6) by (simp add: Relay_Release_def relay_call_defs ReleaseQuarantinedOutboxMessages_def Let_def)
  moreover have "row_at ob_id (sql_update ?p (released_row ?now) (rl_table st)) i = Some (released_row ?now r)"
    using messages.at_update [of ?p "released_row ?now" "rl_table st" i] assms(1,2,5) id by simp
  moreover have "gives_up cfg (claimed_message tok (ob_leased_row until tok (released_row ?now r)))"
    using assms(7,8) by (simp add: gives_up_def claimed_message_def row_writes)
  ultimately show ?thesis
    using assms(3,4) by (simp add: released_row_def claimableRowState_def ob_pending_def)
qed

theorem release_grants_one_attempt_witness:
  "\<exists>r'. row_at ob_id (rl_table (snd (Relay_Release plain_env [''a''] (state_of [abandoned ''a'' 5])))) ''a'' = Some r' \<and>
        claimableRowState 100 r' \<and> gives_up plain_cfg (claimed_message ''t'' (ob_leased_row 9 ''t'' r'))"
  using release_grants_one_attempt [of "state_of [abandoned ''a'' 5]" "''a''" "abandoned ''a'' 5" "[''a'']" plain_env plain_cfg "''t''" 9]
  by (auto simp: outcome_examples quarantined_def)

section \<open>Retention of quarantined rows\<close>

lemma reapQuarantined_calls:
  fixes env :: relay_env and cfg :: RelayConfig and st :: relay_state
  assumes "call_err env (rl_calls st) = None" "call_err env (Suc (rl_calls st)) = None"
  defines "before \<equiv> clock_reading env (rl_reads st) - rc_QuarantineRetention cfg"
  shows "rl_table (reapQuarantined env cfg st) =
           (if SelectReapableQuarantinedOutboxMessages before (rc_ReapBatchSize cfg) (rl_table st) = [] then rl_table st
            else snd (ReapQuarantinedOutboxMessages before (rc_ReapBatchSize cfg) (locked_ids env) (rl_table st)))"
    and "rl_discarded (reapQuarantined env cfg st) = rl_discarded st @
           map (\<lambda>r. (ob_id r, stringValue (ob_last_error r)))
             (SelectReapableQuarantinedOutboxMessages before (rc_ReapBatchSize cfg) (rl_table st))"
  using assms(1,2)
  by (auto simp: reapQuarantined_def relay_call_defs Let_def before_def split: prod.splits)

lemma reap_deletes_doomed:
  assumes d: "distinct (map ob_id t)" and r: "r \<in> set t" and l: "\<And>i. \<not> locked i"
  shows "r \<notin> set (snd (ReapQuarantinedOutboxMessages before limit locked t)) \<longleftrightarrow>
         r \<in> set (SelectReapableQuarantinedOutboxMessages before limit t)"
proof -
  let ?D = "SelectReapableQuarantinedOutboxMessages before limit t"
  have "set ?D \<subseteq> set t" using set_sql_top by (fastforce simp: SelectReapableQuarantinedOutboxMessages_def)
  then have "ob_id r \<in> ob_id ` set ?D \<longleftrightarrow> r \<in> set ?D" by (rule selected_by_key [OF d _ r])
  then show ?thesis
    using r l by (simp add: ReapQuarantinedOutboxMessages_def prune_def sql_delete_def SelectReapableQuarantinedOutboxMessages_def)
qed

text \<open>
  A retention pass over the quarantine that finds no row locked destroys only messages that were
  abandoned before the horizon, and names each of them with the error that abandoned it.
\<close>

theorem reap_names_what_it_destroys:
  assumes "distinct (map ob_id (rl_table st))" "\<And>i. \<not> locked_ids env i"
    and "call_err env (rl_calls st) = None" "call_err env (Suc (rl_calls st)) = None"
    and "r \<in> set (rl_table st)" "r \<notin> set (rl_table (reapQuarantined env cfg st))"
  shows "(\<exists>q. ob_quarantined_at r = Some q \<and> q \<le> clock_reading env (rl_reads st) - rc_QuarantineRetention cfg) \<and>
         (ob_id r, stringValue (ob_last_error r)) \<in> set (rl_discarded (reapQuarantined env cfg st))"
proof -
  let ?D = "SelectReapableQuarantinedOutboxMessages (clock_reading env (rl_reads st) - rc_QuarantineRetention cfg)
              (rc_ReapBatchSize cfg) (rl_table st)"
  have "r \<in> set ?D"
    using assms(5,6) reap_deletes_doomed [OF assms(1,5,2)]
    unfolding reapQuarantined_calls(1) [OF assms(3,4)] by (auto split: if_splits)
  then show ?thesis
    unfolding reapQuarantined_calls(2) [OF assms(3,4)] SelectReapableQuarantinedOutboxMessages_def
    using set_sql_top [of r] by (fastforce simp: quarantineHorizon_def split: option.splits)
qed

theorem reap_names_what_it_destroys_witness:
  "(''a'', ''boom'') \<in> set (rl_discarded (reapQuarantined plain_env plain_cfg (state_of [abandoned ''a'' 5, abandoned ''b'' 6])))"
proof -
  let ?st = "state_of [abandoned ''a'' 5, abandoned ''b'' 6]"
  have d: "distinct (map ob_id (rl_table ?st))" by (simp add: outcome_examples)
  have t: "rl_table (reapQuarantined plain_env plain_cfg ?st) = [abandoned ''b'' 6]" by code_simp
  have "abandoned ''a'' 5 \<noteq> abandoned ''b'' 6" by (simp add: outcome_examples)
  then show ?thesis
    using reap_names_what_it_destroys [OF d, of plain_env "abandoned ''a'' 5" plain_cfg] t
    by (simp add: outcome_examples stringValue_def)
qed

text \<open>
  With a row of the page locked, or taken by another reaper since it was read, the delete reaches past
  the page: here it destroys the second message and names the first, which is still there.
\<close>

theorem reap_can_destroy_unnamed:
  "let st = reapQuarantined (plain_env\<lparr>locked_ids := (\<lambda>i. i = ''a'')\<rparr>) plain_cfg (state_of [abandoned ''a'' 5, abandoned ''b'' 6])
   in map ob_id (rl_table st) = [''a''] \<and> rl_discarded st = [(''a'', ''boom'')]"
  by code_simp

section \<open>Wakeups\<close>

definition quiet :: "run_case \<Rightarrow> bool" where
  "quiet c \<longleftrightarrow> c \<noteq> Stopped \<and> c \<noteq> FloorTick"

lemma quiet_select:
  "quiet c \<Longrightarrow> Run_select w now c s = (a, s') \<Longrightarrow> a \<noteq> Return \<and> (run_wakePending s \<longrightarrow> run_wakePending s')"
  by (cases c) (auto simp: quiet_def Run_select_def split: if_splits)

lemma pending_wake_served:
  "run_wakePending s \<Longrightarrow> list_all (quiet \<circ> snd) es \<Longrightarrow>
   (now, FloorTick, CycleAction) \<in> set (Run_trace w (es @ [(now, FloorTick)]) s)"
proof (induction es arbitrary: s)
  case Nil
  then show ?case by (simp add: Run_select_def)
next
  case (Cons e es)
  obtain t c where e: "e = (t, c)" by fastforce
  obtain a s' where a: "Run_select w t c s = (a, s')" by fastforce
  have "a \<noteq> Return" "run_wakePending s'" using quiet_select [OF _ a] Cons.prems e by auto
  then show ?case using Cons.IH [of s'] Cons.prems e a by simp
qed

text \<open>
  A wakeup is never dropped: it runs a cycle at once, or, if the last cycle was too recent, the next
  tick of the floor runs one, whatever polls, wakeups and retention passes come in between.
\<close>

theorem wake_is_served:
  assumes "list_all (quiet \<circ> snd) es"
  shows "(t, Woken, CycleAction) \<in> set (Run_trace minWake ((t, Woken) # es @ [(now, FloorTick)]) s) \<or>
         (now, FloorTick, CycleAction) \<in> set (Run_trace minWake ((t, Woken) # es @ [(now, FloorTick)]) s)"
proof -
  obtain a s' where a: "Run_select minWake t Woken s = (a, s')" by fastforce
  consider "a = CycleAction" | "a = Idle" "run_wakePending s'"
    using a by (auto simp: Run_select_def split: if_splits)
  then show ?thesis
  proof cases
    case 2
    then show ?thesis using pending_wake_served [OF _ assms, of s' now minWake] a by simp
  qed (simp add: a)
qed

theorem wake_is_served_witness:
  "(1095, Woken, CycleAction) \<in> set (Run_trace 100 ((1095, Woken) # [(1097, ReapTick)] @ [(1100, FloorTick)])
      \<lparr>run_lastCycle = Some 1090, run_wakePending = False\<rparr>) \<or>
   (1100, FloorTick, CycleAction) \<in> set (Run_trace 100 ((1095, Woken) # [(1097, ReapTick)] @ [(1100, FloorTick)])
      \<lparr>run_lastCycle = Some 1090, run_wakePending = False\<rparr>)"
  by (rule wake_is_served) (simp add: quiet_def)

text \<open>
  The floor does not separate wake-driven cycles: it ticks on its own period, so a wakeup served at once
  can be followed by one served at the next tick. With an interval of 100 here two cycles are 10 apart.
\<close>

theorem wake_cycles_closer_than_interval:
  "Run_trace 100 [(1090, Woken), (1095, Woken), (1100, FloorTick)] \<lparr>run_lastCycle = None, run_wakePending = False\<rparr> =
   [(1090, Woken, CycleAction), (1095, Woken, Idle), (1100, FloorTick, CycleAction)]"
  by code_simp

end
