(* ===== verification/Outbox_Runs.thy ===== *)
theory Outbox_Runs
  imports Outbox_Drain Outbox_Outcomes
begin

text \<open>
  What holds in every run of writers, relays and operators over one outbox table: per-key order, one
  leased message per key, nothing lost, and the bytes that reach the broker. A run of two relays shows
  that the theorems have content, and a third one where an enqueue commits late shows why the order
  needs its hypothesis.
\<close>

section \<open>A run of two relays\<close>

text \<open>Two messages of one key; one claim publishes the first and retires it, another publishes the second.\<close>

definition duo_cfg :: RelayConfig where
  "duo_cfg = \<lparr>rc_ClaimMode = ClaimLease, rc_MaxAttempts = 3, rc_BatchSize = 10, rc_PollInterval = Second,
     rc_LeaseDuration = 30 * Second, rc_Retention = 3600 * Second, rc_QuarantineRetention = 3600 * Second,
     rc_ReapInterval = 300 * Second, rc_ReapBatchSize = 100, rc_MinWakeInterval = Second\<rparr>"

definition duo_row :: "string \<Rightarrow> time \<Rightarrow> outbox_row" where
  "duo_row i at = InsertOutboxMessage i ''orders'' ''order-7'' ''{}'' at"

definition duo_message :: "string \<Rightarrow> string \<Rightarrow> int \<Rightarrow> claimedMessage" where
  "duo_message tok i att = \<lparr>cm_id = i, cm_topic = ''orders'', cm_key = ''order-7'', cm_claimToken = tok,
     cm_payload = ''{}'', cm_attempts = att\<rparr>"

definition duo_start :: outbox_system where
  "duo_start = \<lparr>os_table = [], os_enqueued = [], os_claims = Map.empty, os_tokens = {}, os_sent = [], os_given_up = {}\<rparr>"

definition duo_enqueued :: outbox_system where
  "duo_enqueued = duo_start\<lparr>os_table := [duo_row ''a'' 1, duo_row ''b'' 2],
     os_enqueued := [duo_row ''a'' 1, duo_row ''b'' 2]\<rparr>"

definition duo_leased :: outbox_system where
  "duo_leased = duo_enqueued\<lparr>
     os_table := [ob_leased_row (5 + 30 * Second) ''x'' (duo_row ''a'' 1), duo_row ''b'' 2],
     os_claims := [''x'' \<mapsto> Publishing [duo_message ''x'' ''a'' 1] []], os_tokens := {''x''}\<rparr>"

definition duo_marked :: outbox_system where
  "duo_marked = duo_leased\<lparr>
     os_table := [published_row 6 (ob_leased_row (5 + 30 * Second) ''x'' (duo_row ''a'' 1)), duo_row ''b'' 2],
     os_claims := Map.empty, os_sent := [duo_message ''x'' ''a'' 1]\<rparr>"

definition duo_end :: outbox_system where
  "duo_end = duo_marked\<lparr>
     os_table := [published_row 6 (ob_leased_row (5 + 30 * Second) ''x'' (duo_row ''a'' 1)),
                  ob_leased_row (7 + 30 * Second) ''y'' (duo_row ''b'' 2)],
     os_claims := [''y'' \<mapsto> Publishing [] [''b'']], os_tokens := {''x'', ''y''},
     os_sent := [duo_message ''x'' ''a'' 1, duo_message ''y'' ''b'' 1]\<rparr>"

lemmas duo_defs = duo_start_def duo_enqueued_def duo_leased_def duo_marked_def duo_end_def duo_row_def
  duo_message_def InsertOutboxMessage_def row_writes

section \<open>Steps of the example runs\<close>

lemma os_reach:
  "reach I (outbox_step cfg ordered) s \<Longrightarrow> outbox_step cfg ordered s s' \<Longrightarrow>
   reach I (outbox_step cfg ordered) s'"
  by (rule reach_step)

lemma enqueue_reach:
  assumes "reach I (outbox_step cfg ordered) s" "i \<notin> ob_id ` enq s"
    and "ordered \<longrightarrow> in_publish_order (os_enqueued s) (InsertOutboxMessage i topic key payload at)"
    and "r = InsertOutboxMessage i topic key payload at"
  shows "reach I (outbox_step cfg ordered) (s\<lparr>os_table := os_table s @ [r], os_enqueued := os_enqueued s @ [r]\<rparr>)"
  by (rule os_reach [OF assms(1)], rule outbox_step.os_enqueue [OF assms(4,2)]) (use assms(3,4) in simp)

lemma claim_reach:
  assumes "reach I (outbox_step cfg ordered) s" "tok \<notin> os_tokens s"
    and "ids = selectClaimable cfg locked now (os_table s)" "lease_batch cfg tok now ids (os_table s) = (msgs, t')"
  shows "reach I (outbox_step cfg ordered)
           (s\<lparr>os_tokens := insert tok (os_tokens s), os_table := t', os_claims := (os_claims s)(tok \<mapsto> Publishing msgs [])\<rparr>)"
proof -
  let ?s1 = "s\<lparr>os_claims := (os_claims s)(tok \<mapsto> Selecting now []), os_tokens := insert tok (os_tokens s)\<rparr>"
  let ?s2 = "?s1\<lparr>os_claims := (os_claims ?s1)(tok \<mapsto> Selecting now ([] @ ids))\<rparr>"
  let ?s3 = "?s2\<lparr>os_table := t', os_claims := (os_claims ?s2)(tok \<mapsto> Publishing msgs [])\<rparr>"
  have 1: "outbox_step cfg ordered s ?s1" by (rule outbox_step.os_begin [OF assms(2)])
  have 2: "outbox_step cfg ordered ?s1 ?s2"
    by (rule outbox_step.os_page) (simp, simp add: assms(3) selectClaimable_selectable)
  have 3: "outbox_step cfg ordered ?s2 ?s3" using assms(4) by (intro outbox_step.os_lease [of _ _ now ids]) simp_all
  have "reach I (outbox_step cfg ordered) ?s3" by (rule os_reach [OF os_reach [OF os_reach [OF assms(1) 1] 2] 3])
  then show ?thesis by simp
qed

lemma accept_reach:
  assumes "reach I (outbox_step cfg ordered) s" "os_claims s tok = Some (Publishing (m # ms) ds)"
  shows "reach I (outbox_step cfg ordered)
           (s\<lparr>os_sent := os_sent s @ [m], os_claims := (os_claims s)(tok \<mapsto> Publishing ms (ds @ [cm_id m]))\<rparr>)"
  by (rule os_reach [OF assms(1)], rule outbox_step.os_accepted [OF assms(2)])

lemma mark_reach:
  assumes "reach I (outbox_step cfg ordered) s" "os_claims s tok = Some (Publishing [] ds)"
  shows "reach I (outbox_step cfg ordered)
           (s\<lparr>os_table := snd (MarkOutboxMessagesPublished at tok ds (os_table s)), os_claims := (os_claims s)(tok := None)\<rparr>)"
  by (rule os_reach [OF assms(1)], rule outbox_step.os_mark [OF assms(2)])

lemma reach_rtranclp: "reach (\<lambda>x. x = s) step s' \<Longrightarrow> step\<^sup>*\<^sup>* s s'"
  by (induction rule: reach.induct) auto

lemma duo_reach_enqueued: "reach outbox_init (outbox_step cfg ordered) duo_enqueued"
proof -
  have 0: "reach outbox_init (outbox_step cfg ordered) duo_start"
    by (rule reach_init) (simp add: outbox_init_def duo_start_def)
  have 1: "reach outbox_init (outbox_step cfg ordered)
      (duo_start\<lparr>os_table := os_table duo_start @ [duo_row ''a'' 1], os_enqueued := os_enqueued duo_start @ [duo_row ''a'' 1]\<rparr>)"
    by (rule enqueue_reach [OF 0 _ _ duo_row_def]) (simp_all add: duo_start_def in_publish_order_def)
  show ?thesis
    using enqueue_reach [OF 1 _ _ duo_row_def [of "''b''" 2]]
    by (simp add: duo_start_def duo_enqueued_def in_publish_order_def duo_row_def InsertOutboxMessage_def earlier_def)
qed

lemma duo_lease:
  "selectClaimable duo_cfg (\<lambda>_. False) 5 (os_table duo_enqueued) = [''a'']"
  "lease_batch duo_cfg ''x'' 5 [''a''] (os_table duo_enqueued) = ([duo_message ''x'' ''a'' 1], os_table duo_leased)"
  "selectClaimable duo_cfg (\<lambda>_. False) 7 (os_table duo_marked) = [''b'']"
  "lease_batch duo_cfg ''y'' 7 [''b''] (os_table duo_marked) = ([duo_message ''y'' ''b'' 1], os_table duo_end)"
  by code_simp+

lemma duo_reach_leased: "reach outbox_init (outbox_step duo_cfg ordered) duo_leased"
  using claim_reach [OF duo_reach_enqueued _ duo_lease(1) [symmetric] duo_lease(2)]
  by (simp add: duo_leased_def duo_enqueued_def duo_start_def)

lemma duo_reach_marked: "reach outbox_init (outbox_step duo_cfg ordered) duo_marked"
proof -
  let ?s = "duo_leased\<lparr>os_sent := [duo_message ''x'' ''a'' 1], os_claims := [''x'' \<mapsto> Publishing [] [''a'']]\<rparr>"
  have c: "os_claims duo_leased ''x'' = Some (Publishing [duo_message ''x'' ''a'' 1] [])" by (simp add: duo_leased_def)
  have 1: "reach outbox_init (outbox_step duo_cfg ordered) ?s"
    using accept_reach [OF duo_reach_leased c] by (simp add: duo_leased_def duo_message_def duo_enqueued_def duo_start_def)
  have t: "snd (MarkOutboxMessagesPublished 6 ''x'' [''a''] (os_table duo_leased)) = os_table duo_marked" by code_simp
  show ?thesis
    using mark_reach [OF 1, of "''x''" "[''a'']" 6] t
    by (simp add: duo_marked_def duo_leased_def duo_enqueued_def duo_start_def)
qed

lemma duo_reach_end: "reach outbox_init (outbox_step duo_cfg ordered) duo_end"
proof -
  let ?s = "duo_marked\<lparr>os_table := os_table duo_end, os_claims := [''y'' \<mapsto> Publishing [duo_message ''y'' ''b'' 1] []], os_tokens := {''y'', ''x''}\<rparr>"
  have 1: "reach outbox_init (outbox_step duo_cfg ordered) ?s"
    using claim_reach [OF duo_reach_marked _ duo_lease(3) [symmetric] duo_lease(4)]
    by (simp add: duo_marked_def duo_leased_def duo_enqueued_def duo_start_def)
  show ?thesis
    using accept_reach [OF 1, of "''y''"]
    by (simp add: duo_end_def duo_marked_def duo_leased_def duo_enqueued_def duo_start_def duo_message_def insert_commute)
qed

section \<open>Order\<close>

lemma per_key_order_rule:
  assumes "reach outbox_init (outbox_step cfg True) s" "n < length (os_sent s)"
    and "q \<in> set (os_enqueued s)" "ob_id q = cm_id (os_sent s ! n)" "ob_partition_key q \<noteq> []"
    and "e \<in> set (os_enqueued s)" "ob_partition_key e = ob_partition_key q" "earlier e q"
  shows "ob_id e \<in> os_given_up s \<or> ob_id e \<in> cm_id ` set (take n (os_sent s))"
  using ordered_outbox.reach_inv [OF assms(1)] assms(2-) unfolding order_inv_def log_ok_def by blast

text \<open>
  C3: Per-key order across the whole fleet. Where the writers commit a key's messages in publish order
  and nothing is released from the quarantine, every call that reaches the broker for a keyed message
  comes after a call for every earlier message of its key, except those the fleet has given up on. It
  holds for any number of relays, in either claim mode, for stale selections, lapsed leases, crashes
  and publishes whose answer was lost.
\<close>

theorem per_key_order:
  assumes "reach outbox_init (outbox_step cfg True) s" "n < length (os_sent s)"
    and "q \<in> set (os_enqueued s)" "ob_id q = cm_id (os_sent s ! n)" "ob_partition_key q \<noteq> []"
    and "e \<in> set (os_enqueued s)" "ob_partition_key e = ob_partition_key q" "earlier e q"
  shows "ob_id e \<in> os_given_up s \<or> ob_id e \<in> cm_id ` set (take n (os_sent s))"
  by (rule per_key_order_rule [OF assms])

theorem per_key_order_witness:
  "reach outbox_init (outbox_step duo_cfg True) duo_end \<and> cm_id (os_sent duo_end ! 1) = ''b'' \<and>
   (''a'' \<in> os_given_up duo_end \<or> ''a'' \<in> cm_id ` set (take 1 (os_sent duo_end)))"
  using per_key_order [OF duo_reach_end, of 1 "duo_row ''b'' 2" "duo_row ''a'' 1"] duo_reach_end [of True]
  by (simp add: duo_defs earlier_def)

text \<open>
  In the same runs at most one message of a key is leased at a time: while one is, no other message
  of its key carries a claim.
\<close>

theorem one_lease_per_key:
  assumes "reach outbox_init (outbox_step cfg True) s"
    and "r \<in> set (os_table s)" "ob_claimed_by r = Some tok" "ob_partition_key r \<noteq> []"
    and "q \<in> set (os_table s)" "ob_partition_key q = ob_partition_key r" "q \<noteq> r"
  shows "ob_claimed_by q = None"
proof (rule ccontr)
  assume q: "ob_claimed_by q \<noteq> None"
  have o: "order_inv s" by (rule ordered_outbox.reach_inv [OF assms(1)])
  then have inv: "outbox_inv s" by (simp add: order_inv_def)
  have free: "\<not> earlier x y"
    if xy: "x \<in> set (os_table s)" "ob_claimed_by x \<noteq> None" "y \<in> set (os_table s)" "ob_claimed_by y \<noteq> None"
      "ob_partition_key x = ob_partition_key y" "ob_partition_key y \<noteq> []" for x y
  proof -
    have rk: "row_ok (enq s) (os_tokens s) (sent_ids s) (os_given_up s) z" if "z \<in> set (os_table s)" for z
      using inv that by (simp add: outbox_inv_def table_ok_def)
    have p: "ob_pending x" using rk [OF xy(1)] xy(2) by (auto simp: row_ok_def)
    have "ob_id y \<in> in_play s" using xy(3,4) by (auto simp: in_play_def)
    then have c: "clear (enq s) (os_table s) (ob_id y)" using o by (simp add: order_inv_def)
    obtain e where e: "e \<in> enq s" "envelope y = envelope e" using rk [OF xy(3)] by (auto simp: row_ok_def)
    then have "\<not> earlier x e" using c p xy unfolding clear_def by (metis envelope_ob)
    then show ?thesis using earlier_envelope [OF refl e(2), of x] by simp
  qed
  have "ob_id q \<noteq> ob_id r"
    using inv assms(2,5,7) inj_onD [of ob_id "set (os_table s)" q r] by (auto simp: outbox_inv_def table_ok_def distinct_map)
  then show False using earlier_total [of q r] free [of q r] free [of r q] assms q by auto
qed

theorem one_lease_per_key_witness:
  "ob_claimed_by (os_table duo_leased ! 0) = Some ''x'' \<and> ob_claimed_by (os_table duo_leased ! 1) = None"
  using one_lease_per_key [OF duo_reach_leased, of "os_table duo_leased ! 0" "''x''" "os_table duo_leased ! 1"]
  by (simp add: duo_defs)


section \<open>Nothing is lost, nothing is altered\<close>

text \<open>
  C11: At-least-once delivery, in every run of any number of writers, relays and operators: an enqueued
  message is still waiting in the table, or it has reached the broker, or the fleet gave up on it after
  a failed publish; and a row is only ever retired as published once its message has reached the broker.
\<close>

theorem no_message_lost:
  assumes "reach outbox_init (outbox_step cfg ordered) s"
  shows "(\<forall>e \<in> set (os_enqueued s).
            (\<exists>r \<in> set (os_table s). ob_id r = ob_id e \<and> ob_pending r) \<or>
            ob_id e \<in> cm_id ` set (os_sent s) \<or> ob_id e \<in> os_given_up s) \<and>
         (\<forall>r \<in> set (os_table s). ob_published_at r \<noteq> None \<longrightarrow> ob_id r \<in> cm_id ` set (os_sent s))"
  using outbox.reach_inv [OF assms] by (simp add: outbox_inv_def accounted_def table_ok_def row_ok_def)

theorem no_message_lost_witness:
  "reach outbox_init (outbox_step duo_cfg False) duo_marked \<and>
   ((\<exists>r \<in> set (os_table duo_marked). ob_id r = ''b'' \<and> ob_pending r) \<or>
    ''b'' \<in> cm_id ` set (os_sent duo_marked) \<or> ''b'' \<in> os_given_up duo_marked)"
proof -
  have b: "duo_row ''b'' 2 \<in> set (os_enqueued duo_marked)" "ob_id (duo_row ''b'' 2) = ''b''" by (simp_all add: duo_defs)
  show ?thesis
    using bspec [OF conjunct1 [OF no_message_lost [OF duo_reach_marked [of False]]] b(1), unfolded b(2)]
      duo_reach_marked [of False] by (intro conjI)
qed

text \<open>
  What reaches the broker is what was enqueued: every call carries the topic and the bytes of the
  payload that some enqueue stored under that id.
\<close>

theorem broker_gets_enqueued_bytes:
  assumes "reach outbox_init (outbox_step cfg ordered) s" "m \<in> set (os_sent s)"
  shows "\<exists>e \<in> set (os_enqueued s). ob_id e = cm_id m \<and> ob_topic e = cm_topic m \<and> ob_payload e = cm_payload m"
  using outbox.reach_inv [OF assms(1)] assms(2) unfolding outbox_inv_def carries_def by metis

theorem broker_gets_enqueued_bytes_witness:
  "\<exists>e \<in> set (os_enqueued duo_end). ob_id e = ''b'' \<and> ob_topic e = ''orders'' \<and> ob_payload e = ''{}''"
  using broker_gets_enqueued_bytes [OF duo_reach_end, of "duo_message ''y'' ''b'' 1"]
  by (simp add: duo_end_def duo_message_def)

section \<open>Cycles\<close>

lemma reach_steps:
  "(outbox_step cfg ordered)\<^sup>*\<^sup>* s s' \<Longrightarrow> reach outbox_init (outbox_step cfg ordered) s \<Longrightarrow>
   reach outbox_init (outbox_step cfg ordered) s'"
  by (induction rule: rtranclp_induct) (auto intro: os_reach)

text \<open>
  C18: A relay's cycle, with every error branch of its claim, its publishes and its outcome writes, is a
  run of the system under a fresh claim name: what it does to the table and what it sends is covered by
  the theorems about runs.
\<close>

theorem cycle_refines_run:
  assumes "reach outbox_init (outbox_step cfg ordered) s" "in_step st s" "minted_token env (rl_calls st) \<notin> os_tokens s"
  shows "\<exists>s'. reach outbox_init (outbox_step cfg ordered) s' \<and> os_table s' = rl_table (Relay_cycle env cfg st) \<and>
              os_sent s' = rl_sent (Relay_cycle env cfg st) \<and> os_enqueued s' = os_enqueued s"
  using cycle_run [OF assms(2,3), of cfg ordered] reach_steps assms(1) unfolding in_step_def by blast

theorem cycle_refines_run_witness:
  "\<exists>s'. reach outbox_init (outbox_step duo_cfg True) s' \<and>
        os_table s' = rl_table (Relay_cycle plain_env duo_cfg (state_of (os_table duo_enqueued))) \<and>
        map cm_id (os_sent s') = [''a'']"
proof -
  let ?st = "state_of (os_table duo_enqueued)"
  have i: "in_step ?st duo_enqueued" by (simp add: in_step_def state_of_def duo_enqueued_def duo_start_def)
  have t: "minted_token plain_env (rl_calls ?st) \<notin> os_tokens duo_enqueued" by (simp add: duo_enqueued_def duo_start_def)
  have "map cm_id (rl_sent (Relay_cycle plain_env duo_cfg ?st)) = [''a'']" by code_simp
  then show ?thesis using cycle_refines_run [OF duo_reach_enqueued [of duo_cfg True] i t] by metis
qed

text \<open>
  C19: A healthy relay drains the outbox: when the database and the broker answer, nothing is locked and
  every waiting message is due, as many cycles as there are waiting messages leave none waiting and have
  sent every one of them, whatever their keys and whatever the batch size.
\<close>

theorem healthy_relay_drains:
  assumes "healthy env" "1 \<le> rc_BatchSize cfg" "\<And>n. T \<le> clock_reading env n"
    and "all_due T (rl_table st)" "length (filter ob_pending (rl_table st)) \<le> n"
  shows "filter ob_pending (rl_table ((Relay_cycle env cfg ^^ n) st)) = [] \<and>
         (\<forall>r \<in> set (rl_table st). ob_pending r \<longrightarrow> ob_id r \<in> cm_id ` set (rl_sent ((Relay_cycle env cfg ^^ n) st)))"
  using drained [OF assms] by blast

theorem healthy_relay_drains_witness:
  "filter ob_pending (rl_table ((Relay_cycle plain_env plain_cfg ^^ 2) (state_of [waiting ''a'' ''k'' 1, waiting ''b'' ''k'' 2]))) = []"
proof -
  let ?st = "state_of [waiting ''a'' ''k'' 1, waiting ''b'' ''k'' 2]"
  have h: "healthy plain_env" by (simp add: healthy_def plain_env_def)
  have b: "1 \<le> rc_BatchSize plain_cfg" by (simp add: plain_cfg_def)
  have t: "100 \<le> clock_reading plain_env n" for n by (simp add: plain_env_def)
  have d: "all_due 100 (rl_table ?st)" by (simp add: all_due_def outcome_examples claimableRowState_def)
  have "length (filter ob_pending (rl_table ?st)) \<le> 2" by (simp add: outcome_examples)
  then show ?thesis using healthy_relay_drains [OF h b t d] by blast
qed

end
