(* ===== verification/Saga_Store.thy ===== *)
theory Saga_Store
  imports Prelude
begin

text \<open>
  The saga instance table and its store: \<^verbatim>\<open>saga/saga.go\<close> (the data), \<^verbatim>\<open>saga/rows.go\<close>,
  \<^verbatim>\<open>saga/sqlstore.go\<close>, \<^verbatim>\<open>saga/retention.go\<close> and the statements of
  \<^verbatim>\<open>saga/internal/queries/queries.go\<close>.

  The table is a list of rows. A stored step list that no longer parses is \<open>None\<close>; an empty state is
  stored as \<^verbatim>\<open>NULL\<close>. Each store method is a function of the table; \<open>locked\<close> names the rows another
  transaction holds. The lemmas give the effect of each statement on the row it names and on every
  other row.
\<close>

section \<open>Statuses\<close>

text \<open>A status is a string in Go; one this package does not write is \<open>OtherStatus\<close>, the empty one included.\<close>

datatype Status =
    StatusRunning | StatusCompleted | StatusCompensating | StatusCompensated | StatusStuck
  | OtherStatus string

abbreviation no_status :: Status where
  "no_status \<equiv> OtherStatus []"

fun Terminal :: "Status \<Rightarrow> bool" where
  "Terminal StatusCompleted = True"
| "Terminal StatusCompensated = True"
| "Terminal StatusStuck = True"
| "Terminal _ = False"

fun Valid :: "Status \<Rightarrow> bool" where
  "Valid (OtherStatus _) = False"
| "Valid _ = True"

definition activeStatuses :: "Status list" where
  "activeStatuses = [StatusRunning, StatusCompensating]"

definition allStatuses :: "Status list" where
  "allStatuses = [StatusRunning, StatusCompleted, StatusCompensating, StatusCompensated, StatusStuck]"

section \<open>Records and rows\<close>

text \<open>\<^verbatim>\<open>Record\<close> is \<^verbatim>\<open>Instance[json.RawMessage]\<close>: the instance with its state left encoded.\<close>

record 's Instance =
  inst_ID :: string
  inst_Definition :: string
  inst_Status :: Status
  inst_ResumeStatus :: Status
  inst_StepNames :: "string list"
  inst_CurrentStep :: int
  inst_Attempts :: int
  inst_LastError :: string
  inst_State :: 's
  inst_CreatedAt :: time
  inst_LastUpdatedAt :: "time option"

type_synonym Record = "string Instance"

record saga_row =
  row_id :: string
  row_definition :: string
  row_status :: Status
  row_current_step :: int
  row_step_names :: "string list option"
  row_state :: "string option"
  row_attempts :: int
  row_last_error :: string
  row_resume_status :: Status
  row_created_at :: time
  row_last_updated_at :: "time option"
  row_archived_at :: "time option"
  row_next_attempt :: time
  row_claimed_until :: "time option"

type_synonym saga_table = "saga_row list"

interpretation instances: keyed_table row_id .

datatype saga_error =
    ErrInstanceNotFound | ErrUnknownDefinition | ErrDuplicateDefinition | ErrInvalidDefinition
  | ErrStateTypeMismatch | ErrDefinitionDrift | ErrNotResumable | ErrUnretirableStatus
  | ErrDialectUnsupported | ErrEmptyInputParameter | ErrDecodingStepNames | ErrDecodingState | ErrEncodingState
  | SagaDriverError string | PublishError string | IndexOutOfRange

definition stateOrNil :: "string \<Rightarrow> string option" where
  "stateOrNil st = (if st = [] then None else Some st)"

definition recordFromRow :: "saga_row \<Rightarrow> saga_error + Record" where
  "recordFromRow r =
     (case row_step_names r of
        None \<Rightarrow> Inl ErrDecodingStepNames
      | Some names \<Rightarrow>
          Inr \<lparr>inst_ID = row_id r, inst_Definition = row_definition r, inst_Status = row_status r,
               inst_ResumeStatus = row_resume_status r, inst_StepNames = names,
               inst_CurrentStep = row_current_step r, inst_Attempts = row_attempts r,
               inst_LastError = row_last_error r,
               inst_State = (case row_state r of None \<Rightarrow> [] | Some s \<Rightarrow> s),
               inst_CreatedAt = row_created_at r, inst_LastUpdatedAt = row_last_updated_at r\<rparr>)"

definition insertParams :: "Record \<Rightarrow> time \<Rightarrow> saga_row" where
  "insertParams inst nextAttempt =
     \<lparr>row_id = inst_ID inst, row_definition = inst_Definition inst, row_status = inst_Status inst,
      row_current_step = inst_CurrentStep inst, row_step_names = Some (inst_StepNames inst),
      row_state = stateOrNil (inst_State inst), row_attempts = inst_Attempts inst,
      row_last_error = inst_LastError inst, row_resume_status = inst_ResumeStatus inst,
      row_created_at = inst_CreatedAt inst, row_last_updated_at = None, row_archived_at = None,
      row_next_attempt = nextAttempt, row_claimed_until = None\<rparr>"

section \<open>Statements\<close>

definition activeStatusGuard :: "saga_row \<Rightarrow> bool" where
  "activeStatusGuard r \<longleftrightarrow> row_status r \<in> set activeStatuses"

definition idPredicate :: "string \<Rightarrow> saga_row \<Rightarrow> bool" where
  "idPredicate i r \<longleftrightarrow> row_id r = i"

definition claimOrder :: "saga_row \<Rightarrow> time \<times> time \<times> string" where
  "claimOrder r = (row_next_attempt r, row_created_at r, row_id r)"

definition claimable_row :: "time \<Rightarrow> saga_row \<Rightarrow> bool" where
  "claimable_row now r \<longleftrightarrow>
     activeStatusGuard r \<and> row_next_attempt r \<le> now \<and>
     (case row_claimed_until r of None \<Rightarrow> True | Some u \<Rightarrow> u \<le> now)"

definition ClaimableSagaInstanceIDs :: "time \<Rightarrow> int \<Rightarrow> (string \<Rightarrow> bool) \<Rightarrow> saga_table \<Rightarrow> string list" where
  "ClaimableSagaInstanceIDs now limit locked t =
     map row_id (sql_top limit claimOrder (\<lambda>r. claimable_row now r \<and> \<not> locked (row_id r)) t)"

definition ClaimSagaInstances :: "time \<Rightarrow> time \<Rightarrow> string list \<Rightarrow> saga_table \<Rightarrow> saga_table" where
  "ClaimSagaInstances lease stamp ids t =
     sql_update (\<lambda>r. activeStatusGuard r \<and> row_id r \<in> set ids)
       (\<lambda>r. r\<lparr>row_claimed_until := Some lease, row_last_updated_at := Some stamp,
              row_attempts := row_attempts r + 1\<rparr>) t"

definition ListSagaInstancesByIDs :: "string list \<Rightarrow> saga_table \<Rightarrow> saga_row list" where
  "ListSagaInstancesByIDs ids t =
     sort_key claimOrder (filter (\<lambda>r. activeStatusGuard r \<and> row_id r \<in> set ids) t)"

text \<open>The advance's assignments, with or without dropping the lease.\<close>

definition advanced_row :: "Record \<Rightarrow> time \<Rightarrow> time \<Rightarrow> bool \<Rightarrow> saga_row \<Rightarrow> saga_row" where
  "advanced_row inst nextAttempt at clear r =
     r\<lparr>row_status := inst_Status inst, row_current_step := inst_CurrentStep inst,
       row_state := stateOrNil (inst_State inst), row_last_error := inst_LastError inst,
       row_resume_status := inst_ResumeStatus inst, row_next_attempt := nextAttempt,
       row_last_updated_at := Some at, row_attempts := 0,
       row_claimed_until := (if clear then None else row_claimed_until r)\<rparr>"

definition RescheduleSagaInstance :: "int \<Rightarrow> time \<Rightarrow> string \<Rightarrow> time \<Rightarrow> saga_row \<Rightarrow> saga_row" where
  "RescheduleSagaInstance att nextAttempt lastErr at r =
     r\<lparr>row_attempts := att, row_next_attempt := nextAttempt, row_last_error := lastErr,
       row_last_updated_at := Some at, row_claimed_until := None\<rparr>"

definition ReleaseSagaInstance :: "time \<Rightarrow> saga_row \<Rightarrow> saga_row" where
  "ReleaseSagaInstance at r = r\<lparr>row_claimed_until := None, row_last_updated_at := Some at\<rparr>"

definition RequeueSagaInstance :: "Status \<Rightarrow> time \<Rightarrow> saga_row \<Rightarrow> saga_row" where
  "RequeueSagaInstance to at r =
     r\<lparr>row_status := to, row_next_attempt := at, row_last_updated_at := Some at,
       row_resume_status := no_status, row_attempts := 0, row_claimed_until := None\<rparr>"

definition retiredMatches :: "Status \<Rightarrow> time \<Rightarrow> saga_row \<Rightarrow> bool" where
  "retiredMatches status before r \<longleftrightarrow>
     row_status r = status \<and> (case row_last_updated_at r of None \<Rightarrow> False | Some u \<Rightarrow> u \<le> before)"

section \<open>The store\<close>

text \<open>A guarded write that matched no row is an instance that was not found.\<close>

definition guarded_update ::
  "(saga_row \<Rightarrow> bool) \<Rightarrow> (saga_row \<Rightarrow> saga_row) \<Rightarrow> saga_table \<Rightarrow> saga_error + saga_table" where
  "guarded_update p f t = (if sql_count p t = 0 then Inl ErrInstanceNotFound else Inr (sql_update p f t))"

definition Store_Save :: "Record \<Rightarrow> time \<Rightarrow> saga_table \<Rightarrow> saga_error + saga_table" where
  "Store_Save inst nextAttempt t =
     (if inst_ID inst \<in> row_id ` set t then Inl (SagaDriverError ''duplicate key'')
      else Inr (t @ [insertParams inst nextAttempt]))"

definition Store_Get :: "string \<Rightarrow> saga_table \<Rightarrow> saga_error + Record" where
  "Store_Get i t =
     (case find (\<lambda>r. row_archived_at r = None \<and> row_id r = i) t of
        None \<Rightarrow> Inl ErrInstanceNotFound
      | Some r \<Rightarrow> recordFromRow r)"

definition Store_Claim ::
  "time \<Rightarrow> int \<Rightarrow> time \<Rightarrow> (string \<Rightarrow> bool) \<Rightarrow> saga_table \<Rightarrow> (saga_error + Record list) \<times> saga_table" where
  "Store_Claim now limit leaseUntil locked t =
     (if limit \<le> 0 then (Inr [], t)
      else (let ids = ClaimableSagaInstanceIDs now limit locked t in
            if ids = [] then (Inr [], t)
            else (let t' = ClaimSagaInstances leaseUntil now ids t in
                  (case try_map recordFromRow (ListSagaInstancesByIDs ids t') of
                     Inl e \<Rightarrow> (Inl e, t)
                   | Inr claimed \<Rightarrow> (Inr claimed, t')))))"

definition Store_Advance :: "Record \<Rightarrow> time \<Rightarrow> time \<Rightarrow> saga_table \<Rightarrow> saga_error + saga_table" where
  "Store_Advance inst nextAttempt at t =
     guarded_update (\<lambda>r. idPredicate (inst_ID inst) r \<and> activeStatusGuard r)
       (advanced_row inst nextAttempt at (Terminal (inst_Status inst) \<or> at < nextAttempt)) t"

definition Store_Reschedule :: "string \<Rightarrow> int \<Rightarrow> time \<Rightarrow> string \<Rightarrow> time \<Rightarrow> saga_table \<Rightarrow> saga_error + saga_table" where
  "Store_Reschedule i att nextAttempt lastErr at t =
     guarded_update (\<lambda>r. idPredicate i r \<and> activeStatusGuard r) (RescheduleSagaInstance att nextAttempt lastErr at) t"

definition Store_Release :: "string \<Rightarrow> time \<Rightarrow> saga_table \<Rightarrow> saga_table" where
  "Store_Release i at t = sql_update (idPredicate i) (ReleaseSagaInstance at) t"

definition Store_Requeue ::
  "string \<Rightarrow> Status list \<Rightarrow> Status \<Rightarrow> time \<Rightarrow> saga_table \<Rightarrow> (saga_error + Record) \<times> saga_table" where
  "Store_Requeue i from to at t =
     (if from = [] then (Inl ErrEmptyInputParameter, t)
      else (case guarded_update (\<lambda>r. idPredicate i r \<and> row_status r \<in> set from) (RequeueSagaInstance to at) t of
              Inl e \<Rightarrow> (Inl e, t)
            | Inr t' \<Rightarrow> (Store_Get i t', t')))"

text \<open>The listing's status narrowing as the five values the statements bind.\<close>

definition statusFilterValues :: "Status list option \<Rightarrow> Status list" where
  "statusFilterValues scope =
     (case scope of
        None \<Rightarrow> allStatuses
      | Some sts \<Rightarrow>
          if sts = [] then allStatuses
          else (let wanted = filter (\<lambda>s. s \<in> set sts) allStatuses in
                map (\<lambda>i. if wanted = [] then no_status else wanted ! min i (length wanted - 1)) [0..<5]))"

section \<open>Retention\<close>

text \<open>\<open>dialectValid\<close> and \<open>prefixErr\<close> are what the dialect's and the prefix's own validation answer.\<close>

definition RetentionTarget_Validate :: "bool \<Rightarrow> saga_error option \<Rightarrow> Status \<Rightarrow> saga_error + unit" where
  "RetentionTarget_Validate dialectValid prefixErr status =
     (if \<not> dialectValid then Inl ErrDialectUnsupported
      else (case prefixErr of
              Some e \<Rightarrow> Inl e
            | None \<Rightarrow> if status = StatusCompleted \<or> status = StatusCompensated then Inr () else Inl ErrUnretirableStatus))"

text \<open>
  The sweep's limit is positive. Rows another transaction has locked are skipped where the server can
  do so.
\<close>

definition Sweep :: "Status \<Rightarrow> time \<Rightarrow> int \<Rightarrow> (string \<Rightarrow> bool) \<Rightarrow> saga_table \<Rightarrow> int \<times> saga_table" where
  "Sweep status cutoff limit locked t =
     (let doomed = sql_top limit (\<lambda>r. (case row_last_updated_at r of None \<Rightarrow> 0 | Some u \<Rightarrow> u, row_id r))
                     (\<lambda>r. retiredMatches status cutoff r \<and> \<not> locked (row_id r)) t
      in (int (length doomed), sql_delete (\<lambda>r. row_id r \<in> set (map row_id doomed)) t))"

definition Backlog :: "Status \<Rightarrow> time \<Rightarrow> int \<Rightarrow> saga_table \<Rightarrow> int" where
  "Backlog status cutoff ceiling t = min (max 0 ceiling) (sql_count (retiredMatches status cutoff) t)"

text \<open>\<^verbatim>\<open>StuckDepth\<close>: the count that rides on the first row of the stuck listing, zero when there is none.\<close>

definition StuckDepth :: "saga_table \<Rightarrow> int" where
  "StuckDepth t =
     min (2 ^ 63 - 1)
       (sql_count (\<lambda>r. row_archived_at r = None \<and> row_status r \<in> set (statusFilterValues (Some [StatusStuck]))) t)"

end
