(* ===== verification/Saga_Registry.thy ===== *)
theory Saga_Registry
  imports Saga_Store
begin

text \<open>
  The definitions a process can run: \<^verbatim>\<open>saga/registry.go\<close>. A step's functions are application code and
  are parameters; a call of one is told which execution it is, so that a step may fail once and
  succeed later. The character class of step names (\<^verbatim>\<open>charset.VisibleASCII\<close>) and the codec of the state type are parameters as well. Registration erases the state
  type: a bound definition works on encoded states only.
\<close>

section \<open>Steps and definitions\<close>

record step_err =
  err_text :: string
  err_unretryable :: bool

datatype 'a fn_result = FnReturned 'a | FnFailed step_err | FnPanicked string

record 't Step =
  step_Name :: string
  step_Do :: "(nat \<Rightarrow> 't \<Rightarrow> 't fn_result) option"
  step_Undo :: "(nat \<Rightarrow> 't \<Rightarrow> 't fn_result) option"
  step_Delay :: duration

record 't Definition =
  definition_Name :: string
  definition_Steps :: "'t Step list"

record 't codec =
  unmarshal :: "string \<Rightarrow> string + 't"
  marshal :: "'t \<Rightarrow> string + string"
  zero_value :: 't
  type_name :: string

text \<open>A bound definition, the state type erased.\<close>

record bound_definition =
  def_name :: string
  def_stateType :: string
  def_stepNames :: "string list"
  def_delays :: "duration list"
  def_compensates :: "bool list"
  def_do :: "nat \<Rightarrow> nat \<Rightarrow> string \<Rightarrow> string fn_result"
  def_undo :: "nat \<Rightarrow> nat \<Rightarrow> string \<Rightarrow> string fn_result"

definition steps :: "bound_definition \<Rightarrow> nat" where
  "steps d = length (def_stepNames d)"

section \<open>Validation\<close>

definition maxStepNameLength :: nat where
  "maxStepNameLength = 64"

text \<open>The character class of another module, \<open>visible\<close>, less this package's separator.\<close>

definition validStepName :: "(char \<Rightarrow> bool) \<Rightarrow> string \<Rightarrow> bool" where
  "validStepName visible name \<longleftrightarrow>
     length name \<le> maxStepNameLength \<and> list_all (\<lambda>c. visible c \<and> c \<noteq> CHR '':'') name"

fun validateSteps :: "(char \<Rightarrow> bool) \<Rightarrow> 't Step list \<Rightarrow> string list \<Rightarrow> bool" where
  "validateSteps visible [] seen = True"
| "validateSteps visible (s # ss) seen \<longleftrightarrow>
     step_Name s \<noteq> [] \<and> validStepName visible (step_Name s) \<and> step_Do s \<noteq> None \<and> 0 \<le> step_Delay s \<and>
     step_Name s \<notin> set seen \<and> validateSteps visible ss (step_Name s # seen)"

definition validateDefinition :: "(char \<Rightarrow> bool) \<Rightarrow> 't Definition \<Rightarrow> saga_error + unit" where
  "validateDefinition visible d =
     (if definition_Name d = [] then Inl ErrInvalidDefinition
      else if definition_Steps d = [] then Inl ErrInvalidDefinition
      else if \<not> validateSteps visible (definition_Steps d) [] then Inl ErrInvalidDefinition
      else Inr ())"

section \<open>Registration\<close>

definition applyStep :: "'t codec \<Rightarrow> ('t \<Rightarrow> 't fn_result) \<Rightarrow> string \<Rightarrow> string fn_result" where
  "applyStep c fn state =
     (case (if state = [] then Inr (zero_value c) else unmarshal c state) of
        Inl msg \<Rightarrow> FnFailed \<lparr>err_text = ''decoding saga state: '' @ msg, err_unretryable = False\<rparr>
      | Inr value \<Rightarrow>
          (case fn value of
             FnReturned value' \<Rightarrow>
               (case marshal c value' of
                  Inl msg \<Rightarrow> FnFailed \<lparr>err_text = ''encoding saga state: '' @ msg, err_unretryable = False\<rparr>
                | Inr encoded \<Rightarrow> FnReturned encoded)
           | FnFailed e \<Rightarrow> FnFailed e
           | FnPanicked v \<Rightarrow> FnPanicked v))"

type_synonym Registry = "string \<Rightarrow> bound_definition option"

definition bind_definition :: "'t codec \<Rightarrow> 't Definition \<Rightarrow> bound_definition" where
  "bind_definition c d =
     (let ss = definition_Steps d in
      \<lparr>def_name = definition_Name d, def_stateType = type_name c, def_stepNames = map step_Name ss,
       def_delays = map step_Delay ss, def_compensates = map (\<lambda>s. step_Undo s \<noteq> None) ss,
       def_do = (\<lambda>n i state. case step_Do (ss ! i) of
                    None \<Rightarrow> FnPanicked ''nil step function''
                  | Some fn \<Rightarrow> applyStep c (fn n) state),
       def_undo = (\<lambda>n i state. case step_Undo (ss ! i) of
                    None \<Rightarrow> FnPanicked ''nil step function''
                  | Some fn \<Rightarrow> applyStep c (fn n) state)\<rparr>)"

definition Register :: "(char \<Rightarrow> bool) \<Rightarrow> 't codec \<Rightarrow> 't Definition \<Rightarrow> Registry \<Rightarrow> (saga_error + unit) \<times> Registry" where
  "Register visible c d reg =
     (case validateDefinition visible d of
        Inl e \<Rightarrow> (Inl e, reg)
      | Inr _ \<Rightarrow>
          if reg (definition_Name d) \<noteq> None then (Inl ErrDuplicateDefinition, reg)
          else (Inr (), reg(definition_Name d \<mapsto> bind_definition c d)))"

definition lookup :: "Registry \<Rightarrow> string \<Rightarrow> bound_definition option" where
  "lookup reg name = reg name"

definition StepNames :: "Registry \<Rightarrow> string \<Rightarrow> string list option" where
  "StepNames reg name = map_option def_stepNames (lookup reg name)"

section \<open>What registration guarantees\<close>

definition wf_definition :: "(char \<Rightarrow> bool) \<Rightarrow> bound_definition \<Rightarrow> bool" where
  "wf_definition visible d \<longleftrightarrow>
     0 < steps d \<and> length (def_delays d) = steps d \<and> length (def_compensates d) = steps d \<and>
     distinct (def_stepNames d) \<and> list_all (\<lambda>s. s \<noteq> [] \<and> validStepName visible s) (def_stepNames d) \<and> list_all (\<lambda>x. 0 \<le> x) (def_delays d)"

definition wf_registry :: "(char \<Rightarrow> bool) \<Rightarrow> Registry \<Rightarrow> bool" where
  "wf_registry visible reg \<longleftrightarrow> (\<forall>name d. reg name = Some d \<longrightarrow> wf_definition visible d \<and> def_name d = name \<and> name \<noteq> [])"

lemma validateSteps_ok:
  "validateSteps visible ss seen \<Longrightarrow>
   distinct (map step_Name ss) \<and> set (map step_Name ss) \<inter> set seen = {} \<and>
   list_all (\<lambda>s. s \<noteq> [] \<and> validStepName visible s) (map step_Name ss) \<and> list_all (\<lambda>x. 0 \<le> x) (map step_Delay ss) \<and>
   list_all (\<lambda>s. step_Do s \<noteq> None) ss"
proof (induction ss arbitrary: seen)
  case (Cons a ss)
  from Cons.prems Cons.IH [of "step_Name a # seen"] show ?case by auto
qed simp

lemma bind_definition_wf:
  assumes "validateDefinition visible d = Inr ()"
  shows "wf_definition visible (bind_definition c d)" "def_name (bind_definition c d) = definition_Name d"
  using assms validateSteps_ok [of visible "definition_Steps d" "[]"]
  by (auto simp: validateDefinition_def wf_definition_def bind_definition_def steps_def Let_def split: if_splits)


definition demo_step :: "string \<Rightarrow> nat Step" where
  "demo_step n = \<lparr>step_Name = n, step_Do = Some (\<lambda>_ s. FnReturned (Suc s)), step_Undo = Some (\<lambda>_ s. FnReturned (s - 1)),
     step_Delay = 0\<rparr>"

definition demo_definition :: "nat Definition" where
  "demo_definition = \<lparr>definition_Name = ''order'', definition_Steps = [demo_step ''charge'', demo_step ''ship'']\<rparr>"

text \<open>A unary codec.\<close>

definition demo_codec :: "nat codec" where
  "demo_codec = \<lparr>unmarshal = (\<lambda>s. Inr (length s - 1)), marshal = (\<lambda>n. Inr (replicate (Suc n) CHR ''1'')),
     zero_value = 0, type_name = ''nat''\<rparr>"

definition demo_visible :: "char \<Rightarrow> bool" where
  "demo_visible c \<longleftrightarrow> 33 \<le> (of_char c :: nat) \<and> (of_char c :: nat) \<le> 126"


end
