(* ===== verification/Saga_Worker.thy ===== *)
theory Saga_Worker
  imports Saga_Registry
begin

text \<open>
  The worker that advances saga instances: \<^verbatim>\<open>saga/worker.go\<close>, \<^verbatim>\<open>saga/events.go\<close> and
  \<^verbatim>\<open>saga/config.go\<close>.

  The world is the table, the committed lifecycle events and the log of step executions, with
  counters that say how many clock readings and how many outside units of work there have been. The
  environment answers for them: the clock at each reading; what each unit of database work, each
  lock attempt and each idempotent call came to; the backoff schedule and the rendering of errors,
  which belong to other modules. The in-memory instance a Go method mutates is passed and returned.
\<close>

section \<open>Configuration\<close>

datatype phase = PhaseDo | PhaseUndo

fun phase_text :: "phase \<Rightarrow> string" where
  "phase_text PhaseDo = ''do''"
| "phase_text PhaseUndo = ''undo''"

record backoff =
  MaxAttempts :: nat

record WorkerConfig =
  wc_LockKeyPrefix :: string
  wc_IdempotencyKeyPrefix :: string
  wc_Backoff :: backoff
  wc_CompensationBackoff :: backoff
  wc_PollInterval :: duration
  wc_StatsInterval :: duration
  wc_LeaseDuration :: duration
  wc_LockTTL :: duration
  wc_AdvanceTimeout :: duration
  wc_StepTimeout :: duration
  wc_BatchSize :: int
  wc_Concurrency :: int

definition DefaultPollInterval :: duration where "DefaultPollInterval = Second"
definition DefaultBatchSize :: int where "DefaultBatchSize = 10"
definition DefaultConcurrency :: int where "DefaultConcurrency = 4"
definition DefaultStepTimeout :: duration where "DefaultStepTimeout = 30 * Second"
definition DefaultAdvanceTimeout :: duration where "DefaultAdvanceTimeout = 120 * Second"
definition DefaultLeaseDuration :: duration where "DefaultLeaseDuration = 300 * Second"
definition DefaultStatsInterval :: duration where "DefaultStatsInterval = 60 * Second"
definition DefaultLockTTL :: duration where "DefaultLockTTL = 300 * Second"
definition DefaultLockKeyPrefix :: string where "DefaultLockKeyPrefix = ''saga:instance:''"
definition DefaultIdempotencyKeyPrefix :: string where "DefaultIdempotencyKeyPrefix = ''saga:''"
definition DefaultCompensationAttempts :: nat where "DefaultCompensationAttempts = 10"

text \<open>\<open>backoffDefaults\<close> is the retry module's \<^verbatim>\<open>EnsureDefaults\<close>.\<close>

definition WorkerConfig_EnsureDefaults :: "(backoff \<Rightarrow> backoff) \<Rightarrow> WorkerConfig \<Rightarrow> WorkerConfig" where
  "WorkerConfig_EnsureDefaults backoffDefaults cfg =
     (let pos = (\<lambda>v d. if v \<le> 0 then d else v) :: int \<Rightarrow> int \<Rightarrow> int;
          cb = wc_CompensationBackoff cfg in
      \<lparr>wc_LockKeyPrefix = (if wc_LockKeyPrefix cfg = [] then DefaultLockKeyPrefix else wc_LockKeyPrefix cfg),
       wc_IdempotencyKeyPrefix = (if wc_IdempotencyKeyPrefix cfg = [] then DefaultIdempotencyKeyPrefix
                                  else wc_IdempotencyKeyPrefix cfg),
       wc_Backoff = backoffDefaults (wc_Backoff cfg),
       wc_CompensationBackoff =
         backoffDefaults (if MaxAttempts cb = 0 then cb\<lparr>MaxAttempts := DefaultCompensationAttempts\<rparr> else cb),
       wc_PollInterval = pos (wc_PollInterval cfg) DefaultPollInterval,
       wc_StatsInterval = pos (wc_StatsInterval cfg) DefaultStatsInterval,
       wc_LeaseDuration = pos (wc_LeaseDuration cfg) DefaultLeaseDuration,
       wc_LockTTL = pos (wc_LockTTL cfg) DefaultLockTTL,
       wc_AdvanceTimeout = pos (wc_AdvanceTimeout cfg) DefaultAdvanceTimeout,
       wc_StepTimeout = pos (wc_StepTimeout cfg) DefaultStepTimeout,
       wc_BatchSize = pos (wc_BatchSize cfg) DefaultBatchSize,
       wc_Concurrency = pos (wc_Concurrency cfg) DefaultConcurrency\<rparr>)"

text \<open>A \<^verbatim>\<open>time.Duration\<close> is 64 bits wide and its addition wraps.\<close>

definition int64 :: "int \<Rightarrow> int" where
  "int64 n = (n + 2 ^ 63) mod 2 ^ 64 - 2 ^ 63"

definition WorkerConfig_Validate :: "(backoff \<Rightarrow> bool) \<Rightarrow> WorkerConfig \<Rightarrow> bool" where
  "WorkerConfig_Validate backoffValid cfg \<longleftrightarrow>
     wc_PollInterval cfg \<noteq> 0 \<and> wc_StatsInterval cfg \<noteq> 0 \<and> 1 \<le> wc_BatchSize cfg \<and> 1 \<le> wc_Concurrency cfg \<and>
     wc_StepTimeout cfg \<noteq> 0 \<and> wc_AdvanceTimeout cfg \<noteq> 0 \<and> wc_StepTimeout cfg \<le> wc_AdvanceTimeout cfg \<and>
     wc_LeaseDuration cfg \<noteq> 0 \<and> int64 (wc_AdvanceTimeout cfg + wc_StepTimeout cfg) < wc_LeaseDuration cfg \<and>
     wc_LockTTL cfg \<noteq> 0 \<and> int64 (wc_AdvanceTimeout cfg + wc_StepTimeout cfg) < wc_LockTTL cfg \<and>
     wc_LockKeyPrefix cfg \<noteq> [] \<and> wc_IdempotencyKeyPrefix cfg \<noteq> [] \<and>
     backoffValid (wc_Backoff cfg) \<and> backoffValid (wc_CompensationBackoff cfg)"

definition budgetFor :: "WorkerConfig \<Rightarrow> phase \<Rightarrow> backoff" where
  "budgetFor cfg ph = (if ph = PhaseUndo then wc_CompensationBackoff cfg else wc_Backoff cfg)"

section \<open>Events\<close>

datatype EventType =
    EventStarted | EventStepCompleted | EventCompleted | EventCompensating | EventStepCompensated
  | EventCompensated | EventStuck

record Event =
  ev_OccurredAt :: time
  ev_InstanceID :: string
  ev_Definition :: string
  ev_Step :: string
  ev_Error :: string
  ev_Type :: EventType
  ev_Status :: Status
  ev_StepIndex :: int

definition newEvent :: "EventType \<Rightarrow> Record \<Rightarrow> string \<Rightarrow> int \<Rightarrow> time \<Rightarrow> string \<Rightarrow> Event" where
  "newEvent t inst step stepIndex at cause =
     \<lparr>ev_OccurredAt = at, ev_InstanceID = inst_ID inst, ev_Definition = inst_Definition inst, ev_Step = step,
      ev_Error = cause, ev_Type = t, ev_Status = inst_Status inst, ev_StepIndex = stepIndex\<rparr>"

section \<open>World and environment\<close>

record saga_world =
  rows :: saga_table
  events :: "Event list"
  runs :: "(string \<times> phase \<times> int) list"
  ticks :: nat
  units :: nat

text \<open>
  What an idempotency manager can answer (a recorded result, that the function ran with an error of the
  manager's own after it or none, a refusal), and what a distributed lock can.
\<close>

datatype idem_decision = IdemReplay "string option" | IdemRun "step_err option" | IdemRefuse step_err

datatype lock_outcome = LockAcquired | LockContended | LockFailed

datatype failure =
    StepFailure string string | StepPanicked string string | UnknownDefinitionFailure string
  | DriftFailure string "string list" "string list" | UnknownStatusFailure Status
  | CursorOutside int nat string | CompensationFailure string string

record saga_env =
  clock_at :: "nat \<Rightarrow> time"
  db_fault :: "nat \<Rightarrow> saga_error option"
  publisher :: "(nat \<Rightarrow> saga_error option) option"
  idempotency :: "(nat \<Rightarrow> string \<Rightarrow> string \<Rightarrow> idem_decision) option"
  lock_answer :: "nat \<Rightarrow> lock_outcome"
  delayFor :: "backoff \<Rightarrow> int \<Rightarrow> duration"
  render :: "failure \<Rightarrow> string"
  truncateErr :: "string \<Rightarrow> string"

definition Now :: "saga_env \<Rightarrow> saga_world \<Rightarrow> time \<times> saga_world" where
  "Now env w = (clock_at env (ticks w), w\<lparr>ticks := Suc (ticks w)\<rparr>)"

definition next_unit :: "saga_world \<Rightarrow> saga_world" where
  "next_unit w = w\<lparr>units := Suc (units w)\<rparr>"

text \<open>One write of the store outside the worker's own transaction.\<close>

definition db_write ::
  "saga_env \<Rightarrow> (saga_table \<Rightarrow> saga_error + saga_table) \<Rightarrow> saga_world \<Rightarrow> (saga_error + unit) \<times> saga_world" where
  "db_write env f w =
     (case db_fault env (units w) of
        Some e \<Rightarrow> (Inl e, next_unit w)
      | None \<Rightarrow>
          (case f (rows w) of
             Inl e \<Rightarrow> (Inl e, next_unit w)
           | Inr t \<Rightarrow> (Inr (), (next_unit w)\<lparr>rows := t\<rparr>)))"

section \<open>Executing a step\<close>

definition stepKey :: "WorkerConfig \<Rightarrow> string \<Rightarrow> phase \<Rightarrow> string \<Rightarrow> string" where
  "stepKey cfg instanceID ph step =
     wc_IdempotencyKeyPrefix cfg @ instanceID @ '':'' @ phase_text ph @ '':'' @ step"

definition stepFingerprint :: "Record \<Rightarrow> phase \<Rightarrow> string \<Rightarrow> string" where
  "stepFingerprint inst ph step = inst_Definition inst @ '':'' @ phase_text ph @ '':'' @ step"

text \<open>The application's code, contained: a panic is a failure that may be retried.\<close>

definition run_step ::
  "saga_env \<Rightarrow> bound_definition \<Rightarrow> Record \<Rightarrow> nat \<Rightarrow> phase \<Rightarrow> saga_world \<Rightarrow> (step_err + string) \<times> saga_world" where
  "run_step env def inst idx ph w =
     (let name = def_stepNames def ! idx;
          apply_fn = (if ph = PhaseUndo then def_undo def else def_do def);
          w' = w\<lparr>runs := runs w @ [(inst_ID inst, ph, int idx)]\<rparr> in
      case apply_fn (length (runs w)) idx (inst_State inst) of
        FnReturned st \<Rightarrow> (Inr st, w')
      | FnFailed e \<Rightarrow> (Inl (e\<lparr>err_text := render env (StepFailure name (err_text e))\<rparr>), w')
      | FnPanicked v \<Rightarrow> (Inl \<lparr>err_text = render env (StepPanicked name v), err_unretryable = False\<rparr>, w'))"

definition execute ::
  "saga_env \<Rightarrow> WorkerConfig \<Rightarrow> bound_definition \<Rightarrow> Record \<Rightarrow> nat \<Rightarrow> phase \<Rightarrow> saga_world
    \<Rightarrow> (step_err + string) \<times> saga_world" where
  "execute env cfg def inst idx ph w =
     (case idempotency env of
        None \<Rightarrow> run_step env def inst idx ph w
      | Some manager \<Rightarrow>
          (let name = def_stepNames def ! idx in
           case manager (units w) (stepKey cfg (inst_ID inst) ph name) (stepFingerprint inst ph name) of
             IdemRefuse e \<Rightarrow> (Inl (e\<lparr>err_text := render env (StepFailure name (err_text e))\<rparr>), next_unit w)
           | IdemReplay None \<Rightarrow> (Inr (inst_State inst), next_unit w)
           | IdemReplay (Some st) \<Rightarrow> (Inr st, next_unit w)
           | IdemRun failed \<Rightarrow>
               (case run_step env def inst idx ph (next_unit w) of
                  (Inl e, w') \<Rightarrow> (Inl e, w')
                | (Inr st, w') \<Rightarrow>
                    (case failed of
                       None \<Rightarrow> (Inr st, w')
                     | Some e \<Rightarrow> (Inl (e\<lparr>err_text := render env (StepFailure name (err_text e))\<rparr>), w')))))"

definition exhausted :: "WorkerConfig \<Rightarrow> step_err \<Rightarrow> int \<Rightarrow> phase \<Rightarrow> bool" where
  "exhausted cfg cause atts ph \<longleftrightarrow> err_unretryable cause \<or> MaxAttempts (budgetFor cfg ph) \<le> nat atts"

section \<open>Recording progress\<close>

text \<open>Events go to the publisher if there is one.\<close>

definition publish ::
  "(nat \<Rightarrow> saga_error option) option \<Rightarrow> nat \<Rightarrow> Event list \<Rightarrow> Event list \<Rightarrow> saga_error + Event list" where
  "publish pub n evs log =
     (case pub of
        None \<Rightarrow> Inr log
      | Some send \<Rightarrow> if evs = [] then Inr log else (case send n of Some e \<Rightarrow> Inl e | None \<Rightarrow> Inr (log @ evs)))"

text \<open>\<^verbatim>\<open>persist\<close>: the advance and its events, in one transaction.\<close>

definition persist ::
  "saga_env \<Rightarrow> Record \<Rightarrow> time \<Rightarrow> Event list \<Rightarrow> saga_world \<Rightarrow> (saga_error + unit) \<times> Record \<times> saga_world" where
  "persist env inst0 nextAttempt evs w0 =
     (let (now, w) = Now env w0;
          inst = inst0\<lparr>inst_LastUpdatedAt := Some now\<rparr>;
          w' = next_unit w in
      case db_fault env (units w) of
        Some e \<Rightarrow> (Inl e, inst, w')
      | None \<Rightarrow>
          (case Store_Advance inst nextAttempt now (rows w) of
             Inl e \<Rightarrow> (Inl e, inst, w')
           | Inr t \<Rightarrow>
               (case publish (publisher env) (units w) evs (events w) of
                  Inl e \<Rightarrow> (Inl e, inst, w')
                | Inr log \<Rightarrow> (Inr (), inst, w'\<lparr>rows := t, events := log\<rparr>))))"

text \<open>A method that reports whether the pass carries on.\<close>

type_synonym step_result = "(saga_error + bool) \<times> Record \<times> saga_world"

definition then_more :: "bool \<Rightarrow> (saga_error + unit) \<times> Record \<times> saga_world \<Rightarrow> step_result" where
  "then_more carry_on r = (case fst r of Inl e \<Rightarrow> (Inl e, snd r) | Inr _ \<Rightarrow> (Inr carry_on, snd r))"

definition markStuck :: "saga_env \<Rightarrow> Record \<Rightarrow> failure \<Rightarrow> saga_world \<Rightarrow> step_result" where
  "markStuck env inst0 cause w0 =
     (let (now, w) = Now env w0;
          inst = inst0\<lparr>inst_ResumeStatus := inst_Status inst0, inst_Status := StatusStuck,
                       inst_LastError := truncateErr env (render env cause)\<rparr> in
      then_more False
        (persist env inst now [newEvent EventStuck inst [] (inst_CurrentStep inst) now (inst_LastError inst)] w))"

definition reschedule ::
  "saga_env \<Rightarrow> WorkerConfig \<Rightarrow> Record \<Rightarrow> int \<Rightarrow> phase \<Rightarrow> step_err \<Rightarrow> saga_world \<Rightarrow> step_result" where
  "reschedule env cfg inst0 atts ph cause w0 =
     (let inst = inst0\<lparr>inst_Attempts := atts\<rparr>;
          (now, w1) = Now env w0;
          nextAttempt = now + delayFor env (budgetFor cfg ph) atts;
          (at, w2) = Now env w1;
          (r, w3) = db_write env (Store_Reschedule (inst_ID inst) atts nextAttempt
                                    (truncateErr env (err_text cause)) at) w2 in
      then_more False (r, inst, w3))"

section \<open>Going forward\<close>

definition finishRunning :: "saga_env \<Rightarrow> Record \<Rightarrow> bound_definition \<Rightarrow> int \<Rightarrow> saga_world \<Rightarrow> step_result" where
  "finishRunning env inst def idx w0 =
     (let (now, w) = Now env w0;
          name = (if idx < int (steps def) then def_stepNames def ! nat idx else []);
          completed = newEvent EventCompleted inst [] (inst_CurrentStep inst) now [];
          evs = (if name = [] then [completed]
                 else [newEvent EventStepCompleted inst name idx now [], completed]) in
      then_more False (persist env inst now evs w))"

definition failForward ::
  "saga_env \<Rightarrow> WorkerConfig \<Rightarrow> bound_definition \<Rightarrow> Record \<Rightarrow> nat \<Rightarrow> step_err \<Rightarrow> saga_world \<Rightarrow> step_result" where
  "failForward env cfg def inst0 idx cause w0 =
     (let name = def_stepNames def ! idx; atts = max (inst_Attempts inst0) 1 in
      if \<not> exhausted cfg cause atts PhaseDo then reschedule env cfg inst0 atts PhaseDo cause w0
      else (let (now, w) = Now env w0;
                inst = inst0\<lparr>inst_Status := StatusCompensating, inst_CurrentStep := int idx,
                             inst_LastError := truncateErr env (err_text cause), inst_Attempts := 0\<rparr> in
            then_more True
              (persist env inst now
                 [newEvent EventCompensating inst name (int idx) now (inst_LastError inst)] w)))"

definition runStep ::
  "saga_env \<Rightarrow> WorkerConfig \<Rightarrow> bound_definition \<Rightarrow> Record \<Rightarrow> saga_world \<Rightarrow> step_result" where
  "runStep env cfg def inst0 w0 =
     (let idx = inst_CurrentStep inst0 in
      if int (steps def) \<le> idx
      then finishRunning env (inst0\<lparr>inst_Status := StatusCompleted\<rparr>) def idx w0
      else if idx < 0 then (Inl IndexOutOfRange, inst0, w0)
      else (case execute env cfg def inst0 (nat idx) PhaseDo w0 of
              (Inl cause, w1) \<Rightarrow> failForward env cfg def inst0 (nat idx) cause w1
            | (Inr state, w1) \<Rightarrow>
                (let name = def_stepNames def ! nat idx;
                     inst = inst0\<lparr>inst_State := state, inst_CurrentStep := idx + 1, inst_LastError := [],
                                  inst_Attempts := 0\<rparr> in
                 if int (steps def) \<le> inst_CurrentStep inst
                 then finishRunning env (inst\<lparr>inst_Status := StatusCompleted\<rparr>) def idx w1
                 else (let delay = def_delays def ! nat (inst_CurrentStep inst);
                           (now, w2) = Now env w1 in
                       then_more (delay = 0)
                         (persist env inst (now + delay)
                            [newEvent EventStepCompleted inst name idx now []] w2)))))"

section \<open>Going back\<close>

definition finishCompensating :: "saga_env \<Rightarrow> Record \<Rightarrow> string \<Rightarrow> int \<Rightarrow> saga_world \<Rightarrow> step_result" where
  "finishCompensating env inst0 name idx w0 =
     (let (now, w) = Now env w0;
          inst = inst0\<lparr>inst_Status := StatusCompensated\<rparr>;
          undone = (if name = [] then [] else [newEvent EventStepCompensated inst name idx now []]) in
      then_more False
        (persist env inst now
           (undone @ [newEvent EventCompensated inst [] (inst_CurrentStep inst) now (inst_LastError inst)]) w))"

definition compensateStep ::
  "saga_env \<Rightarrow> WorkerConfig \<Rightarrow> bound_definition \<Rightarrow> Record \<Rightarrow> saga_world \<Rightarrow> step_result" where
  "compensateStep env cfg def inst0 w0 =
     (let idx = inst_CurrentStep inst0 in
      if idx < 0 then finishCompensating env inst0 [] idx w0
      else if int (steps def) \<le> idx
      then markStuck env inst0 (CursorOutside idx (steps def) (def_name def)) w0
      else (let name = def_stepNames def ! nat idx in
        if \<not> def_compensates def ! nat idx
        then (let inst = inst0\<lparr>inst_CurrentStep := idx - 1, inst_Attempts := 0\<rparr> in
              if inst_CurrentStep inst < 0 then finishCompensating env inst [] (inst_CurrentStep inst) w0
              else (let (now, w) = Now env w0 in then_more True (persist env inst now [] w)))
        else (case execute env cfg def inst0 (nat idx) PhaseUndo w0 of
                (Inl cause, w1) \<Rightarrow>
                  (let atts = max (inst_Attempts inst0) 1 in
                   if \<not> exhausted cfg cause atts PhaseUndo then reschedule env cfg inst0 atts PhaseUndo cause w1
                   else markStuck env inst0 (CompensationFailure name (err_text cause)) w1)
              | (Inr state, w1) \<Rightarrow>
                  (let inst = inst0\<lparr>inst_State := state, inst_CurrentStep := idx - 1, inst_Attempts := 0\<rparr> in
                   if inst_CurrentStep inst < 0 then finishCompensating env inst name idx w1
                   else (let (now, w2) = Now env w1 in
                         then_more True
                           (persist env inst now [newEvent EventStepCompensated inst name idx now []] w2))))))"

definition step :: "saga_env \<Rightarrow> WorkerConfig \<Rightarrow> bound_definition \<Rightarrow> Record \<Rightarrow> saga_world \<Rightarrow> step_result" where
  "step env cfg def inst w =
     (case inst_Status inst of
        StatusRunning \<Rightarrow> runStep env cfg def inst w
      | StatusCompensating \<Rightarrow> compensateStep env cfg def inst w
      | OtherStatus s \<Rightarrow> markStuck env inst (UnknownStatusFailure (OtherStatus s)) w
      | _ \<Rightarrow> (Inr False, inst, w))"

section \<open>The pass\<close>

text \<open>
  How much further a pass can carry an instance: forward to the last step, then back over all of
  them. Every step that asks to carry on lowers it, which is why the loop ends.
\<close>

definition rank :: "bound_definition \<Rightarrow> Record \<Rightarrow> nat" where
  "rank def inst =
     (case inst_Status inst of
        StatusRunning \<Rightarrow> nat (2 * int (steps def) + 3 - inst_CurrentStep inst)
      | StatusCompensating \<Rightarrow> nat (inst_CurrentStep inst + 1)
      | _ \<Rightarrow> 0)"

lemma persist_inst: "fst (snd (persist env inst nxt evs w)) = inst\<lparr>inst_LastUpdatedAt := Some (fst (Now env w))\<rparr>"
  by (simp add: persist_def case_prod_beta Let_def split: option.split sum.split)

lemma then_more_True: "then_more c r = (Inr True, inst', w') \<Longrightarrow> c \<and> (\<exists>u. r = (Inr u, inst', w'))"
  by (cases r) (auto simp: then_more_def split: sum.splits)

lemma then_more_persist:
  assumes "then_more c (persist env inst nxt evs w) = (Inr True, inst', w')"
  shows "c \<and> (\<exists>t. inst' = inst\<lparr>inst_LastUpdatedAt := t\<rparr>)"
  using then_more_True [OF assms] persist_inst [of env inst nxt evs w] by auto

lemma no_more: "then_more False r \<noteq> (Inr True, inst', w')"
  by (auto dest: then_more_True)

lemmas no_more_defs = finishRunning_def finishCompensating_def markStuck_def reschedule_def Let_def case_prod_beta

lemma no_more_ends [simp]:
  "finishRunning env inst def idx w \<noteq> (Inr True, inst', w')"
  "finishCompensating env inst name idx w \<noteq> (Inr True, inst', w')"
  "markStuck env inst cause w \<noteq> (Inr True, inst', w')"
  "reschedule env cfg inst atts ph err w \<noteq> (Inr True, inst', w')"
  by (simp_all add: no_more_defs no_more)

lemma step_rank:
  assumes "step env cfg def inst w = (Inr True, inst', w')"
  shows "rank def inst' < rank def inst"
proof (cases "inst_Status inst")
  case StatusRunning
  with assms have "runStep env cfg def inst w = (Inr True, inst', w')" by (simp add: step_def)
  then show ?thesis using StatusRunning
    by (auto simp: runStep_def failForward_def Let_def case_prod_beta rank_def
        split: if_splits sum.splits prod.splits dest!: then_more_persist)
next
  case StatusCompensating
  with assms have "compensateStep env cfg def inst w = (Inr True, inst', w')" by (simp add: step_def)
  then show ?thesis using StatusCompensating
    by (auto simp: compensateStep_def Let_def case_prod_beta rank_def
        split: if_splits sum.splits prod.splits dest!: then_more_persist)
qed (use assms in \<open>simp_all add: step_def\<close>)

function drive_loop ::
  "saga_env \<Rightarrow> WorkerConfig \<Rightarrow> bound_definition \<Rightarrow> time \<Rightarrow> Record \<Rightarrow> saga_world
    \<Rightarrow> (saga_error + unit) \<times> Record \<times> saga_world" where
  "drive_loop env cfg def deadline inst w =
     (if Terminal (inst_Status inst) then (Inr (), inst, w)
      else (let (now, w1) = Now env w in
        if \<not> now < deadline
        then (let (at, w2) = Now env w1;
                  (r, w3) = db_write env (\<lambda>t. Inr (Store_Release (inst_ID inst) at t)) w2 in (r, inst, w3))
        else (case step env cfg def inst w1 of
                (Inl e, inst', w') \<Rightarrow> (Inl e, inst', w')
              | (Inr go_on, inst', w') \<Rightarrow>
                  if go_on then drive_loop env cfg def deadline inst' w' else (Inr (), inst', w'))))"
  by pat_completeness auto

termination
  by (relation "measure (\<lambda>(env, cfg, def, deadline, inst, w). rank def inst)") (auto dest: step_rank [OF sym])

declare drive_loop.simps [simp del]

definition drive ::
  "saga_env \<Rightarrow> WorkerConfig \<Rightarrow> Registry \<Rightarrow> Record \<Rightarrow> saga_world \<Rightarrow> (saga_error + unit) \<times> Record \<times> saga_world" where
  "drive env cfg reg inst w =
     (let unit_of = (\<lambda>r :: step_result. (case fst r of Inl e \<Rightarrow> Inl e | Inr _ \<Rightarrow> Inr (), snd r)) in
      case lookup reg (inst_Definition inst) of
        None \<Rightarrow> unit_of (markStuck env inst (UnknownDefinitionFailure (inst_Definition inst)) w)
      | Some def \<Rightarrow>
          if def_stepNames def \<noteq> inst_StepNames inst
          then unit_of (markStuck env inst (DriftFailure (inst_ID inst) (inst_StepNames inst) (def_stepNames def)) w)
          else (let (now, w1) = Now env w in
                drive_loop env cfg def (now + wc_AdvanceTimeout cfg) inst w1))"

text \<open>\<^verbatim>\<open>advance\<close>: under the instance's lock; a contended lock hands the lease back.\<close>

definition release :: "saga_env \<Rightarrow> Record \<Rightarrow> saga_world \<Rightarrow> saga_world" where
  "release env inst w0 =
     (let (at, w) = Now env w0 in snd (db_write env (\<lambda>t. Inr (Store_Release (inst_ID inst) at t)) w))"

definition advance :: "saga_env \<Rightarrow> WorkerConfig \<Rightarrow> Registry \<Rightarrow> Record \<Rightarrow> saga_world \<Rightarrow> saga_world" where
  "advance env cfg reg inst w =
     (case lock_answer env (units w) of
        LockAcquired \<Rightarrow> snd (snd (drive env cfg reg inst (next_unit w)))
      | LockContended \<Rightarrow> release env inst (next_unit w)
      | LockFailed \<Rightarrow> next_unit w)"

text \<open>
  \<^verbatim>\<open>cycle\<close>: one claimed batch. The instances of a batch are different rows, each advanced under its
  own lock; the model takes them one after the other.
\<close>

definition cycle :: "saga_env \<Rightarrow> WorkerConfig \<Rightarrow> Registry \<Rightarrow> (string \<Rightarrow> bool) \<Rightarrow> saga_world \<Rightarrow> saga_world" where
  "cycle env cfg reg locked w0 =
     (let (now, w) = Now env w0; w' = next_unit w in
      case db_fault env (units w) of
        Some e \<Rightarrow> w'
      | None \<Rightarrow>
          (case Store_Claim now (wc_BatchSize cfg) (now + wc_LeaseDuration cfg) locked (rows w) of
             (Inl e, t) \<Rightarrow> w'\<lparr>rows := t\<rparr>
           | (Inr claimed, t) \<Rightarrow> fold (advance env cfg reg) claimed (w'\<lparr>rows := t\<rparr>)))"

end
