(* ===== verification/Saga_History.thy ===== *)
theory Saga_History
  imports Saga_Worker
begin

text \<open>
  What a saga does, abstractly, and that the worker does it. \<open>life\<close> is an instance as an observer of
  its row and its event stream sees it: where the cursor is and the story the events tell. \<open>move\<close> is
  the lifecycle the package promises, as an inductive relation; \<open>life_ok\<close> is its invariant, which ties
  the story to the cursor. The worker's methods are shown to make only such moves, of the one
  instance they were given.
\<close>

section \<open>The lifecycle\<close>

type_synonym story = "(EventType \<times> int) list"

record life =
  life_status :: Status
  life_cursor :: int
  life_resume :: Status
  life_story :: story

inductive move :: "int \<Rightarrow> life \<Rightarrow> life \<Rightarrow> bool" for n :: int where
  mv_do: "life_status l = StatusRunning \<Longrightarrow> life_cursor l + 1 < n \<Longrightarrow>
    move n l (l\<lparr>life_cursor := life_cursor l + 1,
                life_story := life_story l @ [(EventStepCompleted, life_cursor l)]\<rparr>)"
| mv_complete: "life_status l = StatusRunning \<Longrightarrow> life_cursor l + 1 = n \<Longrightarrow>
    move n l (l\<lparr>life_status := StatusCompleted, life_cursor := n,
                life_story := life_story l @ [(EventStepCompleted, life_cursor l), (EventCompleted, n)]\<rparr>)"
| mv_fail: "life_status l = StatusRunning \<Longrightarrow>
    move n l (l\<lparr>life_status := StatusCompensating,
                life_story := life_story l @ [(EventCompensating, life_cursor l)]\<rparr>)"
| mv_back: "life_status l = StatusCompensating \<Longrightarrow> 0 < life_cursor l \<Longrightarrow>
    undone = [] \<or> undone = [(EventStepCompensated, life_cursor l)] \<Longrightarrow>
    move n l (l\<lparr>life_cursor := life_cursor l - 1, life_story := life_story l @ undone\<rparr>)"
| mv_unwound: "life_status l = StatusCompensating \<Longrightarrow> life_cursor l = 0 \<Longrightarrow>
    undone = [] \<or> undone = [(EventStepCompensated, 0)] \<Longrightarrow>
    move n l (l\<lparr>life_status := StatusCompensated, life_cursor := -1,
                life_story := life_story l @ undone @ [(EventCompensated, -1)]\<rparr>)"
| mv_stuck: "life_status l \<in> set activeStatuses \<Longrightarrow>
    move n l (l\<lparr>life_status := StatusStuck, life_resume := life_status l\<rparr>)"
| mv_resume: "life_status l = StatusStuck \<Longrightarrow>
    move n l (l\<lparr>life_status := life_resume l, life_resume := no_status\<rparr>)"

text \<open>The story of an instance that ran the steps before \<open>k\<close>.\<close>

definition forward :: "nat \<Rightarrow> story" where
  "forward k = (EventStarted, 0) # map (\<lambda>j. (EventStepCompleted, int j)) [0..<k]"

text \<open>Of one that then failed at step \<open>k\<close> and compensated the steps \<open>js\<close>, latest first.\<close>

definition unwinding :: "nat \<Rightarrow> int list \<Rightarrow> story" where
  "unwinding k js = forward k @ (EventCompensating, int k) # map (Pair EventStepCompensated) js"

definition undone_ok :: "nat \<Rightarrow> int \<Rightarrow> int list \<Rightarrow> bool" where
  "undone_ok k c js \<longleftrightarrow> sorted_wrt (>) js \<and> (\<forall>j \<in> set js. c < j \<and> j \<le> int k)"

fun active_ok :: "int \<Rightarrow> Status \<Rightarrow> int \<Rightarrow> story \<Rightarrow> bool" where
  "active_ok n StatusRunning c s \<longleftrightarrow> 0 \<le> c \<and> c < n \<and> s = forward (nat c)"
| "active_ok n StatusCompensating c s \<longleftrightarrow>
     (\<exists>k js. int k < n \<and> 0 \<le> c \<and> c \<le> int k \<and> undone_ok k c js \<and> s = unwinding k js)"
| "active_ok n _ c s \<longleftrightarrow> False"

definition life_ok :: "int \<Rightarrow> life \<Rightarrow> bool" where
  "life_ok n l \<longleftrightarrow>
     (case life_status l of
        StatusCompleted \<Rightarrow> life_cursor l = n \<and> 0 \<le> n \<and> life_story l = forward (nat n) @ [(EventCompleted, n)]
      | StatusCompensated \<Rightarrow>
          life_cursor l = -1 \<and>
          (\<exists>k js. int k < n \<and> undone_ok k (-1) js \<and> life_story l = unwinding k js @ [(EventCompensated, -1)])
      | StatusStuck \<Rightarrow> active_ok n (life_resume l) (life_cursor l) (life_story l)
      | st \<Rightarrow> active_ok n st (life_cursor l) (life_story l))"

lemma forward_Suc: "0 \<le> c \<Longrightarrow> forward (nat (c + 1)) = forward (nat c) @ [(EventStepCompleted, c)]"
  by (simp add: forward_def nat_add_distrib)

lemma undone_back: "undone_ok k c js \<Longrightarrow> undone_ok k (c - 1) js"
  by (auto simp: undone_ok_def)

lemma undone_step: "undone_ok k c js \<Longrightarrow> c \<le> int k \<Longrightarrow> undone_ok k (c - 1) (js @ [c])"
  by (auto simp: undone_ok_def sorted_wrt_append)

lemma unwinding_step: "unwinding k js @ [(EventStepCompensated, c)] = unwinding k (js @ [c])"
  by (simp add: unwinding_def)

lemma undone_cases:
  assumes "undone_ok k c js" "c \<le> int k" "undone = [] \<or> undone = [(EventStepCompensated, c)]"
  shows "\<exists>js'. undone_ok k (c - 1) js' \<and> unwinding k js @ undone = unwinding k js'"
  using assms undone_back [of k c js] undone_step [of k c js]
  by (metis append_Nil2 unwinding_step)

lemma move_ok:
  assumes "move n l l'" "life_ok n l"
  shows "life_ok n l'"
  using assms
proof (induction rule: move.induct)
  case (mv_do l)
  then show ?case by (auto simp: life_ok_def forward_Suc)
next
  case (mv_complete l)
  then have "nat n = nat (life_cursor l + 1)" by simp
  with mv_complete show ?case by (auto simp: life_ok_def forward_Suc)
next
  case (mv_fail l)
  then have "life_story l @ [(EventCompensating, life_cursor l)] = unwinding (nat (life_cursor l)) []"
    "0 \<le> life_cursor l" "life_cursor l < n"
    by (auto simp: life_ok_def unwinding_def)
  then show ?case by (auto simp: life_ok_def undone_ok_def intro!: exI [of _ "nat (life_cursor l)"] exI [of _ "[]"])
next
  case (mv_back l undone)
  then obtain k js where 1: "int k < n" "life_cursor l \<le> int k" "undone_ok k (life_cursor l) js"
      "life_story l = unwinding k js"
    by (auto simp: life_ok_def)
  from undone_cases [OF 1(3,2) mv_back(3)] obtain js' where
    "undone_ok k (life_cursor l - 1) js'" "unwinding k js @ undone = unwinding k js'" by blast
  with 1 mv_back(1,2) show ?case
    by (auto simp: life_ok_def intro!: exI [of _ k] exI [of _ js'])
next
  case (mv_unwound l undone)
  then obtain k js where 1: "int k < n" "undone_ok k 0 js" "life_story l = unwinding k js"
    by (auto simp: life_ok_def)
  from undone_cases [OF 1(2) _ mv_unwound(3)] obtain js' where
    "undone_ok k (-1) js'" "unwinding k js @ undone = unwinding k js'" by auto
  with 1 have "int k < n \<and> undone_ok k (-1) js' \<and>
      life_story l @ undone @ [(EventCompensated, -1)] = unwinding k js' @ [(EventCompensated, -1)]" by simp
  then show ?case by (auto simp: life_ok_def)
next
  case (mv_stuck l)
  then show ?case by (auto simp: life_ok_def activeStatuses_def)
next
  case (mv_resume l)
  then show ?case by (cases "life_resume l") (auto simp: life_ok_def)
qed

lemma moves_ok: "(move n)\<^sup>*\<^sup>* l l' \<Longrightarrow> life_ok n l \<Longrightarrow> life_ok n l'"
  by (induction rule: rtranclp_induct) (auto intro: move_ok)

section \<open>An instance in the world\<close>

definition story_of :: "string \<Rightarrow> Event list \<Rightarrow> story" where
  "story_of i evs =
     map (\<lambda>e. (ev_Type e, ev_StepIndex e)) (filter (\<lambda>e. ev_InstanceID e = i \<and> ev_Type e \<noteq> EventStuck) evs)"

definition life_of :: "saga_row \<Rightarrow> Event list \<Rightarrow> life" where
  "life_of r evs = \<lparr>life_status = row_status r, life_cursor = row_current_step r,
     life_resume = row_resume_status r, life_story = story_of (row_id r) evs\<rparr>"

abbreviation instance_at :: "saga_world \<Rightarrow> string \<Rightarrow> saga_row option" where
  "instance_at w i \<equiv> row_at row_id (rows w) i"

definition saga_inv :: "saga_world \<Rightarrow> bool" where
  "saga_inv w \<longleftrightarrow>
     distinct (map row_id (rows w)) \<and>
     (\<forall>i r. instance_at w i = Some r \<longrightarrow>
        (\<exists>names. row_step_names r = Some names \<and> life_ok (int (length names)) (life_of r (events w))))"

text \<open>The world after work on instance \<open>i\<close> only: it made moves, and nothing else changed.\<close>

definition moved :: "string \<Rightarrow> saga_world \<Rightarrow> saga_world \<Rightarrow> bool" where
  "moved i w w' \<longleftrightarrow>
     map row_id (rows w') = map row_id (rows w) \<and>
     (\<forall>j. j \<noteq> i \<longrightarrow> instance_at w' j = instance_at w j) \<and>
     (\<exists>evs. events w' = events w @ evs \<and> (\<forall>e \<in> set evs. ev_InstanceID e = i)) \<and>
     (\<forall>r names. instance_at w i = Some r \<longrightarrow> row_step_names r = Some names \<longrightarrow>
        (\<exists>r'. instance_at w' i = Some r' \<and> row_step_names r' = Some names \<and>
           (move (int (length names)))\<^sup>*\<^sup>* (life_of r (events w)) (life_of r' (events w'))))"

lemma story_of_append: "story_of i (evs @ evs') = story_of i evs @ story_of i evs'"
  by (simp add: story_of_def)

lemma story_of_other: "\<forall>e \<in> set evs. ev_InstanceID e = i \<Longrightarrow> j \<noteq> i \<Longrightarrow> story_of j evs = []"
  by (auto simp: story_of_def filter_empty_conv)

lemma moved_same: "rows w' = rows w \<Longrightarrow> events w' = events w \<Longrightarrow> moved i w w'"
  by (simp add: moved_def)

lemma moved_refl [simp]: "moved i w w"
  by (simp add: moved_same)

lemma moved_trans:
  assumes "moved i w1 w2" "moved i w2 w3"
  shows "moved i w1 w3"
proof -
  obtain e1 e2 where "events w2 = events w1 @ e1" "\<forall>e \<in> set e1. ev_InstanceID e = i"
    "events w3 = events w2 @ e2" "\<forall>e \<in> set e2. ev_InstanceID e = i"
    using assms by (auto simp: moved_def)
  then have "\<exists>evs. events w3 = events w1 @ evs \<and> (\<forall>e \<in> set evs. ev_InstanceID e = i)"
    by (intro exI [of _ "e1 @ e2"]) auto
  moreover have "\<exists>r3. instance_at w3 i = Some r3 \<and> row_step_names r3 = Some names \<and>
      (move (int (length names)))\<^sup>*\<^sup>* (life_of r (events w1)) (life_of r3 (events w3))"
    if "instance_at w1 i = Some r" "row_step_names r = Some names" for r names
  proof -
    from that assms(1) obtain r2 where r2: "instance_at w2 i = Some r2" "row_step_names r2 = Some names"
      "(move (int (length names)))\<^sup>*\<^sup>* (life_of r (events w1)) (life_of r2 (events w2))"
      unfolding moved_def by blast
    with assms(2) obtain r3 where "instance_at w3 i = Some r3" "row_step_names r3 = Some names"
      "(move (int (length names)))\<^sup>*\<^sup>* (life_of r2 (events w2)) (life_of r3 (events w3))"
      unfolding moved_def by blast
    with r2(3) show ?thesis by (meson rtranclp_trans)
  qed
  ultimately show ?thesis using assms by (simp add: moved_def)
qed

lemma moved_inv:
  assumes "saga_inv w" "moved i w w'"
  shows "saga_inv w'"
proof -
  obtain evs where evs: "events w' = events w @ evs" "\<forall>e \<in> set evs. ev_InstanceID e = i"
    using assms(2) by (auto simp: moved_def)
  have "\<exists>names. row_step_names r' = Some names \<and> life_ok (int (length names)) (life_of r' (events w'))"
    if r': "instance_at w' j = Some r'" for j r'
  proof (cases "j = i")
    case False
    then have "instance_at w j = Some r'" using r' assms(2) by (simp add: moved_def)
    moreover have "row_id r' = j" using row_at_SomeD [OF r'] by simp
    moreover have "story_of j evs = []" by (rule story_of_other [OF evs(2) False])
    ultimately show ?thesis using assms(1) evs(1) by (auto simp: saga_inv_def life_of_def story_of_append)
  next
    case True
    have "map row_id (rows w') = map row_id (rows w)" using assms(2) by (simp add: moved_def)
    from row_at_None_map [OF this, of i] have "instance_at w i \<noteq> None" using r' True by simp
    then obtain r where r: "instance_at w i = Some r" by auto
    with assms(1) obtain names where n: "row_step_names r = Some names"
      "life_ok (int (length names)) (life_of r (events w))" by (auto simp: saga_inv_def)
    with r assms(2) r' True show ?thesis by (auto simp: moved_def dest: moves_ok)
  qed
  with assms show ?thesis by (simp add: saga_inv_def moved_def)
qed

lemma moved_update:
  assumes "rows w' = sql_update p f (rows w)" "events w' = events w @ evs"
    and "\<And>r. p r \<Longrightarrow> row_id r = i" "\<And>r. row_id (f r) = row_id r" "\<And>r. row_step_names (f r) = row_step_names r"
    and "\<forall>e \<in> set evs. ev_InstanceID e = i"
    and "\<And>r names. instance_at w i = Some r \<Longrightarrow> row_step_names r = Some names \<Longrightarrow>
      (move (int (length names)))\<^sup>*\<^sup>* (life_of r (events w)) (life_of (if p r then f r else r) (events w @ evs))"
  shows "moved i w w'"
proof -
  have at: "instance_at w' j = map_option (\<lambda>r. if p r then f r else r) (instance_at w j)" for j
    using assms(1,4) by (simp add: instances.at_update)
  have "instance_at w' j = instance_at w j" if "j \<noteq> i" for j
    using that assms(3) row_at_SomeD [of row_id "rows w" j] unfolding at by (cases "instance_at w j") auto
  moreover have "map row_id (rows w') = map row_id (rows w)"
    unfolding assms(1) by (rule instances.pk_update) (rule assms(4))
  moreover have "\<exists>r'. instance_at w' i = Some r' \<and> row_step_names r' = Some names \<and>
      (move (int (length names)))\<^sup>*\<^sup>* (life_of r (events w)) (life_of r' (events w'))"
    if "instance_at w i = Some r" "row_step_names r = Some names" for r names
    using assms(7) [OF that] that assms(2,5) by (simp add: at)
  ultimately show ?thesis using assms(2,6) by (auto simp: moved_def)
qed

section \<open>The worker's writes\<close>

text \<open>The in-memory instance agrees with its row.\<close>

definition synced :: "Record \<Rightarrow> saga_world \<Rightarrow> bool" where
  "synced inst w \<longleftrightarrow>
     (\<exists>r. instance_at w (inst_ID inst) = Some r \<and> row_status r = inst_Status inst \<and>
        row_current_step r = inst_CurrentStep inst \<and> row_resume_status r = inst_ResumeStatus inst \<and>
        row_step_names r = Some (inst_StepNames inst))"

lemma world_simps [simp]:
  "rows (snd (Now env w)) = rows w" "events (snd (Now env w)) = events w" "runs (snd (Now env w)) = runs w"
  "rows (next_unit w) = rows w" "events (next_unit w) = events w" "runs (next_unit w) = runs w"
  by (simp_all add: Now_def next_unit_def)

lemma synced_world: "rows w' = rows w \<Longrightarrow> synced inst w' = synced inst w"
  by (simp add: synced_def)

lemma execute_world [simp]:
  "rows (snd (execute env cfg def inst idx ph w)) = rows w"
  "events (snd (execute env cfg def inst idx ph w)) = events w"
  by (simp_all add: execute_def run_step_def Let_def split: option.split idem_decision.split fn_result.split)

definition life_of_inst :: "Record \<Rightarrow> story \<Rightarrow> life" where
  "life_of_inst inst s = \<lparr>life_status = inst_Status inst, life_cursor = inst_CurrentStep inst,
     life_resume = inst_ResumeStatus inst, life_story = s\<rparr>"

lemma life_of_synced:
  assumes "synced inst w"
  obtains r where "instance_at w (inst_ID inst) = Some r" "row_step_names r = Some (inst_StepNames inst)"
    "row_status r = inst_Status inst" "life_of r (events w) = life_of_inst inst (story_of (inst_ID inst) (events w))"
proof -
  from assms obtain r where r: "instance_at w (inst_ID inst) = Some r" "row_status r = inst_Status inst"
      "row_current_step r = inst_CurrentStep inst" "row_resume_status r = inst_ResumeStatus inst"
      "row_step_names r = Some (inst_StepNames inst)" by (auto simp: synced_def)
  moreover have "row_id r = inst_ID inst" using row_at_SomeD [OF r(1)] by simp
  ultimately show thesis by (intro that) (auto simp: life_of_def life_of_inst_def)
qed

text \<open>One transaction: both the row and the events, or neither.\<close>

definition advanced_table :: "Record \<Rightarrow> time \<Rightarrow> time \<Rightarrow> saga_table \<Rightarrow> saga_table" where
  "advanced_table inst nxt now t =
     sql_update (\<lambda>r. idPredicate (inst_ID inst) r \<and> activeStatusGuard r)
       (advanced_row inst nxt now (Terminal (inst_Status inst) \<or> now < nxt)) t"

lemma Store_Advance_Inr: "Store_Advance inst nxt now t = Inr t' \<Longrightarrow> t' = advanced_table inst nxt now t"
  by (simp add: Store_Advance_def guarded_update_def advanced_table_def split: if_splits)

lemma persist_cases:
  assumes "persist env inst nxt evs w = (res, inst', w')" "publisher env = Some pub"
  shows "inst' = inst\<lparr>inst_LastUpdatedAt := Some (clock_at env (ticks w))\<rparr> \<and>
    (res = Inr () \<and> rows w' = advanced_table inst' nxt (clock_at env (ticks w)) (rows w) \<and> events w' = events w @ evs \<or>
     isl res \<and> rows w' = rows w \<and> events w' = events w)"
proof -
  let ?now = "clock_at env (ticks w)"
  let ?inst = "inst\<lparr>inst_LastUpdatedAt := Some ?now\<rparr>"
  show ?thesis
  proof (cases "db_fault env (units w)")
    case None
    show ?thesis
    proof (cases "Store_Advance ?inst nxt ?now (rows w)")
      case (Inr t)
      then show ?thesis using assms None Store_Advance_Inr [OF Inr]
        by (auto simp: persist_def publish_def Let_def Now_def next_unit_def split: if_splits option.splits)
    qed (use assms None in \<open>auto simp: persist_def Let_def Now_def next_unit_def\<close>)
  qed (use assms in \<open>auto simp: persist_def Let_def Now_def next_unit_def\<close>)
qed

lemma persist_moved:
  assumes p: "persist env inst nxt evs w = (res, inst', w')" and pub: "publisher env = Some pb"
    and sync: "synced inst0 w" and id: "inst_ID inst = inst_ID inst0" "inst_StepNames inst = inst_StepNames inst0"
    and act: "inst_Status inst0 \<in> set activeStatuses"
    and evs: "\<forall>e \<in> set evs. ev_InstanceID e = inst_ID inst0"
    and mv: "move (int (length (inst_StepNames inst0)))
      (life_of_inst inst0 (story_of (inst_ID inst0) (events w)))
      (life_of_inst inst (story_of (inst_ID inst0) (events w) @ story_of (inst_ID inst0) evs))"
  shows "moved (inst_ID inst0) w w' \<and> (\<not> isl res \<longrightarrow> synced inst' w')"
proof (cases "isl res")
  case True
  with persist_cases [OF p pub] show ?thesis by (auto simp: moved_same)
next
  case False
  define now where "now = clock_at env (ticks w)"
  from False persist_cases [OF p pub] have committed: "inst' = inst\<lparr>inst_LastUpdatedAt := Some now\<rparr>"
    "rows w' = advanced_table inst' nxt now (rows w)" "events w' = events w @ evs" by (auto simp: now_def)
  from sync obtain r where r: "instance_at w (inst_ID inst0) = Some r" "row_step_names r = Some (inst_StepNames inst0)"
    "row_status r = inst_Status inst0" "life_of r (events w) = life_of_inst inst0 (story_of (inst_ID inst0) (events w))"
    by (rule life_of_synced)
  have rid: "row_id r = inst_ID inst0" using row_at_SomeD [OF r(1)] by simp
  let ?p = "\<lambda>r. idPredicate (inst_ID inst) r \<and> activeStatusGuard r"
  let ?f = "advanced_row inst' nxt now (Terminal (inst_Status inst) \<or> now < nxt)"
  have t: "rows w' = sql_update ?p ?f (rows w)" using committed(1,2) by (simp add: advanced_table_def)
  have pr: "?p r" using rid id r(3) act by (simp add: idPredicate_def activeStatusGuard_def)
  have life: "life_of (?f r) (events w @ evs) =
      life_of_inst inst (story_of (inst_ID inst0) (events w) @ story_of (inst_ID inst0) evs)"
    by (simp add: life_of_def life_of_inst_def advanced_row_def committed(1) story_of_append rid)
  have "moved (inst_ID inst0) w w'"
  proof (rule moved_update [OF t committed(3)])
    fix s names assume "instance_at w (inst_ID inst0) = Some s" "row_step_names s = Some names"
    with r have s: "s = r" "names = inst_StepNames inst0" by auto
    show "(move (int (length names)))\<^sup>*\<^sup>* (life_of s (events w)) (life_of (if ?p s then ?f s else s) (events w @ evs))"
      unfolding s if_P [OF pr] life r(4) using mv by (rule r_into_rtranclp)
  qed (use evs id in \<open>auto simp: idPredicate_def advanced_row_def\<close>)
  moreover have "instance_at w' (inst_ID inst0) = Some (?f r)"
    unfolding t by (subst instances.at_update) (use r(1) pr in \<open>auto simp: advanced_row_def\<close>)
  then have "synced inst' w'"
    using committed(1) id r(2) by (simp add: synced_def advanced_row_def)
  ultimately show ?thesis by simp
qed

section \<open>The worker's methods make moves\<close>

definition settled :: "Record \<Rightarrow> saga_world \<Rightarrow> ('e + 'a) \<times> Record \<times> saga_world \<Rightarrow> bool" where
  "settled inst w R \<longleftrightarrow>
     moved (inst_ID inst) w (snd (snd R)) \<and>
     (\<not> isl (fst R) \<longrightarrow> synced (fst (snd R)) (snd (snd R)) \<and> inst_ID (fst (snd R)) = inst_ID inst \<and>
        inst_StepNames (fst (snd R)) = inst_StepNames inst \<and> inst_Definition (fst (snd R)) = inst_Definition inst)"

lemma settled_from:
  "rows w1 = rows w \<Longrightarrow> events w1 = events w \<Longrightarrow> settled inst w1 R \<Longrightarrow> settled inst w R"
  unfolding settled_def using moved_trans [OF moved_same] by blast

lemma synced_life_ok:
  assumes "saga_inv w" "synced inst w"
  shows "life_ok (int (length (inst_StepNames inst))) (life_of_inst inst (story_of (inst_ID inst) (events w)))"
  using life_of_synced [OF assms(2)] assms(1) by (metis option.inject saga_inv_def)

lemma settled_persist:
  assumes "publisher env = Some pb" "synced inst0 w1" "rows w1 = rows w" "events w1 = events w"
    and "inst_ID inst = inst_ID inst0" "inst_StepNames inst = inst_StepNames inst0" "inst_Definition inst = inst_Definition inst0"
    and "inst_Status inst0 \<in> set activeStatuses" "\<forall>e \<in> set evs. ev_InstanceID e = inst_ID inst0"
    and "move (int (length (inst_StepNames inst0)))
      (life_of_inst inst0 (story_of (inst_ID inst0) (events w)))
      (life_of_inst inst (story_of (inst_ID inst0) (events w) @ story_of (inst_ID inst0) evs))"
  shows "settled inst0 w (then_more c (persist env inst nxt evs w1))"
proof (rule settled_from [OF assms(3,4)])
  obtain res inst' w' where p: "persist env inst nxt evs w1 = (res, inst', w')" by (cases "persist env inst nxt evs w1")
  from persist_moved [OF p assms(1,2,5,6,8,9)] assms(4,10)
  have "moved (inst_ID inst0) w1 w' \<and> (\<not> isl res \<longrightarrow> synced inst' w')" by simp
  moreover have "inst' = inst\<lparr>inst_LastUpdatedAt := Some (clock_at env (ticks w1))\<rparr>"
    using persist_cases [OF p assms(1)] by simp
  ultimately show "settled inst0 w1 (then_more c (persist env inst nxt evs w1))"
    using assms(5-7) p by (auto simp: settled_def then_more_def split: sum.splits)
qed

lemmas ev_simps = newEvent_def story_of_def life_of_inst_def

text \<open>A failed attempt that will be tried again, and handing a lease back, move nothing.\<close>

lemma db_write_moved:
  assumes "\<And>t t'. f t = Inr t' \<Longrightarrow> \<exists>p g. t' = sql_update p g t \<and> (\<forall>r. p r \<longrightarrow> row_id r = i) \<and>
      (\<forall>r. row_id (g r) = row_id r \<and> row_status (g r) = row_status r \<and> row_current_step (g r) = row_current_step r \<and>
         row_resume_status (g r) = row_resume_status r \<and> row_step_names (g r) = row_step_names r)"
  shows "moved i w (snd (db_write env f w)) \<and> (inst_ID inst = i \<longrightarrow> synced inst w \<longrightarrow> synced inst (snd (db_write env f w)))"
proof (cases "db_fault env (units w) = None \<and> \<not> isl (f (rows w))")
  case False
  then have "rows (snd (db_write env f w)) = rows w" "events (snd (db_write env f w)) = events w"
    by (auto simp: db_write_def split: option.splits sum.splits)
  then show ?thesis by (metis moved_same synced_world)
next
  case True
  then obtain t' where "f (rows w) = Inr t'" by (cases "f (rows w)") auto
  from assms [OF this] obtain p g where pg: "t' = sql_update p g (rows w)" "\<forall>r. p r \<longrightarrow> row_id r = i"
    "\<forall>r. row_id (g r) = row_id r \<and> row_status (g r) = row_status r \<and> row_current_step (g r) = row_current_step r \<and>
         row_resume_status (g r) = row_resume_status r \<and> row_step_names (g r) = row_step_names r" by blast
  let ?w' = "snd (db_write env f w)"
  have w': "rows ?w' = sql_update p g (rows w)" "events ?w' = events w @ []"
    using True \<open>f (rows w) = Inr t'\<close> pg(1) by (auto simp: db_write_def split: option.splits)
  have "moved i w ?w'"
    by (rule moved_update [OF w']) (use pg(2,3) in \<open>auto simp: life_of_def\<close>)
  moreover have "synced inst ?w'" if "synced inst w"
  proof -
    from that obtain r where "instance_at w (inst_ID inst) = Some r" "row_status r = inst_Status inst"
      "row_current_step r = inst_CurrentStep inst" "row_resume_status r = inst_ResumeStatus inst"
      "row_step_names r = Some (inst_StepNames inst)" by (auto simp: synced_def)
    moreover have "instance_at ?w' (inst_ID inst) = map_option (\<lambda>r. if p r then g r else r) (instance_at w (inst_ID inst))"
      unfolding w'(1) by (rule instances.at_update) (use pg(3) in simp)
    ultimately show ?thesis using pg(3) by (simp add: synced_def)
  qed
  ultimately show ?thesis by blast
qed

lemma guarded_update_Inr: "guarded_update p f t = Inr t' \<Longrightarrow> t' = sql_update p f t"
  by (simp add: guarded_update_def split: if_splits)

lemma reschedule_settled:
  assumes "synced inst w1" "rows w1 = rows w" "events w1 = events w"
  shows "settled inst w (reschedule env cfg inst atts ph cause w1)"
proof -
  define f where "f = Store_Reschedule (inst_ID inst) atts (fst (Now env w1) + delayFor env (budgetFor cfg ph) atts)
     (truncateErr env (err_text cause)) (fst (Now env (snd (Now env w1))))"
  define w2 where "w2 = snd (Now env (snd (Now env w1)))"
  have "moved (inst_ID inst) w2 (snd (db_write env f w2)) \<and>
    (inst_ID (inst\<lparr>inst_Attempts := atts\<rparr>) = inst_ID inst \<longrightarrow> synced (inst\<lparr>inst_Attempts := atts\<rparr>) w2 \<longrightarrow>
     synced (inst\<lparr>inst_Attempts := atts\<rparr>) (snd (db_write env f w2)))"
  proof (rule db_write_moved)
    fix t t' assume "f t = Inr t'"
    then have "t' = sql_update (\<lambda>r. idPredicate (inst_ID inst) r \<and> activeStatusGuard r)
        (RescheduleSagaInstance atts (fst (Now env w1) + delayFor env (budgetFor cfg ph) atts)
          (truncateErr env (err_text cause)) (fst (Now env (snd (Now env w1))))) t"
      unfolding f_def Store_Reschedule_def by (rule guarded_update_Inr)
    then show "\<exists>p g. t' = sql_update p g t \<and> (\<forall>r. p r \<longrightarrow> row_id r = inst_ID inst) \<and>
      (\<forall>r. row_id (g r) = row_id r \<and> row_status (g r) = row_status r \<and> row_current_step (g r) = row_current_step r \<and>
         row_resume_status (g r) = row_resume_status r \<and> row_step_names (g r) = row_step_names r)"
      by (intro exI conjI) (auto simp: idPredicate_def RescheduleSagaInstance_def)
  qed
  moreover have "synced (inst\<lparr>inst_Attempts := atts\<rparr>) w2" using assms(1) by (simp add: w2_def synced_def)
  moreover have "rows w2 = rows w" "events w2 = events w" using assms(2,3) by (simp_all add: w2_def)
  moreover have "reschedule env cfg inst atts ph cause w1 =
      then_more False (fst (db_write env f w2), inst\<lparr>inst_Attempts := atts\<rparr>, snd (db_write env f w2))"
    by (simp add: reschedule_def Let_def case_prod_beta w2_def f_def)
  ultimately have "settled inst w2 (reschedule env cfg inst atts ph cause w1)"
    by (cases "fst (db_write env f w2)") (simp_all add: settled_def then_more_def)
  with \<open>rows w2 = rows w\<close> \<open>events w2 = events w\<close> show ?thesis by (rule settled_from)
qed

lemma markStuck_settled:
  assumes "publisher env = Some pb" "synced inst w1" "rows w1 = rows w" "events w1 = events w"
    and "inst_Status inst \<in> set activeStatuses"
  shows "settled inst w (markStuck env inst cause w1)"
proof -
  have "move (int (length (inst_StepNames inst))) (life_of_inst inst st)
     (life_of_inst (inst\<lparr>inst_ResumeStatus := inst_Status inst, inst_Status := StatusStuck, inst_LastError := msg\<rparr>) st)" for st msg
    using mv_stuck [of "life_of_inst inst st"] assms(5) by (simp add: life_of_inst_def)
  then show ?thesis
    unfolding markStuck_def Let_def case_prod_beta using assms
    by (intro settled_persist) (simp_all add: synced_world [OF world_simps(1)] ev_simps)
qed

lemma finishRunning_settled:
  assumes "publisher env = Some pb" "synced inst0 w1" "rows w1 = rows w" "events w1 = events w"
    and "inst_Status inst0 = StatusRunning" "inst_CurrentStep inst0 + 1 = int (length (inst_StepNames inst0))"
    and "0 \<le> inst_CurrentStep inst0" "def_stepNames def = inst_StepNames inst0" "wf_definition vis def"
  shows "settled inst0 w (finishRunning env (inst0\<lparr>inst_State := st, inst_CurrentStep := inst_CurrentStep inst0 + 1,
    inst_LastError := msg, inst_Attempts := a, inst_Status := StatusCompleted\<rparr>) def (inst_CurrentStep inst0) w1)"
proof -
  let ?i = "nat (inst_CurrentStep inst0)"
  let ?inst = "inst0\<lparr>inst_State := st, inst_CurrentStep := inst_CurrentStep inst0 + 1,
    inst_LastError := msg, inst_Attempts := a, inst_Status := StatusCompleted\<rparr>"
  have "?i < length (def_stepNames def)" using assms(6-8) by simp
  then have name: "def_stepNames def ! ?i \<noteq> []" "inst_CurrentStep inst0 < int (steps def)"
    using assms(6,8,9) by (auto simp: wf_definition_def steps_def list_all_length)
  have "move (int (length (inst_StepNames inst0))) (life_of_inst inst0 s)
     (life_of_inst ?inst (s @ [(EventStepCompleted, inst_CurrentStep inst0), (EventCompleted, inst_CurrentStep inst0 + 1)]))" for s
    using mv_complete [of "life_of_inst inst0 s" "int (length (inst_StepNames inst0))"] assms(5,6)
    by (simp add: life_of_inst_def)
  then show ?thesis
    unfolding finishRunning_def Let_def case_prod_beta using assms(1-5) name
    by (intro settled_persist) (simp_all add: synced_world [OF world_simps(1)] ev_simps activeStatuses_def)
qed

lemma failForward_settled:
  assumes "publisher env = Some pb" "synced inst w1" "rows w1 = rows w" "events w1 = events w"
    and "inst_Status inst = StatusRunning" "inst_CurrentStep inst = int idx"
  shows "settled inst w (failForward env cfg def inst idx cause w1)"
proof -
  have "move (int (length (inst_StepNames inst))) (life_of_inst inst s)
     (life_of_inst (inst\<lparr>inst_Status := StatusCompensating, inst_CurrentStep := int idx, inst_LastError := msg,
        inst_Attempts := 0\<rparr>) (s @ [(EventCompensating, int idx)]))" for s msg
    using mv_fail [of "life_of_inst inst s"] assms(5,6) by (simp add: life_of_inst_def)
  then have "settled inst w (then_more c (persist env (inst\<lparr>inst_Status := StatusCompensating, inst_CurrentStep := int idx,
      inst_LastError := msg, inst_Attempts := 0\<rparr>) now
      [newEvent EventCompensating (inst\<lparr>inst_Status := StatusCompensating, inst_CurrentStep := int idx, inst_LastError := msg,
        inst_Attempts := 0\<rparr>) name (int idx) now' msg'] (snd (Now env w1))))" for c msg now now' name msg'
    using assms by (intro settled_persist) (simp_all add: synced_world [OF world_simps(1)] ev_simps activeStatuses_def)
  then show ?thesis using reschedule_settled [OF assms(2-4)]
    by (simp add: failForward_def Let_def case_prod_beta)
qed

lemma runStep_settled:
  assumes "publisher env = Some pb" "synced inst w" "saga_inv w" "inst_Status inst = StatusRunning"
    and "def_stepNames def = inst_StepNames inst" "wf_definition vis def"
  shows "settled inst w (runStep env cfg def inst w)"
proof -
  let ?c = "inst_CurrentStep inst"
  have c: "0 \<le> ?c" "?c < int (steps def)" "steps def = length (inst_StepNames inst)"
    using synced_life_ok [OF assms(3,2)] assms(4,5) by (auto simp: life_ok_def life_of_inst_def steps_def)
  obtain out w1 where e: "execute env cfg def inst (nat ?c) PhaseDo w = (out, w1)"
    by (cases "execute env cfg def inst (nat ?c) PhaseDo w")
  then have w1: "rows w1 = rows w" "events w1 = events w" using execute_world [of env cfg def inst "nat ?c" PhaseDo w] by auto
  have sync: "synced inst w1" using assms(2) synced_world [OF w1(1)] by simp
  show ?thesis
  proof (cases out)
    case (Inl cause)
    have "settled inst w (failForward env cfg def inst (nat ?c) cause w1)"
      by (rule failForward_settled [OF assms(1) sync w1 assms(4)]) (use c in simp)
    then show ?thesis using c e Inl by (simp add: runStep_def Let_def)
  next
    case (Inr st)
    let ?inst = "inst\<lparr>inst_State := st, inst_CurrentStep := ?c + 1, inst_LastError := [], inst_Attempts := 0\<rparr>"
    show ?thesis
    proof (cases "int (steps def) \<le> ?c + 1")
      case True
      have "settled inst w (finishRunning env (inst\<lparr>inst_State := st, inst_CurrentStep := ?c + 1, inst_LastError := [],
          inst_Attempts := 0, inst_Status := StatusCompleted\<rparr>) def ?c w1)"
        by (rule finishRunning_settled [OF assms(1) sync w1 assms(4) _ c(1) assms(5,6)]) (use True c in simp)
      then show ?thesis using c e Inr True by (simp add: runStep_def Let_def)
    next
      case False
      have "move (int (length (inst_StepNames inst))) (life_of_inst inst s)
          (life_of_inst ?inst (s @ [(EventStepCompleted, ?c)]))" for s
        using mv_do [of "life_of_inst inst s"] assms(4) False c(3) by (simp add: life_of_inst_def)
      then have "settled inst w (then_more b (persist env ?inst nxt [newEvent EventStepCompleted ?inst nm ?c now []] (snd (Now env w1))))"
        for b nxt nm now
        using assms(1,4) sync w1
        by (intro settled_persist) (simp_all add: synced_world [OF world_simps(1)] ev_simps activeStatuses_def)
      then show ?thesis using c e Inr False by (simp add: runStep_def Let_def case_prod_beta)
    qed
  qed
qed

lemma finishCompensating_settled:
  assumes "publisher env = Some pb" "synced inst0 w1" "rows w1 = rows w" "events w1 = events w"
    and "inst_Status inst0 = StatusCompensating" "inst_CurrentStep inst0 = 0"
    and "inst_ID inst = inst_ID inst0" "inst_StepNames inst = inst_StepNames inst0" "inst_Definition inst = inst_Definition inst0"
    and "inst_ResumeStatus inst = inst_ResumeStatus inst0" "inst_CurrentStep inst = -1" "name \<noteq> [] \<longrightarrow> idx = 0"
  shows "settled inst0 w (finishCompensating env inst name idx w1)"
proof -
  have mv: "move (int (length (inst_StepNames inst0))) (life_of_inst inst0 s)
     (life_of_inst (inst\<lparr>inst_Status := StatusCompensated\<rparr>)
        (s @ (if name = [] then [] else [(EventStepCompensated, 0)]) @ [(EventCompensated, -1)]))" for s
    using mv_unwound [of "life_of_inst inst0 s" "if name = [] then [] else [(EventStepCompensated, 0)]"] assms(5,6,10,11)
    by (simp add: life_of_inst_def)
  show ?thesis
    unfolding finishCompensating_def Let_def case_prod_beta
    by (cases "name = []"; rule settled_persist [OF assms(1)])
      (use assms mv in \<open>simp_all add: synced_world [OF world_simps(1)] ev_simps activeStatuses_def\<close>)
qed

lemma compensateStep_settled:
  assumes "publisher env = Some pb" "synced inst w" "saga_inv w" "inst_Status inst = StatusCompensating"
    and "def_stepNames def = inst_StepNames inst"
  shows "settled inst w (compensateStep env cfg def inst w)"
proof -
  let ?c = "inst_CurrentStep inst"
  have c: "0 \<le> ?c" "?c < int (steps def)" "steps def = length (inst_StepNames inst)"
    using synced_life_ok [OF assms(3,2)] assms(4,5) by (auto simp: life_ok_def life_of_inst_def steps_def)
  have unwind: "settled inst w (then_more b (persist env (inst\<lparr>inst_State := st, inst_CurrentStep := ?c - 1, inst_Attempts := 0\<rparr>) nxt
      (if quiet then [] else [newEvent EventStepCompensated (inst\<lparr>inst_State := st, inst_CurrentStep := ?c - 1,
         inst_Attempts := 0\<rparr>) nm ?c now []]) (snd (Now env v))))"
    if "0 < ?c" "synced inst v" "rows v = rows w" "events v = events w" for b st nxt nm now quiet v
  proof -
    let ?u = "if quiet then [] else [(EventStepCompensated, ?c)]"
    have "move (int (length (inst_StepNames inst))) (life_of_inst inst s)
        (life_of_inst (inst\<lparr>inst_State := st, inst_CurrentStep := ?c - 1, inst_Attempts := 0\<rparr>) (s @ ?u))" for s
      using mv_back [of "life_of_inst inst s" ?u] assms(4) that(1) by (simp add: life_of_inst_def)
    then show ?thesis using assms(1,4) that
      by (cases quiet; intro settled_persist) (simp_all add: synced_world [OF world_simps(1)] ev_simps activeStatuses_def)
  qed
  show ?thesis
  proof (cases "def_compensates def ! nat ?c")
    case False
    show ?thesis
    proof (cases "?c = 0")
      case True
      have "settled inst w (finishCompensating env (inst\<lparr>inst_CurrentStep := -1, inst_Attempts := 0\<rparr>) [] (-1) w)"
        by (rule finishCompensating_settled [OF assms(1,2)]) (use assms(4) True in simp_all)
      then show ?thesis using c False True by (simp add: compensateStep_def Let_def)
    next
      case nz: False
      then show ?thesis using c False unwind [where v = w and st = "inst_State inst" and quiet = True, OF _ assms(2)]
        by (simp add: compensateStep_def Let_def case_prod_beta)
    qed
  next
    case True
    obtain out w1 where e: "execute env cfg def inst (nat ?c) PhaseUndo w = (out, w1)"
      by (cases "execute env cfg def inst (nat ?c) PhaseUndo w")
    then have w1: "rows w1 = rows w" "events w1 = events w"
      using execute_world [of env cfg def inst "nat ?c" PhaseUndo w] by auto
    have sync: "synced inst w1" using assms(2) synced_world [OF w1(1)] by simp
    show ?thesis
    proof (cases out)
      case (Inl cause)
      then show ?thesis using c e True reschedule_settled [OF sync w1] assms(4)
          markStuck_settled [OF assms(1) sync w1]
        by (simp add: compensateStep_def Let_def activeStatuses_def)
    next
      case (Inr st)
      show ?thesis
      proof (cases "?c = 0")
        case z: True
        have "settled inst w (finishCompensating env (inst\<lparr>inst_State := st, inst_CurrentStep := -1, inst_Attempts := 0\<rparr>)
            (def_stepNames def ! 0) 0 w1)"
          by (rule finishCompensating_settled [OF assms(1) sync w1]) (use assms(4) z in simp_all)
        then show ?thesis using c e True Inr z by (simp add: compensateStep_def Let_def)
      next
        case nz: False
        then show ?thesis using c e True Inr unwind [where v = w1 and st = st and quiet = False, OF _ sync w1]
          by (simp add: compensateStep_def Let_def case_prod_beta)
      qed
    qed
  qed
qed

lemma settled_inv: "saga_inv w \<Longrightarrow> settled inst w R \<Longrightarrow> saga_inv (snd (snd R))"
  using moved_inv by (auto simp: settled_def)

lemma settled_trans:
  assumes "settled inst w (Inr x, inst', w')" "settled inst' w' R"
  shows "settled inst w R"
proof -
  from assms(1) have 1: "moved (inst_ID inst) w w'" "inst_ID inst' = inst_ID inst"
    "inst_StepNames inst' = inst_StepNames inst" "inst_Definition inst' = inst_Definition inst"
    by (simp_all add: settled_def)
  from assms(2) have "moved (inst_ID inst) w' (snd (snd R))" by (simp add: settled_def 1(2))
  with 1(1) have "moved (inst_ID inst) w (snd (snd R))" by (rule moved_trans)
  with assms(2) 1(2-4) show ?thesis by (simp add: settled_def)
qed

lemma step_settled:
  assumes "publisher env = Some pb" "synced inst w" "saga_inv w" "\<not> Terminal (inst_Status inst)"
    and "def_stepNames def = inst_StepNames inst" "wf_definition vis def"
  shows "settled inst w (step env cfg def inst w)"
proof (cases "inst_Status inst")
  case (OtherStatus s)
  then show ?thesis using synced_life_ok [OF assms(3,2)] by (simp add: life_ok_def life_of_inst_def)
qed (use assms runStep_settled [OF assms(1-3) _ assms(5,6)] compensateStep_settled [OF assms(1-3) _ assms(5)]
  in \<open>simp_all add: step_def\<close>)

lemma drive_loop_settled:
  assumes "publisher env = Some pb" "synced inst w" "saga_inv w"
    and "def_stepNames def = inst_StepNames inst" "wf_definition vis def"
  shows "settled inst w (drive_loop env cfg def deadline inst w)"
  using assms
proof (induction env cfg def deadline inst w rule: drive_loop.induct)
  case (1 env cfg def deadline inst w)
  let ?w1 = "snd (Now env w)" and ?w2 = "snd (Now env (snd (Now env w)))"
  consider "Terminal (inst_Status inst)"
    | "\<not> Terminal (inst_Status inst)" "\<not> fst (Now env w) < deadline"
    | "\<not> Terminal (inst_Status inst)" "fst (Now env w) < deadline" by blast
  then show ?case
  proof cases
    case 1
    then show ?thesis using "1.prems"(2) by (simp add: drive_loop.simps settled_def)
  next
    case 2
    let ?r = "db_write env (\<lambda>t. Inr (Store_Release (inst_ID inst) (fst (Now env ?w1)) t)) ?w2"
    have "moved (inst_ID inst) ?w2 (snd ?r) \<and> (inst_ID inst = inst_ID inst \<longrightarrow> synced inst ?w2 \<longrightarrow> synced inst (snd ?r))"
      by (rule db_write_moved) (force simp: Store_Release_def idPredicate_def ReleaseSagaInstance_def)
    moreover have "synced inst ?w2" using "1.prems"(2) by (simp add: synced_def)
    ultimately have "settled inst ?w2 (fst ?r, inst, snd ?r)" by (simp add: settled_def)
    then have "settled inst w (fst ?r, inst, snd ?r)" by (rule settled_from [rotated 2]) simp_all
    then show ?thesis using 2 by (subst drive_loop.simps) (simp add: Let_def case_prod_beta)
  next
    case 3
    have inv1: "saga_inv ?w1" using "1.prems"(3) by (simp add: saga_inv_def)
    have sync1: "synced inst ?w1" using "1.prems"(2) by (simp add: synced_def)
    obtain res inst' w' where s: "step env cfg def inst ?w1 = (res, inst', w')" by (cases "step env cfg def inst ?w1")
    have st: "settled inst ?w1 (res, inst', w')"
      using step_settled [OF "1.prems"(1) sync1 inv1 3(1) "1.prems"(4,5), of cfg] s by simp
    have "settled inst ?w1 (drive_loop env cfg def deadline inst' w')" if "res = Inr True"
    proof -
      have n: "synced inst' w'" "saga_inv w'" "inst_StepNames inst' = inst_StepNames inst"
        using st that settled_inv [OF inv1 st] by (auto simp: settled_def)
      have "settled inst' w' (drive_loop env cfg def deadline inst' w')"
        using "1.IH" [OF 3(1) refl, of "fst (Now env w)" ?w1 res "(inst', w')" True inst' w'] 3(2) that s "1.prems" n
        by simp
      with st show ?thesis unfolding that by (rule settled_trans)
    qed
    moreover have "drive_loop env cfg def deadline inst w =
        (case res of Inl e \<Rightarrow> (Inl e, inst', w')
         | Inr b \<Rightarrow> if b then drive_loop env cfg def deadline inst' w' else (Inr (), inst', w'))"
      using 3 s by (subst drive_loop.simps) (simp add: Let_def case_prod_beta split: sum.split)
    moreover have "settled inst ?w1 (Inl e :: saga_error + unit, inst', w')" "res = Inr False \<Longrightarrow> settled inst ?w1 (Inr (), inst', w')" for e
      using st by (simp_all add: settled_def)
    ultimately have "settled inst ?w1 (drive_loop env cfg def deadline inst w)"
      by (cases res) auto
    then show ?thesis by (rule settled_from [rotated 2]) simp_all
  qed
qed

lemma drive_settled:
  assumes "publisher env = Some pb" "synced inst w" "saga_inv w" "inst_Status inst \<in> set activeStatuses"
    and "wf_registry vis reg"
  shows "settled inst w (drive env cfg reg inst w)"
proof -
  have stuck: "settled inst w (case fst (markStuck env inst cause w) of Inl e \<Rightarrow> Inl e | Inr _ \<Rightarrow> Inr (), snd (markStuck env inst cause w))"
    for cause
    using markStuck_settled [OF assms(1,2) refl refl assms(4), of cause]
    by (cases "fst (markStuck env inst cause w)") (simp_all add: settled_def)
  show ?thesis
  proof (cases "lookup reg (inst_Definition inst)")
    case None
    with stuck show ?thesis by (simp add: drive_def Let_def)
  next
    case (Some def)
    show ?thesis
    proof (cases "def_stepNames def = inst_StepNames inst")
      case True
      have "wf_definition vis def" using assms(5) Some by (auto simp: wf_registry_def lookup_def)
      moreover have "synced inst (snd (Now env w))" "saga_inv (snd (Now env w))"
        using assms(2,3) by (simp_all add: synced_def saga_inv_def)
      ultimately have "settled inst (snd (Now env w)) (drive_loop env cfg def deadline inst (snd (Now env w)))" for deadline
        using drive_loop_settled [OF assms(1)] True by blast
      then have "settled inst w (drive_loop env cfg def deadline inst (snd (Now env w)))" for deadline
        by (rule settled_from [rotated 2]) simp_all
      with Some True show ?thesis by (simp add: drive_def Let_def case_prod_beta)
    next
      case False
      with Some stuck show ?thesis by (simp add: drive_def Let_def)
    qed
  qed
qed

lemma release_moved: "moved (inst_ID inst) w (release env inst w)"
proof -
  have "moved (inst_ID inst) (snd (Now env w)) (release env inst w)"
    unfolding release_def Let_def case_prod_beta
    by (rule conjunct1 [OF db_write_moved]) (force simp: Store_Release_def idPredicate_def ReleaseSagaInstance_def)
  then show ?thesis using moved_trans [OF moved_same] world_simps(1,2) by blast
qed

lemma advance_moved:
  assumes "publisher env = Some pb" "synced inst w" "saga_inv w" "inst_Status inst \<in> set activeStatuses"
    and "wf_registry vis reg"
  shows "moved (inst_ID inst) w (advance env cfg reg inst w)"
proof -
  have "synced inst (next_unit w)" "saga_inv (next_unit w)" using assms(2,3) by (simp_all add: synced_def saga_inv_def)
  then have "moved (inst_ID inst) (next_unit w) (snd (snd (drive env cfg reg inst (next_unit w))))"
    using drive_settled [OF assms(1) _ _ assms(4,5)] by (auto simp: settled_def)
  moreover have "moved (inst_ID inst) (next_unit w) (release env inst (next_unit w))" by (rule release_moved)
  moreover have "moved (inst_ID inst) w (next_unit w)" by (rule moved_same) simp_all
  ultimately show ?thesis using moved_trans by (auto simp: advance_def split: lock_outcome.split)
qed

text \<open>Work on one instance leaves another's agreement alone.\<close>

lemma moved_synced:
  assumes "moved i w w'" "synced inst w" "inst_ID inst \<noteq> i"
  shows "synced inst w'"
  using assms by (simp add: moved_def synced_def)

end
