(* ===== verification/Saga_Runner.thy ===== *)
theory Saga_Runner
  imports Saga_Worker
begin

text \<open>
  The application's side of a saga: \<^verbatim>\<open>saga/runner.go\<close>. A runner is a codec for its state type over the
  store and the registry. The identifier a start mints is an argument. \<^verbatim>\<open>start\<close> works in a transaction
  it is given; \<^verbatim>\<open>Start\<close> opens one and rolls it back when anything in it fails, while
  \<^verbatim>\<open>StartInTransaction\<close> leaves its writes to the caller's transaction.
\<close>

definition definitionFor :: "'t codec \<Rightarrow> Registry \<Rightarrow> string \<Rightarrow> saga_error + bound_definition" where
  "definitionFor c reg name =
     (case lookup reg name of
        None \<Rightarrow> Inl ErrUnknownDefinition
      | Some def \<Rightarrow> if def_stateType def \<noteq> type_name c then Inl ErrStateTypeMismatch else Inr def)"

definition decodeInstance :: "'t codec \<Rightarrow> Record \<Rightarrow> saga_error + 't Instance" where
  "decodeInstance c rec =
     (let inst = (\<lambda>st. \<lparr>inst_ID = inst_ID rec, inst_Definition = inst_Definition rec, inst_Status = inst_Status rec,
            inst_ResumeStatus = inst_ResumeStatus rec, inst_StepNames = inst_StepNames rec,
            inst_CurrentStep = inst_CurrentStep rec, inst_Attempts = inst_Attempts rec,
            inst_LastError = inst_LastError rec, inst_State = st, inst_CreatedAt = inst_CreatedAt rec,
            inst_LastUpdatedAt = inst_LastUpdatedAt rec\<rparr>) in
      if inst_State rec = [] then Inr (inst (zero_value c))
      else (case unmarshal c (inst_State rec) of Inl msg \<Rightarrow> Inl ErrDecodingState | Inr st \<Rightarrow> Inr (inst st)))"

text \<open>A record of a definition this process does not know is decoded without the type check.\<close>

definition decode :: "'t codec \<Rightarrow> Registry \<Rightarrow> Record \<Rightarrow> saga_error + 't Instance" where
  "decode c reg rec =
     (case lookup reg (inst_Definition rec) of
        None \<Rightarrow> decodeInstance c rec
      | Some def \<Rightarrow> if def_stateType def \<noteq> type_name c then Inl ErrStateTypeMismatch else decodeInstance c rec)"

section \<open>Starting\<close>

definition new_record :: "string \<Rightarrow> string \<Rightarrow> bound_definition \<Rightarrow> string \<Rightarrow> time \<Rightarrow> Record" where
  "new_record newID name def state now =
     \<lparr>inst_ID = newID, inst_Definition = name, inst_Status = StatusRunning, inst_ResumeStatus = no_status,
      inst_StepNames = def_stepNames def, inst_CurrentStep = 0, inst_Attempts = 0, inst_LastError = [],
      inst_State = state, inst_CreatedAt = now, inst_LastUpdatedAt = None\<rparr>"

definition start ::
  "saga_env \<Rightarrow> 't codec \<Rightarrow> Registry \<Rightarrow> string \<Rightarrow> string \<Rightarrow> 't \<Rightarrow> saga_world
    \<Rightarrow> (saga_error + 't Instance) \<times> saga_world" where
  "start env c reg newID name initial w0 =
     (case definitionFor c reg name of
        Inl e \<Rightarrow> (Inl e, w0)
      | Inr def \<Rightarrow>
          (case marshal c initial of
             Inl msg \<Rightarrow> (Inl ErrEncodingState, w0)
           | Inr state \<Rightarrow>
               (let (now, w) = Now env w0;
                    rec = new_record newID name def state now;
                    (saved, w1) = db_write env (Store_Save rec (now + def_delays def ! 0)) w in
                case saved of
                  Inl e \<Rightarrow> (Inl e, w1)
                | Inr _ \<Rightarrow>
                    (case publish (publisher env) (units w)
                            [newEvent EventStarted rec (def_stepNames def ! 0) 0 now []] (events w1) of
                       Inl e \<Rightarrow> (Inl e, w1)
                     | Inr evs \<Rightarrow> (decodeInstance c rec, w1\<lparr>events := evs\<rparr>)))))"

text \<open>What a rolled-back transaction leaves.\<close>

definition rolled_back :: "saga_world \<Rightarrow> saga_world \<Rightarrow> saga_world" where
  "rolled_back w0 w = w\<lparr>rows := rows w0, events := events w0\<rparr>"

definition Start ::
  "saga_env \<Rightarrow> 't codec \<Rightarrow> Registry \<Rightarrow> string \<Rightarrow> string \<Rightarrow> 't \<Rightarrow> saga_world
    \<Rightarrow> (saga_error + 't Instance) \<times> saga_world" where
  "Start env c reg newID name initial w =
     (case start env c reg newID name initial w of
        (Inl e, w') \<Rightarrow> (Inl e, rolled_back w w')
      | (Inr inst, w') \<Rightarrow>
          (case db_fault env (units w') of
             Some e \<Rightarrow> (Inl e, rolled_back w (next_unit w'))
           | None \<Rightarrow> (Inr inst, next_unit w')))"

definition StartInTransaction ::
  "saga_env \<Rightarrow> 't codec \<Rightarrow> Registry \<Rightarrow> string \<Rightarrow> string \<Rightarrow> 't \<Rightarrow> saga_world
    \<Rightarrow> (saga_error + 't Instance) \<times> saga_world" where
  "StartInTransaction env c reg newID name initial w = start env c reg newID name initial w"

section \<open>Reading and resuming\<close>

definition read_instance :: "saga_env \<Rightarrow> string \<Rightarrow> saga_world \<Rightarrow> (saga_error + Record) \<times> saga_world" where
  "read_instance env i w =
     (case db_fault env (units w) of
        Some e \<Rightarrow> (Inl e, next_unit w)
      | None \<Rightarrow> (Store_Get i (rows w), next_unit w))"

definition Runner_Get ::
  "saga_env \<Rightarrow> 't codec \<Rightarrow> Registry \<Rightarrow> string \<Rightarrow> saga_world \<Rightarrow> (saga_error + 't Instance) \<times> saga_world" where
  "Runner_Get env c reg i w =
     (case read_instance env i w of
        (Inl e, w') \<Rightarrow> (Inl e, w')
      | (Inr rec, w') \<Rightarrow> (decode c reg rec, w'))"

definition resume_target :: "Record \<Rightarrow> Status" where
  "resume_target rec =
     (if \<not> Valid (inst_ResumeStatus rec) \<or> Terminal (inst_ResumeStatus rec) then StatusCompensating
      else inst_ResumeStatus rec)"

definition Resume ::
  "saga_env \<Rightarrow> 't codec \<Rightarrow> Registry \<Rightarrow> string \<Rightarrow> saga_world \<Rightarrow> (saga_error + 't Instance) \<times> saga_world" where
  "Resume env c reg i w0 =
     (case read_instance env i w0 of
        (Inl e, w) \<Rightarrow> (Inl e, w)
      | (Inr rec, w) \<Rightarrow>
          if inst_Status rec \<noteq> StatusStuck then (Inl ErrNotResumable, w)
          else (case definitionFor c reg (inst_Definition rec) of
                  Inl e \<Rightarrow> (Inl e, w)
                | Inr def \<Rightarrow>
                    if def_stepNames def \<noteq> inst_StepNames rec then (Inl ErrDefinitionDrift, w)
                    else (let (now, w1) = Now env w in
                          case db_fault env (units w1) of
                            Some e \<Rightarrow> (Inl e, next_unit w1)
                          | None \<Rightarrow>
                              (case Store_Requeue i [StatusStuck] (resume_target rec) now (rows w1) of
                                 (Inl e, t) \<Rightarrow> (Inl e, (next_unit w1)\<lparr>rows := t\<rparr>)
                               | (Inr updated, t) \<Rightarrow> (decode c reg updated, (next_unit w1)\<lparr>rows := t\<rparr>)))))"

end
