(* ===== verification/Saga_System.thy ===== *)
theory Saga_System
  imports Saga_History Saga_Runner
begin

text \<open>
  Claiming, the whole system, and the properties of sagas. A step of the system is a worker's cycle
  (at any clock, with any outcome of its database work, its steps, its lock and its idempotency
  manager, under any registry of well-formed definitions), a start, a resumption or a retention
  sweep. \<open>saga_inv\<close> holds in every reachable world.
\<close>

section \<open>Claiming\<close>

definition leased_row :: "time \<Rightarrow> time \<Rightarrow> saga_row \<Rightarrow> saga_row" where
  "leased_row lease stamp r = r\<lparr>row_claimed_until := Some lease, row_last_updated_at := Some stamp,
     row_attempts := row_attempts r + 1\<rparr>"

definition due_instances :: "time \<Rightarrow> int \<Rightarrow> (string \<Rightarrow> bool) \<Rightarrow> saga_table \<Rightarrow> saga_row list" where
  "due_instances now limit lk t = sql_top limit claimOrder (\<lambda>r. claimable_row now r \<and> \<not> lk (row_id r)) t"

lemma due_row:
  assumes "distinct (map row_id t)" "r \<in> set t" "row_id r \<in> row_id ` set (due_instances now limit lk t)"
  shows "claimable_row now r \<and> \<not> lk (row_id r)"
proof -
  from assms(3) obtain s where "s \<in> set (due_instances now limit lk t)" "row_id s = row_id r" by auto
  then have "s \<in> set t" "claimable_row now s \<and> \<not> lk (row_id s)" "row_id s = row_id r"
    by (auto simp: due_instances_def dest: set_sql_top)
  with assms(1,2) show ?thesis by (metis option.inject row_at_distinct)
qed

lemma ClaimSagaInstances_due:
  assumes "distinct (map row_id t)"
  shows "ClaimSagaInstances lease stamp (map row_id (due_instances now limit lk t)) t =
    sql_update (\<lambda>r. row_id r \<in> row_id ` set (due_instances now limit lk t)) (leased_row lease stamp) t"
  unfolding ClaimSagaInstances_def
  by (rule sql_update_cong) (auto simp: leased_row_def claimable_row_def dest: due_row [OF assms])

lemma Store_Claim_cases:
  assumes "distinct (map row_id t)" "Store_Claim now limit lease lk t = (res, t')"
  shows "(t' = t \<and> (\<forall>claimed. res = Inr claimed \<longrightarrow> claimed = [])) \<or>
    (\<exists>claimed. res = Inr claimed \<and>
       t' = sql_update (\<lambda>r. row_id r \<in> row_id ` set (due_instances now limit lk t)) (leased_row lease now) t \<and>
       map Inr claimed = map recordFromRow (ListSagaInstancesByIDs (map row_id (due_instances now limit lk t)) t'))"
proof -
  let ?ids = "map row_id (due_instances now limit lk t)"
  let ?u = "sql_update (\<lambda>r. row_id r \<in> row_id ` set (due_instances now limit lk t)) (leased_row lease now) t"
  have "ClaimableSagaInstanceIDs now limit lk t = ?ids" by (simp add: ClaimableSagaInstanceIDs_def due_instances_def)
  then have c: "Store_Claim now limit lease lk t =
      (if limit \<le> 0 \<or> ?ids = [] then (Inr [], t)
       else (case try_map recordFromRow (ListSagaInstancesByIDs ?ids ?u) of Inl e \<Rightarrow> (Inl e, t) | Inr claimed \<Rightarrow> (Inr claimed, ?u)))"
    by (simp add: Store_Claim_def Let_def ClaimSagaInstances_due [OF assms(1)])
  show ?thesis
  proof (cases "limit \<le> 0 \<or> ?ids = []")
    case True
    with c assms(2) show ?thesis by auto
  next
    case False
    show ?thesis
    proof (cases "try_map recordFromRow (ListSagaInstancesByIDs ?ids ?u)")
      case (Inl e)
      with c False assms(2) have "res = Inl e" "t' = t" by simp_all
      then show ?thesis by simp
    next
      case (Inr claimed)
      with c False assms(2) have "res = Inr claimed" "t' = ?u" by simp_all
      moreover have "map Inr claimed = map recordFromRow (ListSagaInstancesByIDs ?ids ?u)"
        using try_map_InrD [OF Inr] by simp
      ultimately show ?thesis by blast
    qed
  qed
qed

lemma leased_row_simps [simp]:
  "row_id (leased_row l s r) = row_id r" "row_status (leased_row l s r) = row_status r"
  "row_current_step (leased_row l s r) = row_current_step r" "row_resume_status (leased_row l s r) = row_resume_status r"
  "row_step_names (leased_row l s r) = row_step_names r" "row_definition (leased_row l s r) = row_definition r"
  by (simp_all add: leased_row_def)

lemma recordFromRow_Inr:
  "recordFromRow r = Inr inst \<Longrightarrow>
   inst_ID inst = row_id r \<and> inst_Status inst = row_status r \<and> inst_CurrentStep inst = row_current_step r \<and>
   inst_ResumeStatus inst = row_resume_status r \<and> row_step_names r = Some (inst_StepNames inst) \<and>
   inst_Attempts inst = row_attempts r \<and> inst_Definition inst = row_definition r"
  by (auto simp: recordFromRow_def split: option.splits)

text \<open>What a claim hands out are rows of the table it leaves, each once.\<close>

lemma claimed_records:
  assumes "distinct (map row_id t')" "map Inr claimed = map recordFromRow (ListSagaInstancesByIDs ids t')"
  shows "distinct (map inst_ID claimed)"
    and "inst \<in> set claimed \<Longrightarrow> \<exists>r. row_at row_id t' (inst_ID inst) = Some r \<and> recordFromRow r = Inr inst \<and>
       activeStatusGuard r \<and> row_id r \<in> set ids"
proof -
  let ?L = "ListSagaInstancesByIDs ids t'"
  have len: "length claimed = length ?L" using assms(2) by (metis length_map)
  have nth: "recordFromRow (?L ! i) = Inr (claimed ! i)" if "i < length claimed" for i
    using assms(2) that len by (metis nth_map)
  have "map inst_ID claimed = map row_id ?L"
    by (rule nth_equalityI) (use len nth recordFromRow_Inr in auto)
  moreover have "distinct (map row_id ?L)"
  proof -
    have "mset (map row_id ?L) = mset (map row_id (filter (\<lambda>r. activeStatusGuard r \<and> row_id r \<in> set ids) t'))"
      by (simp add: ListSagaInstancesByIDs_def)
    moreover have "distinct (map row_id (filter (\<lambda>r. activeStatusGuard r \<and> row_id r \<in> set ids) t'))"
      using assms(1) by (simp add: distinct_map_filter)
    ultimately show ?thesis by (metis mset_eq_imp_distinct_iff)
  qed
  ultimately show "distinct (map inst_ID claimed)" by simp
  show "\<exists>r. row_at row_id t' (inst_ID inst) = Some r \<and> recordFromRow r = Inr inst \<and> activeStatusGuard r \<and> row_id r \<in> set ids"
    if "inst \<in> set claimed"
  proof -
    from that obtain i where i: "i < length claimed" "inst = claimed ! i" by (auto simp: in_set_conv_nth)
    then have "?L ! i \<in> set ?L" using len by simp
    then have m: "?L ! i \<in> set t'" "activeStatusGuard (?L ! i)" "row_id (?L ! i) \<in> set ids"
      by (auto simp: ListSagaInstancesByIDs_def)
    moreover have "inst_ID inst = row_id (?L ! i)" using recordFromRow_Inr [OF nth [OF i(1)]] i(2) by simp
    ultimately show ?thesis using row_at_distinct [OF assms(1) m(1)] nth [OF i(1)] i(2) by auto
  qed
qed

section \<open>Progress\<close>

text \<open>Every instance made moves of its lifecycle, and events were only appended.\<close>

definition progress :: "saga_world \<Rightarrow> saga_world \<Rightarrow> bool" where
  "progress w w' \<longleftrightarrow>
     map row_id (rows w') = map row_id (rows w) \<and> (\<exists>evs. events w' = events w @ evs) \<and>
     (\<forall>i r names. instance_at w i = Some r \<longrightarrow> row_step_names r = Some names \<longrightarrow>
        (\<exists>r'. instance_at w' i = Some r' \<and> row_step_names r' = Some names \<and>
           (move (int (length names)))\<^sup>*\<^sup>* (life_of r (events w)) (life_of r' (events w'))))"

lemma progress_refl [simp]: "progress w w"
  by (simp add: progress_def)

lemma progress_trans:
  assumes "progress w1 w2" "progress w2 w3"
  shows "progress w1 w3"
proof -
  have "\<exists>r3. instance_at w3 i = Some r3 \<and> row_step_names r3 = Some names \<and>
      (move (int (length names)))\<^sup>*\<^sup>* (life_of r (events w1)) (life_of r3 (events w3))"
    if r: "instance_at w1 i = Some r" "row_step_names r = Some names" for i r names
  proof -
    from assms(1) r obtain r2 where 2: "instance_at w2 i = Some r2" "row_step_names r2 = Some names"
      "(move (int (length names)))\<^sup>*\<^sup>* (life_of r (events w1)) (life_of r2 (events w2))"
      unfolding progress_def by blast
    from assms(2) 2(1,2) obtain r3 where "instance_at w3 i = Some r3" "row_step_names r3 = Some names"
      "(move (int (length names)))\<^sup>*\<^sup>* (life_of r2 (events w2)) (life_of r3 (events w3))"
      unfolding progress_def by blast
    with 2(3) show ?thesis by (meson rtranclp_trans)
  qed
  moreover have "\<exists>evs. events w3 = events w1 @ evs" using assms by (auto simp: progress_def)
  ultimately show ?thesis using assms by (simp add: progress_def)
qed

lemma moved_progress:
  assumes "moved i w w'"
  shows "progress w w'"
proof -
  obtain evs where evs: "events w' = events w @ evs" "\<forall>e \<in> set evs. ev_InstanceID e = i"
    using assms by (auto simp: moved_def)
  have "\<exists>r'. instance_at w' j = Some r' \<and> row_step_names r' = Some names \<and>
      (move (int (length names)))\<^sup>*\<^sup>* (life_of r (events w)) (life_of r' (events w'))"
    if r: "instance_at w j = Some r" "row_step_names r = Some names" for j r names
  proof (cases "j = i")
    case True
    with r assms show ?thesis by (simp add: moved_def)
  next
    case False
    have "row_id r = j" using row_at_SomeD [OF r(1)] by simp
    moreover have "story_of j evs = []" by (rule story_of_other [OF evs(2) False])
    ultimately have "life_of r (events w') = life_of r (events w)" by (simp add: life_of_def evs(1) story_of_append)
    moreover have "instance_at w' j = Some r" using assms False r(1) by (simp add: moved_def)
    ultimately show ?thesis using r(2) by auto
  qed
  with assms evs(1) show ?thesis by (simp add: progress_def moved_def)
qed

lemma progress_inv:
  assumes "saga_inv w" "progress w w'"
  shows "saga_inv w'"
proof -
  have ids: "map row_id (rows w') = map row_id (rows w)" using assms(2) by (simp add: progress_def)
  have "\<exists>names. row_step_names r' = Some names \<and> life_ok (int (length names)) (life_of r' (events w'))"
    if r': "instance_at w' i = Some r'" for i r'
  proof -
    obtain r where r: "instance_at w i = Some r" using row_at_None_map [OF ids, of i] r' by (cases "instance_at w i") auto
    with assms(1) obtain names where n: "row_step_names r = Some names" "life_ok (int (length names)) (life_of r (events w))"
      by (auto simp: saga_inv_def)
    with assms(2) r r' have "row_step_names r' = Some names"
      "(move (int (length names)))\<^sup>*\<^sup>* (life_of r (events w)) (life_of r' (events w'))"
      unfolding progress_def by (metis option.inject)+
    with n(2) show ?thesis by (auto dest: moves_ok)
  qed
  with assms(1) ids show ?thesis by (simp add: saga_inv_def)
qed

text \<open>A claim changes no instance's life.\<close>

lemma claim_progress:
  assumes "saga_inv w" "Store_Claim now limit lease lk (rows w) = (res, t)" "rows w' = t" "events w' = events w"
  shows "progress w w'"
proof -
  have d: "distinct (map row_id (rows w))" using assms(1) by (simp add: saga_inv_def)
  consider "t = rows w"
    | p where "t = sql_update p (leased_row lease now) (rows w)"
    using Store_Claim_cases [OF d assms(2)] by blast
  then show ?thesis
  proof cases
    case 1
    then show ?thesis using assms(3,4) by (simp add: progress_def)
  next
    case 2
    have at: "instance_at w' i = map_option (\<lambda>r. if p r then leased_row lease now r else r) (instance_at w i)" for i
      unfolding assms(3) 2 by (rule instances.at_update) simp
    have "map row_id t = map row_id (rows w)" unfolding 2 by (rule instances.pk_update) simp
    moreover have "life_of (leased_row lease now r) evs = life_of r evs" for r evs by (simp add: life_of_def)
    ultimately show ?thesis using assms(3,4) at by (auto simp: progress_def)
  qed
qed

lemma claimed_synced:
  assumes "saga_inv w" "Store_Claim now limit lease lk (rows w) = (Inr claimed, t)" "rows w' = t"
  shows "distinct (map inst_ID claimed)"
    and "inst \<in> set claimed \<Longrightarrow> synced inst w' \<and> inst_Status inst \<in> set activeStatuses"
proof -
  let ?ids = "map row_id (due_instances now limit lk (rows w))"
  have d: "distinct (map row_id (rows w))" using assms(1) by (simp add: saga_inv_def)
  consider "claimed = []"
    | p where "t = sql_update p (leased_row lease now) (rows w)"
        "map Inr claimed = map recordFromRow (ListSagaInstancesByIDs ?ids t)"
    using Store_Claim_cases [OF d assms(2)] by auto
  then have "distinct (map inst_ID claimed) \<and>
      (inst \<in> set claimed \<longrightarrow> synced inst w' \<and> inst_Status inst \<in> set activeStatuses)" for inst
  proof cases
    case 2
    have d': "distinct (map row_id t)" unfolding 2(1) using d by (intro instances.distinct_update) simp_all
    have "synced inst w' \<and> inst_Status inst \<in> set activeStatuses" if inst: "inst \<in> set claimed"
    proof -
      obtain r where r: "row_at row_id t (inst_ID inst) = Some r" "recordFromRow r = Inr inst" "activeStatusGuard r"
        using claimed_records(2) [OF d' 2(2) inst] by blast
      then show ?thesis using recordFromRow_Inr [OF r(2)] assms(3) by (auto simp: synced_def activeStatusGuard_def)
    qed
    then show ?thesis using claimed_records(1) [OF d' 2(2)] by blast
  qed simp
  then show "distinct (map inst_ID claimed)"
    and "inst \<in> set claimed \<Longrightarrow> synced inst w' \<and> inst_Status inst \<in> set activeStatuses" by auto
qed

text \<open>A row that is not due, or that another transaction holds, is neither changed nor handed out by a claim.\<close>

lemma claim_keeps:
  assumes "distinct (map row_id t)" "Store_Claim now limit lease lk t = (res, t')"
    and "row_at row_id t i = Some r" "\<not> (claimable_row now r \<and> \<not> lk i)"
  shows "row_at row_id t' i = Some r" "res = Inr claimed \<Longrightarrow> i \<notin> inst_ID ` set claimed"
proof -
  let ?ids = "row_id ` set (due_instances now limit lk t)"
  let ?u = "sql_update (\<lambda>r. row_id r \<in> ?ids) (leased_row lease now) t"
  have r: "r \<in> set t" "row_id r = i" using row_at_SomeD [OF assms(3)] by auto
  have nd: "row_id r \<notin> ?ids" using due_row [OF assms(1) r(1)] assms(4) r(2) by blast
  have at: "row_at row_id ?u i = Some r" by (subst instances.at_update) (use assms(3) nd in auto)
  have c: "(t' = t \<and> (\<forall>claimed. res = Inr claimed \<longrightarrow> claimed = [])) \<or>
      (\<exists>claimed. res = Inr claimed \<and> t' = ?u \<and>
         map Inr claimed = map recordFromRow (ListSagaInstancesByIDs (map row_id (due_instances now limit lk t)) t'))"
    by (rule Store_Claim_cases [OF assms(1,2)])
  then show "row_at row_id t' i = Some r" using assms(3) at by auto
  assume res: "res = Inr claimed"
  show "i \<notin> inst_ID ` set claimed"
  proof
    assume "i \<in> inst_ID ` set claimed"
    then obtain inst where inst: "inst \<in> set claimed" "inst_ID inst = i" by auto
    with c res have u: "t' = ?u" "map Inr claimed = map recordFromRow (ListSagaInstancesByIDs (map row_id (due_instances now limit lk t)) t')"
      by auto
    have d': "distinct (map row_id t')" unfolding u(1) using assms(1) by (intro instances.distinct_update) simp_all
    obtain s where "row_at row_id t' i = Some s" "row_id s \<in> set (map row_id (due_instances now limit lk t))"
      using claimed_records(2) [OF d' u(2) inst(1)] inst(2) by blast
    with at u(1) nd r(2) show False by auto
  qed
qed

text \<open>Advancing a batch of different instances: each makes progress, and every other row stays as it was.\<close>

lemma fold_advance:
  assumes "publisher env = Some pb" "wf_registry vis reg" "saga_inv w" "distinct (map inst_ID claimed)"
    and "\<And>inst. inst \<in> set claimed \<Longrightarrow> synced inst w \<and> inst_Status inst \<in> set activeStatuses"
  shows "progress w (fold (advance env cfg reg) claimed w) \<and>
    (\<forall>j. j \<notin> inst_ID ` set claimed \<longrightarrow> instance_at (fold (advance env cfg reg) claimed w) j = instance_at w j)"
  using assms(3-5)
proof (induction claimed arbitrary: w)
  case (Cons inst claimed)
  let ?w' = "advance env cfg reg inst w"
  have m: "moved (inst_ID inst) w ?w'"
    using advance_moved [OF assms(1) _ Cons.prems(1) _ assms(2)] Cons.prems(3) [of inst] by simp
  then have "saga_inv ?w'" using Cons.prems(1) moved_inv by blast
  moreover have "synced i ?w' \<and> inst_Status i \<in> set activeStatuses" if "i \<in> set claimed" for i
  proof -
    have "inst_ID i \<noteq> inst_ID inst" using that Cons.prems(2) by (metis distinct.simps(2) image_eqI list.map(2) list.set_map)
    with that Cons.prems(3) [of i] show ?thesis using moved_synced [OF m] by simp
  qed
  ultimately have "progress ?w' (fold (advance env cfg reg) claimed ?w') \<and>
      (\<forall>j. j \<notin> inst_ID ` set claimed \<longrightarrow> instance_at (fold (advance env cfg reg) claimed ?w') j = instance_at ?w' j)"
    using Cons.IH Cons.prems(2) by simp
  moreover have "progress w ?w'" by (rule moved_progress [OF m])
  ultimately show ?case using m by (auto simp: moved_def intro: progress_trans)
qed simp

lemma cycle_effect:
  assumes "publisher env = Some pb" "wf_registry vis reg" "saga_inv w"
  shows "progress w (cycle env cfg reg lk w) \<and>
    (\<forall>i r. instance_at w i = Some r \<longrightarrow> \<not> (claimable_row (fst (Now env w)) r \<and> \<not> lk i) \<longrightarrow>
       instance_at (cycle env cfg reg lk w) i = Some r)"
proof -
  let ?now = "fst (Now env w)" and ?w = "next_unit (snd (Now env w))"
  obtain res t where c: "Store_Claim ?now (wc_BatchSize cfg) (?now + wc_LeaseDuration cfg) lk (rows w) = (res, t)"
    by (cases "Store_Claim ?now (wc_BatchSize cfg) (?now + wc_LeaseDuration cfg) lk (rows w)")
  have p: "progress w (?w\<lparr>rows := t\<rparr>)" by (rule claim_progress [OF assms(3) c]) simp_all
  have d: "distinct (map row_id (rows w))" using assms(3) by (simp add: saga_inv_def)
  note kept = claim_keeps [OF d c]
  show ?thesis
  proof (cases "db_fault env (units (snd (Now env w)))")
    case (Some e)
    then show ?thesis by (simp add: cycle_def Let_def case_prod_beta progress_def)
  next
    case None
    show ?thesis
    proof (cases res)
      case (Inl e)
      with None c p kept show ?thesis by (simp add: cycle_def Let_def case_prod_beta)
    next
      case (Inr claimed)
      have cs: "Store_Claim ?now (wc_BatchSize cfg) (?now + wc_LeaseDuration cfg) lk (rows w) = (Inr claimed, t)"
        using c Inr by simp
      have "rows (?w\<lparr>rows := t\<rparr>) = t" by simp
      note sy = claimed_synced [OF assms(3) cs this]
      let ?w' = "fold (advance env cfg reg) claimed (?w\<lparr>rows := t\<rparr>)"
      have f: "progress (?w\<lparr>rows := t\<rparr>) ?w' \<and>
          (\<forall>j. j \<notin> inst_ID ` set claimed \<longrightarrow> instance_at ?w' j = instance_at (?w\<lparr>rows := t\<rparr>) j)"
        by (rule fold_advance [OF assms(1,2) progress_inv [OF assms(3) p] sy])
      have "cycle env cfg reg lk w = ?w'" using None c Inr by (simp add: cycle_def Let_def case_prod_beta)
      moreover have "progress w ?w'" using p f progress_trans by blast
      moreover have "instance_at ?w' i = Some r"
        if "instance_at w i = Some r" "\<not> (claimable_row ?now r \<and> \<not> lk i)" for i r
        using f kept(1) [OF that] kept(2) [OF that, of claimed] Inr by simp
      ultimately show ?thesis by simp
    qed
  qed
qed

section \<open>Starting, resuming, retiring\<close>

lemma new_record_simps [simp]:
  "inst_ID (new_record i name def state now) = i" "inst_Definition (new_record i name def state now) = name"
  "inst_StepNames (new_record i name def state now) = def_stepNames def"
  "inst_State (new_record i name def state now) = state" "inst_Status (new_record i name def state now) = StatusRunning"
  by (simp_all add: new_record_def)

lemma start_Inr:
  assumes "start env c reg i name initial w = (Inr inst, w')" "publisher env = Some pb"
  obtains def state rec where "lookup reg name = Some def" "def_stateType def = type_name c"
    "marshal c initial = Inr state" "i \<notin> row_id ` set (rows w)"
    "rec = new_record i name def state (clock_at env (ticks w))" "decodeInstance c rec = Inr inst"
    "rows w' = rows w @ [insertParams rec (clock_at env (ticks w) + def_delays def ! 0)]"
    "events w' = events w @ [newEvent EventStarted rec (def_stepNames def ! 0) 0 (clock_at env (ticks w)) []]"
  using assms
  by (auto simp: start_def definitionFor_def Let_def case_prod_beta db_write_def Store_Save_def publish_def Now_def next_unit_def
      split: option.splits sum.splits if_splits prod.splits)

lemma new_row_life:
  assumes "0 < length (def_stepNames def)" "story_of i evs = []"
  shows "life_ok (int (length (def_stepNames def)))
    (life_of (insertParams (new_record i name def state now) nxt)
       (evs @ [newEvent EventStarted (new_record i name def state now) s 0 now []]))"
  using assms
  by (simp add: life_ok_def life_of_def insertParams_def new_record_def story_of_append)
    (simp add: story_of_def newEvent_def forward_def)

lemma start_inv:
  assumes "saga_inv w" "start env c reg i name initial w = (Inr inst, w')" "publisher env = Some pb" "wf_registry vis reg"
    and fresh: "i \<notin> ev_InstanceID ` set (events w)"
  shows "saga_inv w'"
proof -
  define now where "now = clock_at env (ticks w)"
  obtain def state rec where s: "lookup reg name = Some def"
    "i \<notin> row_id ` set (rows w)" "rec = new_record i name def state now" "rows w' = rows w @ [insertParams rec (now + def_delays def ! 0)]"
    "events w' = events w @ [newEvent EventStarted rec (def_stepNames def ! 0) 0 now []]"
    by (rule start_Inr [OF assms(2,3), folded now_def]) (rule that)
  define nxt where "nxt = now + def_delays def ! 0"
  let ?r = "insertParams rec nxt"
  have n: "0 < length (def_stepNames def)" using assms(4) s(1) by (auto simp: wf_registry_def lookup_def wf_definition_def steps_def)
  have none: "story_of i (events w) = []" using fresh by (auto simp: story_of_def filter_empty_conv)
  have id: "row_id ?r = i" "row_step_names ?r = Some (def_stepNames def)" by (simp_all add: s(3) insertParams_def new_record_def)
  have at: "instance_at w' j = (if j = i then Some ?r else instance_at w j)" for j
    using s(2) id(1) unfolding s(4) nxt_def [symmetric] by (simp add: row_at_snoc)
  have old: "story_of j (events w') = story_of j (events w)" if "j \<noteq> i" for j
    using that by (simp add: s(3,5) story_of_append) (simp add: story_of_def newEvent_def new_record_def)
  have "\<exists>names. row_step_names r = Some names \<and> life_ok (int (length names)) (life_of r (events w'))"
    if r: "instance_at w' j = Some r" for j r
  proof (cases "j = i")
    case True
    with r at have "r = ?r" by simp
    with new_row_life [OF n none, of name state now nxt "def_stepNames def ! 0"] id(2) show ?thesis by (simp add: s(3,5))
  next
    case False
    have "row_id r = j" using row_at_SomeD [OF r] by simp
    then have "life_of r (events w') = life_of r (events w)" using old [OF False] by (simp add: life_of_def)
    then show ?thesis using r at False assms(1) by (auto simp: saga_inv_def)
  qed
  moreover have "distinct (map row_id (rows w'))" using assms(1) s(2) id(1) by (simp add: saga_inv_def s(4) nxt_def)
  ultimately show ?thesis by (simp add: saga_inv_def)
qed

lemma rolled_back_simps [simp]: "rows (rolled_back w0 w) = rows w0" "events (rolled_back w0 w) = events w0"
  by (simp_all add: rolled_back_def)

lemma saga_inv_same: "saga_inv w \<Longrightarrow> rows w' = rows w \<Longrightarrow> events w' = events w \<Longrightarrow> saga_inv w'"
  by (simp add: saga_inv_def)

lemma Start_cases:
  obtains e w' where "Start env c reg i name initial w = (Inl e, w')" "rows w' = rows w" "events w' = events w"
  | inst w' where "Start env c reg i name initial w = (Inr inst, next_unit w')"
      "start env c reg i name initial w = (Inr inst, w')"
  by (cases "start env c reg i name initial w"; cases "fst (start env c reg i name initial w)";
      cases "db_fault env (units (snd (start env c reg i name initial w)))")
    (auto simp: Start_def)

lemma Start_inv:
  assumes "saga_inv w" "publisher env = Some pb" "wf_registry vis reg" "i \<notin> ev_InstanceID ` set (events w)"
  shows "saga_inv (snd (Start env c reg i name initial w))"
proof (cases rule: Start_cases [of env c reg i name initial w])
  case (1 e w')
  then show ?thesis using saga_inv_same [OF assms(1)] by simp
next
  case (2 inst w')
  then show ?thesis using saga_inv_same [OF start_inv [OF assms(1) 2(2) assms(2-4)]] by simp
qed

text \<open>In a reachable world a stuck instance remembers an active phase, so the fallback of \<open>resume_target\<close> is not taken.\<close>

lemma stuck_target:
  assumes "life_ok n (life_of r evs)" "row_status r = StatusStuck" "recordFromRow r = Inr rec"
  shows "resume_target rec = row_resume_status r"
  using assms recordFromRow_Inr [OF assms(3)]
  by (cases "row_resume_status r") (auto simp: life_ok_def life_of_def resume_target_def)

lemma Store_Get_at:
  assumes "Store_Get i t = Inr rec" "distinct (map row_id t)"
  shows "\<exists>r. row_at row_id t i = Some r \<and> recordFromRow r = Inr rec \<and> row_archived_at r = None"
proof -
  from assms(1) obtain r where r: "find (\<lambda>r. row_archived_at r = None \<and> row_id r = i) t = Some r" "recordFromRow r = Inr rec"
    by (auto simp: Store_Get_def split: option.splits)
  then have "r \<in> set t" "row_archived_at r = None" "row_id r = i" by (auto simp: find_Some_iff)
  with r(2) assms(2) row_at_distinct show ?thesis by fast
qed

text \<open>What a resumption that got past its checks found and wrote.\<close>

lemma Resume_cases:
  obtains (unchanged) "rows (snd (Resume env c reg i w)) = rows w" "events (snd (Resume env c reg i w)) = events w"
      "isl (fst (Resume env c reg i w))"
  | (requeued) rec def now where "Store_Get i (rows w) = Inr rec" "inst_Status rec = StatusStuck"
      "lookup reg (inst_Definition rec) = Some def" "def_stepNames def = inst_StepNames rec"
      "rows (snd (Resume env c reg i w)) =
         sql_update (\<lambda>r. idPredicate i r \<and> row_status r = StatusStuck) (RequeueSagaInstance (resume_target rec) now) (rows w)"
      "events (snd (Resume env c reg i w)) = events w"
proof (cases "read_instance env i w")
  case (Pair a w1)
  then have w1: "w1 = next_unit w" by (auto simp: read_instance_def split: option.splits)
  show thesis
  proof (cases a)
    case (Inl e)
    with Pair w1 show thesis by (intro unchanged) (simp_all add: Resume_def)
  next
    case (Inr rec)
    with Pair have g: "Store_Get i (rows w) = Inr rec" by (auto simp: read_instance_def split: option.splits)
    show thesis
    proof (cases "\<exists>def. inst_Status rec = StatusStuck \<and> definitionFor c reg (inst_Definition rec) = Inr def \<and>
        def_stepNames def = inst_StepNames rec \<and> db_fault env (units (snd (Now env w1))) = None")
      case False
      with Pair Inr w1 show thesis
        by (intro unchanged)
          (auto simp: Resume_def Let_def case_prod_beta split: sum.splits option.splits)
    next
      case True
      then obtain def where d: "inst_Status rec = StatusStuck" "definitionFor c reg (inst_Definition rec) = Inr def"
        "def_stepNames def = inst_StepNames rec" "db_fault env (units (snd (Now env w1))) = None" by blast
      have l: "lookup reg (inst_Definition rec) = Some def" using d(2) by (auto simp: definitionFor_def split: option.splits if_splits)
      let ?t = "sql_update (\<lambda>r. idPredicate i r \<and> row_status r = StatusStuck)
        (RequeueSagaInstance (resume_target rec) (fst (Now env w1))) (rows w)"
      show thesis
      proof (cases "sql_count (\<lambda>r. idPredicate i r \<and> row_status r = StatusStuck) (rows w) = 0")
        case True
        with Pair Inr w1 d show thesis
          by (intro unchanged) (simp_all add: Resume_def Let_def case_prod_beta Store_Requeue_def guarded_update_def)
      next
        case False
        with Pair Inr w1 d have "rows (snd (Resume env c reg i w)) = ?t" "events (snd (Resume env c reg i w)) = events w"
          by (auto simp: Resume_def Let_def case_prod_beta Store_Requeue_def guarded_update_def split: sum.split)
        with g d l show thesis by (intro requeued)
      qed
    qed
  qed
qed

lemma Resume_moved:
  assumes "saga_inv w"
  shows "moved i w (snd (Resume env c reg i w))"
proof (cases rule: Resume_cases [where env = env and c = c and reg = reg and i = i and w = w])
  case unchanged
  then show ?thesis by (intro moved_same)
next
  case (requeued rec def now)
  have d: "distinct (map row_id (rows w))" using assms by (simp add: saga_inv_def)
  from Store_Get_at [OF requeued(1) d] obtain r where r: "instance_at w i = Some r" "recordFromRow r = Inr rec" by blast
  with assms obtain names where n: "row_step_names r = Some names" "life_ok (int (length names)) (life_of r (events w))"
    by (auto simp: saga_inv_def)
  have st: "row_status r = StatusStuck" using recordFromRow_Inr [OF r(2)] requeued(2) by simp
  have "life_of (RequeueSagaInstance (resume_target rec) now r) (events w) =
      (life_of r (events w))\<lparr>life_status := life_resume (life_of r (events w)), life_resume := no_status\<rparr>"
    using stuck_target [OF n(2) st r(2)] by (simp add: life_of_def RequeueSagaInstance_def)
  then have mv: "move (int (length names)) (life_of r (events w)) (life_of (RequeueSagaInstance (resume_target rec) now r) (events w))"
    using mv_resume [of "life_of r (events w)"] st by (simp add: life_of_def)
  show ?thesis
    by (rule moved_update [OF requeued(5), where evs = "[]"])
      (use requeued(6) r(1) n(1) mv in \<open>auto simp: idPredicate_def RequeueSagaInstance_def\<close>)
qed

lemma Sweep_rows:
  "snd (Sweep status cutoff limit lk t) = sql_delete (\<lambda>r. row_id r \<in> row_id ` set (sql_top limit
     (\<lambda>r. (case row_last_updated_at r of None \<Rightarrow> 0 | Some u \<Rightarrow> u, row_id r))
     (\<lambda>r. retiredMatches status cutoff r \<and> \<not> lk (row_id r)) t)) t"
  by (simp add: Sweep_def Let_def)

lemma Sweep_inv:
  assumes "saga_inv w" "rows w' = snd (Sweep status cutoff limit lk (rows w))" "events w' = events w"
  shows "saga_inv w'"
  using assms unfolding saga_inv_def Sweep_rows
  by (auto simp: instances.at_delete intro!: instances.distinct_delete split: option.splits if_splits)

section \<open>The system\<close>

definition saga_init :: "saga_world \<Rightarrow> bool" where
  "saga_init w \<longleftrightarrow> rows w = [] \<and> events w = []"

text \<open>
  Workers, runners and the retention sweep interleave freely. A worker's claim and its pass over one
  claimed instance are separate steps, so any number of workers may be between the two; what a pass
  needs of the others is that its copy of the instance is still the row's, which the lease and the
  per-instance lock are there to give. An identifier that a start mints has not been used before. Runners
  share one state type \<open>'t\<close>, which may be a sum of the application's.
\<close>

inductive saga_step :: "'t itself \<Rightarrow> saga_world \<Rightarrow> saga_world \<Rightarrow> bool" for T :: "'t itself" where
  st_claim: "Store_Claim now limit lease lk (rows w) = (res, t) \<Longrightarrow> rows w' = t \<Longrightarrow> events w' = events w \<Longrightarrow> saga_step T w w'"
| st_advance: "publisher env = Some pb \<Longrightarrow> wf_registry vis reg \<Longrightarrow> synced inst w \<Longrightarrow> inst_Status inst \<in> set activeStatuses \<Longrightarrow>
    saga_step T w (advance env cfg reg inst w)"
| st_start: "publisher env = Some pb \<Longrightarrow> wf_registry vis reg \<Longrightarrow> i \<notin> ev_InstanceID ` set (events w) \<Longrightarrow>
    saga_step T w (snd (Start env (c :: 't codec) reg i name initial w))"
| st_start_tx: "publisher env = Some pb \<Longrightarrow> wf_registry vis reg \<Longrightarrow> i \<notin> ev_InstanceID ` set (events w) \<Longrightarrow>
    StartInTransaction env (c :: 't codec) reg i name initial w = (Inr inst, w') \<Longrightarrow> saga_step T w w'"
| st_resume: "saga_step T w (snd (Resume env (c :: 't codec) reg i w))"
| st_sweep: "RetentionTarget_Validate dv pe status = Inr () \<Longrightarrow>
    saga_step T w (w\<lparr>rows := snd (Sweep status cutoff limit lk (rows w))\<rparr>)"
| st_idle: "rows w' = rows w \<Longrightarrow> events w' = events w \<Longrightarrow> saga_step T w w'"

lemma saga_step_inv:
  assumes "saga_step T w w'" "saga_inv w"
  shows "saga_inv w'"
  using assms
proof (induction rule: saga_step.induct)
  case (st_claim now limit lease lk w res t w')
  then show ?case using claim_progress progress_inv by blast
next
  case (st_advance env pb vis reg inst w cfg)
  then show ?case using advance_moved moved_inv by blast
next
  case (st_start env pb vis reg i w c name initial)
  then show ?case by (intro Start_inv)
next
  case (st_start_tx env pb vis reg i w c name initial inst w')
  then show ?case using start_inv by (metis StartInTransaction_def)
next
  case (st_resume w env c reg i)
  then show ?case using Resume_moved moved_inv by blast
next
  case (st_sweep status w cutoff limit lk)
  then show ?case by (intro Sweep_inv [OF st_sweep(2)]) simp_all
next
  case (st_idle w' w)
  then show ?case using saga_inv_same by blast
qed

interpretation sagas: invariant_system saga_init "saga_step T" saga_inv
proof unfold_locales
  show "saga_init s \<Longrightarrow> saga_inv s" for s by (simp add: saga_init_def saga_inv_def)
qed (rule saga_step_inv)

text \<open>A worker's cycle is a run of those steps.\<close>

lemma fold_advance_steps:
  assumes "publisher env = Some pb" "wf_registry vis reg" "saga_inv w" "distinct (map inst_ID claimed)"
    and "\<And>inst. inst \<in> set claimed \<Longrightarrow> synced inst w \<and> inst_Status inst \<in> set activeStatuses"
  shows "(saga_step T)\<^sup>*\<^sup>* w (fold (advance env cfg reg) claimed w)"
  using assms(3-5)
proof (induction claimed arbitrary: w)
  case (Cons inst claimed)
  let ?w' = "advance env cfg reg inst w"
  have s: "saga_step T w ?w'" using assms(1,2) Cons.prems(3) [of inst] by (auto intro: st_advance)
  have m: "moved (inst_ID inst) w ?w'"
    using advance_moved [OF assms(1) _ Cons.prems(1) _ assms(2)] Cons.prems(3) [of inst] by simp
  have "synced i ?w' \<and> inst_Status i \<in> set activeStatuses" if "i \<in> set claimed" for i
    using that Cons.prems(2,3) moved_synced [OF m, of i] by (auto simp: image_iff)
  then have "(saga_step T)\<^sup>*\<^sup>* ?w' (fold (advance env cfg reg) claimed ?w')"
    using Cons.IH [of ?w'] Cons.prems(2) moved_inv [OF Cons.prems(1) m] by simp
  with s show ?case by (simp add: converse_rtranclp_into_rtranclp)
qed simp

end
