(* ===== verification/Saga_Laws.thy ===== *)
theory Saga_Laws
  imports Saga_System
begin

text \<open>
  The properties of sagas: the history of every reachable instance, the refinement of a worker's
  cycle to the lifecycle, and what each operation of the worker, the runner and retention promises.
\<close>

section \<open>A concrete system for the witnesses\<close>

definition demo_registry :: Registry where
  "demo_registry = snd (Register demo_visible demo_codec demo_definition (\<lambda>_. None))"

definition demo_env :: saga_env where
  "demo_env = \<lparr>clock_at = int, db_fault = (\<lambda>_. None), publisher = Some (\<lambda>_. None), idempotency = None,
     lock_answer = (\<lambda>_. LockAcquired), delayFor = (\<lambda>_ _. 5 * Second), render = (\<lambda>_. ''failed''), truncateErr = take 1024\<rparr>"

definition demo_cfg :: WorkerConfig where
  "demo_cfg = WorkerConfig_EnsureDefaults (\<lambda>b. if MaxAttempts b = 0 then b\<lparr>MaxAttempts := 3\<rparr> else b)
     \<lparr>wc_LockKeyPrefix = [], wc_IdempotencyKeyPrefix = [], wc_Backoff = \<lparr>MaxAttempts = 0\<rparr>,
      wc_CompensationBackoff = \<lparr>MaxAttempts = 0\<rparr>, wc_PollInterval = 0, wc_StatsInterval = 0, wc_LeaseDuration = 0,
      wc_LockTTL = 0, wc_AdvanceTimeout = 0, wc_StepTimeout = 0, wc_BatchSize = 0, wc_Concurrency = 0\<rparr>"

definition empty_world :: saga_world where
  "empty_world = \<lparr>rows = [], events = [], runs = [], ticks = 0, units = 0\<rparr>"

definition demo_started :: saga_world where
  "demo_started = snd (Start demo_env demo_codec demo_registry ''s1'' ''order'' 0 empty_world)"

definition demo_done :: saga_world where
  "demo_done = cycle demo_env demo_cfg demo_registry (\<lambda>_. False) demo_started"

section \<open>History\<close>

lemma demo_wf: "wf_registry demo_visible demo_registry"
proof -
  have "validateDefinition demo_visible demo_definition = Inr ()" by code_simp
  from bind_definition_wf [OF this, of demo_codec] show ?thesis
    unfolding demo_registry_def Register_def \<open>validateDefinition demo_visible demo_definition = Inr ()\<close>
    by (simp add: wf_registry_def) (simp add: demo_definition_def)
qed

lemma demo_publisher: "publisher demo_env = Some (\<lambda>_. None)"
  by (simp add: demo_env_def)

lemma reach_started: "reach saga_init (saga_step TYPE(nat)) demo_started"
proof (rule reach_step)
  show "reach saga_init (saga_step TYPE(nat)) empty_world"
    by (rule reach_init) (simp add: saga_init_def empty_world_def)
  show "saga_step TYPE(nat) empty_world demo_started"
    unfolding demo_started_def by (rule st_start [OF demo_publisher demo_wf]) (simp add: empty_world_def)
qed



text \<open>
  C9: A worker's cycle refines the abstract lifecycle. Whatever the clock, the steps, the locks and
  the database do, what a cycle does to any instance is a sequence of moves of the lifecycle (a step
  done, completion, failure, a step undone, unwound, stuck), events are only appended, and no row
  appears or disappears.
\<close>

theorem cycle_refines_lifecycle:
  assumes "reach saga_init (saga_step T) w" "publisher env = Some pb" "wf_registry vis reg"
  shows "progress w (cycle env cfg reg lk w)"
  using cycle_effect [OF assms(2,3) sagas.reach_inv [OF assms(1)]] by blast

theorem cycle_refines_lifecycle_witness:
  "progress demo_started demo_done \<and> map row_status (rows demo_done) = [StatusCompleted]"
proof
  show "progress demo_started demo_done"
    unfolding demo_done_def by (rule cycle_refines_lifecycle [OF reach_started demo_publisher demo_wf])
  show "map row_status (rows demo_done) = [StatusCompleted]" by code_simp
qed

text \<open>
  A cycle touches only instances that were due when it looked: a row that is finished or stuck,
  whose next attempt is still ahead, whose lease another worker holds, or that another transaction has
  locked is after the cycle exactly what it was before.
\<close>

theorem cycle_touches_only_due:
  assumes "reach saga_init (saga_step T) w" "publisher env = Some pb" "wf_registry vis reg"
    and "instance_at w i = Some r" "\<not> (claimable_row (fst (Now env w)) r \<and> \<not> lk i)"
  shows "instance_at (cycle env cfg reg lk w) i = Some r"
  using cycle_effect [OF assms(2,3) sagas.reach_inv [OF assms(1)]] assms(4,5) by blast

theorem cycle_touches_only_due_witness:
  "instance_at (cycle demo_env demo_cfg demo_registry (\<lambda>_. True) demo_started) ''s1'' = Some (hd (rows demo_started))"
proof -
  have "instance_at demo_started ''s1'' = Some (hd (rows demo_started))" by code_simp
  from cycle_touches_only_due [OF reach_started demo_publisher demo_wf this, of "\<lambda>_. True" demo_cfg] show ?thesis by simp
qed

section \<open>Claiming\<close>

text \<open>
  No due instance is passed over, and a worker that dies loses it only for its lease. A claim with
  room for everything that is due (and step lists that parse) hands out every active instance whose
  next attempt has come and whose lease is unset or over, one attempt charged and leased until the
  new time; once that time has passed with nothing else having happened, the instance is due again.
\<close>

theorem due_instance_is_claimed:
  assumes "distinct (map row_id t)" "row_at row_id t i = Some r" "claimable_row now r" "\<not> lk i"
    and "int (length (filter (claimable_row now) t)) \<le> limit" "list_all (\<lambda>r. row_step_names r \<noteq> None) t"
  shows "\<exists>claimed t' inst. Store_Claim now limit lease lk t = (Inr claimed, t') \<and> inst \<in> set claimed \<and>
    inst_ID inst = i \<and> inst_Attempts inst = row_attempts r + 1 \<and>
    (\<exists>r'. row_at row_id t' i = Some r' \<and> row_claimed_until r' = Some lease \<and>
       (claimable_row later r' \<longleftrightarrow> lease \<le> later \<and> row_next_attempt r \<le> later))"
proof -
  let ?due = "due_instances now limit lk t" and ?ids = "map row_id (due_instances now limit lk t)"
  let ?t' = "ClaimSagaInstances lease now ?ids t"
  have r: "r \<in> set t" "row_id r = i" using row_at_SomeD [OF assms(2)] by auto
  have "length (filter (\<lambda>r. claimable_row now r \<and> \<not> lk (row_id r)) t) \<le> length (filter (claimable_row now) t)"
    by (induction t) auto
  then have "set ?due = set (filter (\<lambda>r. claimable_row now r \<and> \<not> lk (row_id r)) t)"
    using assms(5) by (simp add: due_instances_def sql_top_def)
  then have rd: "i \<in> set ?ids" using r assms(3,4) by force
  then have lim: "0 < limit" by (cases "0 < limit") (auto simp: due_instances_def sql_top_def)
  have u: "?t' = sql_update (\<lambda>r. row_id r \<in> row_id ` set ?due) (leased_row lease now) t"
    by (rule ClaimSagaInstances_due [OF assms(1)])
  have at: "row_at row_id ?t' i = Some (leased_row lease now r)"
    unfolding u by (subst instances.at_update) (use assms(2) r(2) rd in auto)
  let ?conv = "\<lambda>r. projr (recordFromRow r)"
  let ?claimed = "map ?conv (ListSagaInstancesByIDs ?ids ?t')"
  have "recordFromRow s = Inr (?conv s)" if s: "s \<in> set (ListSagaInstancesByIDs ?ids ?t')" for s
  proof -
    from s have "s \<in> set ?t'" by (simp add: ListSagaInstancesByIDs_def)
    then obtain s0 where "s0 \<in> set t" "row_step_names s = row_step_names s0" unfolding u by (auto simp: set_sql_update)
    then have "row_step_names s \<noteq> None" using assms(6) by (auto simp: list_all_iff)
    then show ?thesis by (auto simp: recordFromRow_def split: option.split)
  qed
  then have "try_map recordFromRow (ListSagaInstancesByIDs ?ids ?t') = Inr ?claimed" by (rule try_map_total)
  moreover have "?ids \<noteq> []" "ClaimableSagaInstanceIDs now limit lk t = ?ids"
    using rd by (auto simp: ClaimableSagaInstanceIDs_def due_instances_def)
  ultimately have c: "Store_Claim now limit lease lk t = (Inr ?claimed, ?t')" using lim by (simp add: Store_Claim_def Let_def)
  have "leased_row lease now r \<in> set (ListSagaInstancesByIDs ?ids ?t')"
    using row_at_SomeD [OF at] rd assms(3) by (auto simp: ListSagaInstancesByIDs_def claimable_row_def activeStatusGuard_def)
  then have m: "?conv (leased_row lease now r) \<in> set ?claimed" unfolding set_map by (rule imageI)
  have "row_step_names r \<noteq> None" using assms(6) r(1) by (auto simp: list_all_iff)
  then have "inst_ID (?conv (leased_row lease now r)) = i" "inst_Attempts (?conv (leased_row lease now r)) = row_attempts r + 1"
    using r(2) by (auto simp: recordFromRow_def leased_row_def)
  moreover have "claimable_row later (leased_row lease now r) \<longleftrightarrow> lease \<le> later \<and> row_next_attempt r \<le> later"
    using assms(3) by (auto simp: claimable_row_def activeStatusGuard_def leased_row_def)
  moreover have "row_claimed_until (leased_row lease now r) = Some lease" by (simp add: leased_row_def)
  ultimately show ?thesis using c m at by blast
qed

theorem due_instance_is_claimed_witness:
  "\<exists>claimed t' inst. Store_Claim 10 5 300 (\<lambda>_. False) (rows demo_started) = (Inr claimed, t') \<and> inst \<in> set claimed \<and>
     inst_ID inst = ''s1'' \<and> (\<exists>r'. row_at row_id t' ''s1'' = Some r' \<and> claimable_row 300 r')"
proof -
  let ?t = "rows demo_started" and ?r = "hd (rows demo_started)"
  have 1: "distinct (map row_id ?t)" by code_simp
  have 2: "row_at row_id ?t ''s1'' = Some ?r" by code_simp
  have 3: "claimable_row 10 ?r" by code_simp
  have 4: "int (length (filter (claimable_row 10) ?t)) \<le> 5" by code_simp
  have 5: "list_all (\<lambda>r. row_step_names r \<noteq> None) ?t" by code_simp
  have 6: "row_next_attempt ?r \<le> 300" by code_simp
  from due_instance_is_claimed [OF 1 2 3 _ 4 5, of "\<lambda>_. False" 300 300] 6 show ?thesis by auto
qed

section \<open>Resuming\<close>

text \<open>
  Resuming acts on stuck instances only, and back into the phase they stopped in. Whatever a
  resumption returns, either nothing changed, or the instance was stuck, its definition is registered
  here with exactly the steps it started with, and its row is now in the phase it remembered (an
  instance stuck while compensating never goes forward again) with a fresh budget and no lease, so
  that any worker may claim it from that moment on.
\<close>

theorem Resume_effect:
  assumes "reach saga_init (saga_step T) w" "Resume env c reg i w = (res, w')"
  shows "(isl res \<and> rows w' = rows w \<and> events w' = events w) \<or>
    (\<exists>r r' def names. instance_at w i = Some r \<and> instance_at w' i = Some r' \<and> row_status r = StatusStuck \<and>
       lookup reg (row_definition r) = Some def \<and> row_step_names r = Some (def_stepNames def) \<and>
       row_status r' = row_resume_status r \<and> row_status r' \<in> set activeStatuses \<and>
       row_current_step r' = row_current_step r \<and> row_attempts r' = 0 \<and> row_claimed_until r' = None \<and>
       (\<forall>now. row_next_attempt r' \<le> now \<longrightarrow> claimable_row now r'))"
proof (cases rule: Resume_cases [where env = env and c = c and reg = reg and i = i and w = w])
  case unchanged
  with assms(2) show ?thesis by simp
next
  case (requeued rec def now)
  note inv = sagas.reach_inv [OF assms(1)]
  then have d: "distinct (map row_id (rows w))" by (simp add: saga_inv_def)
  from Store_Get_at [OF requeued(1) d] obtain r where r: "instance_at w i = Some r" "recordFromRow r = Inr rec" by blast
  with inv obtain names where n: "row_step_names r = Some names" "life_ok (int (length names)) (life_of r (events w))"
    by (auto simp: saga_inv_def)
  note f = recordFromRow_Inr [OF r(2)]
  have st: "row_status r = StatusStuck" using f requeued(2) by simp
  have act: "row_resume_status r \<in> set activeStatuses"
    using n(2) st by (cases "row_resume_status r") (simp_all add: life_ok_def life_of_def activeStatuses_def)
  let ?r = "RequeueSagaInstance (row_resume_status r) now r"
  have "instance_at w' i = Some ?r"
    using requeued(5) assms(2) stuck_target [OF n(2) st r(2)] r(1) st row_at_SomeD [OF r(1)]
    by (simp add: instances.at_update RequeueSagaInstance_def idPredicate_def)
  moreover have "claimable_row later ?r" if "row_next_attempt ?r \<le> later" for later
    using act that by (simp add: claimable_row_def activeStatusGuard_def RequeueSagaInstance_def)
  ultimately show ?thesis using r(1) st act requeued(3,4) f n(1)
    by (intro disjI2 exI [of _ r] exI [of _ ?r] exI [of _ def]) (simp add: RequeueSagaInstance_def)
qed

section \<open>Retention\<close>

text \<open>
  A retention sweep removes only what it may: a target other than completed or compensated is
  refused, and with one of those two each row removed has that status, was last touched at or before the
  cutoff and was not locked; at most a batch goes, the count is reported, and every other row is kept
  as it is.
\<close>

theorem Sweep_only_retired:
  assumes "distinct (map row_id t)" "RetentionTarget_Validate dv pe status = Inr ()" "0 < limit" "Sweep status cutoff limit lk t = (n, t')"
  shows "(status = StatusCompleted \<or> status = StatusCompensated) \<and> n = int (length t - length t') \<and> n \<le> limit \<and>
    (\<forall>i r. row_at row_id t i = Some r \<longrightarrow>
       row_at row_id t' i = Some r \<or> row_at row_id t' i = None \<and> retiredMatches status cutoff r \<and> \<not> lk i)"
proof -
  define D where "D = sql_top limit (\<lambda>r. (case row_last_updated_at r of None \<Rightarrow> 0 | Some u \<Rightarrow> u, row_id r))
    (\<lambda>r. retiredMatches status cutoff r \<and> \<not> lk (row_id r)) t"
  have eq: "n = int (length D)" "t' = sql_delete (\<lambda>r. row_id r \<in> row_id ` set D) t"
    using assms(4) by (auto simp: Sweep_def Let_def D_def)
  have sub: "s \<in> set t \<and> retiredMatches status cutoff s \<and> \<not> lk (row_id s)" if "s \<in> set D" for s
    by (rule set_sql_top [OF that [unfolded D_def]])
  then have D: "set D \<subseteq> set t" by blast
  have "distinct (map row_id D)" unfolding D_def by (rule distinct_map_sql_top [OF assms(1)])
  then have "length t = length t' + length D"
    unfolding eq(2) using length_delete_by_key [OF assms(1) _ D] by (simp add: distinct_map)
  moreover have "row_at row_id t' i = Some r \<or> row_at row_id t' i = None \<and> retiredMatches status cutoff r \<and> \<not> lk i"
    if r: "row_at row_id t i = Some r" for i r
  proof -
    have m: "r \<in> set t" "row_id r = i" using row_at_SomeD [OF r] by auto
    then show ?thesis
      using instances.at_delete [OF assms(1), of "\<lambda>r. row_id r \<in> row_id ` set D" i] r sub [of r] selected_by_key [OF assms(1) D m(1)]
      unfolding eq(2) by auto
  qed
  moreover have "n \<le> limit" using eq(1) assms(3) length_sql_top_le [of limit] by (simp add: D_def le_nat_iff)
  moreover have "status = StatusCompleted \<or> status = StatusCompensated"
    using assms(2) by (simp add: RetentionTarget_Validate_def split: if_splits option.splits)
  ultimately show ?thesis using eq(1) by simp
qed

theorem Sweep_only_retired_witness:
  "Sweep StatusCompleted 1000 5 (\<lambda>_. False) (rows demo_done) = (1, []) \<and> (1 :: int) \<le> 5"
proof -
  have d: "distinct (map row_id (rows demo_done))" by code_simp
  have v: "RetentionTarget_Validate True None StatusCompleted = Inr ()" by code_simp
  have s: "Sweep StatusCompleted 1000 5 (\<lambda>_. False) (rows demo_done) = (1, [])" by code_simp
  from Sweep_only_retired [OF d v _ s] s show ?thesis by simp
qed

text \<open>A world with a stuck instance, for the witness of \<open>Resume_effect\<close>: no definition is registered when the worker comes by.\<close>

definition demo_stuck :: saga_world where
  "demo_stuck = advance demo_env demo_cfg (\<lambda>_. None)
     (case Store_Get ''s1'' (rows demo_started) of Inr rec \<Rightarrow> rec) demo_started"

lemma reach_stuck: "reach saga_init (saga_step TYPE(nat)) demo_stuck"
proof (rule reach_step [OF reach_started])
  let ?rec = "case Store_Get ''s1'' (rows demo_started) of Inr rec \<Rightarrow> rec" and ?r = "hd (rows demo_started)"
  have "instance_at demo_started ''s1'' = Some ?r" "Store_Get ''s1'' (rows demo_started) = recordFromRow ?r"
    "row_status ?r = StatusRunning" "row_step_names ?r = Some [''charge'', ''ship'']" "row_id ?r = ''s1''"
    by code_simp+
  then have "synced ?rec demo_started" "inst_Status ?rec \<in> set activeStatuses"
    by (simp_all add: recordFromRow_def synced_def activeStatuses_def)
  moreover have "wf_registry demo_visible (\<lambda>_. None)" by (simp add: wf_registry_def)
  ultimately show "saga_step TYPE(nat) demo_started demo_stuck"
    unfolding demo_stuck_def by (intro st_advance [OF demo_publisher])
qed

theorem Resume_effect_witness:
  "\<exists>r'. instance_at (snd (Resume demo_env demo_codec demo_registry ''s1'' demo_stuck)) ''s1'' = Some r' \<and>
     row_status r' = StatusRunning \<and> row_claimed_until r' = None"
proof -
  have ok: "\<not> isl (fst (Resume demo_env demo_codec demo_registry ''s1'' demo_stuck))"
    "map_option row_resume_status (instance_at demo_stuck ''s1'') = Some StatusRunning" by code_simp+
  have "Resume demo_env demo_codec demo_registry ''s1'' demo_stuck =
      (fst (Resume demo_env demo_codec demo_registry ''s1'' demo_stuck), snd (Resume demo_env demo_codec demo_registry ''s1'' demo_stuck))"
    by simp
  from Resume_effect [OF reach_stuck this] ok show ?thesis by auto
qed

section \<open>Starting and reading back\<close>

lemma find_snoc: "find P t = None \<Longrightarrow> P r \<Longrightarrow> find P (t @ [r]) = Some r"
  by (induction t) (auto split: if_splits)

lemma recordFromRow_insertParams: "recordFromRow (insertParams inst nxt) = Inr (inst\<lparr>inst_LastUpdatedAt := None\<rparr>)"
  by (cases inst) (simp add: recordFromRow_def insertParams_def stateOrNil_def)



section \<open>Configuration\<close>

lemma int64_id: "- (2 ^ 63) \<le> n \<Longrightarrow> n < 2 ^ 63 \<Longrightarrow> int64 n = n"
  by (simp add: int64_def)



section \<open>Listing\<close>

text \<open>
  A listing always binds five statuses, and they select exactly the rows asked for: every row when
  the scope names none, otherwise the rows whose status the scope names, for every status the package
  writes.
\<close>

theorem statusFilterValues_exact:
  "length (statusFilterValues scope) = 5 \<and>
   (st \<in> set allStatuses \<longrightarrow>
     (st \<in> set (statusFilterValues scope) \<longleftrightarrow>
        (case scope of None \<Rightarrow> True | Some sts \<Rightarrow> sts = [] \<or> st \<in> set sts)))"
proof -
  have pick: "st \<in> set (map (\<lambda>i. if xs = [] then no_status else xs ! min i (length xs - 1)) [0..<5]) \<longleftrightarrow>
      (if xs = [] then st = no_status else st \<in> set xs)" if "length xs \<le> 5" for xs
  proof (cases "xs = []")
    case True
    then show ?thesis by (simp add: upt_rec numeral_eq_Suc)
  next
    case False
    have "set (map (\<lambda>i. xs ! min i (length xs - 1)) [0..<5]) = set xs"
    proof (rule set_eqI)
      fix x
      show "x \<in> set (map (\<lambda>i. xs ! min i (length xs - 1)) [0..<5]) \<longleftrightarrow> x \<in> set xs"
      proof
        assume "x \<in> set (map (\<lambda>i. xs ! min i (length xs - 1)) [0..<5])"
        then obtain i where "x = xs ! min i (length xs - 1)" by auto
        moreover have "min i (length xs - 1) < length xs" using False by (cases xs) auto
        ultimately show "x \<in> set xs" by simp
      next
        assume "x \<in> set xs"
        then obtain i where "i < length xs" "x = xs ! i" by (auto simp: in_set_conv_nth)
        then show "x \<in> set (map (\<lambda>i. xs ! min i (length xs - 1)) [0..<5])"
          using that by (auto simp: image_iff intro!: bexI [of _ i])
      qed
    qed
    with False show ?thesis by simp
  qed
  have len: "length (filter p allStatuses) \<le> 5" for p using length_filter_le [of p allStatuses] by (simp add: allStatuses_def)
  have ns: "st \<in> set allStatuses \<Longrightarrow> st \<noteq> no_status" by (auto simp: allStatuses_def)
  show ?thesis
  proof (cases scope)
    case None
    then show ?thesis by (simp add: statusFilterValues_def allStatuses_def)
  next
    case (Some sts)
    show ?thesis
    proof (cases "sts = []")
      case True
      with Some show ?thesis by (simp add: statusFilterValues_def allStatuses_def)
    next
      case False
      with Some pick [OF len, of "\<lambda>s. s \<in> set sts"] ns show ?thesis
        by (auto simp: statusFilterValues_def Let_def filter_empty_conv split: if_splits)
    qed
  qed
qed

theorem statusFilterValues_exact_witness:
  "statusFilterValues (Some [StatusStuck]) = replicate 5 StatusStuck \<and>
   StatusStuck \<in> set (statusFilterValues (Some [StatusStuck]))"
proof
  show "statusFilterValues (Some [StatusStuck]) = replicate 5 StatusStuck" by code_simp
  show "StatusStuck \<in> set (statusFilterValues (Some [StatusStuck]))"
    using statusFilterValues_exact [of "Some [StatusStuck]" StatusStuck] by (simp add: allStatuses_def)
qed

end
