(* ===== verification/Saga_Pass.thy ===== *)
theory Saga_Pass
  imports Saga_Laws "HOL-Library.Sublist"
begin

text \<open>
  One worker's pass over one instance: which steps it executes and how often, what a failed step
  comes to, and that a pass nothing disturbs finishes the saga.
\<close>

section \<open>What a pass executes\<close>

text \<open>
  The executions still ahead of an instance: the steps from the cursor on, then the compensations
  from the last step back; while compensating, those from the cursor back.
\<close>

definition ahead :: "bound_definition \<Rightarrow> Record \<Rightarrow> (string \<times> phase \<times> int) list" where
  "ahead def inst =
     (let run = (\<lambda>ph k. (inst_ID inst, ph, int k)); n = steps def in
      case inst_Status inst of
        StatusRunning \<Rightarrow> map (run PhaseDo) [nat (inst_CurrentStep inst)..<n] @ map (run PhaseUndo) (rev [0..<n])
      | StatusCompensating \<Rightarrow> map (run PhaseUndo) (rev [0..<min n (nat (inst_CurrentStep inst + 1))])
      | _ \<Rightarrow> [])"

lemma runs_base [simp]:
  "runs (snd (db_write env f w)) = runs w" "runs (snd (snd (persist env inst nxt evs w))) = runs w"
  "runs (snd (snd (then_more b R))) = runs (snd (snd R))"
  by (simp_all add: db_write_def persist_def then_more_def Let_def Now_def next_unit_def split: option.split sum.split)

lemma runs_simps [simp]:
  "runs (snd (snd (markStuck env inst cause w))) = runs w" "runs (snd (snd (finishRunning env inst def idx w))) = runs w"
  "runs (snd (snd (finishCompensating env inst name idx w))) = runs w"
  "runs (snd (snd (reschedule env cfg inst atts ph err w))) = runs w"
  by (simp_all add: markStuck_def finishRunning_def finishCompensating_def reschedule_def Let_def case_prod_beta)

lemma execute_runs:
  "runs (snd (execute env cfg def inst idx ph w)) = runs w \<or>
   runs (snd (execute env cfg def inst idx ph w)) = runs w @ [(inst_ID inst, ph, int idx)]"
  by (simp add: execute_def run_step_def Let_def next_unit_def split: option.split idem_decision.split fn_result.split)

lemma ahead_Running:
  assumes "inst_Status inst = StatusRunning" "0 \<le> inst_CurrentStep inst" "inst_CurrentStep inst < int (steps def)"
  shows "ahead def inst = (inst_ID inst, PhaseDo, inst_CurrentStep inst) #
    ahead def (inst\<lparr>inst_CurrentStep := inst_CurrentStep inst + 1\<rparr>)"
  using assms by (simp add: ahead_def Let_def upt_conv_Cons nat_add_distrib)

lemma ahead_Compensating:
  assumes "inst_Status inst = StatusCompensating" "0 \<le> inst_CurrentStep inst" "inst_CurrentStep inst < int (steps def)"
  shows "ahead def inst = (inst_ID inst, PhaseUndo, inst_CurrentStep inst) #
    ahead def (inst\<lparr>inst_CurrentStep := inst_CurrentStep inst - 1\<rparr>)"
proof -
  obtain c where c: "inst_CurrentStep inst = int c" using assms(2) nonneg_int_cases by blast
  have "min (steps def) (Suc c) = Suc c" "min (steps def) c = c" using c assms(3) by simp_all
  with c assms(1) show ?thesis by (simp add: ahead_def Let_def nat_add_distrib)
qed

text \<open>Failing over to compensation skips the steps after the cursor.\<close>

lemma subseq_upt_rev: "k \<le> n \<Longrightarrow> subseq (rev [0..<k]) (rev [0..<n])"
proof -
  assume "k \<le> n"
  then have "rev [0..<n] = rev [k..<n] @ rev [0..<k]" by (metis le_add_diff_inverse rev_append upt_add_eq_append zero_le)
  then show ?thesis by (simp add: list_emb_append2)
qed

lemma ahead_fail:
  assumes "inst_Status inst = StatusRunning" "0 \<le> inst_CurrentStep inst" "inst_CurrentStep inst < int (steps def)"
  shows "subseq (ahead def (inst\<lparr>inst_Status := StatusCompensating\<rparr>)) (ahead def (inst\<lparr>inst_CurrentStep := inst_CurrentStep inst + 1\<rparr>))"
proof -
  have "subseq (rev [0..<min (steps def) (nat (inst_CurrentStep inst + 1))]) (rev [0..<steps def])"
    by (rule subseq_upt_rev) simp
  from subseq_map [OF this, of "\<lambda>k. (inst_ID inst, PhaseUndo, int k)"] show ?thesis
    using assms(1) by (simp add: ahead_def Let_def subseq_drop_many)
qed

text \<open>Only the identity, the status and the cursor matter.\<close>

lemma ahead_cong:
  "inst_ID a = inst_ID b \<Longrightarrow> inst_Status a = inst_Status b \<Longrightarrow> inst_CurrentStep a = inst_CurrentStep b \<Longrightarrow> ahead def a = ahead def b"
  unfolding ahead_def by (simp add: Let_def cong: Status.case_cong)


lemma ends_stop [simp]:
  "fst (finishRunning env inst def idx w) \<noteq> Inr True" "fst (finishCompensating env inst name idx w) \<noteq> Inr True"
  "fst (markStuck env inst cause w) \<noteq> Inr True"
  using no_more_ends by (metis prod.collapse)+

lemma one_more: "subseq xs ys \<Longrightarrow> subseq xs (e # ys)"
  by (rule list_emb_Cons)

lemma distinct_subseq: "subseq xs ys \<Longrightarrow> distinct ys \<Longrightarrow> distinct xs"
  by (auto simp: subseq_conv_nths)

lemma step_runs:
  assumes "step env cfg def inst w = (res, inst', w')"
  shows "\<exists>new. runs w' = runs w @ new \<and> subseq new (ahead def inst) \<and>
    (res = Inr True \<longrightarrow> subseq (new @ ahead def inst') (ahead def inst))"
proof (cases "inst_Status inst")
  case StatusRunning
  let ?c = "inst_CurrentStep inst" and ?R = "runStep env cfg def inst w"
  have R: "?R = (res, inst', w')" using assms StatusRunning by (simp add: step_def)
  show ?thesis
  proof (cases "0 \<le> ?c \<and> ?c < int (steps def)")
    case False
    then have "runs (snd (snd ?R)) = runs w" "fst ?R \<noteq> Inr True"
      by (auto simp: runStep_def Let_def)
    with R show ?thesis by auto
  next
    case True
    obtain out w1 where e: "execute env cfg def inst (nat ?c) PhaseDo w = (out, w1)" by fastforce
    have new: "runs w1 = runs w \<or> runs w1 = runs w @ [(inst_ID inst, PhaseDo, ?c)]"
      using execute_runs [of env cfg def inst "nat ?c" PhaseDo w] e True by simp
    have "runs (snd (snd ?R)) = runs w1"
      using True e by (auto simp: runStep_def failForward_def Let_def case_prod_beta split: sum.split)
    moreover have "subseq (ahead def inst') (ahead def (inst\<lparr>inst_CurrentStep := ?c + 1\<rparr>))" if "res = Inr True"
    proof (cases out)
      case (Inl cause)
      then have "\<exists>st t. inst' = inst\<lparr>inst_Status := StatusCompensating, inst_LastError := st, inst_Attempts := 0, inst_LastUpdatedAt := t\<rparr>"
        using that R True e
        by (auto simp: runStep_def failForward_def Let_def case_prod_beta split: if_splits dest!: then_more_persist)
      then have "ahead def inst' = ahead def (inst\<lparr>inst_Status := StatusCompensating\<rparr>)" by (auto intro: ahead_cong)
      then show ?thesis using ahead_fail [OF StatusRunning] True by simp
    next
      case (Inr st)
      then have "inst_ID inst' = inst_ID inst \<and> inst_Status inst' = inst_Status inst \<and> inst_CurrentStep inst' = ?c + 1"
        using that R True e
        by (auto simp: runStep_def Let_def case_prod_beta split: if_splits dest!: then_more_persist)
      then have "ahead def inst' = ahead def (inst\<lparr>inst_CurrentStep := ?c + 1\<rparr>)" by (auto intro: ahead_cong)
      then show ?thesis by simp
    qed
    moreover have "ahead def inst = (inst_ID inst, PhaseDo, ?c) # ahead def (inst\<lparr>inst_CurrentStep := ?c + 1\<rparr>)"
      using ahead_Running [OF StatusRunning] True by simp
    ultimately show ?thesis using R new True one_more [where e = "(inst_ID inst, PhaseDo, ?c)"] by auto
  qed
next
  case StatusCompensating
  let ?c = "inst_CurrentStep inst" and ?R = "compensateStep env cfg def inst w"
  have R: "?R = (res, inst', w')" using assms StatusCompensating by (simp add: step_def)
  show ?thesis
  proof (cases "0 \<le> ?c \<and> ?c < int (steps def)")
    case False
    then have "runs (snd (snd ?R)) = runs w" "fst ?R \<noteq> Inr True"
      by (auto simp: compensateStep_def Let_def)
    with R show ?thesis by auto
  next
    case True
    obtain out w1 where e: "execute env cfg def inst (nat ?c) PhaseUndo w = (out, w1)" by fastforce
    have new: "runs w1 = runs w \<or> runs w1 = runs w @ [(inst_ID inst, PhaseUndo, ?c)]"
      using execute_runs [of env cfg def inst "nat ?c" PhaseUndo w] e True by simp
    have "runs (snd (snd ?R)) = runs w \<or> runs (snd (snd ?R)) = runs w1"
      using True e by (auto simp: compensateStep_def Let_def case_prod_beta split: sum.split)
    moreover have "ahead def inst' = ahead def (inst\<lparr>inst_CurrentStep := ?c - 1\<rparr>)" if "res = Inr True"
    proof -
      have "inst_ID inst' = inst_ID inst \<and> inst_Status inst' = inst_Status inst \<and> inst_CurrentStep inst' = ?c - 1"
        using that R True e
        by (auto simp: compensateStep_def Let_def case_prod_beta split: if_splits sum.splits dest!: then_more_persist)
      then show ?thesis by (auto intro: ahead_cong)
    qed
    ultimately show ?thesis using R new ahead_Compensating [OF StatusCompensating] True by auto
  qed
next
  case (OtherStatus st)
  let ?M = "markStuck env inst (UnknownStatusFailure (OtherStatus st)) w"
  from OtherStatus assms have "?M = (res, inst', w')" by (simp add: step_def)
  moreover have "runs (snd (snd ?M)) = runs w" "fst ?M \<noteq> Inr True" by simp_all
  ultimately have "runs w' = runs w" "res \<noteq> Inr True" by simp_all
  then show ?thesis by simp
qed (use assms in \<open>auto simp: step_def\<close>)


lemma drive_loop_runs:
  "\<exists>new. runs (snd (snd (drive_loop env cfg def deadline inst w))) = runs w @ new \<and> subseq new (ahead def inst)"
proof (induction env cfg def deadline inst w rule: drive_loop.induct)
  case (1 env cfg def deadline inst w)
  let ?w1 = "snd (Now env w)"
  consider "Terminal (inst_Status inst) \<or> \<not> fst (Now env w) < deadline"
    | "\<not> Terminal (inst_Status inst)" "fst (Now env w) < deadline" by blast
  then show ?case
  proof cases
    case 1
    then have "runs (snd (snd (drive_loop env cfg def deadline inst w))) = runs w"
      by (subst drive_loop.simps) (auto simp: Let_def case_prod_beta)
    then show ?thesis by auto
  next
    case 2
    obtain res inst' w' where s: "step env cfg def inst ?w1 = (res, inst', w')" by (cases "step env cfg def inst ?w1")
    from step_runs [OF s] obtain new where new: "runs w' = runs w @ new" "subseq new (ahead def inst)"
      "res = Inr True \<longrightarrow> subseq (new @ ahead def inst') (ahead def inst)" by auto
    have loop: "drive_loop env cfg def deadline inst w =
        (case res of Inl e \<Rightarrow> (Inl e, inst', w')
         | Inr b \<Rightarrow> if b then drive_loop env cfg def deadline inst' w' else (Inr (), inst', w'))"
      using 2 s by (subst drive_loop.simps) (simp add: Let_def case_prod_beta split: sum.split)
    show ?thesis
    proof (cases "res = Inr True")
      case False
      then have "snd (snd (drive_loop env cfg def deadline inst w)) = w'" by (auto simp: loop split: sum.split)
      with new show ?thesis by auto
    next
      case True
      then obtain new' where n': "runs (snd (snd (drive_loop env cfg def deadline inst' w'))) = runs w' @ new'"
        "subseq new' (ahead def inst')"
        using "1.IH" [OF 2(1) refl, of "fst (Now env w)" ?w1 res "(inst', w')" True inst' w'] 2(2) s by auto
      have "subseq (new @ new') (new @ ahead def inst')" using n'(2) by (simp add: subseq_append')
      with new(3) True have "subseq (new @ new') (ahead def inst)" using subseq_order.trans by blast
      with loop True n'(1) new(1) show ?thesis by auto
    qed
  qed
qed

text \<open>
  C25: A pass over an instance ends, and the steps it executes are a subsequence of the work ahead of
  the instance in its one possible order: the steps from the cursor on going forward, then the
  compensations backwards. So a pass never executes a step, or its compensation, twice; it never
  resumes going forward after compensating; and it executes at most twice as many functions as the
  definition has steps.
\<close>

theorem pass_executes_in_order:
  assumes "lookup reg (inst_Definition inst) = Some def"
  shows "\<exists>new. runs (snd (snd (drive env cfg reg inst w))) = runs w @ new \<and> subseq new (ahead def inst) \<and>
    distinct new \<and> length new \<le> 2 * steps def"
proof -
  have "\<exists>new. runs (snd (snd (drive env cfg reg inst w))) = runs w @ new \<and> subseq new (ahead def inst)"
  proof (cases "def_stepNames def = inst_StepNames inst")
    case True
    with assms drive_loop_runs [of env cfg def _ inst "snd (Now env w)"] show ?thesis
      by (simp add: drive_def Let_def case_prod_beta)
  next
    case False
    with assms have "runs (snd (snd (drive env cfg reg inst w))) = runs w" by (simp add: drive_def Let_def)
    then show ?thesis by auto
  qed
  then obtain new where new: "runs (snd (snd (drive env cfg reg inst w))) = runs w @ new" "subseq new (ahead def inst)" by blast
  have "distinct (ahead def inst)" "length (ahead def inst) \<le> 2 * steps def"
    by (auto simp: ahead_def Let_def distinct_map inj_on_def split: Status.split)
  then show ?thesis using new distinct_subseq list_emb_length by (metis le_trans)
qed


section \<open>A pass that nothing disturbs\<close>

definition fault_free :: "saga_env \<Rightarrow> bool" where
  "fault_free env \<longleftrightarrow> (\<forall>n. db_fault env n = None) \<and> (\<exists>send. publisher env = Some send \<and> (\<forall>n. send n = None))"

lemma Store_Advance_ok:
  assumes "row_at row_id t (inst_ID inst) = Some r" "activeStatusGuard r"
  shows "Store_Advance inst nxt now t = Inr (advanced_table inst nxt now t)"
proof -
  have "r \<in> set (filter (\<lambda>r. idPredicate (inst_ID inst) r \<and> activeStatusGuard r) t)"
    using row_at_SomeD [OF assms(1)] assms(2) by (simp add: idPredicate_def)
  then have "sql_count (\<lambda>r. idPredicate (inst_ID inst) r \<and> activeStatusGuard r) t \<noteq> 0"
    unfolding sql_count_def by (metis empty_iff length_0_conv list.set(1) of_nat_eq_0_iff)
  then show ?thesis by (simp add: Store_Advance_def guarded_update_def advanced_table_def)
qed

lemma advanced_table_at:
  assumes "row_at row_id t (inst_ID inst) = Some r" "activeStatusGuard r"
  shows "row_at row_id (advanced_table inst nxt now t) (inst_ID inst) =
    Some (advanced_row inst nxt now (Terminal (inst_Status inst) \<or> now < nxt) r)"
  unfolding advanced_table_def
  by (subst instances.at_update) (use assms row_at_SomeD [OF assms(1)] in \<open>auto simp: idPredicate_def advanced_row_def\<close>)

lemma advanced_stamp [simp]: "advanced_table (inst\<lparr>inst_LastUpdatedAt := x\<rparr>) nxt now t = advanced_table inst nxt now t"
  by (simp add: advanced_table_def advanced_row_def fun_eq_iff sql_update_def)

text \<open>A recorded step: the row carries what the instance says, and the events follow.\<close>

lemma persist_ok:
  assumes "fault_free env" "synced inst0 w" "inst_Status inst0 \<in> set activeStatuses"
    and "inst_ID inst = inst_ID inst0" "inst_StepNames inst = inst_StepNames inst0"
  obtains w' r where "persist env inst nxt evs w = (Inr (), inst\<lparr>inst_LastUpdatedAt := Some (clock_at env (ticks w))\<rparr>, w')"
    "synced inst w'" "events w' = events w @ evs" "instance_at w (inst_ID inst) = Some r"
    "instance_at w' (inst_ID inst) =
       Some (advanced_row inst nxt (clock_at env (ticks w)) (Terminal (inst_Status inst) \<or> clock_at env (ticks w) < nxt) r)"
proof -
  let ?now = "clock_at env (ticks w)" and ?inst = "inst\<lparr>inst_LastUpdatedAt := Some (clock_at env (ticks w))\<rparr>"
  from assms(1) obtain send where p: "db_fault env (units w) = None" "publisher env = Some send" "send (units w) = None"
    by (auto simp: fault_free_def)
  from assms(2) obtain r where r: "instance_at w (inst_ID inst) = Some r" "row_status r = inst_Status inst0"
    "row_step_names r = Some (inst_StepNames inst)" using assms(4,5) by (auto simp: synced_def)
  then have act: "activeStatusGuard r" using assms(3) by (simp add: activeStatusGuard_def)
  let ?w' = "w\<lparr>ticks := Suc (ticks w), units := Suc (units w), rows := advanced_table inst nxt ?now (rows w), events := events w @ evs\<rparr>"
  have "Store_Advance ?inst nxt ?now (rows w) = Inr (advanced_table ?inst nxt ?now (rows w))"
    by (rule Store_Advance_ok) (use r act in simp_all)
  then have 1: "persist env inst nxt evs w = (Inr (), ?inst, ?w')"
    using p by (simp add: persist_def publish_def Let_def Now_def next_unit_def)
  have 2: "instance_at ?w' (inst_ID inst) = Some (advanced_row inst nxt ?now (Terminal (inst_Status inst) \<or> ?now < nxt) r)"
    using advanced_table_at [OF r(1) act] by simp
  then have "synced inst ?w'" using r(3) by (simp add: synced_def advanced_row_def)
  moreover have "events ?w' = events w @ evs" by simp
  ultimately show thesis using 1 2 r(1) that by blast
qed

lemma synced_stamp [simp]: "synced (inst\<lparr>inst_LastUpdatedAt := t\<rparr>) w = synced inst w"
  by (simp add: synced_def)

lemma drive_loop_step:
  assumes "\<not> Terminal (inst_Status inst)" "clock_at env (ticks w) < deadline"
  shows "drive_loop env cfg def deadline inst w =
    (case step env cfg def inst (snd (Now env w)) of
       (Inl e, inst', w') \<Rightarrow> (Inl e, inst', w')
     | (Inr b, inst', w') \<Rightarrow> if b then drive_loop env cfg def deadline inst' w' else (Inr (), inst', w'))"
  using assms by (subst drive_loop.simps) (simp add: Let_def case_prod_beta Now_def)

text \<open>The environment of an undisturbed pass before a deadline: every execution of the phase returns.\<close>

definition undisturbed :: "saga_env \<Rightarrow> bound_definition \<Rightarrow> phase \<Rightarrow> time \<Rightarrow> bool" where
  "undisturbed env def ph deadline \<longleftrightarrow>
     fault_free env \<and> idempotency env = None \<and> (\<forall>k. clock_at env k < deadline) \<and>
     (\<forall>n i st. i < steps def \<longrightarrow> (\<exists>st'. (if ph = PhaseUndo then def_undo def else def_do def) n i st = FnReturned st'))"

lemma undisturbed_execute:
  assumes "undisturbed env def ph deadline" "idx < steps def"
  shows "\<exists>st. execute env cfg def inst idx ph w = (Inr st, w\<lparr>runs := runs w @ [(inst_ID inst, ph, int idx)]\<rparr>)"
proof -
  from assms have "\<forall>n st. \<exists>st'. (if ph = PhaseUndo then def_undo def else def_do def) n idx st = FnReturned st'"
    unfolding undisturbed_def by blast
  then obtain st where "(if ph = PhaseUndo then def_undo def else def_do def) (length (runs w)) idx (inst_State inst) = FnReturned st"
    by blast
  with assms(1) show ?thesis by (auto simp: undisturbed_def execute_def run_step_def Let_def)
qed

lemma synced_Now [simp]: "synced inst (snd (Now env w)) = synced inst w"
  by (simp add: synced_def)

lemma finishRunning_ok:
  assumes "fault_free env" "synced inst0 w" "inst_Status inst0 \<in> set activeStatuses"
    and "inst_ID inst = inst_ID inst0" "inst_StepNames inst = inst_StepNames inst0"
  obtains w' t where "finishRunning env inst def idx w = (Inr False, inst\<lparr>inst_LastUpdatedAt := t\<rparr>, w')" "synced inst w'"
proof -
  define evs where "evs = (let now = fst (Now env w); name = if idx < int (steps def) then def_stepNames def ! nat idx else [];
      completed = newEvent EventCompleted inst [] (inst_CurrentStep inst) now []
    in if name = [] then [completed] else [newEvent EventStepCompleted inst name idx now [], completed])"
  have "synced inst0 (snd (Now env w))" using assms(2) by simp
  from persist_ok [OF assms(1) this assms(3-5), of "fst (Now env w)" evs] obtain w' where
    "persist env inst (fst (Now env w)) evs (snd (Now env w)) =
       (Inr (), inst\<lparr>inst_LastUpdatedAt := Some (clock_at env (ticks (snd (Now env w))))\<rparr>, w')" "synced inst w'" by blast
  then show thesis by (intro that) (simp_all add: finishRunning_def Let_def case_prod_beta then_more_def evs_def)
qed

lemma finishCompensating_ok:
  assumes "fault_free env" "synced inst0 w" "inst_Status inst0 \<in> set activeStatuses"
    and "inst_ID inst = inst_ID inst0" "inst_StepNames inst = inst_StepNames inst0"
  obtains w' t where "finishCompensating env inst name idx w =
      (Inr False, inst\<lparr>inst_Status := StatusCompensated, inst_LastUpdatedAt := t\<rparr>, w')"
    "synced (inst\<lparr>inst_Status := StatusCompensated\<rparr>) w'"
proof -
  let ?inst = "inst\<lparr>inst_Status := StatusCompensated\<rparr>" and ?now = "fst (Now env w)"
  let ?evs = "(if name = [] then [] else [newEvent EventStepCompensated ?inst name idx ?now []]) @
    [newEvent EventCompensated ?inst [] (inst_CurrentStep ?inst) ?now (inst_LastError ?inst)]"
  have s: "synced inst0 (snd (Now env w))" using assms(2) by simp
  have k: "inst_ID ?inst = inst_ID inst0" "inst_StepNames ?inst = inst_StepNames inst0" using assms(4,5) by simp_all
  from persist_ok [OF assms(1) s assms(3) k, of ?now ?evs] obtain w' where
    "persist env ?inst ?now ?evs (snd (Now env w)) =
       (Inr (), ?inst\<lparr>inst_LastUpdatedAt := Some (clock_at env (ticks (snd (Now env w))))\<rparr>, w')" "synced ?inst w'" by blast
  then show thesis by (intro that) (simp_all add: finishCompensating_def Let_def case_prod_beta then_more_def)
qed

lemma drive_loop_completes:
  assumes "undisturbed env def PhaseDo deadline" "\<forall>i < steps def. def_delays def ! i = 0"
    and "synced inst w" "inst_Status inst = StatusRunning" "inst_StepNames inst = def_stepNames def"
    and "0 \<le> inst_CurrentStep inst" "inst_CurrentStep inst < int (steps def)"
  shows "\<exists>inst' w'. drive_loop env cfg def deadline inst w = (Inr (), inst', w') \<and> synced inst' w' \<and>
    inst_ID inst' = inst_ID inst \<and> inst_Status inst' = StatusCompleted \<and> inst_CurrentStep inst' = int (steps def)"
  using assms(3-7)
proof (induction "nat (int (steps def) - inst_CurrentStep inst)" arbitrary: inst w rule: less_induct)
  case less
  let ?c = "inst_CurrentStep inst" and ?w = "snd (Now env w)"
  have ff: "fault_free env" "clock_at env (ticks w) < deadline" using assms(1) by (simp_all add: undisturbed_def)
  from undisturbed_execute [OF assms(1), of "nat ?c"] less.prems(4,5) obtain st where
    e: "execute env cfg def inst (nat ?c) PhaseDo ?w = (Inr st, ?w\<lparr>runs := runs ?w @ [(inst_ID inst, PhaseDo, int (nat ?c))]\<rparr>)"
    by fastforce
  let ?w1 = "?w\<lparr>runs := runs ?w @ [(inst_ID inst, PhaseDo, int (nat ?c))]\<rparr>"
  have s1: "synced inst ?w1" "inst_Status inst \<in> set activeStatuses"
    using less.prems(1,2) by (simp_all add: synced_def activeStatuses_def)
  define inst1 where "inst1 = inst\<lparr>inst_State := st, inst_CurrentStep := ?c + 1, inst_LastError := [], inst_Attempts := 0\<rparr>"
  have i1: "inst_ID inst1 = inst_ID inst" "inst_StepNames inst1 = inst_StepNames inst" "inst_CurrentStep inst1 = ?c + 1"
    "inst_Status inst1 = StatusRunning" using less.prems(2) by (simp_all add: inst1_def)
  have step_eq: "step env cfg def inst ?w = runStep env cfg def inst ?w" using less.prems(2) by (simp add: step_def)
  have loop: "drive_loop env cfg def deadline inst w =
      (case runStep env cfg def inst ?w of
         (Inl e, inst', w') \<Rightarrow> (Inl e, inst', w')
       | (Inr b, inst', w') \<Rightarrow> if b then drive_loop env cfg def deadline inst' w' else (Inr (), inst', w'))"
    using drive_loop_step [where inst = inst and w = w, OF _ ff(2)] less.prems(2) step_eq by simp
  show ?case
  proof (cases "?c + 1 = int (steps def)")
    case True
    obtain w' t where f: "finishRunning env (inst1\<lparr>inst_Status := StatusCompleted\<rparr>) def ?c ?w1 =
        (Inr False, inst1\<lparr>inst_Status := StatusCompleted, inst_LastUpdatedAt := t\<rparr>, w')"
        "synced (inst1\<lparr>inst_Status := StatusCompleted\<rparr>) w'"
      by (rule finishRunning_ok [OF ff(1) s1, where inst = "inst1\<lparr>inst_Status := StatusCompleted\<rparr>"]) (simp_all add: i1)
    have "runStep env cfg def inst ?w = finishRunning env (inst1\<lparr>inst_Status := StatusCompleted\<rparr>) def ?c ?w1"
      using e less.prems(4,5) True by (simp add: runStep_def Let_def inst1_def)
    with f loop True i1 show ?thesis by simp
  next
    case False
    then have d: "def_delays def ! nat (?c + 1) = 0" using assms(2) less.prems(4,5) by simp
    let ?now = "fst (Now env ?w1)"
    let ?evs = "[newEvent EventStepCompleted inst1 (def_stepNames def ! nat ?c) ?c ?now []]"
    have s2: "synced inst (snd (Now env ?w1))" using s1(1) by simp
    obtain w' where p: "persist env inst1 ?now ?evs (snd (Now env ?w1)) =
        (Inr (), inst1\<lparr>inst_LastUpdatedAt := Some (clock_at env (ticks (snd (Now env ?w1))))\<rparr>, w')" "synced inst1 w'"
      by (rule persist_ok [OF ff(1) s2 s1(2) i1(1,2)])
    have "runStep env cfg def inst ?w = (Inr True, inst1\<lparr>inst_LastUpdatedAt := Some (clock_at env (ticks (snd (Now env ?w1))))\<rparr>, w')"
      using e less.prems(4,5) False d p by (simp add: runStep_def Let_def case_prod_beta inst1_def then_more_def)
    with loop less.hyps [of "inst1\<lparr>inst_LastUpdatedAt := Some (clock_at env (ticks (snd (Now env ?w1))))\<rparr>" w'] p(2) i1 less.prems False
    show ?thesis by simp
  qed
qed

lemma compensateStep_ok:
  assumes "undisturbed env def PhaseUndo deadline" "synced inst w" "inst_Status inst = StatusCompensating"
    and "0 \<le> inst_CurrentStep inst" "inst_CurrentStep inst < int (steps def)"
  obtains inst' w' where "compensateStep env cfg def inst w = (Inr (0 < inst_CurrentStep inst), inst', w')" "synced inst' w'"
    "inst_ID inst' = inst_ID inst" "inst_StepNames inst' = inst_StepNames inst" "inst_CurrentStep inst' = inst_CurrentStep inst - 1"
    "inst_Status inst' = (if 0 < inst_CurrentStep inst then StatusCompensating else StatusCompensated)"
proof -
  let ?c = "inst_CurrentStep inst"
  have ff: "fault_free env" using assms(1) by (simp add: undisturbed_def)
  have act: "inst_Status inst \<in> set activeStatuses" using assms(3) by (simp add: activeStatuses_def)
  obtain st w1 name idx evs where s1: "synced inst w1" and c: "compensateStep env cfg def inst w =
      (let inst1 = inst\<lparr>inst_State := st, inst_CurrentStep := ?c - 1, inst_Attempts := 0\<rparr> in
       if ?c - 1 < 0 then finishCompensating env inst1 name idx w1
       else then_more True (persist env inst1 (fst (Now env w1)) (evs inst1 (fst (Now env w1))) (snd (Now env w1))))"
  proof (cases "def_compensates def ! nat ?c")
    case False
    show thesis
      by (rule that [of w "inst_State inst" "[]" "?c - 1" "\<lambda>_ _. []"])
        (use assms False in \<open>simp_all add: compensateStep_def Let_def case_prod_beta\<close>)
  next
    case True
    define w1 where "w1 = w\<lparr>runs := runs w @ [(inst_ID inst, PhaseUndo, int (nat ?c))]\<rparr>"
    from undisturbed_execute [OF assms(1), of "nat ?c" cfg inst w] assms(4,5) obtain st where
      e: "execute env cfg def inst (nat ?c) PhaseUndo w = (Inr st, w1)" by (fastforce simp: w1_def)
    have "synced inst w1" using assms(2) by (simp add: synced_def w1_def)
    then show thesis
      by (rule that [where st = st and name = "def_stepNames def ! nat ?c" and idx = ?c and
            evs = "\<lambda>i now. [newEvent EventStepCompensated i (def_stepNames def ! nat ?c) ?c now []]"])
        (use assms True e in \<open>simp add: compensateStep_def Let_def case_prod_beta\<close>)
  qed
  define inst1 where "inst1 = inst\<lparr>inst_State := st, inst_CurrentStep := ?c - 1, inst_Attempts := 0\<rparr>"
  have k: "inst_ID inst1 = inst_ID inst" "inst_StepNames inst1 = inst_StepNames inst" by (simp_all add: inst1_def)
  show thesis
  proof (cases "?c = 0")
    case True
    obtain w' t where "finishCompensating env inst1 name idx w1 =
        (Inr False, inst1\<lparr>inst_Status := StatusCompensated, inst_LastUpdatedAt := t\<rparr>, w')"
        "synced (inst1\<lparr>inst_Status := StatusCompensated\<rparr>) w'"
      by (rule finishCompensating_ok [OF ff s1 act k])
    with c True show thesis
      by (intro that [of "inst1\<lparr>inst_Status := StatusCompensated, inst_LastUpdatedAt := t\<rparr>" w'])
        (simp_all add: inst1_def Let_def)
  next
    case False
    have s2: "synced inst (snd (Now env w1))" using s1 by simp
    obtain w' where "persist env inst1 (fst (Now env w1)) (evs inst1 (fst (Now env w1))) (snd (Now env w1)) =
        (Inr (), inst1\<lparr>inst_LastUpdatedAt := Some (clock_at env (ticks (snd (Now env w1))))\<rparr>, w')" "synced inst1 w'"
      by (rule persist_ok [OF ff s2 act k])
    with c False assms(3,4) show thesis
      by (intro that [of "inst1\<lparr>inst_LastUpdatedAt := Some (clock_at env (ticks (snd (Now env w1))))\<rparr>" w'])
        (simp_all add: inst1_def Let_def then_more_def)
  qed
qed

lemma drive_loop_unwinds:
  assumes "undisturbed env def PhaseUndo deadline" "synced inst w" "inst_Status inst = StatusCompensating"
    and "0 \<le> inst_CurrentStep inst" "inst_CurrentStep inst < int (steps def)"
  shows "\<exists>inst' w'. drive_loop env cfg def deadline inst w = (Inr (), inst', w') \<and> synced inst' w' \<and>
    inst_ID inst' = inst_ID inst \<and> inst_Status inst' = StatusCompensated"
  using assms(2-5)
proof (induction "nat (inst_CurrentStep inst)" arbitrary: inst w rule: less_induct)
  case less
  let ?w = "snd (Now env w)"
  have late: "clock_at env (ticks w) < deadline" using assms(1) by (simp add: undisturbed_def)
  have s: "synced inst ?w" using less.prems(1) by simp
  obtain inst' w' where c: "compensateStep env cfg def inst ?w = (Inr (0 < inst_CurrentStep inst), inst', w')" "synced inst' w'"
    "inst_ID inst' = inst_ID inst" "inst_CurrentStep inst' = inst_CurrentStep inst - 1"
    "inst_Status inst' = (if 0 < inst_CurrentStep inst then StatusCompensating else StatusCompensated)"
    by (rule compensateStep_ok [OF assms(1) s less.prems(2-4)])
  have loop: "drive_loop env cfg def deadline inst w =
      (if 0 < inst_CurrentStep inst then drive_loop env cfg def deadline inst' w' else (Inr (), inst', w'))"
    using drive_loop_step [where inst = inst and w = w, OF _ late] less.prems(2) c(1) by (simp add: step_def)
  show ?case
  proof (cases "0 < inst_CurrentStep inst")
    case True
    with less.hyps [of inst' w'] c less.prems loop show ?thesis by simp
  next
    case False
    with c loop show ?thesis by simp
  qed
qed

text \<open>
  C17: A pass that nothing disturbs finishes the saga. If every database write and publication
  succeeds, the clock stays before the pass's deadline, no step asks to be delayed and the executed
  functions return, then an instance that was running is driven to completed with its cursor past the
  last step, and one that was compensating is driven to compensated, in that one pass.
\<close>

theorem undisturbed_pass_finishes:
  assumes "reach saga_init (saga_step T) w" "synced inst w" "inst_Status inst \<in> set activeStatuses"
    and "lookup reg (inst_Definition inst) = Some def" "def_stepNames def = inst_StepNames inst"
    and "undisturbed env def (if inst_Status inst = StatusRunning then PhaseDo else PhaseUndo)
           (clock_at env (ticks w) + wc_AdvanceTimeout cfg)"
    and "list_all (\<lambda>d. d = 0) (def_delays def)" "length (def_delays def) = steps def"
  shows "\<exists>inst' w' r. drive env cfg reg inst w = (Inr (), inst', w') \<and> instance_at w' (inst_ID inst) = Some r \<and>
    (if inst_Status inst = StatusRunning
     then row_status r = StatusCompleted \<and> row_current_step r = int (steps def)
     else row_status r = StatusCompensated)"
proof -
  have c: "0 \<le> inst_CurrentStep inst" "inst_CurrentStep inst < int (steps def)"
    using synced_life_ok [OF sagas.reach_inv [OF assms(1)] assms(2)] assms(3,5)
    by (auto simp: life_ok_def life_of_inst_def steps_def activeStatuses_def)
  let ?dl = "clock_at env (ticks w) + wc_AdvanceTimeout cfg"
  have s: "synced inst (snd (Now env w))" using assms(2) by simp
  have d: "drive env cfg reg inst w = drive_loop env cfg def ?dl inst (snd (Now env w))"
    using assms(4,5) by (simp add: drive_def Let_def case_prod_beta Now_def)
  show ?thesis
  proof (cases "inst_Status inst = StatusRunning")
    case True
    have "\<forall>i < steps def. def_delays def ! i = 0" using assms(7,8) by (simp add: list_all_length)
    with drive_loop_completes [of env def ?dl inst "snd (Now env w)" cfg] assms(5,6) s True c obtain inst' w' where
      "drive_loop env cfg def ?dl inst (snd (Now env w)) = (Inr (), inst', w')" "synced inst' w'"
      "inst_ID inst' = inst_ID inst" "inst_Status inst' = StatusCompleted" "inst_CurrentStep inst' = int (steps def)" by auto
    with d True show ?thesis by (auto simp: synced_def)
  next
    case False
    then have st: "inst_Status inst = StatusCompensating" using assms(3) by (simp add: activeStatuses_def)
    with drive_loop_unwinds [of env def ?dl inst "snd (Now env w)" cfg] assms(6) s c obtain inst' w' where
      "drive_loop env cfg def ?dl inst (snd (Now env w)) = (Inr (), inst', w')" "synced inst' w'"
      "inst_ID inst' = inst_ID inst" "inst_Status inst' = StatusCompensated" by auto
    with d st show ?thesis by (auto simp: synced_def)
  qed
qed

definition demo_record :: Record where
  "demo_record = (case Store_Get ''s1'' (rows demo_started) of Inl e \<Rightarrow> undefined | Inr rec \<Rightarrow> rec)"

definition demo_still :: saga_env where
  "demo_still = demo_env\<lparr>clock_at := \<lambda>_. 7\<rparr>"

lemma demo_record_facts:
  "synced demo_record demo_started" "inst_Status demo_record = StatusRunning" "inst_ID demo_record = ''s1''"
  "lookup demo_registry (inst_Definition demo_record) = Some (bind_definition demo_codec demo_definition)"
  "inst_StepNames demo_record = [''charge'', ''ship'']"
proof -
  have r: "instance_at demo_started ''s1'' = Some (hd (rows demo_started))" "Store_Get ''s1'' (rows demo_started) = recordFromRow (hd (rows demo_started))"
    "row_status (hd (rows demo_started)) = StatusRunning" "row_step_names (hd (rows demo_started)) = Some [''charge'', ''ship'']"
    "row_id (hd (rows demo_started)) = ''s1''" "row_definition (hd (rows demo_started)) = ''order''"
    by code_simp+
  then show "synced demo_record demo_started" "inst_Status demo_record = StatusRunning" "inst_ID demo_record = ''s1''"
    "inst_StepNames demo_record = [''charge'', ''ship'']"
    by (simp_all add: demo_record_def recordFromRow_def synced_def)
  have "validateDefinition demo_visible demo_definition = Inr ()" by code_simp
  then have "demo_registry ''order'' = Some (bind_definition demo_codec demo_definition)"
    by (simp add: demo_registry_def Register_def) (simp add: demo_definition_def)
  then show "lookup demo_registry (inst_Definition demo_record) = Some (bind_definition demo_codec demo_definition)"
    using r(2,4,6) by (simp add: demo_record_def recordFromRow_def lookup_def)
qed

theorem undisturbed_pass_finishes_witness:
  "\<exists>inst' w' r. drive demo_still demo_cfg demo_registry demo_record demo_started = (Inr (), inst', w') \<and>
     instance_at w' ''s1'' = Some r \<and> row_status r = StatusCompleted \<and> row_current_step r = 2"
proof -
  let ?d = "bind_definition demo_codec demo_definition"
  have d: "def_stepNames ?d = [''charge'', ''ship'']" "list_all (\<lambda>d. d = 0) (def_delays ?d)" "length (def_delays ?d) = steps ?d" "steps ?d = 2"
    by code_simp+
  have i2: "i < 2 \<longleftrightarrow> i = 0 \<or> i = (1 :: nat)" for i by auto
  have u: "undisturbed demo_still ?d PhaseDo (clock_at demo_still (ticks demo_started) + wc_AdvanceTimeout demo_cfg)"
    unfolding undisturbed_def d(4) i2
    by (auto simp: fault_free_def demo_still_def demo_env_def demo_cfg_def WorkerConfig_EnsureDefaults_def Let_def
        DefaultAdvanceTimeout_def Second_def bind_definition_def demo_definition_def demo_step_def applyStep_def demo_codec_def)
  have "inst_Status demo_record \<in> set activeStatuses" by (simp add: demo_record_facts activeStatuses_def)
  from undisturbed_pass_finishes [OF reach_started demo_record_facts(1) this demo_record_facts(4), of demo_still demo_cfg] u d
  show ?thesis by (simp add: demo_record_facts)
qed

theorem pass_executes_in_order_witness:
  "\<exists>new. runs (snd (snd (drive demo_env demo_cfg demo_registry demo_record demo_started))) = runs demo_started @ new \<and>
     subseq new (ahead (bind_definition demo_codec demo_definition) demo_record) \<and> distinct new \<and> length new \<le> 4"
proof -
  have "steps (bind_definition demo_codec demo_definition) = 2" by code_simp
  with pass_executes_in_order [OF demo_record_facts(4), of demo_env demo_cfg demo_started] show ?thesis by simp
qed

end
