(* ===== verification/Saga_Failures.thy ===== *)
theory Saga_Failures
  imports Saga_Pass
begin

text \<open>
  What a failed step comes to, what the attempt budget does and does not bound, when a delayed step
  gives its lease up, and the keys under which steps are made idempotent.
\<close>

section \<open>A failed step\<close>

lemma reschedule_ok:
  assumes "fault_free env" "synced inst w" "inst_Status inst \<in> set activeStatuses"
  shows "\<exists>w' r. reschedule env cfg inst atts ph cause w = (Inr False, inst\<lparr>inst_Attempts := atts\<rparr>, w') \<and>
    events w' = events w \<and> instance_at w (inst_ID inst) = Some r \<and>
    instance_at w' (inst_ID inst) = Some (RescheduleSagaInstance atts (clock_at env (ticks w) + delayFor env (budgetFor cfg ph) atts)
      (truncateErr env (err_text cause)) (clock_at env (Suc (ticks w))) r)"
proof -
  let ?p = "\<lambda>r. idPredicate (inst_ID inst) r \<and> activeStatusGuard r"
  let ?f = "RescheduleSagaInstance atts (clock_at env (ticks w) + delayFor env (budgetFor cfg ph) atts)
    (truncateErr env (err_text cause)) (clock_at env (Suc (ticks w)))"
  from assms(2) obtain r where r: "instance_at w (inst_ID inst) = Some r" "row_status r = inst_Status inst"
    by (auto simp: synced_def)
  have m: "r \<in> set (rows w)" "row_id r = inst_ID inst" using row_at_SomeD [OF r(1)] by auto
  then have p: "?p r" using r(2) assms(3) by (simp add: idPredicate_def activeStatusGuard_def)
  with m(1) have "r \<in> set (filter ?p (rows w))" by simp
  then have "sql_count ?p (rows w) \<noteq> 0"
    unfolding sql_count_def by (metis empty_iff length_0_conv list.set(1) of_nat_eq_0_iff)
  then have s: "Store_Reschedule (inst_ID inst) atts (clock_at env (ticks w) + delayFor env (budgetFor cfg ph) atts)
      (truncateErr env (err_text cause)) (clock_at env (Suc (ticks w))) (rows w) = Inr (sql_update ?p ?f (rows w))"
    by (simp add: Store_Reschedule_def guarded_update_def)
  have "row_at row_id (sql_update ?p ?f (rows w)) (inst_ID inst) = Some (?f r)"
    by (subst instances.at_update) (use r(1) p in \<open>auto simp: RescheduleSagaInstance_def\<close>)
  moreover have "db_fault env n = None" for n using assms(1) by (simp add: fault_free_def)
  ultimately show ?thesis using r(1) s
    by (simp add: reschedule_def Let_def case_prod_beta Now_def db_write_def next_unit_def then_more_def)
qed

text \<open>
  What a failed step comes to. When the database works and a step's function reports an error,
  the cursor stays on that step. If the error says it cannot be retried, or the attempts spent
  (this one included) reach the budget, the instance turns to compensating, starting with that very
  step, with a fresh budget, and says so in one event; otherwise it stays running with the attempts
  recorded, due again after the backoff, its lease given up, and no event.
\<close>

theorem failed_step_outcome:
  assumes "fault_free env" "synced inst w" "inst_Status inst = StatusRunning"
    and "0 \<le> inst_CurrentStep inst" "inst_CurrentStep inst < int (steps def)"
    and "execute env cfg def inst (nat (inst_CurrentStep inst)) PhaseDo w = (Inl cause, w1)"
    and "runStep env cfg def inst w = (res, inst', w')"
  shows "\<exists>r. instance_at w' (inst_ID inst) = Some r \<and> row_current_step r = inst_CurrentStep inst \<and>
    (if err_unretryable cause \<or> MaxAttempts (wc_Backoff cfg) \<le> nat (max (inst_Attempts inst) 1)
     then res = Inr True \<and> row_status r = StatusCompensating \<and> row_attempts r = 0 \<and>
       story_of (inst_ID inst) (events w') = story_of (inst_ID inst) (events w) @ [(EventCompensating, inst_CurrentStep inst)]
     else res = Inr False \<and> row_status r = StatusRunning \<and> row_attempts r = max (inst_Attempts inst) 1 \<and>
       row_next_attempt r = clock_at env (ticks w1) + delayFor env (wc_Backoff cfg) (max (inst_Attempts inst) 1) \<and>
       row_claimed_until r = None \<and> events w' = events w)"
proof -
  let ?c = "inst_CurrentStep inst" and ?a = "max (inst_Attempts inst) 1"
  have w1: "rows w1 = rows w" "events w1 = events w"
    using execute_world [of env cfg def inst "nat ?c" PhaseDo w] assms(6) by simp_all
  have s: "synced inst w1" using assms(2) synced_world [OF w1(1)] by simp
  have act: "inst_Status inst \<in> set activeStatuses" using assms(3) by (simp add: activeStatuses_def)
  have f: "failForward env cfg def inst (nat ?c) cause w1 = (res, inst', w')"
    using assms(4-7) by (simp add: runStep_def Let_def)
  show ?thesis
  proof (cases "exhausted cfg cause ?a PhaseDo")
    case False
    from reschedule_ok [OF assms(1) s act, of cfg ?a PhaseDo cause] obtain v r where
      "reschedule env cfg inst ?a PhaseDo cause w1 = (Inr False, inst\<lparr>inst_Attempts := ?a\<rparr>, v)" "events v = events w1"
      "instance_at w1 (inst_ID inst) = Some r"
      "instance_at v (inst_ID inst) = Some (RescheduleSagaInstance ?a
         (clock_at env (ticks w1) + delayFor env (budgetFor cfg PhaseDo) ?a) (truncateErr env (err_text cause)) (clock_at env (Suc (ticks w1))) r)"
      by blast
    with False f s w1 assms(3) show ?thesis
      by (auto simp: failForward_def Let_def exhausted_def budgetFor_def RescheduleSagaInstance_def synced_def)
  next
    case True
    define inst1 where "inst1 = inst\<lparr>inst_Status := StatusCompensating, inst_CurrentStep := ?c,
      inst_LastError := truncateErr env (err_text cause), inst_Attempts := 0\<rparr>"
    let ?evs = "[newEvent EventCompensating inst1 (def_stepNames def ! nat ?c) ?c (fst (Now env w1)) (inst_LastError inst1)]"
    have k: "inst_ID inst1 = inst_ID inst" "inst_StepNames inst1 = inst_StepNames inst" by (simp_all add: inst1_def)
    have s2: "synced inst (snd (Now env w1))" using s by simp
    obtain v r now where p: "persist env inst1 (fst (Now env w1)) ?evs (snd (Now env w1)) =
        (Inr (), inst1\<lparr>inst_LastUpdatedAt := Some (clock_at env (ticks (snd (Now env w1))))\<rparr>, v)"
      "events v = events (snd (Now env w1)) @ ?evs"
      "instance_at v (inst_ID inst1) = Some (advanced_row inst1 (fst (Now env w1)) (clock_at env (ticks (snd (Now env w1))))
         (Terminal (inst_Status inst1) \<or> clock_at env (ticks (snd (Now env w1))) < fst (Now env w1)) r)"
      by (rule persist_ok [OF assms(1) s2 act k])
    have "(res, inst', w') = then_more True (persist env inst1 (fst (Now env w1)) ?evs (snd (Now env w1)))"
      using f True assms(4) by (simp add: failForward_def Let_def case_prod_beta inst1_def)
    then have "res = Inr True" "w' = v" by (simp_all add: p(1) then_more_def)
    moreover have "story_of (inst_ID inst) (events v) = story_of (inst_ID inst) (events w) @ [(EventCompensating, ?c)]"
      unfolding p(2) by (simp add: story_of_append w1) (simp add: story_of_def newEvent_def k)
    ultimately show ?thesis using p(3) True k by (simp add: advanced_row_def inst1_def exhausted_def budgetFor_def)
  qed
qed

definition demo_declined :: bound_definition where
  "demo_declined = bind_definition demo_codec
     (demo_definition\<lparr>definition_Steps := [(demo_step ''charge'')\<lparr>step_Do := Some (\<lambda>_ _. FnFailed
        \<lparr>err_text = ''card declined'', err_unretryable = True\<rparr>)\<rparr>, demo_step ''ship'']\<rparr>)"

theorem failed_step_outcome_witness:
  "\<exists>r. instance_at (snd (snd (runStep demo_env demo_cfg demo_declined demo_record demo_started))) ''s1'' = Some r \<and>
     row_current_step r = 0 \<and> row_status r = StatusCompensating \<and> row_attempts r = 0"
proof -
  let ?e = "execute demo_env demo_cfg demo_declined demo_record (nat (inst_CurrentStep demo_record)) PhaseDo demo_started"
  have ff: "fault_free demo_env" by (simp add: fault_free_def demo_env_def)
  have c: "inst_CurrentStep demo_record = 0" "0 \<le> inst_CurrentStep demo_record"
    "inst_CurrentStep demo_record < int (steps demo_declined)"
    by code_simp+
  have "fst ?e = Inl \<lparr>err_text = ''failed'', err_unretryable = True\<rparr>" by code_simp
  then have e: "?e = (Inl \<lparr>err_text = ''failed'', err_unretryable = True\<rparr>, snd ?e)" by (metis prod.collapse)
  have r: "runStep demo_env demo_cfg demo_declined demo_record demo_started =
      (fst (runStep demo_env demo_cfg demo_declined demo_record demo_started),
       fst (snd (runStep demo_env demo_cfg demo_declined demo_record demo_started)),
       snd (snd (runStep demo_env demo_cfg demo_declined demo_record demo_started)))" by simp
  from failed_step_outcome [OF ff demo_record_facts(1,2) c(2,3) e r] c(1) show ?thesis
    by (auto simp: demo_record_facts)
qed

section \<open>Attempts\<close>

text \<open>
  The attempt count does not keep a step from being executed. However many attempts an instance
  has used up, its row is claimed under the same conditions, and the worker that claimed it executes
  the current step: the budget is looked at only after a function has returned an error. A step that
  ends its worker before returning is therefore executed again by every worker that claims the
  instance, whatever the budget.
\<close>

theorem spent_budget_still_executes:
  assumes "idempotency env = None" "inst_Status inst = StatusRunning"
    and "0 \<le> inst_CurrentStep inst" "inst_CurrentStep inst < int (steps def)"
    and "MaxAttempts (wc_Backoff cfg) \<le> nat (inst_Attempts inst)"
  shows "runs (snd (snd (step env cfg def inst w))) = runs w @ [(inst_ID inst, PhaseDo, inst_CurrentStep inst)] \<and>
    claimable_row now (r\<lparr>row_attempts := n\<rparr>) = claimable_row now r"
proof -
  obtain out w1 where e: "execute env cfg def inst (nat (inst_CurrentStep inst)) PhaseDo w = (out, w1)" by fastforce
  then have "runs w1 = runs w @ [(inst_ID inst, PhaseDo, inst_CurrentStep inst)]"
    using assms(1,3) by (auto simp: execute_def run_step_def Let_def split: fn_result.splits)
  moreover have "runs (snd (snd (step env cfg def inst w))) = runs w1"
    using assms(2-4) e by (auto simp: step_def runStep_def failForward_def Let_def case_prod_beta split: sum.split)
  ultimately show ?thesis by (simp add: claimable_row_def activeStatusGuard_def)
qed

theorem spent_budget_still_executes_witness:
  "runs (snd (snd (step demo_env demo_cfg demo_declined (demo_record\<lparr>inst_Attempts := 1000\<rparr>) demo_started))) =
     runs demo_started @ [(''s1'', PhaseDo, 0)]"
proof -
  have c: "inst_CurrentStep demo_record = 0" "0 < int (steps demo_declined)" "MaxAttempts (wc_Backoff demo_cfg) \<le> 1000" by code_simp+
  have "idempotency demo_env = None" by (simp add: demo_env_def)
  from spent_budget_still_executes [OF this, of "demo_record\<lparr>inst_Attempts := 1000\<rparr>" demo_declined demo_cfg demo_started] c
  show ?thesis by (simp add: demo_record_facts)
qed

section \<open>Delays and leases\<close>

text \<open>
  A pass that stops for the next step's delay gives its lease up only if the delay has not passed
  by the time the advance is stamped. The due time is computed from one reading of the clock and
  compared with a second one; when the delay is shorter than what lies between the two, the pass ends
  with the lease still held, so that the lease and not the delay decides when the next step runs.
\<close>

theorem elapsed_delay_keeps_lease:
  assumes "fault_free env" "synced inst w" "inst_Status inst = StatusRunning"
    and "0 \<le> inst_CurrentStep inst" "inst_CurrentStep inst + 1 < int (steps def)"
    and "execute env cfg def inst (nat (inst_CurrentStep inst)) PhaseDo w = (Inr st, w1)"
    and "runStep env cfg def inst w = (res, inst', w')"
    and "delay = def_delays def ! nat (inst_CurrentStep inst + 1)" "0 < delay"
  shows "\<exists>r r'. instance_at w (inst_ID inst) = Some r \<and> instance_at w' (inst_ID inst) = Some r' \<and>
    res = Inr False \<and> row_status r' = StatusRunning \<and> row_next_attempt r' = clock_at env (ticks w1) + delay \<and>
    row_claimed_until r' =
      (if clock_at env (Suc (ticks w1)) < clock_at env (ticks w1) + delay then None else row_claimed_until r)"
proof -
  let ?c = "inst_CurrentStep inst" and ?now = "clock_at env (ticks w1)"
  define inst1 where "inst1 = inst\<lparr>inst_State := st, inst_CurrentStep := ?c + 1, inst_LastError := [], inst_Attempts := 0\<rparr>"
  let ?evs = "[newEvent EventStepCompleted inst1 (def_stepNames def ! nat ?c) ?c ?now []]"
  have w1: "rows w1 = rows w" using execute_world(1) [of env cfg def inst "nat ?c" PhaseDo w] assms(6) by simp
  have s2: "synced inst (snd (Now env w1))" using assms(2) synced_world [OF w1] by simp
  have act: "inst_Status inst \<in> set activeStatuses" using assms(3) by (simp add: activeStatuses_def)
  have k: "inst_ID inst1 = inst_ID inst" "inst_StepNames inst1 = inst_StepNames inst" by (simp_all add: inst1_def)
  obtain v r where p: "persist env inst1 (?now + delay) ?evs (snd (Now env w1)) =
      (Inr (), inst1\<lparr>inst_LastUpdatedAt := Some (clock_at env (ticks (snd (Now env w1))))\<rparr>, v)"
    "instance_at (snd (Now env w1)) (inst_ID inst1) = Some r"
    "instance_at v (inst_ID inst1) = Some (advanced_row inst1 (?now + delay) (clock_at env (ticks (snd (Now env w1))))
       (Terminal (inst_Status inst1) \<or> clock_at env (ticks (snd (Now env w1))) < ?now + delay) r)"
    by (rule persist_ok [OF assms(1) s2 act k])
  have "(res, inst', w') = then_more False (persist env inst1 (?now + delay) ?evs (snd (Now env w1)))"
    using assms(4-9) by (simp add: runStep_def Let_def case_prod_beta inst1_def Now_def)
  then have "res = Inr False" "w' = v" by (simp_all add: p(1) then_more_def)
  then show ?thesis using p(2,3) k w1 assms(3) by (simp add: advanced_row_def inst1_def Now_def)
qed

definition demo_delayed :: bound_definition where
  "demo_delayed = bind_definition demo_codec
     (demo_definition\<lparr>definition_Steps := [demo_step ''charge'', (demo_step ''ship'')\<lparr>step_Delay := 1\<rparr>]\<rparr>)"

text \<open>A clock that ticks once per reading; the instance is leased until \<open>300\<close>.\<close>

definition demo_leased :: saga_world where
  "demo_leased = demo_started\<lparr>rows := map (\<lambda>r. r\<lparr>row_claimed_until := Some 300\<rparr>) (rows demo_started)\<rparr>"

theorem elapsed_delay_keeps_lease_witness:
  "\<exists>r'. instance_at (snd (snd (runStep demo_env demo_cfg demo_delayed demo_record demo_leased))) ''s1'' = Some r' \<and>
     row_claimed_until r' = Some 300"
proof -
  let ?e = "execute demo_env demo_cfg demo_delayed demo_record (nat (inst_CurrentStep demo_record)) PhaseDo demo_leased"
  let ?R = "runStep demo_env demo_cfg demo_delayed demo_record demo_leased"
  have ff: "fault_free demo_env" by (simp add: fault_free_def demo_env_def)
  have c: "inst_CurrentStep demo_record = 0" "0 \<le> inst_CurrentStep demo_record"
    "inst_CurrentStep demo_record + 1 < int (steps demo_delayed)" "1 = def_delays demo_delayed ! nat (inst_CurrentStep demo_record + 1)"
    "ticks (snd ?e) = 1" "map_option row_claimed_until (instance_at demo_leased ''s1'') = Some (Some 300)"
    by code_simp+
  have clock: "clock_at demo_env n = int n" for n by (simp add: demo_env_def)
  have "fst ?e = Inr ''11''" by code_simp
  then have e: "?e = (Inr ''11'', snd ?e)" by (metis prod.collapse)
  have r: "?R = (fst ?R, fst (snd ?R), snd (snd ?R))" by simp
  have "instance_at demo_leased ''s1'' = map_option (\<lambda>r. r\<lparr>row_claimed_until := Some 300\<rparr>) (instance_at demo_started ''s1'')"
    by code_simp
  then have s: "synced demo_record demo_leased" using demo_record_facts(1,3) by (auto simp: synced_def)
  from elapsed_delay_keeps_lease [OF ff s demo_record_facts(2) c(2,3) e r c(4)] c(5,6) show ?thesis
    by (auto simp: demo_record_facts clock)
qed

section \<open>Idempotency keys\<close>

lemma split_at_separator:
  "x \<notin> set a \<Longrightarrow> x \<notin> set a' \<Longrightarrow> a @ x # b = a' @ x # b' \<Longrightarrow> a = a' \<and> b = b'"
  by (induction a arbitrary: a') (auto simp: Cons_eq_append_conv append_eq_Cons_conv)

lemma phase_text_inj: "phase_text ph = phase_text ph' \<Longrightarrow> ph = ph'"
  by (cases ph; cases ph') auto

lemma phase_text_colon: "CHR '':'' \<notin> set (phase_text ph)"
  by (cases ph) auto

text \<open>
  Two executions share an idempotency key only if they are the same phase of the same step of the
  same instance, for instance identifiers without a colon.
\<close>

theorem stepKey_injective:
  assumes "CHR '':'' \<notin> set i" "CHR '':'' \<notin> set i'" "stepKey cfg i ph s = stepKey cfg i' ph' s'"
  shows "i = i' \<and> ph = ph' \<and> s = s'"
proof -
  have "i @ CHR '':'' # (phase_text ph @ CHR '':'' # s) = i' @ CHR '':'' # (phase_text ph' @ CHR '':'' # s')"
    using assms(3) by (simp add: stepKey_def)
  from split_at_separator [OF assms(1,2) this] have 1: "i = i'"
    "phase_text ph @ CHR '':'' # s = phase_text ph' @ CHR '':'' # s'" by blast+
  from split_at_separator [OF phase_text_colon phase_text_colon 1(2)] phase_text_inj 1(1) show ?thesis by blast
qed

theorem stepKey_injective_witness:
  "stepKey demo_cfg ''s1'' PhaseDo ''undo'' \<noteq> stepKey demo_cfg ''s1'' PhaseUndo ''do''"
  using stepKey_injective [of "''s1''" "''s1''" demo_cfg PhaseDo "''undo''" PhaseUndo "''do''"] by auto

end
