(* ===== verification/Outbox_Events.thy ===== *)
theory Outbox_Events
  imports Outbox_Writer Outbox_Runs Saga_Failures
begin

text \<open>
  Where the saga engine meets the outbox: \<^verbatim>\<open>OutboxPublisher\<close> of \<^verbatim>\<open>saga/events.go\<close> enqueues every
  lifecycle event under its instance's id, so the per-key order of the relay is the order in which a
  subscriber learns about the instance.
\<close>

record OutboxPublisher =
  op_topic :: string

definition event_message :: "OutboxPublisher \<Rightarrow> Event \<Rightarrow> Event Message" where
  "event_message p ev = \<lparr>msg_Payload = Some ev, msg_Topic = op_topic p, msg_Key = ev_InstanceID ev\<rparr>"

definition OutboxPublisher_Publish ::
  "Event writer_env \<Rightarrow> (Event, 'd) Writer \<Rightarrow> OutboxPublisher \<Rightarrow> Event list \<Rightarrow> 'd tx option \<Rightarrow> writer_error option \<times> 'd tx option" where
  "OutboxPublisher_Publish env w p evs q =
     (if evs = [] then (None, q) else Writer_Enqueue env w (map (event_message p) evs) q)"

text \<open>The rows of one publish that succeeds through a writer without side effects.\<close>

lemma published_rows:
  assumes "OutboxPublisher_Publish env w p evs (Some tx) = (None, Some tx')" "w_sideEffects w = []"
  obtains inserted where "message_rows env 0 (map (event_message p) evs) = Inr inserted" "tx_outbox tx' = tx_outbox tx @ inserted"
proof (cases "evs = []")
  case True
  then show thesis using assms by (intro that [of "[]"]) (simp_all add: OutboxPublisher_Publish_def)
next
  case False
  then have "Writer_write env w (map (event_message p) evs) tx = (None, tx')"
    using assms by (auto simp: OutboxPublisher_Publish_def Writer_Enqueue_def withSideEffects_def split: prod.splits)
  then show thesis by (rule write_ok) (rule that)
qed

lemma event_row:
  assumes "message_rows env 0 (map (event_message p) evs) = Inr inserted" "n < length evs"
  shows "\<exists>payload. we_marshal env (evs ! n) = Inr payload \<and>
           inserted ! n = InsertOutboxMessage (we_mint env n) (op_topic p) (ev_InstanceID (evs ! n)) payload (we_now env)"
proof -
  have "message_row env n (event_message p (evs ! n)) = Inr (inserted ! n)"
    using message_rows_Inr [OF assms(1)] assms(2) by simp
  from message_row_fields [OF this] show ?thesis by (auto simp: event_message_def)
qed

lemma outbox_step_enqueued: "outbox_step cfg ordered s s' \<Longrightarrow> set (os_enqueued s) \<subseteq> set (os_enqueued s')"
  by (cases rule: outbox_step.cases) auto

lemma outbox_steps_enqueued: "(outbox_step cfg ordered)\<^sup>*\<^sup>* s s' \<Longrightarrow> set (os_enqueued s) \<subseteq> set (os_enqueued s')"
  by (induction rule: rtranclp_induct) (use outbox_step_enqueued in blast)+

lemma published_events_run:
  assumes "message_rows env 0 (map (event_message p) evs) = Inr inserted" "mints_after env (os_enqueued s)"
    and "(outbox_step cfg True)\<^sup>*\<^sup>* (s\<lparr>os_table := os_table s @ inserted, os_enqueued := os_enqueued s @ inserted\<rparr>) s'"
    and "reach outbox_init (outbox_step cfg True) s"
  shows "reach outbox_init (outbox_step cfg True) s'" "set inserted \<subseteq> set (os_enqueued s')"
proof -
  have "reach outbox_init (outbox_step cfg True) (s\<lparr>os_table := os_table s @ inserted, os_enqueued := os_enqueued s @ inserted\<rparr>)"
    by (rule reach_steps [OF write_run [OF assms(1,2)] assms(4)])
  then show "reach outbox_init (outbox_step cfg True) s'" by (rule reach_steps [OF assms(3)])
  show "set inserted \<subseteq> set (os_enqueued s')" using outbox_steps_enqueued [OF assms(3)] by simp
qed

end
