(* ===== verification/Audit_Image.thy ===== *)
theory Audit_Image
  imports Prelude
begin

text \<open>
  What an audit entry is and the bytes its digest covers (\<^verbatim>\<open>audit/audit.go\<close>,
  \<^verbatim>\<open>audit/canonical.go\<close>).

  A Go string or byte slice is a \<open>string\<close>, whose characters are bytes; a nil slice is the empty one. An
  instant counts nanoseconds from the Unix epoch. A \<^verbatim>\<open>tenancy.Scope\<close> is what the package documents it
  to be: one owner identifier, or the zero value of a caller who never decided. A Go map is the list of
  its bindings in key order. An \<^verbatim>\<open>any\<close> is a string or a value of another dynamic type.

  The digest (\<^verbatim>\<open>hashing.Hex\<close> over SHA-256) and the canonical JSON encoder are packages outside the
  repository and stay parameters, fields of \<open>audit_env\<close>; so are the two JSON decoders. Positions are
  unbounded integers: a chain of \<open>2\<^sup>6\<^sup>3\<close> entries is not reached.

  The main result is that the length-prefixed framing is injective: the image determines every field.
\<close>

named_theorems audit_defs \<open>operations of the audit log\<close>

section \<open>Entries\<close>

type_synonym tscope = "string option"

definition owner :: "tscope \<Rightarrow> string" where
  "owner s = (case s of None \<Rightarrow> [] | Some i \<Rightarrow> i)"

datatype 'v any = GoString string | GoValue 'v

record 'v Change =
  ch_Old :: "'v any option"
  ch_New :: "'v any option"

record Actor =
  act_ID :: string
  act_Type :: string
  act_IP :: string
  act_Impersonator :: string

record 'v Entry =
  ent_RecordedAt :: time
  ent_Changes :: "(string \<times> 'v Change) list"
  ent_Metadata :: "(string \<times> string) list"
  ent_Actor :: Actor
  ent_ID :: string
  ent_ResourceType :: string
  ent_ResourceID :: string
  ent_EventType :: string
  ent_PrevHash :: string
  ent_Hash :: string
  ent_Scope :: tscope
  ent_Seq :: int

datatype audit_error =
    AuditErrNilExecutor | ErrNoScope | ErrNilEntry | ErrEmptyResourceType | ErrEmptyEventType
  | ErrEmptyActor | ErrScopeMismatch | ErrMalformedHash | ErrEncoding | ErrHashing | ErrDecoding
  | ErrConstraint | ErrNoRows | ErrEntryNotFound | ErrInvalidIDProvided

text \<open>What the sources call outside the repository, and the JSON decoders.\<close>

record 'v audit_env =
  hashingHex :: "string \<Rightarrow> string"
  marshalChanges :: "(string \<times> 'v Change) list \<Rightarrow> string option"
  marshalMetadata :: "(string \<times> string) list \<Rightarrow> string option"
  canonicalSum :: "'v any \<Rightarrow> string option"
  unmarshalChanges :: "string \<Rightarrow> (string \<times> 'v Change) list option"
  unmarshalMetadata :: "string \<Rightarrow> (string \<times> string) list option"

text \<open>Go's zero instant, midnight of January 1 of the year 1.\<close>

definition zeroTime :: time where
  "zeroTime = - 62135596800 * Second"

section \<open>Rendering\<close>

text \<open>\<^verbatim>\<open>strconv.FormatInt(i, 10)\<close>.\<close>

fun decimal :: "nat \<Rightarrow> string" where
  "decimal n = (if n < 10 then [char_of (48 + n)] else decimal (n div 10) @ [char_of (48 + n mod 10)])"

declare decimal.simps [simp del]

definition FormatInt :: "int \<Rightarrow> string" where
  "FormatInt i = (if i < 0 then CHR ''-'' # decimal (nat (- i)) else decimal (nat i))"

text \<open>\<^verbatim>\<open>binary.BigEndian.AppendUint64\<close>, and one field behind its length.\<close>

definition AppendUint64 :: "nat \<Rightarrow> string" where
  "AppendUint64 n = map (\<lambda>i. char_of (n div 256 ^ i mod 256)) [7, 6, 5, 4, 3, 2, 1, 0]"

definition frame :: "string \<Rightarrow> string" where
  "frame f = AppendUint64 (length f) @ f"

definition UnixMicro :: "time \<Rightarrow> int" where
  "UnixMicro t = t div 1000"

definition imageVersion :: string where
  "imageVersion = ''audit.v1''"

definition impersonatedImageVersion :: string where
  "impersonatedImageVersion = ''audit.v2''"

definition imageFields :: "'v Entry \<Rightarrow> string \<Rightarrow> string \<Rightarrow> string list" where
  "imageFields e changes metadata =
     [if act_Impersonator (ent_Actor e) \<noteq> [] then impersonatedImageVersion else imageVersion,
      FormatInt (ent_Seq e), ent_ID e, FormatInt (UnixMicro (ent_RecordedAt e)), owner (ent_Scope e),
      ent_ResourceType e, ent_ResourceID e, ent_EventType e,
      act_ID (ent_Actor e), act_Type (ent_Actor e), act_IP (ent_Actor e), changes, metadata] @
     (if act_Impersonator (ent_Actor e) \<noteq> [] then [act_Impersonator (ent_Actor e)] else [])"

definition canonicalImage :: "'v Entry \<Rightarrow> string \<Rightarrow> string \<Rightarrow> string" where
  "canonicalImage e changes metadata = concat (map frame (imageFields e changes metadata))"

text \<open>\<^verbatim>\<open>hex.DecodeString\<close>: an odd length or a foreign byte is an error.\<close>

definition hexNibble :: "char \<Rightarrow> nat option" where
  "hexNibble c =
     (let n = of_char c :: nat in
      if 48 \<le> n \<and> n \<le> 57 then Some (n - 48)
      else if 97 \<le> n \<and> n \<le> 102 then Some (n - 87)
      else if 65 \<le> n \<and> n \<le> 70 then Some (n - 55)
      else None)"

fun hexDecode :: "string \<Rightarrow> string option" where
  "hexDecode [] = Some []"
| "hexDecode [c] = None"
| "hexDecode (c # d # cs) =
     (case (hexNibble c, hexNibble d, hexDecode cs) of
        (Some h, Some l, Some bs) \<Rightarrow> Some (char_of (16 * h + l) # bs)
      | _ \<Rightarrow> None)"

definition chainHash :: "'v audit_env \<Rightarrow> string \<Rightarrow> string \<Rightarrow> audit_error + string" where
  "chainHash env prevHash img =
     (case hexDecode prevHash of
        None \<Rightarrow> Inl ErrMalformedHash
      | Some prev \<Rightarrow> Inr (hashingHex env (prev @ img)))"

definition encodeFields :: "('a list \<Rightarrow> string option) \<Rightarrow> 'a list \<Rightarrow> audit_error + string" where
  "encodeFields marshal m =
     (if m = [] then Inr []
      else case marshal m of None \<Rightarrow> Inl ErrEncoding | Some bs \<Rightarrow> Inr bs)"

definition hashValue :: "'v audit_env \<Rightarrow> 'v any \<Rightarrow> audit_error + string" where
  "hashValue env v =
     (case canonicalSum env v of None \<Rightarrow> Inl ErrHashing | Some s \<Rightarrow> Inr (''sha256:'' @ s))"

section \<open>The framing is injective\<close>

text \<open>
  A code in which every codeword says where it ends: what follows one cannot be confused with it, so a
  sequence of codewords is read in one way only.
\<close>

locale self_delimiting =
  fixes enc :: "'a \<Rightarrow> 'b list" and ok :: "'a \<Rightarrow> bool"
  assumes delimits: "ok x \<Longrightarrow> ok y \<Longrightarrow> enc x @ r = enc y @ s \<Longrightarrow> x = y \<and> r = s"
    and nonempty: "enc x \<noteq> []"
begin

lemma sequence_injective:
  "list_all ok xs \<Longrightarrow> list_all ok ys \<Longrightarrow> concat (map enc xs) = concat (map enc ys) \<Longrightarrow> xs = ys"
proof (induction xs arbitrary: ys)
  case Nil
  then show ?case using nonempty by (cases ys) auto
next
  case (Cons x xs)
  from Cons.prems(3) nonempty [of x] obtain y ys' where ys: "ys = y # ys'" by (cases ys) auto
  with Cons.prems have "enc x @ concat (map enc xs) = enc y @ concat (map enc ys')" "ok x" "ok y" by auto
  from delimits [OF this(2,3,1)] Cons ys show ?case by simp
qed

end

lemma div_mod_256: "(n::nat) = 256 * (n div 256) + n mod 256"
  by simp

lemma AppendUint64_bytes:
  assumes "AppendUint64 n = AppendUint64 m" "n < 2 ^ 64" "m < 2 ^ 64"
  shows "n = m"
proof -
  have b: "n div 256 ^ i mod 256 = m div 256 ^ i mod 256" if "i < 8" for i :: nat
  proof -
    have "i \<in> set [7, 6, 5, 4, 3, 2, 1, 0]" using that by simp presburger
    with assms(1) have "char_of (n div 256 ^ i mod 256) = (char_of (m div 256 ^ i mod 256) :: char)"
      unfolding AppendUint64_def map_eq_conv by blast
    then have "of_char (char_of (n div 256 ^ i mod 256) :: char) = (of_char (char_of (m div 256 ^ i mod 256) :: char) :: nat)"
      by (rule arg_cong)
    then show ?thesis by simp
  qed
  have "n div 256 ^ (8 - k) = m div 256 ^ (8 - k)" if "k \<le> 8" for k :: nat
    using that
  proof (induction k)
    case 0
    from assms(2,3) show ?case by simp
  next
    case (Suc k)
    define i where "i = 8 - Suc k"
    with Suc.prems have i: "8 - k = Suc i" "i < 8" by auto
    have s: "l div 256 ^ Suc i = l div 256 ^ i div 256" for l :: nat
      by (simp add: div_mult2_eq [symmetric] mult.commute)
    from Suc i have "n div 256 ^ i div 256 = m div 256 ^ i div 256" by (metis s Suc_leD)
    with b [OF i(2)] have "n div 256 ^ i = m div 256 ^ i"
      by (metis div_mod_256)
    then show ?case by (simp add: i_def)
  qed
  from this [of 8] show ?thesis by simp
qed

lemma length_AppendUint64 [simp]: "length (AppendUint64 n) = 8"
  by (simp add: AppendUint64_def)

definition addressable :: "string \<Rightarrow> bool" where
  "addressable f \<longleftrightarrow> length f < 2 ^ 64"

interpretation framing: self_delimiting frame addressable
proof unfold_locales
  fix x y r s
  assume "addressable x" "addressable y" and eq: "frame x @ r = frame y @ s"
  moreover from eq have "AppendUint64 (length x) = AppendUint64 (length y)" "x @ r = y @ s"
    by (auto simp: frame_def append_eq_append_conv)
  ultimately show "x = y \<and> r = s"
    using AppendUint64_bytes [of "length x" "length y"] by (auto simp: addressable_def)
next
  show "frame x \<noteq> []" for x by (simp add: frame_def AppendUint64_def)
qed


text \<open>Decimal rendering is injective: the digits read back as the number.\<close>

definition digit_value :: "char \<Rightarrow> nat" where
  "digit_value c = of_char c - 48"

lemma decimal_digit: "n < 10 \<Longrightarrow> of_char (char_of (48 + n) :: char) = (48 + n :: nat)"
  by simp

lemma decimal_reads_back: "foldl (\<lambda>v c. 10 * v + digit_value c) 0 (decimal n) = n"
proof (induction n rule: decimal.induct)
  case (1 n)
  show ?case
  proof (cases "n < 10")
    case True
    then show ?thesis by (simp add: decimal.simps [of n] digit_value_def)
  next
    case False
    with 1 show ?thesis by (simp add: decimal.simps [of n] digit_value_def)
  qed
qed

lemma decimal_inject: "decimal n = decimal m \<longleftrightarrow> n = m"
  by (metis decimal_reads_back)

lemma decimal_chars: "c \<in> set (decimal n) \<Longrightarrow> 48 \<le> (of_char c :: nat)"
proof (induction n rule: decimal.induct)
  case (1 n)
  have d: "48 \<le> (of_char (char_of (48 + k :: nat) :: char) :: nat)" if "k < 10" for k
    using that by simp
  show ?case
  proof (cases "n < 10")
    case True
    with 1(2) have "c = char_of (48 + n)" by (simp add: decimal.simps [of n])
    with d [OF True] show ?thesis by simp
  next
    case False
    with 1(2) have "c \<in> set (decimal (n div 10)) \<or> c = char_of (48 + n mod 10)"
      by (auto simp: decimal.simps [of n])
    with 1(1) [OF False] d [of "n mod 10"] show ?thesis by auto
  qed
qed

lemma decimal_no_sign: "CHR ''-'' \<notin> set (decimal n)"
  using decimal_chars [of "CHR ''-''" n] by auto

lemma FormatInt_inject: "FormatInt i = FormatInt j \<longleftrightarrow> i = j"
proof
  assume eq: "FormatInt i = FormatInt j"
  have head: "CHR ''-'' # xs \<noteq> decimal n" for xs n using decimal_no_sign [of n] by (metis list.set_intros(1))
  consider "i < 0" "j < 0" | "i < 0" "0 \<le> j" | "0 \<le> i" "j < 0" | "0 \<le> i" "0 \<le> j" by linarith
  then show "i = j"
  proof cases
    case 1
    with eq have "decimal (nat (- i)) = decimal (nat (- j))" unfolding FormatInt_def by simp
    with 1 show ?thesis unfolding decimal_inject by simp
  next
    case 2
    with eq head show ?thesis unfolding FormatInt_def by simp
  next
    case 3
    with eq head show ?thesis unfolding FormatInt_def by (metis not_less)
  next
    case 4
    with eq have "decimal (nat i) = decimal (nat j)" unfolding FormatInt_def by simp
    with 4 show ?thesis unfolding decimal_inject by simp
  qed
qed simp

text \<open>The columns a digest covers.\<close>

definition covered :: "'v Entry \<Rightarrow> string \<Rightarrow> string \<Rightarrow> int \<times> string \<times> int \<times> string list \<times> Actor \<times> string \<times> string" where
  "covered e changes metadata =
     (ent_Seq e, ent_ID e, UnixMicro (ent_RecordedAt e),
      [owner (ent_Scope e), ent_ResourceType e, ent_ResourceID e, ent_EventType e],
      ent_Actor e, changes, metadata)"

definition addressable_entry :: "'v Entry \<Rightarrow> string \<Rightarrow> string \<Rightarrow> bool" where
  "addressable_entry e changes metadata \<longleftrightarrow> list_all addressable (imageFields e changes metadata)"

lemma image_determines_covered:
  assumes "addressable_entry e changes metadata" "addressable_entry e' changes' metadata'"
    and "canonicalImage e changes metadata = canonicalImage e' changes' metadata'"
  shows "covered e changes metadata = covered e' changes' metadata'"
proof -
  have "imageFields e changes metadata = imageFields e' changes' metadata'"
    using assms unfolding addressable_entry_def canonicalImage_def by (rule framing.sequence_injective)
  then show ?thesis
    by (auto simp: imageFields_def covered_def FormatInt_inject split: if_splits)
qed

section \<open>Digests as hex text\<close>

definition hexDigits :: string where
  "hexDigits = ''0123456789abcdef''"

definition lower_hex :: "string \<Rightarrow> bool" where
  "lower_hex s \<longleftrightarrow> list_all (\<lambda>c. c \<in> set hexDigits) s"

text \<open>What is relied on of the digest: 32 bytes, rendered as 64 lower-case hex digits.\<close>

definition hex_digest :: "'v audit_env \<Rightarrow> bool" where
  "hex_digest env \<longleftrightarrow> (\<forall>m. length (hashingHex env m) = 64 \<and> lower_hex (hashingHex env m))"

lemma hexNibble_digits: "list_all (\<lambda>n. hexNibble (hexDigits ! n) = Some n) [0..<16]"
  by code_simp

lemma hexNibble_digit:
  assumes "c \<in> set hexDigits"
  shows "\<exists>n < 16. hexNibble c = Some n \<and> c = hexDigits ! n"
proof -
  have "length hexDigits = 16" by (simp add: hexDigits_def)
  with assms obtain n where "n < 16" "c = hexDigits ! n" by (auto simp: in_set_conv_nth)
  moreover from this hexNibble_digits have "hexNibble (hexDigits ! n) = Some n" by (simp add: list_all_iff)
  ultimately show ?thesis by blast
qed

lemma byte_nibbles:
  "h < 16 \<Longrightarrow> l < 16 \<Longrightarrow> h' < 16 \<Longrightarrow> l' < 16 \<Longrightarrow>
   (char_of (16 * h + l) :: char) = char_of (16 * h' + l') \<Longrightarrow> h = h' \<and> l = (l'::nat)"
proof -
  assume b: "h < 16" "l < 16" "h' < 16" "l' < 16"
  assume "(char_of (16 * h + l) :: char) = char_of (16 * h' + l')"
  then have "of_char (char_of (16 * h + l) :: char) = (of_char (char_of (16 * h' + l') :: char) :: nat)"
    by (rule arg_cong)
  with b have eq: "16 * h + l = 16 * h' + l'" by simp
  then have "(16 * h + l) div 16 = (16 * h' + l') div 16" by (rule arg_cong)
  with b have "h = h'" by simp
  with eq show ?thesis by simp
qed

lemma hexDecode_lower:
  "lower_hex s \<Longrightarrow> even (length s) \<Longrightarrow> \<exists>b. hexDecode s = Some b \<and> 2 * length b = length s"
proof (induction s rule: hexDecode.induct)
  case (3 c d cs)
  then obtain b where "hexDecode cs = Some b" "2 * length b = length cs" by (auto simp: lower_hex_def)
  moreover from 3 obtain h l where "hexNibble c = Some h" "hexNibble d = Some l"
    using hexNibble_digit [of c] hexNibble_digit [of d] by (auto simp: lower_hex_def)
  ultimately show ?case by simp
qed auto

lemma hexDecode_inject:
  "lower_hex s \<Longrightarrow> lower_hex t \<Longrightarrow> hexDecode s = Some b \<Longrightarrow> hexDecode t = Some b \<Longrightarrow> s = t"
proof (induction s arbitrary: t b rule: hexDecode.induct)
  case 1
  then show ?case by (cases t rule: hexDecode.cases) (auto split: option.splits)
next
  case (3 c d cs)
  from 3(4) obtain h l bs where s: "hexNibble c = Some h" "hexNibble d = Some l" "hexDecode cs = Some bs"
    "b = char_of (16 * h + l) # bs" by (auto split: option.splits)
  with 3(5) obtain c' d' cs' where t: "t = c' # d' # cs'" by (cases t rule: hexDecode.cases) auto
  with 3(5) s(4) obtain h' l' where t': "hexNibble c' = Some h'" "hexNibble d' = Some l'" "hexDecode cs' = Some bs"
    "(char_of (16 * h + l) :: char) = char_of (16 * h' + l')" by (auto split: option.splits)
  from 3(2) s have c: "h < 16" "l < 16" "c = hexDigits ! h" "d = hexDigits ! l" "lower_hex cs"
    using hexNibble_digit [of c] hexNibble_digit [of d] by (auto simp: lower_hex_def)
  from 3(3) t t' have c': "h' < 16" "l' < 16" "c' = hexDigits ! h'" "d' = hexDigits ! l'" "lower_hex cs'"
    using hexNibble_digit [of c'] hexNibble_digit [of d'] by (auto simp: lower_hex_def)
  from byte_nibbles [OF c(1,2) c'(1,2) t'(4)] 3(1) [OF c(5) c'(5) s(3) t'(3)] c c' t show ?case by simp
qed auto

lemma hex_digest_decodes:
  assumes "hex_digest env"
  shows "\<exists>b. hexDecode (hashingHex env m) = Some b \<and> length b = 32"
  using assms hexDecode_lower [of "hashingHex env m"] by (auto simp: hex_digest_def)

text \<open>
  C27: the canonical image determines the entry: two entries whose fields have lengths a machine can
  address render the same bytes only if they agree on every column the digest is meant to cover, the
  impersonator and the stored blobs included, whatever bytes the fields contain.
\<close>

theorem canonicalImage_injective:
  assumes "addressable_entry e changes metadata" "addressable_entry e' changes' metadata'"
    and "canonicalImage e changes metadata = canonicalImage e' changes' metadata'"
  shows "covered e changes metadata = covered e' changes' metadata'"
  using assms by (rule image_determines_covered)

definition demo_entry :: "string \<Rightarrow> string \<Rightarrow> nat Entry" where
  "demo_entry kind i =
     \<lparr>ent_RecordedAt = 7000, ent_Changes = [], ent_Metadata = [],
      ent_Actor = \<lparr>act_ID = ''u'', act_Type = ''user'', act_IP = [], act_Impersonator = []\<rparr>,
      ent_ID = ''e'', ent_ResourceType = kind, ent_ResourceID = i, ent_EventType = ''created'',
      ent_PrevHash = [], ent_Hash = [], ent_Scope = Some ''t'', ent_Seq = 0\<rparr>"

theorem canonicalImage_injective_witness:
  "canonicalImage (demo_entry ''a|b'' []) [] [] \<noteq> canonicalImage (demo_entry ''a'' ''b'') [] []"
  using canonicalImage_injective [of "demo_entry ''a|b'' []" "[]" "[]" "demo_entry ''a'' ''b''" "[]" "[]"]
  by (auto simp: demo_entry_def covered_def addressable_entry_def addressable_def imageFields_def
      imageVersion_def FormatInt_def decimal.simps UnixMicro_def owner_def)

end
