(* ===== verification/Audit_Store.thy ===== *)
theory Audit_Store
  imports Audit_Image
begin

text \<open>
  The two audit tables and the statements of \<^verbatim>\<open>audit/internal/queries/queries.go\<close>, with the schema
  of \<^verbatim>\<open>audit/migrations\<close>: ids are unique, positions are unique in a scope, and a chain row starts at
  position -1.

  A column of type scope holds the owner identifier. \<open>far\<close> is what an absent window bound coalesces to:
  the instants 999 years before and after the server's clock. \<open>locked\<close> says which entries another
  transaction holds; the retention delete of Postgres skips them, the other dialects are the predicate
  that holds nowhere.
\<close>

section \<open>Tables\<close>

record audit_row =
  ae_id :: string
  ae_seq :: int
  ae_scope :: string
  ae_recorded_at :: time
  ae_event_type :: string
  ae_resource_type :: string
  ae_resource_id :: string
  ae_actor_id :: string
  ae_actor_type :: string
  ae_actor_ip :: string
  ae_change_set :: string
  ae_metadata :: string
  ae_prev_hash :: string
  ae_hash :: string
  ae_actor_impersonator :: string

record chain_row =
  cr_scope :: string
  cr_head_seq :: int
  cr_head_hash :: string
  cr_pruned_through_seq :: int
  cr_pruned_through_hash :: string

record audit_db =
  db_entries :: "audit_row list"
  db_chains :: "chain_row list"

interpretation entries: keyed_table ae_id .
interpretation chains: keyed_table cr_scope .

definition chain_at :: "audit_db \<Rightarrow> string \<Rightarrow> chain_row option" where
  "chain_at db = row_at cr_scope (db_chains db)"

section \<open>Chain statements\<close>

definition genesis_row :: "string \<Rightarrow> chain_row" where
  "genesis_row scope =
     \<lparr>cr_scope = scope, cr_head_seq = -1, cr_head_hash = [], cr_pruned_through_seq = -1, cr_pruned_through_hash = []\<rparr>"

definition CreateAuditChain :: "string \<Rightarrow> audit_db \<Rightarrow> audit_db" where
  "CreateAuditChain scope db =
     (if scope \<in> cr_scope ` set (db_chains db) then db
      else db\<lparr>db_chains := db_chains db @ [genesis_row scope]\<rparr>)"

definition GetAuditChain :: "string \<Rightarrow> audit_db \<Rightarrow> audit_error + chain_row" where
  "GetAuditChain scope db = (case chain_at db scope of None \<Rightarrow> Inl ErrNoRows | Some c \<Rightarrow> Inr c)"

text \<open>The same read, holding the row until the transaction ends.\<close>

definition LockAuditChain :: "string \<Rightarrow> audit_db \<Rightarrow> audit_error + chain_row" where
  "LockAuditChain scope db = GetAuditChain scope db"

definition AdvanceAuditChainHead :: "int \<Rightarrow> string \<Rightarrow> string \<Rightarrow> audit_db \<Rightarrow> audit_db" where
  "AdvanceAuditChainHead headSeq headHash scope db =
     db\<lparr>db_chains := sql_update (\<lambda>c. cr_scope c = scope)
          (\<lambda>c. c\<lparr>cr_head_seq := headSeq, cr_head_hash := headHash\<rparr>) (db_chains db)\<rparr>"

definition RecordAuditChainPrune :: "int \<Rightarrow> string \<Rightarrow> string \<Rightarrow> audit_db \<Rightarrow> audit_db" where
  "RecordAuditChainPrune prunedSeq prunedHash scope db =
     db\<lparr>db_chains := sql_update (\<lambda>c. cr_scope c = scope)
          (\<lambda>c. c\<lparr>cr_pruned_through_seq := prunedSeq, cr_pruned_through_hash := prunedHash\<rparr>) (db_chains db)\<rparr>"

section \<open>Entry statements\<close>

definition InsertAuditLogEntry :: "audit_row \<Rightarrow> audit_db \<Rightarrow> audit_error + audit_db" where
  "InsertAuditLogEntry r db =
     (if ae_id r \<in> ae_id ` set (db_entries db) \<or>
         (ae_scope r, ae_seq r) \<in> (\<lambda>e. (ae_scope e, ae_seq e)) ` set (db_entries db)
      then Inl ErrConstraint
      else Inr (db\<lparr>db_entries := db_entries db @ [r]\<rparr>))"

definition GetAuditLogEntry :: "string \<Rightarrow> string option \<Rightarrow> audit_db \<Rightarrow> audit_error + audit_row" where
  "GetAuditLogEntry i scopeFilter db =
     (case find (\<lambda>r. ae_id r = i \<and> (case scopeFilter of None \<Rightarrow> True | Some s \<Rightarrow> ae_scope r = s)) (db_entries db) of
        None \<Rightarrow> Inl ErrNoRows
      | Some r \<Rightarrow> Inr r)"

definition GetAuditLogEntryBySeq :: "string \<Rightarrow> int \<Rightarrow> audit_db \<Rightarrow> audit_error + audit_row" where
  "GetAuditLogEntryBySeq scope n db =
     (case find (\<lambda>r. ae_scope r = scope \<and> ae_seq r = n) (db_entries db) of
        None \<Rightarrow> Inl ErrNoRows
      | Some r \<Rightarrow> Inr r)"

definition entryWindow :: "time \<times> time \<Rightarrow> time option \<Rightarrow> time option \<Rightarrow> audit_row \<Rightarrow> bool" where
  "entryWindow far after before r \<longleftrightarrow>
     (case after of None \<Rightarrow> fst far | Some a \<Rightarrow> a) < ae_recorded_at r \<and>
     ae_recorded_at r < (case before of None \<Rightarrow> snd far | Some b \<Rightarrow> b)"

definition chainRange :: "time \<times> time \<Rightarrow> string \<Rightarrow> time option \<Rightarrow> time option \<Rightarrow> int \<Rightarrow> audit_row \<Rightarrow> bool" where
  "chainRange far scope after before afterSeq r \<longleftrightarrow>
     ae_scope r = scope \<and> entryWindow far after before r \<and> \<not> ae_seq r \<le> afterSeq"

definition ListAuditChainEntries ::
  "time \<times> time \<Rightarrow> string \<Rightarrow> time option \<Rightarrow> time option \<Rightarrow> int \<Rightarrow> int \<Rightarrow> audit_db \<Rightarrow> audit_row list" where
  "ListAuditChainEntries far scope after before afterSeq limit db =
     sql_top limit ae_seq (chainRange far scope after before afterSeq) (db_entries db)"

section \<open>Retention statements\<close>

definition ListPrunableAuditScopes :: "time \<Rightarrow> int \<Rightarrow> audit_db \<Rightarrow> string list" where
  "ListPrunableAuditScopes horizon limit db =
     take (nat limit) (sort (remdups (map ae_scope (filter (\<lambda>r. ae_recorded_at r \<le> horizon) (db_entries db)))))"

definition ListPrunableAuditScopesAfter :: "time \<Rightarrow> string \<Rightarrow> int \<Rightarrow> audit_db \<Rightarrow> string list" where
  "ListPrunableAuditScopesAfter horizon cursor limit db =
     take (nat limit)
       (sort (remdups (map ae_scope (filter (\<lambda>r. ae_recorded_at r \<le> horizon \<and> \<not> ae_scope r \<le> cursor) (db_entries db)))))"

definition CountPrunableAuditEntries :: "time \<Rightarrow> int \<Rightarrow> audit_db \<Rightarrow> int" where
  "CountPrunableAuditEntries horizon ceiling db =
     int (length (take (nat ceiling) (filter (\<lambda>r. ae_recorded_at r \<le> horizon) (db_entries db))))"

text \<open>\<^verbatim>\<open>MIN\<close> over a set that may be empty.\<close>

definition sql_min :: "int list \<Rightarrow> int option" where
  "sql_min xs = (if xs = [] then None else Some (Min (set xs)))"

definition GetAuditPruneBounds :: "time \<Rightarrow> string \<Rightarrow> audit_db \<Rightarrow> int option \<times> int option" where
  "GetAuditPruneBounds horizon scope db =
     (let own = filter (\<lambda>r. ae_scope r = scope) (db_entries db)
      in (sql_min (map ae_seq own), sql_min (map ae_seq (filter (\<lambda>r. \<not> ae_recorded_at r \<le> horizon) own))))"

definition GetAuditPruneTarget :: "string \<Rightarrow> int \<Rightarrow> audit_db \<Rightarrow> audit_error + (int \<times> string)" where
  "GetAuditPruneTarget scope boundary db =
     (case rev (sort_key ae_seq (filter (\<lambda>r. ae_scope r = scope \<and> ae_seq r \<le> boundary) (db_entries db))) of
        [] \<Rightarrow> Inl ErrNoRows
      | r # _ \<Rightarrow> Inr (ae_seq r, ae_hash r))"

definition PruneAuditLogEntries ::
  "string \<Rightarrow> int \<Rightarrow> int \<Rightarrow> (audit_row \<Rightarrow> bool) \<Rightarrow> audit_db \<Rightarrow> int \<times> audit_db" where
  "PruneAuditLogEntries scope throughSeq limit locked db =
     (let doomed = sql_top limit ae_seq (\<lambda>r. ae_scope r = scope \<and> ae_seq r \<le> throughSeq \<and> \<not> locked r) (db_entries db);
          hit = (\<lambda>r. (ae_scope r, ae_seq r) \<in> (\<lambda>d. (ae_scope d, ae_seq d)) ` set doomed)
      in (sql_count hit (db_entries db), db\<lparr>db_entries := sql_delete hit (db_entries db)\<rparr>))"

section \<open>Erasure statements\<close>

definition DeleteAuditLogEntriesInScopes :: "string list \<Rightarrow> audit_db \<Rightarrow> int \<times> audit_db" where
  "DeleteAuditLogEntriesInScopes owners db =
     (sql_count (\<lambda>r. ae_scope r \<in> set owners) (db_entries db),
      db\<lparr>db_entries := sql_delete (\<lambda>r. ae_scope r \<in> set owners) (db_entries db)\<rparr>)"

definition DeleteAuditChainsInScopes :: "string list \<Rightarrow> audit_db \<Rightarrow> audit_db" where
  "DeleteAuditChainsInScopes owners db =
     db\<lparr>db_chains := sql_delete (\<lambda>c. cr_scope c \<in> set owners) (db_chains db)\<rparr>"

definition CountAuditLogEntriesForSubject :: "string \<Rightarrow> audit_db \<Rightarrow> int" where
  "CountAuditLogEntriesForSubject subject db =
     sql_count (\<lambda>r. ae_actor_id r = subject \<or> ae_resource_id r = subject \<or> ae_actor_impersonator r = subject)
       (db_entries db)"


section \<open>Rows and entries\<close>

record 'v storedEntry =
  se_rawChanges :: string
  se_rawMetadata :: string
  se_entry :: "'v Entry"

definition rowEntry :: "audit_row \<Rightarrow> (string \<times> 'v Change) list \<Rightarrow> (string \<times> string) list \<Rightarrow> 'v Entry" where
  "rowEntry r changes metadata =
     \<lparr>ent_RecordedAt = ae_recorded_at r, ent_Changes = changes, ent_Metadata = metadata,
      ent_Actor = \<lparr>act_ID = ae_actor_id r, act_Type = ae_actor_type r, act_IP = ae_actor_ip r,
                   act_Impersonator = ae_actor_impersonator r\<rparr>,
      ent_ID = ae_id r, ent_ResourceType = ae_resource_type r, ent_ResourceID = ae_resource_id r,
      ent_EventType = ae_event_type r, ent_PrevHash = ae_prev_hash r, ent_Hash = ae_hash r,
      ent_Scope = Some (ae_scope r), ent_Seq = ae_seq r\<rparr>"

text \<open>A blob that is there must decode; an absent one leaves the map nil.\<close>

definition decodeBlob :: "(string \<Rightarrow> 'a list option) \<Rightarrow> string \<Rightarrow> audit_error + 'a list" where
  "decodeBlob unmarshal bs =
     (if bs = [] then Inr []
      else case unmarshal bs of None \<Rightarrow> Inl ErrDecoding | Some m \<Rightarrow> Inr m)"

definition entryFromRow :: "'v audit_env \<Rightarrow> audit_row \<Rightarrow> audit_error + 'v storedEntry" where
  "entryFromRow env r =
     (case decodeBlob (unmarshalChanges env) (ae_change_set r) of
        Inl e \<Rightarrow> Inl e
      | Inr changes \<Rightarrow>
          (case decodeBlob (unmarshalMetadata env) (ae_metadata r) of
             Inl e \<Rightarrow> Inl e
           | Inr metadata \<Rightarrow>
               Inr \<lparr>se_rawChanges = ae_change_set r, se_rawMetadata = ae_metadata r,
                    se_entry = rowEntry r changes metadata\<rparr>))"

definition insertParams :: "'v Entry \<Rightarrow> string \<Rightarrow> string \<Rightarrow> audit_row" where
  "insertParams e changes metadata =
     \<lparr>ae_id = ent_ID e, ae_seq = ent_Seq e, ae_scope = owner (ent_Scope e), ae_recorded_at = ent_RecordedAt e,
      ae_event_type = ent_EventType e, ae_resource_type = ent_ResourceType e, ae_resource_id = ent_ResourceID e,
      ae_actor_id = act_ID (ent_Actor e), ae_actor_type = act_Type (ent_Actor e), ae_actor_ip = act_IP (ent_Actor e),
      ae_change_set = changes, ae_metadata = metadata, ae_prev_hash = ent_PrevHash e, ae_hash = ent_Hash e,
      ae_actor_impersonator = act_Impersonator (ent_Actor e)\<rparr>"

text \<open>The image of a row, and what it shares with the entry it was written from or is read into.\<close>

definition row_image :: "audit_row \<Rightarrow> string" where
  "row_image r = canonicalImage (rowEntry r [] [] :: unit Entry) (ae_change_set r) (ae_metadata r)"

lemma row_image_read:
  "entryFromRow env r = Inr s \<Longrightarrow> canonicalImage (se_entry s) (se_rawChanges s) (se_rawMetadata s) = row_image r"
  by (auto simp: entryFromRow_def row_image_def canonicalImage_def imageFields_def rowEntry_def split: sum.splits)

lemma row_image_written:
  "row_image (insertParams e changes metadata) = canonicalImage e changes metadata"
  by (simp add: row_image_def insertParams_def canonicalImage_def imageFields_def rowEntry_def owner_def)

definition readable :: "'v audit_env \<Rightarrow> audit_row \<Rightarrow> bool" where
  "readable env r \<longleftrightarrow> (\<exists>s. entryFromRow env r = Inr s)"

lemma entryFromRow_fields:
  "entryFromRow env r = Inr s \<Longrightarrow>
   se_rawChanges s = ae_change_set r \<and> se_rawMetadata s = ae_metadata r \<and> ent_Seq (se_entry s) = ae_seq r \<and>
   ent_PrevHash (se_entry s) = ae_prev_hash r \<and> ent_Hash (se_entry s) = ae_hash r \<and> ent_ID (se_entry s) = ae_id r"
  by (auto simp: entryFromRow_def rowEntry_def split: sum.splits)

section \<open>Linked rows\<close>

text \<open>
  What a scope's rows promise: consecutive positions from the one after \<open>n\<close>, each naming its
  predecessor's hash and hashing to its own.
\<close>

definition row_digest_ok :: "'v audit_env \<Rightarrow> audit_row \<Rightarrow> bool" where
  "row_digest_ok env r \<longleftrightarrow> chainHash env (ae_prev_hash r) (row_image r) = Inr (ae_hash r)"

fun linked :: "'v audit_env \<Rightarrow> string \<Rightarrow> int \<Rightarrow> audit_row list \<Rightarrow> bool" where
  "linked env prev n [] = True"
| "linked env prev n (r # rs) \<longleftrightarrow>
     ae_seq r = n + 1 \<and> ae_prev_hash r = prev \<and> row_digest_ok env r \<and> linked env (ae_hash r) (n + 1) rs"

definition last_link :: "string \<Rightarrow> audit_row list \<Rightarrow> string" where
  "last_link prev rs = (if rs = [] then prev else ae_hash (last rs))"

lemma last_link_simps [simp]:
  "last_link prev [] = prev" "last_link prev (r # rs) = last_link (ae_hash r) rs"
  by (auto simp: last_link_def)

lemma last_link_append: "last_link prev (rs @ ss) = last_link (last_link prev rs) ss"
  by (induction rs arbitrary: prev) auto

lemma linked_append:
  "linked env prev n (rs @ ss) \<longleftrightarrow> linked env prev n rs \<and> linked env (last_link prev rs) (n + int (length rs)) ss"
  by (induction rs arbitrary: prev n) (auto simp: algebra_simps)

lemma linked_seqs: "linked env prev n rs \<Longrightarrow> map ae_seq rs = map (\<lambda>i. n + 1 + int i) [0..<length rs]"
proof (induction rs arbitrary: prev n)
  case (Cons r rs)
  then have "map ae_seq rs = map (\<lambda>i. n + 1 + 1 + int i) [0..<length rs]" by auto
  moreover have "map (\<lambda>i. n + 1 + int i) [0..<length (r # rs)] = (n + 1) # map (\<lambda>i. n + 1 + 1 + int i) [0..<length rs]"
    by (simp add: map_upt_Suc algebra_simps del: upt_Suc)
  ultimately show ?case using Cons.prems by simp
qed simp

lemma linked_seq_bounds: "linked env prev n rs \<Longrightarrow> r \<in> set rs \<Longrightarrow> n < ae_seq r \<and> ae_seq r \<le> n + int (length rs)"
proof -
  assume l: "linked env prev n rs" and "r \<in> set rs"
  then have "ae_seq r \<in> set (map ae_seq rs)" by simp
  then show ?thesis unfolding linked_seqs [OF l] by auto
qed

lemma linked_last: "linked env prev n rs \<Longrightarrow> rs \<noteq> [] \<Longrightarrow> ae_seq (last rs) = n + int (length rs)"
proof (induction rs arbitrary: prev n)
  case (Cons r rs)
  then show ?case by (cases "rs = []") (auto simp: algebra_simps)
qed simp

lemma linked_sorted: "linked env prev n rs \<Longrightarrow> sorted (map ae_seq rs) \<and> distinct (map ae_seq rs)"
proof -
  assume l: "linked env prev n rs"
  have "sorted (map (\<lambda>i. n + 1 + int i) [0..<k])" for k by (simp add: sorted_iff_nth_mono)
  moreover have "distinct (map (\<lambda>i. n + 1 + int i) [0..<k])" for k by (simp add: distinct_map inj_on_def)
  ultimately show ?thesis unfolding linked_seqs [OF l] by simp
qed

lemma linked_sort_key: "linked env prev n rs \<Longrightarrow> sort_key ae_seq rs = rs"
  by (simp add: linked_sorted sort_key_id_if_sorted)

definition own_rows :: "audit_db \<Rightarrow> string \<Rightarrow> audit_row list" where
  "own_rows db scope = filter (\<lambda>r. ae_scope r = scope) (db_entries db)"


section \<open>Consistent databases\<close>

text \<open>A scope that was never written reads as one whose chain is at its start.\<close>

definition chain_of :: "audit_db \<Rightarrow> string \<Rightarrow> chain_row" where
  "chain_of db scope = (case chain_at db scope of None \<Rightarrow> genesis_row scope | Some c \<Rightarrow> c)"

text \<open>
  Nothing pruned and no hash to link to, or the position and digest of the last entry retention removed;
  the rows continue from there to the recorded head.
\<close>

definition watermark_ok :: "'v audit_env \<Rightarrow> chain_row \<Rightarrow> bool" where
  "watermark_ok env c \<longleftrightarrow>
     cr_pruned_through_seq c = -1 \<and> cr_pruned_through_hash c = [] \<or>
     0 \<le> cr_pruned_through_seq c \<and> cr_pruned_through_hash c \<in> range (hashingHex env)"

definition chain_ok :: "'v audit_env \<Rightarrow> chain_row \<Rightarrow> audit_row list \<Rightarrow> bool" where
  "chain_ok env c rs \<longleftrightarrow>
     watermark_ok env c \<and> linked env (cr_pruned_through_hash c) (cr_pruned_through_seq c) rs \<and>
     cr_head_seq c = cr_pruned_through_seq c + int (length rs) \<and>
     cr_head_hash c = last_link (cr_pruned_through_hash c) rs"

definition audit_ok :: "'v audit_env \<Rightarrow> audit_db \<Rightarrow> bool" where
  "audit_ok env db \<longleftrightarrow>
     distinct (map ae_id (db_entries db)) \<and> distinct (map cr_scope (db_chains db)) \<and>
     (\<forall>r \<in> set (db_entries db). readable env r) \<and>
     (\<forall>scope. chain_ok env (chain_of db scope) (own_rows db scope))"

lemma audit_okD:
  assumes "audit_ok env db"
  shows "distinct (map ae_id (db_entries db))" "distinct (map cr_scope (db_chains db))"
    "r \<in> set (db_entries db) \<Longrightarrow> readable env r" "chain_ok env (chain_of db scope) (own_rows db scope)"
  using assms by (auto simp: audit_ok_def)

lemma chain_ok_genesis: "chain_ok env (genesis_row scope) []"
  by (simp add: chain_ok_def watermark_ok_def genesis_row_def)

lemma chain_of_scope: "cr_scope (chain_of db scope) = scope"
  by (auto simp: chain_of_def chain_at_def genesis_row_def dest: row_at_SomeD split: option.splits)

lemma chain_of_chains: "db_chains db' = db_chains db \<Longrightarrow> chain_of db' = chain_of db"
  by (simp add: chain_of_def chain_at_def fun_eq_iff)

lemma set_own_rows: "r \<in> set (own_rows db scope) \<longleftrightarrow> r \<in> set (db_entries db) \<and> ae_scope r = scope"
  by (auto simp: own_rows_def)

lemma own_rows_entries: "db_entries db' = db_entries db \<Longrightarrow> own_rows db' scope = own_rows db scope"
  by (simp add: own_rows_def)

lemma chain_of_create [simp]: "chain_of (CreateAuditChain scope db) s = chain_of db s"
  by (auto simp: CreateAuditChain_def chain_of_def chain_at_def row_at_append genesis_row_def split: option.splits)

lemma entries_create [simp]: "db_entries (CreateAuditChain scope db) = db_entries db"
  by (simp add: CreateAuditChain_def)

lemma distinct_create: "distinct (map cr_scope (db_chains db)) \<Longrightarrow> distinct (map cr_scope (db_chains (CreateAuditChain scope db)))"
  by (auto simp: CreateAuditChain_def genesis_row_def)

lemma lock_after_create: "LockAuditChain scope (CreateAuditChain scope db) = Inr (chain_of db scope)"
proof -
  let ?db = "CreateAuditChain scope db"
  have "\<exists>c \<in> set (db_chains ?db). cr_scope c = scope" by (auto simp: CreateAuditChain_def genesis_row_def)
  then have "chain_at ?db scope \<noteq> None" by (auto simp: chain_at_def row_at_None_iff)
  then obtain c where c: "chain_at ?db scope = Some c" by auto
  then have "chain_of ?db scope = c" by (simp add: chain_of_def)
  then show ?thesis by (simp add: LockAuditChain_def GetAuditChain_def c)
qed

text \<open>An update of one chain row, where the row exists.\<close>

lemma chain_of_update:
  assumes "chain_at db scope \<noteq> None" "\<And>c. cr_scope (f c) = cr_scope c"
  shows "chain_of (db\<lparr>db_chains := sql_update (\<lambda>c. cr_scope c = scope) f (db_chains db)\<rparr>) s =
     (if s = scope then f (chain_of db scope) else chain_of db s)"
proof -
  have k: "row_at cr_scope (sql_update (\<lambda>c. cr_scope c = scope) f (db_chains db)) s =
      map_option (\<lambda>c. if cr_scope c = scope then f c else c) (row_at cr_scope (db_chains db) s)"
    by (rule chains.at_update) (rule assms(2))
  show ?thesis
    using assms(1) by (auto simp: chain_of_def chain_at_def k dest: row_at_SomeD split: option.splits)
qed

text \<open>A hash a chain carries is empty or a digest, and either decodes.\<close>

definition link_hash :: "'v audit_env \<Rightarrow> string \<Rightarrow> bool" where
  "link_hash env h \<longleftrightarrow> h = [] \<or> h \<in> range (hashingHex env)"

lemma link_hash_decodes: "hex_digest env \<Longrightarrow> link_hash env h \<Longrightarrow> \<exists>b. hexDecode h = Some b"
  using hex_digest_decodes by (auto simp: link_hash_def)

lemma linked_link_hash: "linked env prev n rs \<Longrightarrow> link_hash env prev \<Longrightarrow> link_hash env (last_link prev rs)"
proof (induction rs arbitrary: prev n)
  case (Cons r rs)
  then have "\<exists>m. hashingHex env m = ae_hash r"
    by (auto simp: row_digest_ok_def chainHash_def split: option.splits)
  then have "link_hash env (ae_hash r)" by (metis link_hash_def rangeI)
  with Cons show ?case by auto
qed simp

lemma chain_ok_head_hash: "chain_ok env c rs \<Longrightarrow> link_hash env (cr_head_hash c)"
proof -
  assume a: "chain_ok env c rs"
  then have "link_hash env (cr_pruned_through_hash c)" by (auto simp: chain_ok_def watermark_ok_def link_hash_def)
  with a show ?thesis by (auto simp: chain_ok_def intro: linked_link_hash)
qed

end
