(* ===== verification/Audit_Demo.thy ===== *)
theory Audit_Demo
  imports Audit_Store
begin

text \<open>
  A concrete log for the witnesses: an environment whose digest is a checksum written in hex and whose
  encoders write the field names, and the table and chain row that hold given entries of one scope.
\<close>

definition checksum :: "string \<Rightarrow> nat" where
  "checksum m = foldl (\<lambda>s c. (31 * s + of_char c) mod 65536) 7 m"

definition demoDigest :: "string \<Rightarrow> string" where
  "demoDigest m = replicate 60 CHR ''0'' @ map (\<lambda>i. hexDigits ! (checksum m div 16 ^ i mod 16)) [3, 2, 1, 0]"

definition demo_env :: "nat audit_env" where
  "demo_env =
     \<lparr>hashingHex = demoDigest, marshalChanges = (\<lambda>m. Some (concat (map fst m))),
      marshalMetadata = (\<lambda>m. Some (concat (map fst m))),
      canonicalSum = (\<lambda>v. Some (case v of GoString s \<Rightarrow> demoDigest s | GoValue n \<Rightarrow> demoDigest (decimal n))),
      unmarshalChanges = (\<lambda>bs. Some []), unmarshalMetadata = (\<lambda>bs. Some [])\<rparr>"

definition demo_bare :: "string \<Rightarrow> int \<Rightarrow> string \<Rightarrow> time \<Rightarrow> audit_row" where
  "demo_bare prev n i at =
     \<lparr>ae_id = i, ae_seq = n, ae_scope = ''t'', ae_recorded_at = at, ae_event_type = ''created'',
      ae_resource_type = ''user'', ae_resource_id = ''r'', ae_actor_id = ''u'', ae_actor_type = ''user'',
      ae_actor_ip = [], ae_change_set = ''name'', ae_metadata = [], ae_prev_hash = prev, ae_hash = [],
      ae_actor_impersonator = []\<rparr>"

definition demo_row :: "string \<Rightarrow> int \<Rightarrow> string \<Rightarrow> time \<Rightarrow> audit_row" where
  "demo_row prev n i at =
     (demo_bare prev n i at)\<lparr>ae_hash := demoDigest (the (hexDecode prev) @ row_image (demo_bare prev n i at))\<rparr>"

fun demo_rows :: "string \<Rightarrow> int \<Rightarrow> (string \<times> time) list \<Rightarrow> audit_row list" where
  "demo_rows prev n [] = []"
| "demo_rows prev n ((i, at) # es) =
     (let r = demo_row prev (n + 1) i at in r # demo_rows (ae_hash r) (n + 1) es)"

definition demo_db :: "(string \<times> time) list \<Rightarrow> audit_db" where
  "demo_db es =
     (let rs = demo_rows [] (-1) es
      in \<lparr>db_entries = rs,
          db_chains = [\<lparr>cr_scope = ''t'', cr_head_seq = int (length rs) - 1, cr_head_hash = last_link [] rs,
                        cr_pruned_through_seq = -1, cr_pruned_through_hash = []\<rparr>]\<rparr>)"

definition demo_far :: "time \<times> time" where
  "demo_far = (- (999 * 365 * 24 * 3600 * Second), 999 * 365 * 24 * 3600 * Second)"

lemma demo_hex_digest: "hex_digest demo_env"
proof -
  have "hexDigits ! (n mod 16) \<in> set hexDigits" for n :: nat
    by (rule nth_mem) (simp add: hexDigits_def)
  moreover have "CHR ''0'' \<in> set hexDigits" by (simp add: hexDigits_def)
  ultimately show ?thesis by (simp add: hex_digest_def demo_env_def demoDigest_def lower_hex_def list_all_iff)
qed

lemma demo_row_fields [simp]:
  "ae_id (demo_row prev n i at) = i" "ae_seq (demo_row prev n i at) = n" "ae_scope (demo_row prev n i at) = ''t''"
  "ae_recorded_at (demo_row prev n i at) = at" "ae_prev_hash (demo_row prev n i at) = prev"
  "ae_change_set (demo_row prev n i at) = ''name''" "ae_metadata (demo_row prev n i at) = []"
  by (simp_all add: demo_row_def demo_bare_def)

lemma demo_readable: "readable demo_env r"
  by (simp add: readable_def entryFromRow_def decodeBlob_def demo_env_def)

lemma demo_row_digest:
  assumes "link_hash demo_env prev"
  shows "row_digest_ok demo_env (demo_row prev n i at)" "link_hash demo_env (ae_hash (demo_row prev n i at))"
proof -
  obtain b where b: "hexDecode prev = Some b" using link_hash_decodes [OF demo_hex_digest assms] by blast
  have img: "row_image (r\<lparr>ae_hash := h\<rparr>) = row_image r" for r h
    by (simp add: row_image_def rowEntry_def canonicalImage_def imageFields_def)
  show "row_digest_ok demo_env (demo_row prev n i at)"
    by (simp add: row_digest_ok_def chainHash_def b demo_row_def img) (simp add: demo_bare_def b demo_env_def)
  show "link_hash demo_env (ae_hash (demo_row prev n i at))"
    by (simp add: link_hash_def demo_row_def demo_env_def)
qed

lemma demo_linked: "link_hash demo_env prev \<Longrightarrow> linked demo_env prev n (demo_rows prev n es)"
  by (induction es arbitrary: prev n) (auto simp: Let_def demo_row_digest)

lemma demo_row_scope: "r \<in> set (demo_rows prev n es) \<Longrightarrow> ae_scope r = ''t''"
  by (induction es arbitrary: prev n) (auto simp: Let_def)

lemma length_demo_rows [simp]: "length (demo_rows prev n es) = length es"
  by (induction es arbitrary: prev n) (auto simp: Let_def)

lemma demo_row_ids [simp]: "map ae_id (demo_rows prev n es) = map fst es"
  by (induction es arbitrary: prev n) (auto simp: Let_def)

lemma demo_own_rows: "own_rows (demo_db es) s = (if s = ''t'' then demo_rows [] (-1) es else [])"
  using demo_row_scope by (auto simp: own_rows_def demo_db_def Let_def filter_id_conv filter_empty_conv)

lemma demo_ok: "distinct (map fst es) \<Longrightarrow> audit_ok demo_env (demo_db es)"
proof -
  assume d: "distinct (map fst es)"
  have "chain_ok demo_env (chain_of (demo_db es) s) (own_rows (demo_db es) s)" for s
  proof (cases "s = ''t''")
    case True
    have "linked demo_env [] (-1) (demo_rows [] (-1) es)" by (rule demo_linked) (simp add: link_hash_def)
    with True show ?thesis
      by (simp add: demo_own_rows) (simp add: chain_ok_def watermark_ok_def chain_of_def chain_at_def demo_db_def row_at_def Let_def)
  next
    case False
    then have "chain_of (demo_db es) s = genesis_row s" by (simp add: chain_of_def chain_at_def demo_db_def row_at_def Let_def)
    with False show ?thesis by (simp add: demo_own_rows chain_ok_genesis)
  qed
  with d show ?thesis by (simp add: audit_ok_def demo_readable) (simp add: demo_db_def Let_def)
qed

lemma length_demo_entries [simp]: "length (db_entries (demo_db es)) = length es"
  by (simp add: demo_db_def Let_def)

text \<open>Three entries, the second written with a clock that ran behind.\<close>

definition demo_log :: audit_db where
  "demo_log = demo_db [(''a'', 5000), (''b'', 3000), (''c'', 9000)]"

lemma demo_log_ok: "audit_ok demo_env demo_log"
  unfolding demo_log_def by (rule demo_ok) simp

end
