(* ===== verification/Audit_Redaction.thy ===== *)
theory Audit_Redaction
  imports Audit_Image
begin

text \<open>
  Redaction and the construction of a recorder (\<^verbatim>\<open>audit/redaction.go\<close>, the recorder options of
  \<^verbatim>\<open>audit/options.go\<close>, \<^verbatim>\<open>NewRecorder\<close>).

  A rule set is the list of the assignments that built the Go map, the latest first, so that \<open>map_of\<close>
  reads it back; a field without a rule is kept. The two maps of an entry are lists of bindings in key
  order, the order in which the code visits them. The result of the theory is that whatever a deployment
  registers can only add to the catch-all rules, and that a credential field never survives redaction.
\<close>

section \<open>Rules\<close>

record Redaction =
  red_Drop :: "string list"
  red_Hash :: "string list"

definition noRedaction :: Redaction where
  "noRedaction = \<lparr>red_Drop = [], red_Hash = []\<rparr>"

definition redaction_merge :: "Redaction \<Rightarrow> Redaction \<Rightarrow> Redaction" where
  "redaction_merge r other =
     \<lparr>red_Drop = red_Drop r @ red_Drop other, red_Hash = red_Hash r @ red_Hash other\<rparr>"

datatype disposition = keepField | hashField | dropField

type_synonym ruleset = "(string \<times> disposition) list"

definition redaction_rules :: "Redaction \<Rightarrow> ruleset" where
  "redaction_rules r =
     rev (map (\<lambda>f. (f, dropField)) (red_Drop r)) @ rev (map (\<lambda>f. (f, hashField)) (red_Hash r))"

definition rule_for :: "ruleset \<Rightarrow> string \<Rightarrow> disposition" where
  "rule_for rs f = (case map_of rs f of None \<Rightarrow> keepField | Some d \<Rightarrow> d)"

section \<open>Applying them\<close>

definition hashHalf :: "'v audit_env \<Rightarrow> 'v any option \<Rightarrow> audit_error + 'v any option" where
  "hashHalf env half =
     (case half of
        None \<Rightarrow> Inr None
      | Some v \<Rightarrow> (case hashValue env v of Inl e \<Rightarrow> Inl e | Inr h \<Rightarrow> Inr (Some (GoString h))))"

definition hashChange :: "'v audit_env \<Rightarrow> 'v Change \<Rightarrow> audit_error + 'v Change" where
  "hashChange env c =
     (case hashHalf env (ch_Old c) of
        Inl e \<Rightarrow> Inl e
      | Inr old \<Rightarrow>
          (case hashHalf env (ch_New c) of
             Inl e \<Rightarrow> Inl e
           | Inr new \<Rightarrow> Inr \<lparr>ch_Old = old, ch_New = new\<rparr>))"

text \<open>The loop both maps go through, over what hashing means for a value of the map.\<close>

fun redactFields :: "('a \<Rightarrow> audit_error + 'a) \<Rightarrow> ruleset \<Rightarrow> (string \<times> 'a) list \<Rightarrow> audit_error + (string \<times> 'a) list" where
  "redactFields hash rs [] = Inr []"
| "redactFields hash rs ((f, v) # m) =
     (case rule_for rs f of
        dropField \<Rightarrow> redactFields hash rs m
      | hashField \<Rightarrow>
          (case hash v of
             Inl e \<Rightarrow> Inl e
           | Inr h \<Rightarrow> (case redactFields hash rs m of Inl e \<Rightarrow> Inl e | Inr out \<Rightarrow> Inr ((f, h) # out)))
      | keepField \<Rightarrow> (case redactFields hash rs m of Inl e \<Rightarrow> Inl e | Inr out \<Rightarrow> Inr ((f, v) # out)))"

definition redactChanges ::
  "'v audit_env \<Rightarrow> ruleset \<Rightarrow> (string \<times> 'v Change) list \<Rightarrow> audit_error + (string \<times> 'v Change) list" where
  "redactChanges env rs changes = redactFields (hashChange env) rs changes"

definition redactMetadata ::
  "'v audit_env \<Rightarrow> ruleset \<Rightarrow> (string \<times> string) list \<Rightarrow> audit_error + (string \<times> string) list" where
  "redactMetadata env rs metadata = redactFields (\<lambda>v. hashValue env (GoString v)) rs metadata"

definition Redaction_Apply ::
  "'v audit_env \<Rightarrow> Redaction \<Rightarrow> (string \<times> 'v Change) list \<Rightarrow> audit_error + (string \<times> 'v Change) list" where
  "Redaction_Apply env r changes = redactChanges env (redaction_rules r) changes"

type_synonym redactions = "string \<Rightarrow> Redaction option"

definition dispositions :: "redactions \<Rightarrow> string \<Rightarrow> ruleset" where
  "dispositions reds resourceType =
     (case (reds [], reds resourceType) of
        (None, None) \<Rightarrow> []
      | (global, specific) \<Rightarrow>
          redaction_rules (redaction_merge (case global of None \<Rightarrow> noRedaction | Some r \<Rightarrow> r)
                                           (case specific of None \<Rightarrow> noRedaction | Some r \<Rightarrow> r)))"

definition redact ::
  "'v audit_env \<Rightarrow> redactions \<Rightarrow> 'v Entry \<Rightarrow> audit_error + (string \<times> 'v Change) list \<times> (string \<times> string) list" where
  "redact env reds e =
     (let rs = dispositions reds (ent_ResourceType e) in
      if rs = [] then Inr (ent_Changes e, ent_Metadata e)
      else case redactChanges env rs (ent_Changes e) of
             Inl err \<Rightarrow> Inl err
           | Inr changes \<Rightarrow>
               (case redactMetadata env rs (ent_Metadata e) of
                  Inl err \<Rightarrow> Inl err
                | Inr metadata \<Rightarrow> Inr (changes, metadata)))"

definition CredentialRedaction :: Redaction where
  "CredentialRedaction =
     \<lparr>red_Drop =
        [''password'',
         ''current_password'', ''currentPassword'',
         ''new_password'', ''newPassword'',
         ''hashed_password'', ''hashedPassword'',
         ''two_factor_secret'', ''twoFactorSecret'',
         ''totp_code'', ''totpCode'',
         ''totp_token'', ''totpToken'',
         ''recovery_code'', ''recoveryCode'',
         ''recovery_codes'', ''recoveryCodes'',
         ''code_hash'', ''codeHash'',
         ''client_secret'', ''clientSecret'',
         ''secret_hash'', ''secretHash'',
         ''code_verifier'', ''codeVerifier'',
         ''access_token'', ''accessToken'',
         ''refresh_token'', ''refreshToken'',
         ''wrapped_key'', ''wrappedKey'',
         ''secret''],
      red_Hash =
        [''token'',
         ''token_digest'', ''tokenDigest'',
         ''reset_token'', ''resetToken'',
         ''email_verification_token'', ''emailVerificationToken'',
         ''email_address_verification_token'', ''emailAddressVerificationToken'',
         ''email_address_verification_token_digest'', ''emailAddressVerificationTokenDigest'',
         ''api_key'', ''apiKey'',
         ''signing_key'', ''signingKey'',
         ''signing_keys'', ''signingKeys'',
         ''secret_current'', ''secretCurrent'',
         ''secret_previous'', ''secretPrevious'']\<rparr>"

section \<open>Recorders\<close>

datatype audit_dialect = Postgres | MySQL | SQLite | UnknownDialect string

definition dialectValid :: "audit_dialect \<Rightarrow> bool" where
  "dialectValid d \<longleftrightarrow> d \<in> {Postgres, MySQL, SQLite}"

definition storedPrecision :: "audit_dialect \<Rightarrow> duration" where
  "storedPrecision d = (if d = SQLite then Second else Microsecond)"

record ChainRecorder =
  rec_prefix :: string
  rec_redactions :: redactions
  rec_withoutCredentialRedaction :: bool
  rec_precision :: duration

datatype RecorderOption =
    WithRecorderTablePrefix string
  | WithRedaction string Redaction
  | WithoutCredentialRedaction
  | WithRecorderInstrument

definition addRedaction :: "string \<Rightarrow> Redaction \<Rightarrow> ChainRecorder \<Rightarrow> ChainRecorder" where
  "addRedaction resourceType redaction r =
     r\<lparr>rec_redactions := (rec_redactions r)(resourceType \<mapsto>
         redaction_merge (case rec_redactions r resourceType of None \<Rightarrow> noRedaction | Some x \<Rightarrow> x) redaction)\<rparr>"

fun applyRecorderOption :: "ChainRecorder \<Rightarrow> RecorderOption \<Rightarrow> ChainRecorder" where
  "applyRecorderOption r (WithRecorderTablePrefix p) = (if p \<noteq> [] then r\<lparr>rec_prefix := p\<rparr> else r)"
| "applyRecorderOption r (WithRedaction rt red) = addRedaction rt red r"
| "applyRecorderOption r WithoutCredentialRedaction = r\<lparr>rec_withoutCredentialRedaction := True\<rparr>"
| "applyRecorderOption r WithRecorderInstrument = r"

datatype construct_error = ErrUnsupportedDialect | ErrInvalidTablePrefix

definition NewRecorder ::
  "(string \<Rightarrow> bool) \<Rightarrow> audit_dialect \<Rightarrow> RecorderOption option list \<Rightarrow> construct_error + ChainRecorder" where
  "NewRecorder validNamespace d opts =
     (if \<not> dialectValid d then Inl ErrUnsupportedDialect
      else let r = foldl (\<lambda>r opt. case opt of None \<Rightarrow> r | Some f \<Rightarrow> applyRecorderOption r f)
                     \<lparr>rec_prefix = [], rec_redactions = Map.empty, rec_withoutCredentialRedaction = False,
                      rec_precision = 0\<rparr> opts
           in if \<not> validNamespace (rec_prefix r) then Inl ErrInvalidTablePrefix
              else let r = (if rec_withoutCredentialRedaction r then r else addRedaction [] CredentialRedaction r)
                   in Inr (r\<lparr>rec_precision := storedPrecision d\<rparr>))"

section \<open>What survives\<close>

lemma rule_for_rules:
  "rule_for (redaction_rules r) f =
     (if f \<in> set (red_Drop r) then dropField else if f \<in> set (red_Hash r) then hashField else keepField)"
proof -
  have m: "map_of (map (\<lambda>f. (f, d)) xs) g = (if g \<in> set xs then Some d else None)" for xs g and d :: disposition
    by (induction xs) auto
  show ?thesis
    unfolding rule_for_def redaction_rules_def rev_map map_of_append
    by (auto simp: map_add_def m split: option.splits)
qed

lemma rule_for_Nil [simp]: "rule_for [] f = keepField"
  by (simp add: rule_for_def)

lemma dispositions_catch_all:
  assumes "reds [] = Some g"
  shows "rule_for (dispositions reds rt) f =
     (let s = (case reds rt of None \<Rightarrow> noRedaction | Some s \<Rightarrow> s) in
      if f \<in> set (red_Drop g) \<union> set (red_Drop s) then dropField
      else if f \<in> set (red_Hash g) \<union> set (red_Hash s) then hashField else keepField)"
  by (cases "reds rt") (auto simp: dispositions_def assms rule_for_rules redaction_merge_def Let_def)

lemma redactFields_bindings:
  assumes "redactFields hash rs m = Inr out" "(f, v) \<in> set out"
  shows "(rule_for rs f = keepField \<and> (f, v) \<in> set m) \<or>
         (rule_for rs f = hashField \<and> (\<exists>u. (f, u) \<in> set m \<and> hash u = Inr v))"
  using assms
proof (induction m arbitrary: out)
  case (Cons b m)
  obtain g w where b: "b = (g, w)" by (cases b)
  from Cons.prems(1) b obtain rest where rest: "redactFields hash rs m = Inr rest"
    "out = rest \<or> (\<exists>h. out = (g, h) # rest \<and> (rule_for rs g = keepField \<and> h = w \<or> rule_for rs g = hashField \<and> hash w = Inr h))"
    by (auto split: disposition.splits sum.splits)
  show ?case
  proof (cases "(f, v) \<in> set rest")
    case True
    with Cons.IH [OF rest(1)] b show ?thesis by auto
  next
    case False
    with rest(2) Cons.prems(2) b show ?thesis by auto
  qed
qed simp

text \<open>A rule-free field of the input is a field of the output, in the same order.\<close>

lemma redactFields_fields:
  "redactFields hash rs m = Inr out \<Longrightarrow>
   map fst out = filter (\<lambda>f. rule_for rs f \<noteq> dropField) (map fst m)"
  by (induction m arbitrary: out) (auto split: disposition.splits sum.splits)

lemma redact_bindings:
  assumes "redact env reds e = Inr (changes, metadata)"
  shows "redactChanges env (dispositions reds (ent_ResourceType e)) (ent_Changes e) = Inr changes"
    and "redactMetadata env (dispositions reds (ent_ResourceType e)) (ent_Metadata e) = Inr metadata"
proof -
  have idm: "redactFields hash [] m = Inr m" for hash and m :: "(string \<times> string) list"
    by (induction m) auto
  have idc: "redactFields hash [] m = Inr m" for hash and m :: "(string \<times> 'a Change) list"
    by (induction m) auto
  from assms show "redactChanges env (dispositions reds (ent_ResourceType e)) (ent_Changes e) = Inr changes"
    "redactMetadata env (dispositions reds (ent_ResourceType e)) (ent_Metadata e) = Inr metadata"
    by (auto simp: redact_def redactChanges_def redactMetadata_def Let_def idm idc split: sum.splits if_splits)
qed


section \<open>Credentials\<close>

lemma applyRecorderOption_credentials:
  "opt \<noteq> WithoutCredentialRedaction \<Longrightarrow>
   rec_withoutCredentialRedaction (applyRecorderOption r opt) = rec_withoutCredentialRedaction r"
  by (cases opt) (auto simp: addRedaction_def)

lemma options_credentials:
  "Some WithoutCredentialRedaction \<notin> set opts \<Longrightarrow>
   rec_withoutCredentialRedaction (foldl (\<lambda>r opt. case opt of None \<Rightarrow> r | Some f \<Rightarrow> applyRecorderOption r f) r opts) =
   rec_withoutCredentialRedaction r"
proof (induction opts arbitrary: r)
  case (Cons opt opts)
  then show ?case using applyRecorderOption_credentials by (cases opt) auto
qed simp

lemma NewRecorder_catch_all:
  assumes "NewRecorder validNamespace d opts = Inr r" "Some WithoutCredentialRedaction \<notin> set opts"
  obtains g where "rec_redactions r [] = Some g"
    "set (red_Drop CredentialRedaction) \<subseteq> set (red_Drop g)" "set (red_Hash CredentialRedaction) \<subseteq> set (red_Hash g)"
  using assms by (auto simp: NewRecorder_def addRedaction_def redaction_merge_def options_credentials Let_def split: if_splits)

text \<open>What hashing leaves of a value: nothing of an absent half, a prefixed digest of a present one.\<close>

definition digest_of :: "'v audit_env \<Rightarrow> 'v any option \<Rightarrow> 'v any option \<Rightarrow> bool" where
  "digest_of env v h \<longleftrightarrow>
     (case v of
        None \<Rightarrow> h = None
      | Some x \<Rightarrow> (case canonicalSum env x of None \<Rightarrow> False | Some s \<Rightarrow> h = Some (GoString (''sha256:'' @ s))))"

lemma hashChange_digests:
  "hashChange env c = Inr c' \<Longrightarrow> digest_of env (ch_Old c) (ch_Old c') \<and> digest_of env (ch_New c) (ch_New c')"
  by (auto simp: hashChange_def hashHalf_def hashValue_def digest_of_def split: sum.splits option.splits)

definition credentials_gone ::
  "'v audit_env \<Rightarrow> 'v Entry \<Rightarrow> (string \<times> 'v Change) list \<Rightarrow> (string \<times> string) list \<Rightarrow> bool" where
  "credentials_gone env e changes metadata \<longleftrightarrow>
     (\<forall>f \<in> set (red_Drop CredentialRedaction). f \<notin> fst ` set changes \<and> f \<notin> fst ` set metadata) \<and>
     (\<forall>(f, c) \<in> set changes. f \<in> set (red_Hash CredentialRedaction) \<longrightarrow>
        (\<exists>b. (f, b) \<in> set (ent_Changes e) \<and> digest_of env (ch_Old b) (ch_Old c) \<and> digest_of env (ch_New b) (ch_New c))) \<and>
     (\<forall>(f, m) \<in> set metadata. f \<in> set (red_Hash CredentialRedaction) \<longrightarrow>
        (\<exists>b. (f, b) \<in> set (ent_Metadata e) \<and> digest_of env (Some (GoString b)) (Some (GoString m))))"

lemma credential_lists_disjoint: "set (red_Drop CredentialRedaction) \<inter> set (red_Hash CredentialRedaction) = {}"
  by code_simp

lemma redact_credentials:
  assumes r: "NewRecorder validNamespace d opts = Inr r" "Some WithoutCredentialRedaction \<notin> set opts"
    and out: "redact env (rec_redactions r) e = Inr (changes, metadata)"
  shows "credentials_gone env e changes metadata"
proof -
  let ?rs = "dispositions (rec_redactions r) (ent_ResourceType e)"
  from NewRecorder_catch_all [OF r] obtain g where g: "rec_redactions r [] = Some g"
    "set (red_Drop CredentialRedaction) \<subseteq> set (red_Drop g)" "set (red_Hash CredentialRedaction) \<subseteq> set (red_Hash g)" .
  have drop: "rule_for ?rs f = dropField" if "f \<in> set (red_Drop CredentialRedaction)" for f
    using that g(2) by (auto simp: dispositions_catch_all [of "rec_redactions r", OF g(1)] Let_def)
  have hash: "rule_for ?rs f \<noteq> keepField" if "f \<in> set (red_Hash CredentialRedaction)" for f
    using that g(3) by (auto simp: dispositions_catch_all [of "rec_redactions r", OF g(1)] Let_def)
  note c = redact_bindings(1) [OF out, unfolded redactChanges_def]
  note m = redact_bindings(2) [OF out, unfolded redactMetadata_def]
  show ?thesis
    unfolding credentials_gone_def
  proof (intro conjI ballI)
    fix f assume "f \<in> set (red_Drop CredentialRedaction)"
    from drop [OF this] show "f \<notin> fst ` set changes" "f \<notin> fst ` set metadata"
      using redactFields_fields [OF c] redactFields_fields [OF m] by (auto simp flip: set_map)
  next
    fix x assume x2: "x \<in> set changes"
    obtain f v where x: "x = (f, v)" by (cases x)
    from redactFields_bindings [OF c x2 [unfolded x]] hash [of f] hashChange_digests [of env _ v]
    show "case x of (f, c) \<Rightarrow> f \<in> set (red_Hash CredentialRedaction) \<longrightarrow>
        (\<exists>b. (f, b) \<in> set (ent_Changes e) \<and> digest_of env (ch_Old b) (ch_Old c) \<and> digest_of env (ch_New b) (ch_New c))"
      by (auto simp: x)
  next
    fix x assume x2: "x \<in> set metadata"
    obtain f v where x: "x = (f, v)" by (cases x)
    from redactFields_bindings [OF m x2 [unfolded x]] hash [of f]
    show "case x of (f, m) \<Rightarrow> f \<in> set (red_Hash CredentialRedaction) \<longrightarrow>
        (\<exists>b. (f, b) \<in> set (ent_Metadata e) \<and> digest_of env (Some (GoString b)) (Some (GoString m)))"
      by (auto simp: x digest_of_def hashValue_def split: option.splits)
  qed
qed

end
