(* ===== verification/Audit_Recorder.thy ===== *)
theory Audit_Recorder
  imports Audit_Demo Audit_Redaction
begin

text \<open>
  Recording (\<^verbatim>\<open>audit/recorder.go\<close>).

  \<^verbatim>\<open>Record\<close> runs inside the caller's transaction, so its statements act on the database the transaction
  sees and an error is the caller's to roll back; the result is the error, or the entries as they were
  written back with the new database. A nil executor and a nil entry are \<open>None\<close>. \<open>newID k\<close> is the k-th
  identifier \<^verbatim>\<open>identifiers.New\<close> hands out during the call. The entries of one call are distinct
  objects.

  Proved: an append continues the chain of the scope it was given and touches nothing else, and a call
  with a bad entry anywhere in it writes nothing.
\<close>

section \<open>Operations\<close>

definition validateEntry :: "'v Entry \<Rightarrow> audit_error option" where
  "validateEntry e =
     (if ent_ResourceType e = [] then Some ErrEmptyResourceType
      else if ent_EventType e = [] then Some ErrEmptyEventType
      else if act_ID (ent_Actor e) = [] then Some ErrEmptyActor
      else None)"

definition adoptScope :: "tscope \<Rightarrow> 'v Entry \<Rightarrow> audit_error + 'v Entry" where
  "adoptScope scope e =
     (if ent_Scope e \<noteq> None \<and> ent_Scope e \<noteq> scope then Inl ErrScopeMismatch
      else Inr (e\<lparr>ent_Scope := scope\<rparr>))"

definition settleEntry :: "tscope \<Rightarrow> 'v Entry option \<Rightarrow> audit_error + 'v Entry" where
  "settleEntry scope entry =
     (case entry of
        None \<Rightarrow> Inl ErrNilEntry
      | Some e \<Rightarrow> (case validateEntry e of Some err \<Rightarrow> Inl err | None \<Rightarrow> adoptScope scope e))"

definition Truncate :: "duration \<Rightarrow> time \<Rightarrow> time" where
  "Truncate d t = (if d \<le> 0 then t else t - t mod d)"

definition buildRow :: "'v audit_env \<Rightarrow> ChainRecorder \<Rightarrow> 'v Entry \<Rightarrow> audit_error + 'v Entry \<times> audit_row" where
  "buildRow env r e =
     (case redact env (rec_redactions r) e of
        Inl err \<Rightarrow> Inl err
      | Inr (changes, metadata) \<Rightarrow>
     (case encodeFields (marshalChanges env) changes of
        Inl err \<Rightarrow> Inl err
      | Inr encodedChanges \<Rightarrow>
     (case encodeFields (marshalMetadata env) metadata of
        Inl err \<Rightarrow> Inl err
      | Inr encodedMetadata \<Rightarrow>
     (case chainHash env (ent_PrevHash e) (canonicalImage e encodedChanges encodedMetadata) of
        Inl err \<Rightarrow> Inl err
      | Inr h \<Rightarrow>
          (let e' = e\<lparr>ent_Hash := h, ent_Changes := changes, ent_Metadata := metadata\<rparr>
           in Inr (e', insertParams e' encodedChanges encodedMetadata))))))"

text \<open>What the loop assigns before it builds the row.\<close>

definition placeEntry :: "ChainRecorder \<Rightarrow> string \<Rightarrow> time \<Rightarrow> int \<Rightarrow> string \<Rightarrow> 'v Entry \<Rightarrow> 'v Entry" where
  "placeEntry r freshID now pos prevHash e =
     (let e = (if ent_ID e = [] then e\<lparr>ent_ID := freshID\<rparr> else e);
          e = (if ent_RecordedAt e = zeroTime then e\<lparr>ent_RecordedAt := now\<rparr> else e)
      in e\<lparr>ent_RecordedAt := Truncate (rec_precision r) (ent_RecordedAt e), ent_Seq := pos, ent_PrevHash := prevHash\<rparr>)"

fun recordEntries ::
  "'v audit_env \<Rightarrow> ChainRecorder \<Rightarrow> (nat \<Rightarrow> string) \<Rightarrow> time \<Rightarrow> nat \<Rightarrow> int \<Rightarrow> string \<Rightarrow> 'v Entry list \<Rightarrow> audit_db \<Rightarrow>
   audit_error + int \<times> string \<times> 'v Entry list \<times> audit_db" where
  "recordEntries env r newID now k pos prevHash [] db = Inr (pos, prevHash, [], db)"
| "recordEntries env r newID now k pos prevHash (e # es) db =
     (case buildRow env r (placeEntry r (newID k) now (pos + 1) prevHash e) of
        Inl err \<Rightarrow> Inl err
      | Inr (e', params) \<Rightarrow>
     (case InsertAuditLogEntry params db of
        Inl err \<Rightarrow> Inl err
      | Inr db' \<Rightarrow>
     (case recordEntries env r newID now (if ent_ID e = [] then k + 1 else k) (pos + 1) (ent_Hash e') es db' of
        Inl err \<Rightarrow> Inl err
      | Inr (pos', prev', es', db'') \<Rightarrow> Inr (pos', prev', e' # es', db''))))"

definition lockChainHead :: "string \<Rightarrow> audit_db \<Rightarrow> audit_error + (string \<times> int) \<times> audit_db" where
  "lockChainHead scope db =
     (let db = CreateAuditChain scope db in
      case LockAuditChain scope db of
        Inl e \<Rightarrow> Inl e
      | Inr c \<Rightarrow> Inr ((cr_head_hash c, cr_head_seq c), db))"

definition recordScope ::
  "'v audit_env \<Rightarrow> ChainRecorder \<Rightarrow> (nat \<Rightarrow> string) \<Rightarrow> time \<Rightarrow> string \<Rightarrow> 'v Entry list \<Rightarrow> audit_db \<Rightarrow>
   audit_error + 'v Entry list \<times> audit_db" where
  "recordScope env r newID now scope es db =
     (case lockChainHead scope db of
        Inl err \<Rightarrow> Inl err
      | Inr ((headHash, headSeq), db1) \<Rightarrow>
     (case recordEntries env r newID now 0 headSeq headHash es db1 of
        Inl err \<Rightarrow> Inl err
      | Inr (pos, prevHash, es', db2) \<Rightarrow> Inr (es', AdvanceAuditChainHead pos prevHash scope db2)))"

definition Record ::
  "'v audit_env \<Rightarrow> ChainRecorder \<Rightarrow> (nat \<Rightarrow> string) \<Rightarrow> time \<Rightarrow> tscope \<Rightarrow> 'v Entry option list \<Rightarrow> audit_db option \<Rightarrow>
   audit_error + 'v Entry list \<times> audit_db" where
  "Record env r newID clockNow scope entries q =
     (case q of
        None \<Rightarrow> Inl AuditErrNilExecutor
      | Some db \<Rightarrow>
          if scope = None then Inl ErrNoScope
          else if entries = [] then Inr ([], db)
          else case try_map (settleEntry scope) entries of
                 Inl err \<Rightarrow> Inl err
               | Inr es \<Rightarrow> recordScope env r newID (Truncate (rec_precision r) clockNow) (owner scope) es db)"

lemmas recorder_defs = validateEntry_def adoptScope_def settleEntry_def buildRow_def placeEntry_def
  lockChainHead_def recordScope_def Record_def

section \<open>One row\<close>

lemma placeEntry_fields [simp]:
  "ent_Seq (placeEntry r i now pos prev e) = pos" "ent_PrevHash (placeEntry r i now pos prev e) = prev"
  "ent_Scope (placeEntry r i now pos prev e) = ent_Scope e"
  by (simp_all add: placeEntry_def Let_def)

lemma buildRow_row:
  assumes "buildRow env r e = Inr (e', row)"
  shows "ae_seq row = ent_Seq e" "ae_prev_hash row = ent_PrevHash e" "ae_scope row = owner (ent_Scope e)"
    and "ae_hash row = ent_Hash e'" "row_digest_ok env row"
proof -
  from assms obtain changes metadata h cs ms where
    row: "row = insertParams e' changes metadata" "e' = e\<lparr>ent_Hash := h, ent_Changes := cs, ent_Metadata := ms\<rparr>"
    and h: "chainHash env (ent_PrevHash e) (canonicalImage e changes metadata) = Inr h"
    by (auto simp: buildRow_def Let_def split: sum.splits)
  have img: "canonicalImage e' changes metadata = canonicalImage e changes metadata"
    by (simp add: row(2) canonicalImage_def imageFields_def)
  show "ae_seq row = ent_Seq e" "ae_prev_hash row = ent_PrevHash e" "ae_scope row = owner (ent_Scope e)"
    "ae_hash row = ent_Hash e'" by (simp_all add: row insertParams_def)
  show "row_digest_ok env row"
    unfolding row_digest_ok_def row(1) row_image_written img using h by (simp add: row(2) insertParams_def)
qed

section \<open>A batch\<close>

text \<open>The rows a batch appends continue the chain from where it was.\<close>

lemma recordEntries_appends:
  assumes "recordEntries env r newID now k pos prev es db = Inr (pos', prev', es', db')"
    and "\<And>e. e \<in> set es \<Longrightarrow> owner (ent_Scope e) = scope"
  shows "\<exists>new. db' = db\<lparr>db_entries := db_entries db @ new\<rparr> \<and> length new = length es \<and>
           (\<forall>row \<in> set new. ae_scope row = scope) \<and> linked env prev pos new \<and>
           pos' = pos + int (length new) \<and> prev' = last_link prev new \<and>
           map ae_hash new = map ent_Hash es' \<and>
           (distinct (map ae_id (db_entries db)) \<longrightarrow> distinct (map ae_id (db_entries db @ new)))"
  using assms
proof (induction es arbitrary: k pos prev db es')
  case Nil
  then show ?case by simp
next
  case (Cons e es)
  let ?e = "placeEntry r (newID k) now (pos + 1) prev e"
  from Cons.prems(1) obtain e1 row db1 es1 where
    row: "buildRow env r ?e = Inr (e1, row)" and ins: "InsertAuditLogEntry row db = Inr db1"
    and rest: "recordEntries env r newID now (if ent_ID e = [] then k + 1 else k) (pos + 1) (ent_Hash e1) es db1
        = Inr (pos', prev', es1, db')" and es': "es' = e1 # es1"
    by (auto split: sum.splits)
  from Cons.IH [OF rest] Cons.prems(2) obtain new where
    db': "db' = db1\<lparr>db_entries := db_entries db1 @ new\<rparr>" and len: "length new = length es"
    and own: "\<forall>x \<in> set new. ae_scope x = scope" and l: "linked env (ent_Hash e1) (pos + 1) new"
    and e: "pos' = pos + 1 + int (length new)" "prev' = last_link (ent_Hash e1) new" "map ae_hash new = map ent_Hash es1"
    and d: "distinct (map ae_id (db_entries db1)) \<longrightarrow> distinct (map ae_id (db_entries db1 @ new))"
    by auto
  from ins have db1: "db1 = db\<lparr>db_entries := db_entries db @ [row]\<rparr>" and fresh: "ae_id row \<notin> ae_id ` set (db_entries db)"
    by (auto simp: InsertAuditLogEntry_def split: if_splits)
  have scope: "ae_scope row = scope" using buildRow_row(3) [OF row] Cons.prems(2) by simp
  show ?case
  proof (intro exI [of _ "row # new"] conjI)
    show "db' = db\<lparr>db_entries := db_entries db @ row # new\<rparr>" by (simp add: db' db1)
    show "length (row # new) = length (e # es)" by (simp add: len)
    show "\<forall>x \<in> set (row # new). ae_scope x = scope" using own scope by simp
    show "linked env prev pos (row # new)" using buildRow_row [OF row] l by simp
    show "pos' = pos + int (length (row # new))" "prev' = last_link prev (row # new)"
      "map ae_hash (row # new) = map ent_Hash es'" using buildRow_row(4) [OF row] e by (simp_all add: es')
    show "distinct (map ae_id (db_entries db)) \<longrightarrow> distinct (map ae_id (db_entries db @ row # new))"
      using d fresh by (auto simp: db1)
  qed
qed

lemma settled_batch:
  assumes "try_map (settleEntry scope) entries = Inr es"
  shows "length es = length entries" "e \<in> set es \<Longrightarrow> ent_Scope e = scope"
proof -
  note m = try_map_InrD [OF assms]
  from arg_cong [OF m, of length] show "length es = length entries" by simp
  assume "e \<in> set es"
  then have "Inr e \<in> set (map (settleEntry scope) entries)" unfolding m by auto
  then show "ent_Scope e = scope"
    by (auto simp: settleEntry_def adoptScope_def split: option.splits if_splits)
qed


section \<open>Record\<close>

text \<open>What a successful call did: rows of its scope, continuing from the head, which moves with them.\<close>

lemma Record_effect:
  assumes rec: "Record env r newID clockNow scope entries (Some db) = Inr (es, db')"
    and ok: "distinct (map ae_id (db_entries db))" "distinct (map cr_scope (db_chains db))"
  obtains s new where "scope = Some s" "db_entries db' = db_entries db @ new" "length new = length entries"
    "\<And>row. row \<in> set new \<Longrightarrow> ae_scope row = s"
    "linked env (cr_head_hash (chain_of db s)) (cr_head_seq (chain_of db s)) new"
    "chain_of db' s = (chain_of db s)\<lparr>cr_head_seq := cr_head_seq (chain_of db s) + int (length new),
        cr_head_hash := last_link (cr_head_hash (chain_of db s)) new\<rparr>"
    "\<And>t. t \<noteq> s \<Longrightarrow> chain_of db' t = chain_of db t"
    "distinct (map ae_id (db_entries db'))" "distinct (map cr_scope (db_chains db'))"
    "map ae_hash new = map ent_Hash es"
proof -
  from rec obtain s where s: "scope = Some s" by (auto simp: Record_def split: if_splits)
  show thesis
  proof (cases "entries = []")
    case True
    with rec s have "db' = db" "es = []" by (auto simp: Record_def)
    with True s ok show thesis by (intro that [of s "[]"]) simp_all
  next
    case False
    let ?c = "chain_of db s" and ?db = "CreateAuditChain s db"
    from rec False s obtain bs pos prev db2 where
      bs: "try_map (settleEntry (Some s)) entries = Inr bs" and
      loop: "recordEntries env r newID (Truncate (rec_precision r) clockNow) 0 (cr_head_seq ?c) (cr_head_hash ?c) bs ?db
        = Inr (pos, prev, es, db2)" and db': "db' = AdvanceAuditChainHead pos prev s db2"
      by (auto simp: Record_def recordScope_def lockChainHead_def lock_after_create owner_def split: sum.splits)
    have own: "e \<in> set bs \<Longrightarrow> owner (ent_Scope e) = s" for e
      using settled_batch(2) [OF bs] by (auto simp: owner_def)
    from recordEntries_appends [OF loop own] settled_batch(1) [OF bs] ok(1) obtain new where new:
      "db2 = ?db\<lparr>db_entries := db_entries db @ new\<rparr>" "length new = length entries" "\<forall>row \<in> set new. ae_scope row = s"
      "linked env (cr_head_hash ?c) (cr_head_seq ?c) new" "pos = cr_head_seq ?c + int (length new)"
      "prev = last_link (cr_head_hash ?c) new" "map ae_hash new = map ent_Hash es" "distinct (map ae_id (db_entries db @ new))"
      by auto
    have at: "chain_at ?db s \<noteq> None" using lock_after_create [of s db]
      by (auto simp: LockAuditChain_def GetAuditChain_def split: option.splits)
    have ch: "chain_of db' t = (if t = s then ?c\<lparr>cr_head_seq := pos, cr_head_hash := prev\<rparr> else chain_of db t)" for t
    proof -
      let ?f = "\<lambda>c. c\<lparr>cr_head_seq := pos, cr_head_hash := prev\<rparr>"
      have "chain_of db' t = chain_of (?db\<lparr>db_chains := sql_update (\<lambda>c. cr_scope c = s) ?f (db_chains ?db)\<rparr>) t"
        by (rule fun_cong [OF chain_of_chains]) (simp add: db' new(1) AdvanceAuditChainHead_def)
      also have "\<dots> = (if t = s then ?f (chain_of ?db s) else chain_of ?db t)"
        by (rule chain_of_update [OF at]) simp
      finally show ?thesis by simp
    qed
    have "distinct (map cr_scope (db_chains ?db))" by (rule distinct_create) (rule ok(2))
    then have "distinct (map cr_scope (db_chains db'))"
      by (simp add: db' new(1) AdvanceAuditChainHead_def chains.pk_update)
    with s new ch show thesis by (intro that [of s new]) (simp_all add: db' AdvanceAuditChainHead_def)
  qed
qed


text \<open>
  What is relied on of the encoders: what one wrote, the decoder reads back without an error. The value
  it reads may differ, which is why the digest is taken over the bytes.
\<close>

definition codec_ok :: "'v audit_env \<Rightarrow> bool" where
  "codec_ok env \<longleftrightarrow>
     (\<forall>m bs. marshalChanges env m = Some bs \<longrightarrow> unmarshalChanges env bs \<noteq> None) \<and>
     (\<forall>m bs. marshalMetadata env m = Some bs \<longrightarrow> unmarshalMetadata env bs \<noteq> None)"

lemma decode_encoded:
  assumes "encodeFields marshal m = Inr bs" "\<And>m bs. marshal m = Some bs \<Longrightarrow> unmarshal bs \<noteq> None"
  shows "\<exists>m'. decodeBlob unmarshal bs = Inr m'"
proof (cases "bs = []")
  case False
  with assms(1) have "marshal m = Some bs" by (auto simp: encodeFields_def split: if_splits option.splits)
  with assms(2) obtain m' where "unmarshal bs = Some m'" by blast
  with False show ?thesis by (simp add: decodeBlob_def)
qed (simp add: decodeBlob_def)

lemma buildRow_readable:
  assumes "codec_ok env" "buildRow env r e = Inr (e', row)"
  shows "readable env row"
proof -
  from assms(2) obtain cs ms changes metadata where
    c: "encodeFields (marshalChanges env) cs = Inr changes" and m: "encodeFields (marshalMetadata env) ms = Inr metadata"
    and row: "row = insertParams e' changes metadata"
    by (auto simp: buildRow_def Let_def split: sum.splits)
  from decode_encoded [OF c] decode_encoded [OF m] assms(1) obtain a b where
    "decodeBlob (unmarshalChanges env) changes = Inr a" "decodeBlob (unmarshalMetadata env) metadata = Inr b"
    by (metis codec_ok_def)
  then show ?thesis by (simp add: readable_def entryFromRow_def row insertParams_def)
qed

lemma recordEntries_readable:
  assumes "codec_ok env" "recordEntries env r newID now k pos prev es db = Inr (pos', prev', es', db')"
    and "\<forall>row \<in> set (db_entries db). readable env row"
  shows "\<forall>row \<in> set (db_entries db'). readable env row"
  using assms(2,3)
proof (induction es arbitrary: k pos prev db es')
  case (Cons e es)
  from Cons.prems(1) obtain e1 row db1 k1 es1 where
    row: "buildRow env r (placeEntry r (newID k) now (pos + 1) prev e) = Inr (e1, row)"
    and ins: "InsertAuditLogEntry row db = Inr db1"
    and rest: "recordEntries env r newID now k1 (pos + 1) (ent_Hash e1) es db1 = Inr (pos', prev', es1, db')"
    by (auto split: sum.splits)
  from ins Cons.prems(2) buildRow_readable [OF assms(1) row] have "\<forall>x \<in> set (db_entries db1). readable env x"
    by (auto simp: InsertAuditLogEntry_def split: if_splits)
  from Cons.IH [OF rest this] show ?case .
qed simp

lemma Record_readable:
  assumes "codec_ok env" "Record env r newID clockNow scope entries (Some db) = Inr (es, db')"
    and "\<forall>row \<in> set (db_entries db). readable env row"
  shows "\<forall>row \<in> set (db_entries db'). readable env row"
proof (cases "entries = []")
  case True
  with assms(2,3) show ?thesis by (auto simp: Record_def split: if_splits)
next
  case False
  with assms(2) obtain bs hd sq pos prev db1 db2 where
    "recordEntries env r newID (Truncate (rec_precision r) clockNow) 0 sq hd bs db1 = Inr (pos, prev, es, db2)"
    "db_entries db1 = db_entries db" "db_entries db' = db_entries db2"
    by (auto simp: Record_def recordScope_def lockChainHead_def AdvanceAuditChainHead_def Let_def
        split: sum.splits if_splits)
  with recordEntries_readable [OF assms(1)] assms(3) show ?thesis by metis
qed

lemma own_rows_append:
  "db_entries db' = db_entries db @ new \<Longrightarrow> (\<And>row. row \<in> set new \<Longrightarrow> ae_scope row = s) \<Longrightarrow>
   own_rows db' t = (if t = s then own_rows db s @ new else own_rows db t)"
  by (auto simp: own_rows_def filter_id_conv filter_empty_conv)

lemma chain_ok_append:
  assumes "chain_ok env c rs" "linked env (cr_head_hash c) (cr_head_seq c) new"
  shows "chain_ok env (c\<lparr>cr_head_seq := cr_head_seq c + int (length new), cr_head_hash := last_link (cr_head_hash c) new\<rparr>) (rs @ new)"
  using assms by (simp add: chain_ok_def watermark_ok_def linked_append last_link_append)

lemma Record_keeps_ok:
  assumes "codec_ok env" "audit_ok env db" "Record env r newID clockNow scope entries (Some db) = Inr (es, db')"
  shows "audit_ok env db'"
proof -
  note d = audit_okD [OF assms(2)]
  obtain s new where new: "db_entries db' = db_entries db @ new"
    "\<And>row. row \<in> set new \<Longrightarrow> ae_scope row = s" "linked env (cr_head_hash (chain_of db s)) (cr_head_seq (chain_of db s)) new"
    and c: "chain_of db' s = (chain_of db s)\<lparr>cr_head_seq := cr_head_seq (chain_of db s) + int (length new),
        cr_head_hash := last_link (cr_head_hash (chain_of db s)) new\<rparr>" "\<And>t. t \<noteq> s \<Longrightarrow> chain_of db' t = chain_of db t"
    and dist: "distinct (map ae_id (db_entries db'))" "distinct (map cr_scope (db_chains db'))"
    by (rule Record_effect [OF assms(3) d(1,2)]) blast
  have "chain_ok env (chain_of db' t) (own_rows db' t)" for t
  proof (cases "t = s")
    case True
    show ?thesis
      using chain_ok_append [OF d(4) new(3)] by (simp add: True c(1) own_rows_append [OF new(1,2)])
  next
    case False
    show ?thesis using d(4) False by (simp add: c(2) own_rows_append [OF new(1,2)])
  qed
  moreover have "\<forall>row \<in> set (db_entries db'). readable env row"
    using Record_readable [OF assms(1,3)] d(3) by blast
  ultimately show ?thesis using dist by (simp add: audit_ok_def)
qed

section \<open>When it fails\<close>

text \<open>Identifiers in the order the loop assigns them.\<close>

fun assignedIDs :: "(nat \<Rightarrow> string) \<Rightarrow> nat \<Rightarrow> 'v Entry list \<Rightarrow> string list" where
  "assignedIDs newID k [] = []"
| "assignedIDs newID k (e # es) =
     (if ent_ID e = [] then newID k # assignedIDs newID (k + 1) es else ent_ID e # assignedIDs newID k es)"

text \<open>What makes a redacted entry encodable: neither canonical encoder refuses a value.\<close>

definition encodable :: "'v audit_env \<Rightarrow> bool" where
  "encodable env \<longleftrightarrow> (\<forall>m. marshalChanges env m \<noteq> None) \<and> (\<forall>m. marshalMetadata env m \<noteq> None) \<and> (\<forall>v. canonicalSum env v \<noteq> None)"

lemma redactFields_total: "(\<And>v. \<exists>h. hash v = Inr h) \<Longrightarrow> \<exists>out. redactFields hash rs m = Inr out"
proof (induction m)
  case (Cons b m)
  then obtain out where "redactFields hash rs m = Inr out" by blast
  moreover obtain f v where "b = (f, v)" by (cases b)
  moreover obtain h where "hash v = Inr h" using Cons.prems by blast
  ultimately show ?case by (simp split: disposition.split)
qed simp

lemma hashValue_total: "encodable env \<Longrightarrow> \<exists>h. hashValue env v = Inr h"
proof -
  assume "encodable env"
  then obtain s where "canonicalSum env v = Some s" unfolding encodable_def by blast
  then show ?thesis by (simp add: hashValue_def)
qed

lemma hashChange_total: "encodable env \<Longrightarrow> \<exists>h. hashChange env c = Inr h"
proof -
  assume e: "encodable env"
  have "\<exists>x. hashHalf env v = Inr x" for v
  proof (cases v)
    case (Some u)
    obtain h where "hashValue env u = Inr h" using hashValue_total [OF e] by blast
    with Some show ?thesis by (simp add: hashHalf_def)
  qed (simp add: hashHalf_def)
  then obtain a b where "hashHalf env (ch_Old c) = Inr a" "hashHalf env (ch_New c) = Inr b" by blast
  then show ?thesis by (simp add: hashChange_def)
qed

lemma redact_total:
  assumes "encodable env"
  shows "\<exists>cs ms. redact env reds e = Inr (cs, ms)"
proof -
  let ?rs = "dispositions reds (ent_ResourceType e)"
  obtain cs where "redactChanges env ?rs (ent_Changes e) = Inr cs"
    using redactFields_total hashChange_total [OF assms] unfolding redactChanges_def by metis
  moreover obtain ms where "redactMetadata env ?rs (ent_Metadata e) = Inr ms"
    using redactFields_total [of "\<lambda>v. hashValue env (GoString v)"] hashValue_total [OF assms] unfolding redactMetadata_def by metis
  ultimately show ?thesis by (simp add: redact_def Let_def)
qed

lemma encodeFields_total:
  assumes "\<And>m. marshal m \<noteq> None"
  shows "\<exists>bs. encodeFields marshal m = Inr bs"
proof -
  obtain bs where "marshal m = Some bs" using assms by blast
  then show ?thesis by (simp add: encodeFields_def)
qed

lemma buildRow_total:
  assumes "hex_digest env" "encodable env" "link_hash env (ent_PrevHash e)"
  shows "\<exists>e' row. buildRow env r e = Inr (e', row) \<and> link_hash env (ent_Hash e') \<and> ae_id row = ent_ID e"
proof -
  obtain cs ms where r: "redact env (rec_redactions r) e = Inr (cs, ms)" using redact_total [OF assms(2)] by blast
  obtain c m where e: "encodeFields (marshalChanges env) cs = Inr c" "encodeFields (marshalMetadata env) ms = Inr m"
    using encodeFields_total assms(2) unfolding encodable_def by metis
  obtain b where b: "hexDecode (ent_PrevHash e) = Some b" using link_hash_decodes [OF assms(1,3)] by blast
  show ?thesis
    by (simp add: buildRow_def r e chainHash_def b Let_def link_hash_def) (simp add: insertParams_def)
qed


lemma placeEntry_ID: "ent_ID (placeEntry r i now pos prev e) = (if ent_ID e = [] then i else ent_ID e)"
  by (simp add: placeEntry_def Let_def)

lemma recordEntries_total:
  assumes "hex_digest env" "encodable env" "link_hash env prev"
    and "distinct (assignedIDs newID k es)" "set (assignedIDs newID k es) \<inter> ae_id ` set (db_entries db) = {}"
    and "\<And>e. e \<in> set es \<Longrightarrow> owner (ent_Scope e) = s"
    and "\<And>row. row \<in> set (db_entries db) \<Longrightarrow> ae_scope row = s \<Longrightarrow> ae_seq row \<le> pos"
  shows "\<exists>res. recordEntries env r newID now k pos prev es db = Inr res"
  using assms(3-)
proof (induction es arbitrary: k pos prev db)
  case (Cons e es)
  let ?e = "placeEntry r (newID k) now (pos + 1) prev e" and ?k = "if ent_ID e = [] then k + 1 else k"
  obtain e1 row where row: "buildRow env r ?e = Inr (e1, row)" and h: "link_hash env (ent_Hash e1)" "ae_id row = ent_ID ?e"
    using buildRow_total [OF assms(1,2), of ?e r] Cons.prems(1) by auto
  have scope: "ae_scope row = s" "ae_seq row = pos + 1"
    using buildRow_row(1,3) [OF row] Cons.prems(4) by simp_all
  have i: "assignedIDs newID k (e # es) = ae_id row # assignedIDs newID ?k es" by (simp add: h(2) placeEntry_ID)
  have ins: "InsertAuditLogEntry row db = Inr (db\<lparr>db_entries := db_entries db @ [row]\<rparr>)"
    using Cons.prems(3,5) scope unfolding i by (force simp: InsertAuditLogEntry_def)
  let ?db = "db\<lparr>db_entries := db_entries db @ [row]\<rparr>"
  have "\<exists>res. recordEntries env r newID now ?k (pos + 1) (ent_Hash e1) es ?db = Inr res"
  proof (rule Cons.IH)
    show "link_hash env (ent_Hash e1)" by (rule h(1))
    show "distinct (assignedIDs newID ?k es)" using Cons.prems(2) unfolding i by simp
    show "set (assignedIDs newID ?k es) \<inter> ae_id ` set (db_entries ?db) = {}"
      using Cons.prems(2,3) unfolding i by auto
    show "owner (ent_Scope x) = s" if "x \<in> set es" for x using Cons.prems(4) that by simp
    show "ae_seq x \<le> pos + 1" if "x \<in> set (db_entries ?db)" "ae_scope x = s" for x
      using Cons.prems(5) [of x] that scope(2) by auto
  qed
  then obtain a b c d where "recordEntries env r newID now ?k (pos + 1) (ent_Hash e1) es ?db = Inr (a, b, c, d)"
    by (metis prod_cases4)
  then show ?case by (simp add: row ins split del: if_split)
qed simp

lemma Record_total:
  assumes "hex_digest env" "encodable env" "audit_ok env db"
    and ids: "distinct (assignedIDs newID 0 (map the entries))"
      "set (assignedIDs newID 0 (map the entries)) \<inter> ae_id ` set (db_entries db) = {}"
    and good: "\<forall>e \<in> set entries. \<exists>x. settleEntry (Some s) e = Inr x"
  shows "\<exists>es db'. Record env r newID clockNow (Some s) entries (Some db) = Inr (es, db')"
proof -
  have settle: "settleEntry (Some s) e = Inr ((the e)\<lparr>ent_Scope := Some s\<rparr>)" if "e \<in> set entries" for e
    using bspec [OF good that] by (auto simp: settleEntry_def adoptScope_def split: option.splits if_splits)
  let ?bs = "map (\<lambda>e. (the e)\<lparr>ent_Scope := Some s\<rparr>) entries"
  have bs: "try_map (settleEntry (Some s)) entries = Inr ?bs" using settle by (rule try_map_total)
  have a: "assignedIDs newID k (map (\<lambda>e. (the e)\<lparr>ent_Scope := Some s\<rparr>) xs) = assignedIDs newID k (map the xs)" for k xs
    by (induction xs arbitrary: k) auto
  let ?c = "chain_of db s"
  note ok = audit_okD [OF assms(3)]
  have pos: "ae_seq row \<le> cr_head_seq ?c" if "row \<in> set (db_entries db)" "ae_scope row = s" for row
    using ok(4) [of s] linked_seq_bounds [of env _ _ "own_rows db s" row] that
    by (auto simp: chain_ok_def set_own_rows)
  have "\<exists>res. recordEntries env r newID (Truncate (rec_precision r) clockNow) 0 (cr_head_seq ?c) (cr_head_hash ?c) ?bs
      (CreateAuditChain s db) = Inr res"
    by (rule recordEntries_total [OF assms(1,2) chain_ok_head_hash [OF ok(4)], where s = s])
      (use ids pos in \<open>auto simp: a owner_def\<close>)
  then obtain a1 a2 a3 a4 where "recordEntries env r newID (Truncate (rec_precision r) clockNow) 0 (cr_head_seq ?c) (cr_head_hash ?c) ?bs
      (CreateAuditChain s db) = Inr (a1, a2, a3, a4)" by (metis prod_cases4)
  then show ?thesis
    by (simp add: Record_def bs recordScope_def lockChainHead_def lock_after_create owner_def)
qed

section \<open>Credentials\<close>

text \<open>The row an entry became, whatever identifier, time, position and link the loop gave it.\<close>

definition row_of :: "'v audit_env \<Rightarrow> ChainRecorder \<Rightarrow> 'v Entry \<Rightarrow> audit_row \<Rightarrow> bool" where
  "row_of env r e row \<longleftrightarrow>
     (\<exists>e0 e'. buildRow env r e0 = Inr (e', row) \<and> ent_Changes e0 = ent_Changes e \<and> ent_Metadata e0 = ent_Metadata e)"

lemma recordEntries_rows:
  "recordEntries env r newID now k pos prev es db = Inr (pos', prev', es', db') \<Longrightarrow>
   \<exists>new. db_entries db' = db_entries db @ new \<and> list_all2 (row_of env r) es new"
proof (induction es arbitrary: k pos prev db es')
  case Nil
  then show ?case by simp
next
  case (Cons e es)
  let ?e = "placeEntry r (newID k) now (pos + 1) prev e"
  from Cons.prems obtain e1 row db1 k1 es1 where row: "buildRow env r ?e = Inr (e1, row)"
    and ins: "InsertAuditLogEntry row db = Inr db1"
    and rest: "recordEntries env r newID now k1 (pos + 1) (ent_Hash e1) es db1 = Inr (pos', prev', es1, db')"
    by (auto split: sum.splits)
  from Cons.IH [OF rest] obtain new where new: "db_entries db' = db_entries db1 @ new" "list_all2 (row_of env r) es new" by blast
  have "row_of env r e row"
    unfolding row_of_def using row by (intro exI [of _ ?e] exI [of _ e1]) (simp add: placeEntry_def Let_def)
  moreover have "db_entries db1 = db_entries db @ [row]" using ins by (auto simp: InsertAuditLogEntry_def split: if_splits)
  ultimately show ?case using new by (intro exI [of _ "row # new"]) simp
qed

lemma Record_rows:
  assumes "Record env r newID clockNow scope entries (Some db) = Inr (es, db')"
  shows "\<exists>new. db_entries db' = db_entries db @ new \<and> list_all2 (\<lambda>entry row. row_of env r (the entry) row) entries new"
proof (cases "entries = []")
  case True
  with assms show ?thesis by (auto simp: Record_def split: if_splits)
next
  case False
  with assms obtain bs hd sq pos prev db1 db2 where bs: "try_map (settleEntry scope) entries = Inr bs"
    and loop: "recordEntries env r newID (Truncate (rec_precision r) clockNow) 0 sq hd bs db1 = Inr (pos, prev, es, db2)"
    and e: "db_entries db1 = db_entries db" "db_entries db' = db_entries db2"
    by (auto simp: Record_def recordScope_def lockChainHead_def AdvanceAuditChainHead_def Let_def
        split: sum.splits if_splits)
  from recordEntries_rows [OF loop] e obtain new where
    new: "db_entries db' = db_entries db @ new" "list_all2 (row_of env r) bs new" by auto
  note m = try_map_InrD [OF bs]
  have len: "length bs = length entries" using arg_cong [OF m, of length] by simp
  have b: "ent_Changes (bs ! i) = ent_Changes (the (entries ! i)) \<and> ent_Metadata (bs ! i) = ent_Metadata (the (entries ! i))"
    if "i < length entries" for i
  proof -
    have "settleEntry scope (entries ! i) = Inr (bs ! i)" using arg_cong [OF m, of "\<lambda>xs. xs ! i"] that len by simp
    then obtain x where "entries ! i = Some x" "bs ! i = x\<lparr>ent_Scope := scope\<rparr>"
      by (auto simp: settleEntry_def adoptScope_def split: option.splits if_splits)
    then show ?thesis by simp
  qed
  have "list_all2 (\<lambda>entry row. row_of env r (the entry) row) entries new"
    using new(2) b len by (auto simp: list_all2_conv_all_nth row_of_def)
  with new(1) show ?thesis by blast
qed

lemma row_of_credentials:
  assumes r: "NewRecorder validNamespace d opts = Inr r" "Some WithoutCredentialRedaction \<notin> set opts"
    and row: "row_of env r e row"
  shows "\<exists>changes metadata. credentials_gone env e changes metadata \<and>
    encodeFields (marshalChanges env) changes = Inr (ae_change_set row) \<and>
    encodeFields (marshalMetadata env) metadata = Inr (ae_metadata row)"
proof -
  from row obtain e0 e' where b: "buildRow env r e0 = Inr (e', row)"
    and e0: "ent_Changes e0 = ent_Changes e" "ent_Metadata e0 = ent_Metadata e" by (auto simp: row_of_def)
  from b obtain changes metadata where red: "redact env (rec_redactions r) e0 = Inr (changes, metadata)"
    and enc: "encodeFields (marshalChanges env) changes = Inr (ae_change_set row)"
      "encodeFields (marshalMetadata env) metadata = Inr (ae_metadata row)"
    by (auto simp: buildRow_def Let_def insertParams_def split: sum.splits)
  from redact_credentials [OF r red] have "credentials_gone env e changes metadata"
    by (simp add: credentials_gone_def e0)
  with enc show ?thesis by blast
qed

section \<open>A concrete call\<close>

definition demo_recorder :: ChainRecorder where
  "demo_recorder = projr (NewRecorder (\<lambda>_. True) Postgres [])"

definition demo_event :: "string \<Rightarrow> time \<Rightarrow> nat Entry" where
  "demo_event i at =
     \<lparr>ent_RecordedAt = at, ent_Changes = [(''name'', \<lparr>ch_Old = None, ch_New = Some (GoString ''x'')\<rparr>)],
      ent_Metadata = [(''password'', ''hunter2'')],
      ent_Actor = \<lparr>act_ID = ''u'', act_Type = ''user'', act_IP = [], act_Impersonator = []\<rparr>,
      ent_ID = i, ent_ResourceType = ''r'', ent_ResourceID = [], ent_EventType = ''created'',
      ent_PrevHash = [], ent_Hash = [], ent_Scope = None, ent_Seq = 0\<rparr>"

definition demo_ids :: "nat \<Rightarrow> string" where
  "demo_ids k = (if k = 0 then ''new0'' else ''new1'')"

definition demo_batch :: "nat Entry option list" where
  "demo_batch = [Some (demo_event ''d'' 12000), Some (demo_event [] 0)]"

text \<open>An entry that names another scope than the call does.\<close>

definition demo_stray :: "nat Entry" where
  "demo_stray = (demo_event ''e'' 12000)\<lparr>ent_Scope := Some ''other''\<rparr>"

lemma demo_codec: "codec_ok demo_env"
  by (simp add: codec_ok_def demo_env_def)

lemma demo_encodable: "encodable demo_env"
  by (simp add: encodable_def demo_env_def)

lemma demo_log_ids: "ae_id ` set (db_entries demo_log) = {''a'', ''b'', ''c''}"
proof -
  have "map ae_id (db_entries demo_log) = [''a'', ''b'', ''c'']"
    by (simp add: demo_log_def demo_db_def Let_def del: demo_rows.simps)
  from arg_cong [OF this, of set] show ?thesis by simp
qed

lemma demo_assigned: "distinct (assignedIDs demo_ids 0 (map the demo_batch))"
  "set (assignedIDs demo_ids 0 (map the demo_batch)) \<inter> ae_id ` set (db_entries demo_log) = {}"
  unfolding demo_log_ids by (simp_all add: demo_batch_def demo_event_def demo_ids_def)

lemma demo_settles: "\<forall>e \<in> set demo_batch. \<exists>x. settleEntry (Some ''t'') e = Inr x"
  by (simp add: demo_batch_def demo_event_def settleEntry_def validateEntry_def adoptScope_def)

lemma demo_record:
  "\<exists>es db'. Record demo_env demo_recorder demo_ids 1000000 (Some ''t'') demo_batch (Some demo_log) = Inr (es, db')"
  by (rule Record_total [OF demo_hex_digest demo_encodable demo_log_ok demo_assigned demo_settles])

lemma demo_head: "cr_head_seq (chain_of demo_log ''t'') = 2"
  by (simp add: chain_of_def chain_at_def demo_log_def demo_db_def row_at_def Let_def)

section \<open>Properties\<close>

text \<open>
  C14: a successful Record appends exactly one row per entry, all in the scope the call named, chained
  in the given order from the recorded head, which moves to the last of them; every other chain is
  untouched, the hashes written back to the caller are the stored ones, and a consistent log stays
  consistent.
\<close>

theorem Record_appends:
  assumes "codec_ok env" "audit_ok env db" "Record env r newID clockNow scope entries (Some db) = Inr (es, db')"
  shows "\<exists>s new. scope = Some s \<and> db_entries db' = db_entries db @ new \<and> length new = length entries \<and>
      (\<forall>row \<in> set new. ae_scope row = s) \<and> map ae_hash new = map ent_Hash es \<and>
      linked env (cr_head_hash (chain_of db s)) (cr_head_seq (chain_of db s)) new \<and>
      cr_head_seq (chain_of db' s) = cr_head_seq (chain_of db s) + int (length new) \<and>
      (\<forall>t. t \<noteq> s \<longrightarrow> chain_of db' t = chain_of db t \<and> own_rows db' t = own_rows db t) \<and>
      audit_ok env db'"
proof -
  note d = audit_okD [OF assms(2)]
  obtain s new where new: "scope = Some s" "db_entries db' = db_entries db @ new" "length new = length entries"
    "\<And>row. row \<in> set new \<Longrightarrow> ae_scope row = s" "linked env (cr_head_hash (chain_of db s)) (cr_head_seq (chain_of db s)) new"
    and c: "chain_of db' s = (chain_of db s)\<lparr>cr_head_seq := cr_head_seq (chain_of db s) + int (length new),
        cr_head_hash := last_link (cr_head_hash (chain_of db s)) new\<rparr>" "\<And>t. t \<noteq> s \<Longrightarrow> chain_of db' t = chain_of db t"
    "map ae_hash new = map ent_Hash es"
    by (rule Record_effect [OF assms(3) d(1,2)]) blast
  show ?thesis
    using new c Record_keeps_ok [OF assms] own_rows_append [OF new(2,4)]
    by (intro exI [of _ s] exI [of _ new]) auto
qed

theorem Record_appends_witness:
  "\<exists>es db'. Record demo_env demo_recorder demo_ids 1000000 (Some ''t'') demo_batch (Some demo_log) = Inr (es, db') \<and>
     cr_head_seq (chain_of db' ''t'') = 4 \<and> audit_ok demo_env db'"
proof -
  obtain es db' where r: "Record demo_env demo_recorder demo_ids 1000000 (Some ''t'') demo_batch (Some demo_log) = Inr (es, db')"
    using demo_record by blast
  have "cr_head_seq (chain_of db' ''t'') = 4"
    using Record_appends [OF demo_codec demo_log_ok r] by (auto simp: demo_head demo_batch_def)
  moreover have "audit_ok demo_env db'" using Record_appends [OF demo_codec demo_log_ok r] by blast
  ultimately show ?thesis using r by blast
qed



text \<open>
  C28: no credential reaches the table. With a recorder built without the opt-out, whatever other
  redactions it carries, every row a Record call appends holds in its blobs none of the fields the
  credential list drops and only digests of the caller's values under the names it hashes.
\<close>

theorem credentials_never_stored:
  assumes "NewRecorder validNamespace d opts = Inr r" "Some WithoutCredentialRedaction \<notin> set opts"
    and "Record env r newID clockNow scope entries (Some db) = Inr (es, db')"
  shows "\<exists>new. db_entries db' = db_entries db @ new \<and>
    list_all2 (\<lambda>entry row. \<exists>changes metadata. credentials_gone env (the entry) changes metadata \<and>
        encodeFields (marshalChanges env) changes = Inr (ae_change_set row) \<and>
        encodeFields (marshalMetadata env) metadata = Inr (ae_metadata row)) entries new"
proof -
  from Record_rows [OF assms(3)] obtain new where new: "db_entries db' = db_entries db @ new"
    "list_all2 (\<lambda>entry row. row_of env r (the entry) row) entries new" by blast
  have "list_all2 (\<lambda>entry row. \<exists>changes metadata. credentials_gone env (the entry) changes metadata \<and>
        encodeFields (marshalChanges env) changes = Inr (ae_change_set row) \<and>
        encodeFields (marshalMetadata env) metadata = Inr (ae_metadata row)) entries new"
    using new(2) by (rule list_all2_mono) (rule row_of_credentials [OF assms(1,2)])
  with new(1) show ?thesis by blast
qed

theorem credentials_never_stored_witness:
  "\<exists>es db' new. Record demo_env demo_recorder demo_ids 1000000 (Some ''t'') demo_batch (Some demo_log) = Inr (es, db') \<and>
     db_entries db' = db_entries demo_log @ new \<and>
     list_all (\<lambda>row. \<exists>metadata. ''password'' \<notin> fst ` set metadata \<and>
       encodeFields (marshalMetadata demo_env) metadata = Inr (ae_metadata row)) new"
proof -
  obtain es db' where r: "Record demo_env demo_recorder demo_ids 1000000 (Some ''t'') demo_batch (Some demo_log) = Inr (es, db')"
    using demo_record by blast
  have "NewRecorder (\<lambda>_. True) Postgres [] = Inr demo_recorder"
    by (simp add: demo_recorder_def NewRecorder_def dialectValid_def)
  from credentials_never_stored [OF this _ r] obtain new where n: "db_entries db' = db_entries demo_log @ new"
    "list_all2 (\<lambda>entry row. \<exists>changes metadata. credentials_gone demo_env (the entry) changes metadata \<and>
        encodeFields (marshalChanges demo_env) changes = Inr (ae_change_set row) \<and>
        encodeFields (marshalMetadata demo_env) metadata = Inr (ae_metadata row)) demo_batch new" by auto
  have "''password'' \<in> set (red_Drop CredentialRedaction)" by code_simp
  then have p: "credentials_gone demo_env e cs ms \<Longrightarrow> ''password'' \<notin> fst ` set ms" for e cs ms
    unfolding credentials_gone_def by blast
  have "list_all (\<lambda>row. \<exists>metadata. ''password'' \<notin> fst ` set metadata \<and>
       encodeFields (marshalMetadata demo_env) metadata = Inr (ae_metadata row)) new"
    unfolding list_all_length
  proof (intro allI impI)
    fix i assume "i < length new"
    from list_all2_nthD2 [OF n(2) this] obtain cs ms where c: "credentials_gone demo_env (the (demo_batch ! i)) cs ms"
      and e: "encodeFields (marshalMetadata demo_env) ms = Inr (ae_metadata (new ! i))" by auto
    from p [OF c] e show "\<exists>metadata. ''password'' \<notin> fst ` set metadata \<and>
        encodeFields (marshalMetadata demo_env) metadata = Inr (ae_metadata (new ! i))" by blast
  qed
  with r n(1) show ?thesis by blast
qed

end
