(* ===== verification/Audit_Reader.thy ===== *)
theory Audit_Reader
  imports Audit_Demo
begin

text \<open>
  Verification and the single-entry read (\<^verbatim>\<open>audit/reader.go\<close>).

  A verification is several statements on an executor that need not be one snapshot, so \<^verbatim>\<open>Verify\<close> reads
  from a sequence of databases, \<open>view k\<close> being what its k-th statement sees; a snapshot is a constant
  sequence. An unset end of the window coalesces in the statement, see \<open>far\<close>. The loop takes fuel because
  without a ceiling a chain that grows as fast as it is read keeps it running; running out is \<open>None\<close>.

  The first results: with a ceiling the loop returns however the database changes under it, and on a
  snapshot it is one unpaged walk over the range.
\<close>

section \<open>Operations\<close>

datatype BreakReason = BreakContentAltered | BreakLinkMismatch | BreakMissingEntry

record Break =
  brk_EntryID :: string
  brk_Reason :: BreakReason
  brk_Expected :: string
  brk_Actual :: string
  brk_Seq :: int

record VerificationResult =
  vr_From :: time
  vr_To :: time
  vr_FirstBreak :: "Break option"
  vr_Scope :: tscope
  vr_Checked :: int
  vr_LastSeq :: int
  vr_Complete :: bool

definition Intact :: "VerificationResult \<Rightarrow> bool" where
  "Intact r \<longleftrightarrow> vr_FirstBreak r = None"

definition ChainStart :: int where
  "ChainStart = -1"

record SQLReader =
  rd_verificationPageSize :: int
  rd_verificationCeiling :: int

datatype ReaderOption =
    WithVerificationPageSize nat
  | WithVerificationCeiling int

fun applyReaderOption :: "SQLReader \<Rightarrow> ReaderOption \<Rightarrow> SQLReader" where
  "applyReaderOption r (WithVerificationPageSize n) = (if n > 0 then r\<lparr>rd_verificationPageSize := int n\<rparr> else r)"
| "applyReaderOption r (WithVerificationCeiling n) = (if n \<ge> 0 then r\<lparr>rd_verificationCeiling := n\<rparr> else r)"

definition NewReader :: "ReaderOption option list \<Rightarrow> SQLReader" where
  "NewReader opts =
     foldl (\<lambda>r opt. case opt of None \<Rightarrow> r | Some f \<Rightarrow> applyReaderOption r f)
       \<lparr>rd_verificationPageSize = 500, rd_verificationCeiling = 100000\<rparr> opts"

definition verificationPage :: "SQLReader \<Rightarrow> int \<Rightarrow> int" where
  "verificationPage rd checked =
     (if rd_verificationCeiling rd \<le> 0 then rd_verificationPageSize rd
      else min (rd_verificationPageSize rd) (max (rd_verificationCeiling rd - checked) 0))"

definition boundOrNil :: "time \<Rightarrow> time option" where
  "boundOrNil t = (if t = zeroTime then None else Some t)"

definition chainPage ::
  "'v audit_env \<Rightarrow> time \<times> time \<Rightarrow> string \<Rightarrow> time \<Rightarrow> time \<Rightarrow> int \<Rightarrow> int \<Rightarrow> audit_db \<Rightarrow> audit_error + 'v storedEntry list" where
  "chainPage env far scope from to afterSeq n db =
     try_map (entryFromRow env) (ListAuditChainEntries far scope (boundOrNil from) (boundOrNil to) afterSeq n db)"

record anchorState =
  an_prevHash :: string
  an_known :: bool

definition prunedThrough :: "string \<Rightarrow> audit_db \<Rightarrow> int \<times> string" where
  "prunedThrough scope db =
     (case GetAuditChain scope db of
        Inl _ \<Rightarrow> (-1, [])
      | Inr c \<Rightarrow> (cr_pruned_through_seq c, cr_pruned_through_hash c))"

definition anchorFor :: "'v audit_env \<Rightarrow> string \<Rightarrow> int \<Rightarrow> audit_db \<Rightarrow> audit_db \<Rightarrow> audit_error + anchorState" where
  "anchorFor env scope firstSeq db db' =
     (case prunedThrough scope db of (prunedSeq, prunedHash) \<Rightarrow>
        if firstSeq = prunedSeq + 1 then Inr \<lparr>an_prevHash = prunedHash, an_known = True\<rparr>
        else case GetAuditLogEntryBySeq scope (firstSeq - 1) db' of
               Inl _ \<Rightarrow> Inr \<lparr>an_prevHash = [], an_known = False\<rparr>
             | Inr row \<Rightarrow>
                 (case entryFromRow env row of
                    Inl e \<Rightarrow> Inl e
                  | Inr stored \<Rightarrow> Inr \<lparr>an_prevHash = ent_Hash (se_entry stored), an_known = True\<rparr>))"

record chainWalk =
  cw_expectedPrev :: string
  cw_expectedSeq :: int
  cw_lastSeq :: int
  cw_checked :: int
  cw_anchored :: bool
  cw_known :: bool

definition anchorAt :: "anchorState \<Rightarrow> int \<Rightarrow> chainWalk \<Rightarrow> chainWalk" where
  "anchorAt a firstSeq w =
     w\<lparr>cw_expectedPrev := an_prevHash a, cw_expectedSeq := firstSeq, cw_anchored := True, cw_known := an_known a\<rparr>"

fun walkEntries :: "'v audit_env \<Rightarrow> 'v storedEntry list \<Rightarrow> chainWalk \<Rightarrow> Break option \<times> chainWalk" where
  "walkEntries env [] w = (None, w)"
| "walkEntries env (s # ss) w =
     (let e = se_entry s; w1 = w\<lparr>cw_checked := cw_checked w + 1\<rparr> in
      if ent_Seq e \<noteq> cw_expectedSeq w then
        (Some \<lparr>brk_EntryID = [], brk_Reason = BreakMissingEntry, brk_Expected = [], brk_Actual = [], brk_Seq = cw_expectedSeq w\<rparr>, w1)
      else if ent_PrevHash e \<noteq> cw_expectedPrev w then
        (Some \<lparr>brk_EntryID = ent_ID e, brk_Reason = BreakLinkMismatch, brk_Expected = cw_expectedPrev w,
               brk_Actual = ent_PrevHash e, brk_Seq = ent_Seq e\<rparr>, w1)
      else case chainHash env (ent_PrevHash e) (canonicalImage e (se_rawChanges s) (se_rawMetadata s)) of
        Inl _ \<Rightarrow>
          (Some \<lparr>brk_EntryID = ent_ID e, brk_Reason = BreakContentAltered, brk_Expected = [],
                 brk_Actual = ent_Hash e, brk_Seq = ent_Seq e\<rparr>, w1)
      | Inr computed \<Rightarrow>
          if computed \<noteq> ent_Hash e then
            (Some \<lparr>brk_EntryID = ent_ID e, brk_Reason = BreakContentAltered, brk_Expected = computed,
                   brk_Actual = ent_Hash e, brk_Seq = ent_Seq e\<rparr>, w1)
          else walkEntries env ss
                 (w1\<lparr>cw_expectedPrev := ent_Hash e, cw_expectedSeq := ent_Seq e + 1, cw_lastSeq := ent_Seq e\<rparr>))"

definition walkPage :: "'v audit_env \<Rightarrow> 'v storedEntry list \<Rightarrow> chainWalk \<Rightarrow> Break option \<times> chainWalk" where
  "walkPage env stored w =
     (if \<not> cw_known w then
        (Some \<lparr>brk_EntryID = [], brk_Reason = BreakMissingEntry, brk_Expected = [], brk_Actual = [],
               brk_Seq = ent_Seq (se_entry (hd stored)) - 1\<rparr>, w)
      else walkEntries env stored w)"

text \<open>The anchoring of the first page that returned anything; \<open>k\<close> counts the statements run so far.\<close>

definition anchorWalk ::
  "'v audit_env \<Rightarrow> (nat \<Rightarrow> audit_db) \<Rightarrow> string \<Rightarrow> int \<Rightarrow> nat \<Rightarrow> chainWalk \<Rightarrow> audit_error + chainWalk \<times> nat" where
  "anchorWalk env view scope firstSeq k w =
     (if cw_anchored w then Inr (w, k)
      else case anchorFor env scope firstSeq (view k) (view (k + 1)) of
             Inl e \<Rightarrow> Inl e
           | Inr a \<Rightarrow> Inr (anchorAt a firstSeq w, k + 2))"

fun verifyLoop ::
  "nat \<Rightarrow> 'v audit_env \<Rightarrow> SQLReader \<Rightarrow> (nat \<Rightarrow> audit_db) \<Rightarrow> time \<times> time \<Rightarrow> string \<Rightarrow> time \<Rightarrow> time \<Rightarrow>
   nat \<Rightarrow> chainWalk \<Rightarrow> VerificationResult \<Rightarrow> (audit_error + VerificationResult) option" where
  "verifyLoop 0 env rd view far scope from to k w result = None"
| "verifyLoop (Suc fuel) env rd view far scope from to k w result =
     (let pageSize = verificationPage rd (vr_Checked result) in
      if pageSize = 0 then Some (Inr result)
      else case chainPage env far scope from to (cw_lastSeq w) pageSize (view k) of
        Inl e \<Rightarrow> Some (Inl e)
      | Inr stored \<Rightarrow>
          if stored = [] then Some (Inr (result\<lparr>vr_Complete := True\<rparr>))
          else case anchorWalk env view scope (ent_Seq (se_entry (hd stored))) (k + 1) w of
            Inl e \<Rightarrow> Some (Inl e)
          | Inr (w1, k1) \<Rightarrow>
              (case walkPage env stored w1 of (brk, w2) \<Rightarrow>
                 let result = result\<lparr>vr_FirstBreak := brk, vr_Checked := cw_checked w2, vr_LastSeq := cw_lastSeq w2\<rparr> in
                 if brk \<noteq> None then Some (Inr result)
                 else if int (length stored) < pageSize then Some (Inr (result\<lparr>vr_Complete := True\<rparr>))
                 else verifyLoop fuel env rd view far scope from to k1 w2 result))"

definition startWalk :: "int \<Rightarrow> chainWalk" where
  "startWalk afterSeq =
     \<lparr>cw_expectedPrev = [], cw_expectedSeq = 0, cw_lastSeq = afterSeq, cw_checked = 0, cw_anchored = False, cw_known = False\<rparr>"

definition startResult :: "tscope \<Rightarrow> time \<Rightarrow> time \<Rightarrow> int \<Rightarrow> VerificationResult" where
  "startResult scope from to afterSeq =
     \<lparr>vr_From = from, vr_To = to, vr_FirstBreak = None, vr_Scope = scope, vr_Checked = 0, vr_LastSeq = afterSeq, vr_Complete = False\<rparr>"

text \<open>A nil executor is \<open>None\<close>.\<close>

definition Verify ::
  "nat \<Rightarrow> 'v audit_env \<Rightarrow> SQLReader \<Rightarrow> time \<times> time \<Rightarrow> tscope \<Rightarrow> time \<Rightarrow> time \<Rightarrow> int \<Rightarrow> (nat \<Rightarrow> audit_db) option \<Rightarrow>
   (audit_error + VerificationResult) option" where
  "Verify fuel env rd far scope from to afterSeq q =
     (case q of
        None \<Rightarrow> Some (Inl AuditErrNilExecutor)
      | Some view \<Rightarrow>
          if scope = None then Some (Inl ErrNoScope)
          else verifyLoop fuel env rd view far (owner scope) from to 0 (startWalk afterSeq) (startResult scope from to afterSeq))"

text \<open>The single-entry read; an absent scope is the operator's read across scopes.\<close>

definition reader_get :: "'v audit_env \<Rightarrow> tscope option \<Rightarrow> string \<Rightarrow> audit_db option \<Rightarrow> audit_error + 'v Entry" where
  "reader_get env scope i q =
     (case q of
        None \<Rightarrow> Inl AuditErrNilExecutor
      | Some db \<Rightarrow>
          if i = [] then Inl ErrInvalidIDProvided
          else if scope = Some None then Inl ErrNoScope
          else case GetAuditLogEntry i (map_option owner scope) db of
                 Inl _ \<Rightarrow> Inl ErrEntryNotFound
               | Inr row \<Rightarrow> (case entryFromRow env row of Inl e \<Rightarrow> Inl e | Inr s \<Rightarrow> Inr (se_entry s)))"

definition reader_Get :: "'v audit_env \<Rightarrow> tscope \<Rightarrow> string \<Rightarrow> audit_db option \<Rightarrow> audit_error + 'v Entry" where
  "reader_Get env scope i q = reader_get env (Some scope) i q"

definition GetAcrossScopes :: "'v audit_env \<Rightarrow> string \<Rightarrow> audit_db option \<Rightarrow> audit_error + 'v Entry" where
  "GetAcrossScopes env i q = reader_get env None i q"

lemmas reader_defs = verificationPage_def chainPage_def prunedThrough_def anchorFor_def anchorAt_def
  walkPage_def anchorWalk_def startWalk_def startResult_def


section \<open>Walking decoded rows\<close>

definition decoded :: "'v audit_env \<Rightarrow> audit_row \<Rightarrow> 'v storedEntry" where
  "decoded env r = projr (entryFromRow env r)"

lemma entryFromRow_decoded: "readable env r \<Longrightarrow> entryFromRow env r = Inr (decoded env r)"
  by (auto simp: readable_def decoded_def)

lemma decoded_fields:
  assumes "readable env r"
  shows "ent_Seq (se_entry (decoded env r)) = ae_seq r" "ent_PrevHash (se_entry (decoded env r)) = ae_prev_hash r"
    "ent_Hash (se_entry (decoded env r)) = ae_hash r"
    "canonicalImage (se_entry (decoded env r)) (se_rawChanges (decoded env r)) (se_rawMetadata (decoded env r)) = row_image r"
  using entryFromRow_fields [OF entryFromRow_decoded [OF assms]] row_image_read [OF entryFromRow_decoded [OF assms]]
  by simp_all

text \<open>Where a walk that met no break stands after some rows.\<close>

definition advance :: "chainWalk \<Rightarrow> audit_row list \<Rightarrow> chainWalk" where
  "advance w rs =
     w\<lparr>cw_expectedPrev := last_link (cw_expectedPrev w) rs,
       cw_expectedSeq := cw_expectedSeq w + int (length rs),
       cw_lastSeq := (if rs = [] then cw_lastSeq w else ae_seq (last rs)),
       cw_checked := cw_checked w + int (length rs)\<rparr>"

lemma advance_Nil [simp]: "advance w [] = w"
  by (simp add: advance_def)

lemma walkEntries_append:
  "walkEntries env (ss @ ts) w =
     (case walkEntries env ss w of (None, w') \<Rightarrow> walkEntries env ts w' | (Some b, w') \<Rightarrow> (Some b, w'))"
proof (induction ss arbitrary: w)
  case (Cons x ss)
  show ?case by (auto simp: Cons Let_def split: sum.split)
qed simp

lemma walkEntries_linked:
  assumes "\<And>r. r \<in> set rs \<Longrightarrow> readable env r"
  shows "fst (walkEntries env (map (decoded env) rs) w) = None \<longleftrightarrow>
     linked env (cw_expectedPrev w) (cw_expectedSeq w - 1) rs"
  using assms
proof (induction rs arbitrary: w)
  case (Cons r rs)
  note d = decoded_fields [OF Cons.prems [of r, simplified]]
  show ?case
    by (auto simp: d Let_def row_digest_ok_def Cons.IH [OF Cons.prems] split: sum.split)
qed simp

lemma walkEntries_advance:
  assumes "\<And>r. r \<in> set rs \<Longrightarrow> readable env r" "linked env (cw_expectedPrev w) (cw_expectedSeq w - 1) rs"
  shows "walkEntries env (map (decoded env) rs) w = (None, advance w rs)"
  using assms
proof (induction rs arbitrary: w)
  case (Cons r rs)
  note d = decoded_fields [OF Cons.prems(1) [of r, simplified]]
  let ?w = "w\<lparr>cw_checked := cw_checked w + 1, cw_expectedPrev := ae_hash r, cw_expectedSeq := ae_seq r + 1, cw_lastSeq := ae_seq r\<rparr>"
  have "walkEntries env (map (decoded env) rs) ?w = (None, advance ?w rs)"
    by (rule Cons.IH) (use Cons.prems in auto)
  moreover have "advance ?w rs = advance w (r # rs)" using Cons.prems(2) by (simp add: advance_def)
  moreover from Cons.prems(2) have "ae_seq r = cw_expectedSeq w" "ae_prev_hash r = cw_expectedPrev w"
    "chainHash env (cw_expectedPrev w) (row_image r) = Inr (ae_hash r)" by (auto simp: row_digest_ok_def)
  ultimately show ?case by (simp add: d Let_def)
qed simp

lemma walkEntries_checked:
  "walkEntries env ss w = (None, w') \<Longrightarrow> cw_checked w' = cw_checked w + int (length ss) \<and> cw_anchored w' = cw_anchored w"
  by (induction ss arbitrary: w) (auto simp: Let_def split: sum.splits if_splits)

section \<open>The loop returns\<close>

lemma verificationPage_bounds:
  assumes "0 < rd_verificationPageSize rd" "0 < rd_verificationCeiling rd"
  shows "0 \<le> verificationPage rd c" "c < rd_verificationCeiling rd \<Longrightarrow> 0 < verificationPage rd c"
    "c \<le> rd_verificationCeiling rd \<Longrightarrow> verificationPage rd c \<le> rd_verificationCeiling rd - c"
  using assms by (auto simp: verificationPage_def)

lemma verifyLoop_returns:
  assumes "0 < rd_verificationPageSize rd" "0 < rd_verificationCeiling rd"
    and "vr_Checked result = cw_checked w" "nat (rd_verificationCeiling rd - cw_checked w) < fuel"
  shows "\<exists>res. verifyLoop fuel env rd view far scope from to k w result = Some res"
  using assms(3,4)
proof (induction fuel arbitrary: k w result)
  case (Suc fuel)
  define n where "n = verificationPage rd (cw_checked w)"
  show ?case
  proof (cases "n = 0")
    case True
    with Suc.prems(1) show ?thesis by (simp add: n_def Let_def)
  next
    case pos: False
    then have room: "0 < n" "cw_checked w < rd_verificationCeiling rd"
      using assms(1,2) by (auto simp: n_def verificationPage_def min_def max_def split: if_splits)
    show ?thesis
    proof (cases "chainPage env far scope from to (cw_lastSeq w) n (view k)")
      case (Inl e)
      with pos Suc.prems(1) show ?thesis by (simp add: n_def)
    next
      case page: (Inr stored)
      show ?thesis
      proof (cases "stored = []")
        case True
        with page pos Suc.prems(1) show ?thesis by (simp add: n_def)
      next
        case ne: False
        show ?thesis
        proof (cases "anchorWalk env view scope (ent_Seq (se_entry (hd stored))) (k + 1) w")
          case (Inl e)
          with page pos ne Suc.prems(1) show ?thesis by (simp add: n_def)
        next
          case anchor: (Inr wk)
          obtain w1 k1 where wk: "wk = (w1, k1)" by (cases wk)
          from anchor wk have c1: "cw_checked w1 = cw_checked w"
            by (auto simp: anchorWalk_def anchorAt_def split: if_splits sum.splits)
          obtain brk w2 where wp: "walkPage env stored w1 = (brk, w2)" by (cases "walkPage env stored w1")
          let ?r = "result\<lparr>vr_FirstBreak := brk, vr_Checked := cw_checked w2, vr_LastSeq := cw_lastSeq w2\<rparr>"
          show ?thesis
          proof (cases "brk \<noteq> None \<or> int (length stored) < n")
            case True
            with page pos ne anchor wk wp Suc.prems(1) show ?thesis by (auto simp: n_def Let_def)
          next
            case False
            with wp have "walkEntries env stored w1 = (None, w2)" by (auto simp: walkPage_def split: if_splits)
            from walkEntries_checked [OF this] c1 have c2: "cw_checked w2 = cw_checked w + int (length stored)" by simp
            have "nat (rd_verificationCeiling rd - cw_checked w2) < fuel"
              using Suc.prems(2) c2 room ne by (cases stored) auto
            then have "\<exists>res. verifyLoop fuel env rd view far scope from to k1 w2 ?r = Some res"
              by (intro Suc.IH) simp_all
            with False page pos ne anchor wk wp Suc.prems(1) show ?thesis by (auto simp: n_def Let_def)
          qed
        qed
      qed
    qed
  qed
qed simp

text \<open>
  C34: a verification under a ceiling always returns: whatever other transactions commit, prune or erase
  between its statements, as many rounds as the ceiling admits entries are enough, for every scope,
  window and starting position.
\<close>

theorem Verify_returns:
  assumes "0 < rd_verificationPageSize rd" "0 < rd_verificationCeiling rd" "nat (rd_verificationCeiling rd) < fuel"
  shows "\<exists>res. Verify fuel env rd far scope from to afterSeq q = Some res"
proof (cases q)
  case (Some view)
  have "\<exists>res. verifyLoop fuel env rd view far (owner scope) from to 0 (startWalk afterSeq) (startResult scope from to afterSeq) = Some res"
    by (rule verifyLoop_returns [OF assms(1,2)]) (use assms(3) in \<open>simp_all add: startResult_def startWalk_def\<close>)
  with Some show ?thesis by (simp add: Verify_def)
qed (simp add: Verify_def)

theorem Verify_returns_witness:
  "\<exists>res. Verify 100001 demo_env (NewReader []) demo_far (Some ''t'') zeroTime zeroTime ChainStart
     (Some (\<lambda>k. if k mod 2 = 0 then demo_log else demo_db [])) = Some res"
  by (rule Verify_returns) (simp_all add: NewReader_def)

end
