(* ===== verification/Audit_Verify.thy ===== *)
theory Audit_Verify
  imports Audit_Reader
begin

text \<open>
  What a verification of a snapshot means.

  \<open>verifyWalk\<close> is the reference: one walk over the rows of the range, cut at the ceiling and anchored at
  the first of them. The paged loop computes exactly it, whatever the page size, on any table the unique
  index on positions admits; so a verification that stopped at its ceiling and one that continues it say
  together what an uninterrupted one says.
\<close>

section \<open>Ranges\<close>

definition positions_unique :: "audit_db \<Rightarrow> bool" where
  "positions_unique db \<longleftrightarrow> distinct (map (\<lambda>r. (ae_scope r, ae_seq r)) (db_entries db))"

definition rangeRows :: "time \<times> time \<Rightarrow> string \<Rightarrow> time \<Rightarrow> time \<Rightarrow> int \<Rightarrow> audit_db \<Rightarrow> audit_row list" where
  "rangeRows far scope from to afterSeq db =
     sort_key ae_seq (filter (chainRange far scope (boundOrNil from) (boundOrNil to) afterSeq) (db_entries db))"

lemma set_rangeRows:
  "r \<in> set (rangeRows far scope from to afterSeq db) \<longleftrightarrow>
   r \<in> set (db_entries db) \<and> ae_scope r = scope \<and> entryWindow far (boundOrNil from) (boundOrNil to) r \<and> afterSeq < ae_seq r"
  by (auto simp: rangeRows_def chainRange_def)

lemma rangeRows_strict:
  assumes "positions_unique db"
  shows "sorted (map ae_seq (rangeRows far scope from to afterSeq db)) \<and>
    distinct (map ae_seq (rangeRows far scope from to afterSeq db))"
proof -
  let ?p = "chainRange far scope (boundOrNil from) (boundOrNil to) afterSeq"
  have "distinct (map (\<lambda>r. (ae_scope r, ae_seq r)) (filter ?p (db_entries db)))"
    using assms by (simp add: positions_unique_def distinct_map_filter)
  then have "distinct (filter ?p (db_entries db))" "inj_on (\<lambda>r. (ae_scope r, ae_seq r)) (set (filter ?p (db_entries db)))"
    by (auto simp: distinct_map)
  then have "distinct (map ae_seq (filter ?p (db_entries db)))"
    by (auto simp: distinct_map inj_on_def chainRange_def)
  moreover have "mset (map ae_seq (rangeRows far scope from to afterSeq db)) = mset (map ae_seq (filter ?p (db_entries db)))"
    by (simp add: rangeRows_def)
  ultimately have "distinct (map ae_seq (rangeRows far scope from to afterSeq db))" by (metis mset_eq_imp_distinct_iff)
  then show ?thesis by (simp add: rangeRows_def)
qed

lemma page_of_range:
  "ListAuditChainEntries far scope (boundOrNil from) (boundOrNil to) afterSeq n db = take (nat n) (rangeRows far scope from to afterSeq db)"
  by (simp add: ListAuditChainEntries_def sql_top_def rangeRows_def)

lemma strict_pivot:
  assumes "sorted (map f xs)" "distinct (map f xs)" "0 < k" "k \<le> length xs"
  shows "filter (\<lambda>r. f (last (take k xs)) < (f r :: int)) xs = drop k xs"
proof -
  let ?p = "\<lambda>r. f (last (take k xs)) < f r"
  have ne: "take k xs \<noteq> []" using assms(3,4) by auto
  have xs: "xs = butlast (take k xs) @ [last (take k xs)] @ drop k xs"
    using append_butlast_last_id [OF ne] by (metis append.assoc append_take_drop_id)
  define a b c where "a = butlast (take k xs)" and "b = last (take k xs)" and "c = drop k xs"
  have e: "xs = a @ [b] @ c" using xs by (simp add: a_def b_def c_def)
  have "\<not> f b < f x" if "x \<in> set a" for x using assms(1) that unfolding e by (auto simp: sorted_append)
  then have "filter (\<lambda>r. f b < f r) a = []" by (simp add: filter_empty_conv)
  moreover have "f b < f x" if "x \<in> set c" for x
  proof -
    have "f b \<le> f x" using assms(1) that unfolding e by (auto simp: sorted_append)
    moreover have "f b \<noteq> f x" using assms(2) that unfolding e by auto
    ultimately show ?thesis by simp
  qed
  then have "filter (\<lambda>r. f b < f r) c = c" by (simp add: filter_id_conv)
  ultimately have "filter (\<lambda>r. f b < f r) (a @ [b] @ c) = c" by simp
  then show ?thesis unfolding e [symmetric] by (simp only: b_def c_def)
qed

lemma rangeRows_resume:
  assumes "positions_unique db" "0 < k" "k \<le> length (rangeRows far scope from to afterSeq db)"
  shows "rangeRows far scope from to (ae_seq (last (take k (rangeRows far scope from to afterSeq db)))) db =
    drop k (rangeRows far scope from to afterSeq db)"
proof -
  let ?rs = "rangeRows far scope from to afterSeq db"
  let ?l = "last (take k ?rs)"
  have "?l \<in> set (take k ?rs)" using assms(2,3) by (intro last_in_set) auto
  then have "?l \<in> set ?rs" by (rule in_set_takeD)
  then have "afterSeq < ae_seq ?l" by (simp add: set_rangeRows)
  then have "filter (chainRange far scope (boundOrNil from) (boundOrNil to) (ae_seq ?l)) (db_entries db) =
      filter (\<lambda>r. ae_seq ?l < ae_seq r) (filter (chainRange far scope (boundOrNil from) (boundOrNil to) afterSeq) (db_entries db))"
    unfolding filter_filter by (intro filter_cong) (auto simp: chainRange_def)
  then have "rangeRows far scope from to (ae_seq ?l) db = filter (\<lambda>r. ae_seq ?l < ae_seq r) ?rs"
    unfolding rangeRows_def by (simp only: filter_sort)
  also have "\<dots> = drop k ?rs"
    using rangeRows_strict [OF assms(1)] assms(2,3) by (intro strict_pivot) auto
  finally show ?thesis .
qed

section \<open>The reference walk\<close>

text \<open>How many rows of a range a call may examine, and what it makes of them once anchored.\<close>

definition admitted :: "SQLReader \<Rightarrow> int \<Rightarrow> audit_row list \<Rightarrow> audit_row list" where
  "admitted rd checked rs =
     (if rd_verificationCeiling rd \<le> 0 then rs else take (nat (rd_verificationCeiling rd - checked)) rs)"

definition reaches_end :: "SQLReader \<Rightarrow> int \<Rightarrow> audit_row list \<Rightarrow> bool" where
  "reaches_end rd checked rs \<longleftrightarrow>
     rd_verificationCeiling rd \<le> 0 \<or> checked + int (length rs) < rd_verificationCeiling rd"

definition conclude :: "'v audit_env \<Rightarrow> SQLReader \<Rightarrow> audit_row list \<Rightarrow> chainWalk \<Rightarrow> VerificationResult \<Rightarrow> VerificationResult" where
  "conclude env rd rs w result =
     (case walkPage env (map (decoded env) (admitted rd (cw_checked w) rs)) w of (brk, w') \<Rightarrow>
        result\<lparr>vr_FirstBreak := brk, vr_Checked := cw_checked w', vr_LastSeq := cw_lastSeq w',
               vr_Complete := (brk = None \<and> reaches_end rd (cw_checked w) rs)\<rparr>)"

lemma chainPage_readable:
  assumes "\<And>r. r \<in> set (db_entries db) \<Longrightarrow> readable env r"
  shows "chainPage env far scope from to afterSeq n db =
    Inr (map (decoded env) (take (nat n) (rangeRows far scope from to afterSeq db)))"
proof -
  have "r \<in> set (take (nat n) (rangeRows far scope from to afterSeq db)) \<Longrightarrow> entryFromRow env r = Inr (decoded env r)" for r
    using assms by (auto dest!: in_set_takeD simp: set_rangeRows entryFromRow_decoded)
  then show ?thesis unfolding chainPage_def page_of_range by (rule try_map_total)
qed

lemma verifyLoop_page:
  assumes "n = verificationPage rd (vr_Checked result)" "n \<noteq> 0"
    and "chainPage env far scope from to (cw_lastSeq w) n (view k) = Inr stored" "stored \<noteq> []"
    and "anchorWalk env view scope (ent_Seq (se_entry (hd stored))) (k + 1) w = Inr (w1, k1)"
    and "walkPage env stored w1 = (brk, w2)"
    and "r = result\<lparr>vr_FirstBreak := brk, vr_Checked := cw_checked w2, vr_LastSeq := cw_lastSeq w2\<rparr>"
  shows "verifyLoop (Suc fuel) env rd view far scope from to k w result =
    (if brk \<noteq> None then Some (Inr r)
     else if int (length stored) < n then Some (Inr (r\<lparr>vr_Complete := True\<rparr>))
     else verifyLoop fuel env rd view far scope from to k1 w2 r)"
  using assms(2-6) unfolding assms(1,7) by (simp add: Let_def)

lemma verifyLoop_anchored:
  assumes u: "positions_unique db" and rd: "\<And>r. r \<in> set (db_entries db) \<Longrightarrow> readable env r"
    and pg: "0 < rd_verificationPageSize rd"
    and "cw_anchored w" "cw_known w" "vr_Checked result = cw_checked w" "vr_LastSeq result = cw_lastSeq w"
    and "vr_FirstBreak result = None" "\<not> vr_Complete result"
    and "rs = rangeRows far scope from to (cw_lastSeq w) db" "length rs < fuel"
    and "0 < rd_verificationCeiling rd \<longrightarrow> cw_checked w \<le> rd_verificationCeiling rd"
  shows "verifyLoop fuel env rd (\<lambda>_. db) far scope from to k w result = Some (Inr (conclude env rd rs w result))"
  using assms(4-)
proof (induction fuel arbitrary: k w result rs)
  case (Suc fuel)
  define n where "n = verificationPage rd (cw_checked w)"
  let ?page = "take (nat n) rs"
  have read: "r \<in> set rs \<Longrightarrow> readable env r" for r using rd Suc.prems(7) by (simp add: set_rangeRows)
  have page: "chainPage env far scope from to (cw_lastSeq w) n db = Inr (map (decoded env) ?page)"
    unfolding Suc.prems(7) by (rule chainPage_readable) (rule rd)
  show ?case
  proof (cases "n = 0")
    case True
    then have "admitted rd (cw_checked w) rs = []" "\<not> reaches_end rd (cw_checked w) rs"
      using pg Suc.prems(9) by (auto simp: n_def verificationPage_def admitted_def reaches_end_def min_def max_def split: if_splits)
    then have "conclude env rd rs w result = result"
      using Suc.prems by (simp add: conclude_def walkPage_def)
    with True Suc.prems(3) show ?thesis by (simp add: n_def)
  next
    case n0: False
    then have n: "0 < n" "rd_verificationCeiling rd \<le> 0 \<or> n \<le> rd_verificationCeiling rd - cw_checked w"
      using pg by (auto simp: n_def verificationPage_def min_def max_def split: if_splits)
    show ?thesis
    proof (cases "rs = []")
      case True
      then have "conclude env rd rs w result = result\<lparr>vr_Complete := True\<rparr>"
        using Suc.prems n by (auto simp: conclude_def walkPage_def admitted_def reaches_end_def)
      with n0 page True Suc.prems(3) show ?thesis by (simp add: n_def)
    next
      case ne: False
      then have pne: "?page \<noteq> []" using n(1) by simp
      obtain brk w2 where wp: "walkEntries env (map (decoded env) ?page) w = (brk, w2)"
        by (cases "walkEntries env (map (decoded env) ?page) w")
      let ?r = "result\<lparr>vr_FirstBreak := brk, vr_Checked := cw_checked w2, vr_LastSeq := cw_lastSeq w2\<rparr>"
      have body: "verifyLoop (Suc fuel) env rd (\<lambda>_. db) far scope from to k w result =
          (if brk \<noteq> None then Some (Inr ?r)
           else if length ?page < nat n then Some (Inr (?r\<lparr>vr_Complete := True\<rparr>))
           else verifyLoop fuel env rd (\<lambda>_. db) far scope from to (k + 1) w2 ?r)"
      proof -
        have "verifyLoop (Suc fuel) env rd (\<lambda>_. db) far scope from to k w result =
            (if brk \<noteq> None then Some (Inr ?r)
             else if int (length (map (decoded env) ?page)) < n then Some (Inr (?r\<lparr>vr_Complete := True\<rparr>))
             else verifyLoop fuel env rd (\<lambda>_. db) far scope from to (k + 1) w2 ?r)"
          by (rule verifyLoop_page [where ?w1.0 = w]) (use n0 page pne wp Suc.prems(1-3) in \<open>simp_all add: n_def anchorWalk_def walkPage_def\<close>)
        then show ?thesis using n(1) by (simp add: zless_nat_eq_int_zless)
      qed
      define more where "more = drop (nat n) (admitted rd (cw_checked w) rs)"
      have "take (nat n) (admitted rd (cw_checked w) rs) = ?page"
        using n(2) by (auto simp: admitted_def min_def)
      then have more: "admitted rd (cw_checked w) rs = ?page @ more"
        unfolding more_def by (metis append_take_drop_id)
      have last: "length rs < nat n \<Longrightarrow> more = []" by (auto simp: more_def admitted_def)
      show ?thesis
      proof (cases brk)
        case (Some b)
        then have "conclude env rd rs w result = ?r"
          using Suc.prems(2,6) wp by (simp add: conclude_def walkPage_def more walkEntries_append)
        with Some show ?thesis unfolding body by simp
      next
        case None
        have l: "linked env (cw_expectedPrev w) (cw_expectedSeq w - 1) ?page"
          using walkEntries_linked [of ?page env w] wp None read by (auto dest: in_set_takeD)
        have w2: "w2 = advance w ?page"
          using walkEntries_advance [OF _ l] wp read by (auto dest: in_set_takeD)
        show ?thesis
        proof (cases "length ?page < nat n")
          case True
          then have short: "length rs < nat n" by auto
          have "reaches_end rd (cw_checked w) rs" using short n by (auto simp: reaches_end_def)
          then have "conclude env rd rs w result = ?r\<lparr>vr_Complete := True\<rparr>"
            using Suc.prems(2) wp None by (simp add: conclude_def walkPage_def more last [OF short])
          with short None show ?thesis unfolding body by simp
        next
          case False
          then have len: "nat n \<le> length rs" "length ?page = nat n" by auto
          have rest: "rangeRows far scope from to (cw_lastSeq w2) db = drop (nat n) rs"
            using rangeRows_resume [OF u, of "nat n"] len n(1) pne Suc.prems(7) by (simp add: w2 advance_def)
          have "verifyLoop fuel env rd (\<lambda>_. db) far scope from to (k + 1) w2 ?r = Some (Inr (conclude env rd (drop (nat n) rs) w2 ?r))"
          proof (rule Suc.IH)
            show "length (drop (nat n) rs) < fuel" using Suc.prems(8) n(1) ne by (cases rs) auto
            show "0 < rd_verificationCeiling rd \<longrightarrow> cw_checked w2 \<le> rd_verificationCeiling rd"
              using n Suc.prems(9) len by (auto simp: w2 advance_def)
          qed (use Suc.prems None rest in \<open>auto simp: w2 advance_def\<close>)
          moreover have "conclude env rd (drop (nat n) rs) w2 ?r = conclude env rd rs w result"
          proof -
            have "admitted rd (cw_checked w2) (drop (nat n) rs) = more"
            proof -
              have "cw_checked w2 = cw_checked w + n" using len(2) n(1) by (simp add: w2 advance_def)
              then have "nat (rd_verificationCeiling rd - cw_checked w2) = nat (rd_verificationCeiling rd - cw_checked w) - nat n"
                using n(1) by simp
              then show ?thesis by (simp add: admitted_def more_def drop_take)
            qed
            moreover have "reaches_end rd (cw_checked w2) (drop (nat n) rs) = reaches_end rd (cw_checked w) rs"
              using len n(1) by (auto simp: reaches_end_def w2 advance_def)
            moreover have "cw_known w2" using Suc.prems(2) by (simp add: w2 advance_def)
            ultimately show ?thesis
              using Suc.prems(2) wp None by (simp add: conclude_def walkPage_def more walkEntries_append split: prod.split)
          qed
          ultimately show ?thesis using False None unfolding body by simp
        qed
      qed
    qed
  qed
qed simp


text \<open>What the first row of a range is checked against, on a snapshot.\<close>

definition anchor_of :: "'v audit_env \<Rightarrow> string \<Rightarrow> int \<Rightarrow> audit_db \<Rightarrow> anchorState" where
  "anchor_of env scope firstSeq db = projr (anchorFor env scope firstSeq db db)"

lemma anchorFor_readable:
  assumes "\<And>r. r \<in> set (db_entries db) \<Longrightarrow> readable env r"
  shows "anchorFor env scope firstSeq db db = Inr (anchor_of env scope firstSeq db)"
proof -
  have "\<exists>a. anchorFor env scope firstSeq db db = Inr a"
  proof (cases "find (\<lambda>r. ae_scope r = scope \<and> ae_seq r = firstSeq - 1) (db_entries db)")
    case (Some r)
    then have "r \<in> set (db_entries db)" by (auto simp: find_Some_iff)
    with assms Some show ?thesis
      by (auto simp: anchorFor_def GetAuditLogEntryBySeq_def entryFromRow_decoded split: prod.splits)
  qed (auto simp: anchorFor_def GetAuditLogEntryBySeq_def split: prod.splits)
  then show ?thesis by (auto simp: anchor_of_def)
qed

definition verifyWalk ::
  "'v audit_env \<Rightarrow> SQLReader \<Rightarrow> time \<times> time \<Rightarrow> string \<Rightarrow> time \<Rightarrow> time \<Rightarrow> int \<Rightarrow> audit_db \<Rightarrow> VerificationResult" where
  "verifyWalk env rd far scope from to afterSeq db =
     (let rs = rangeRows far scope from to afterSeq db; result = startResult (Some scope) from to afterSeq in
      if rs = [] then result\<lparr>vr_Complete := True\<rparr>
      else conclude env rd rs
             (anchorAt (anchor_of env scope (ae_seq (hd rs)) db) (ae_seq (hd rs)) (startWalk afterSeq)) result)"

lemma Verify_snapshot:
  assumes u: "positions_unique db" and rd: "\<And>r. r \<in> set (db_entries db) \<Longrightarrow> readable env r"
    and pg: "0 < rd_verificationPageSize rd" and ce: "0 \<le> rd_verificationCeiling rd"
    and fuel: "length (rangeRows far scope from to afterSeq db) < fuel"
  shows "Verify fuel env rd far (Some scope) from to afterSeq (Some (\<lambda>_. db)) =
    Some (Inr (verifyWalk env rd far scope from to afterSeq db))"
proof -
  let ?rs = "rangeRows far scope from to afterSeq db" and ?w = "startWalk afterSeq"
  let ?result = "startResult (Some scope) from to afterSeq"
  define n where "n = verificationPage rd 0"
  have n: "0 < n" "n = verificationPage rd (vr_Checked ?result)"
    using pg ce by (auto simp: n_def verificationPage_def startResult_def)
  obtain m where m: "fuel = Suc m" using fuel by (cases fuel) auto
  have page: "chainPage env far scope from to (cw_lastSeq ?w) n db = Inr (map (decoded env) (take (nat n) ?rs))"
    using chainPage_readable [OF rd] by (simp add: startWalk_def)
  have start: "Verify fuel env rd far (Some scope) from to afterSeq (Some (\<lambda>_. db)) =
      verifyLoop (Suc m) env rd (\<lambda>_. db) far scope from to 0 ?w ?result"
    by (simp add: Verify_def owner_def m)
  show ?thesis
  proof (cases "?rs = []")
    case True
    with n page show ?thesis unfolding start by (simp add: verifyWalk_def)
  next
    case False
    then obtain r0 rest where rs: "?rs = r0 # rest" by (cases ?rs) auto
    let ?a = "anchor_of env scope (ae_seq r0) db"
    let ?w1 = "anchorAt ?a (ae_seq r0) ?w"
    have r0: "readable env r0" "ent_Seq (se_entry (decoded env r0)) = ae_seq r0"
    proof -
      have "r0 \<in> set ?rs" by (simp add: rs)
      then show "readable env r0" by (auto simp: set_rangeRows intro: rd)
      then show "ent_Seq (se_entry (decoded env r0)) = ae_seq r0" by (rule decoded_fields)
    qed
    have hd: "hd (map (decoded env) (take (nat n) ?rs)) = decoded env r0" using n(1) by (cases "nat n") (auto simp: rs)
    have ne: "map (decoded env) (take (nat n) ?rs) \<noteq> []" using n(1) by (simp add: rs)
    have anchored: "cw_anchored ?w1" "cw_lastSeq ?w1 = cw_lastSeq ?w" by (simp_all add: anchorAt_def)
    have aw: "anchorWalk env (\<lambda>_. db) scope (ae_seq r0) (0 + 1) ?w = Inr (?w1, 3)"
      by (simp add: anchorWalk_def anchorFor_readable [OF rd] startWalk_def)
    obtain brk w2 where wp: "walkPage env (map (decoded env) (take (nat n) ?rs)) ?w1 = (brk, w2)"
      by (cases "walkPage env (map (decoded env) (take (nat n) ?rs)) ?w1")
    let ?r = "?result\<lparr>vr_FirstBreak := brk, vr_Checked := cw_checked w2, vr_LastSeq := cw_lastSeq w2\<rparr>"
    have first: "verifyLoop (Suc m) env rd (\<lambda>_. db) far scope from to 0 ?w ?result =
        (if brk \<noteq> None then Some (Inr ?r)
         else if int (length (map (decoded env) (take (nat n) ?rs))) < n then Some (Inr (?r\<lparr>vr_Complete := True\<rparr>))
         else verifyLoop m env rd (\<lambda>_. db) far scope from to 3 w2 ?r)"
      by (rule verifyLoop_page [where ?w1.0 = ?w1, OF n(2) _ page ne]) (use n(1) aw wp in \<open>simp_all add: hd r0\<close>)
    have "verifyLoop (Suc m) env rd (\<lambda>_. db) far scope from to 0 ?w ?result = Some (Inr (conclude env rd ?rs ?w1 ?result))"
    proof (cases "an_known ?a")
      case True
      have loop: "verifyLoop (Suc m) env rd (\<lambda>_. db) far scope from to 2 ?w1 ?result = Some (Inr (conclude env rd ?rs ?w1 ?result))"
        by (rule verifyLoop_anchored [OF u rd pg])
          (use True fuel ce in \<open>auto simp: anchorAt_def startWalk_def startResult_def m\<close>)
      have "verifyLoop (Suc m) env rd (\<lambda>_. db) far scope from to 2 ?w1 ?result =
        (if brk \<noteq> None then Some (Inr ?r)
         else if int (length (map (decoded env) (take (nat n) ?rs))) < n then Some (Inr (?r\<lparr>vr_Complete := True\<rparr>))
         else verifyLoop m env rd (\<lambda>_. db) far scope from to 3 w2 ?r)"
        by (rule verifyLoop_page [where ?w1.0 = ?w1, OF n(2) _ _ ne])
          (use n(1) page wp in \<open>simp_all add: anchored anchorWalk_def\<close>)
      with loop first show ?thesis by (simp only:)
    next
      case False
      then have unknown: "\<not> cw_known ?w1" by (simp add: anchorAt_def)
      with wp have b: "w2 = ?w1" "brk \<noteq> None"
        "brk = fst (walkPage env (map (decoded env) (admitted rd (cw_checked ?w1) ?rs)) ?w1)"
      proof -
        have "admitted rd (cw_checked ?w1) ?rs \<noteq> [] \<and> hd (admitted rd (cw_checked ?w1) ?rs) = r0"
          using ce by (auto simp: admitted_def rs anchorAt_def startWalk_def take_Cons' split: if_splits)
        with unknown wp show "w2 = ?w1" "brk \<noteq> None"
          "brk = fst (walkPage env (map (decoded env) (admitted rd (cw_checked ?w1) ?rs)) ?w1)"
          by (auto simp: walkPage_def hd hd_map)
      qed
      have "conclude env rd ?rs ?w1 ?result = ?r"
        using unknown b by (simp add: conclude_def walkPage_def startResult_def)
      with first b(2) show ?thesis by simp
    qed
    then show ?thesis unfolding start by (simp add: verifyWalk_def Let_def rs)
  qed
qed


section \<open>Intact walks\<close>

lemma linked_take: "linked env prev n rs \<Longrightarrow> linked env prev n (take k rs)"
  by (metis append_take_drop_id linked_append)

lemma admitted_subset: "r \<in> set (admitted rd c rs) \<Longrightarrow> r \<in> set rs"
  by (auto simp: admitted_def dest: in_set_takeD split: if_splits)

lemma conclude_intact:
  assumes "\<And>r. r \<in> set rs \<Longrightarrow> readable env r" "0 \<le> rd_verificationCeiling rd"
    and "w = anchorAt a firstSeq (startWalk afterSeq)" "vr_FirstBreak result = None"
  shows "Intact (conclude env rd rs w result) \<longleftrightarrow> an_known a \<and> linked env (an_prevHash a) (firstSeq - 1) (admitted rd 0 rs)"
    and "Intact (conclude env rd rs w result) \<Longrightarrow>
      conclude env rd rs w result = result\<lparr>vr_Checked := int (length (admitted rd 0 rs)),
        vr_LastSeq := (if admitted rd 0 rs = [] then afterSeq else ae_seq (last (admitted rd 0 rs))),
        vr_Complete := reaches_end rd 0 rs\<rparr>"
proof -
  have r: "r \<in> set (admitted rd 0 rs) \<Longrightarrow> readable env r" for r using assms(1) admitted_subset by blast
  have w: "cw_known w = an_known a" "cw_expectedPrev w = an_prevHash a" "cw_expectedSeq w = firstSeq" "cw_checked w = 0"
    "cw_lastSeq w = afterSeq"
    by (simp_all add: assms(3) anchorAt_def startWalk_def)
  show i: "Intact (conclude env rd rs w result) \<longleftrightarrow> an_known a \<and> linked env (an_prevHash a) (firstSeq - 1) (admitted rd 0 rs)"
    using walkEntries_linked [of "admitted rd 0 rs" env w, OF r]
    by (auto simp: conclude_def Intact_def walkPage_def w split: prod.splits)
  assume "Intact (conclude env rd rs w result)"
  with i have k: "an_known a" "linked env (an_prevHash a) (firstSeq - 1) (admitted rd 0 rs)" by auto
  have "walkEntries env (map (decoded env) (admitted rd 0 rs)) w = (None, advance w (admitted rd 0 rs))"
    by (rule walkEntries_advance) (use r k w in auto)
  with k show "conclude env rd rs w result = result\<lparr>vr_Checked := int (length (admitted rd 0 rs)),
        vr_LastSeq := (if admitted rd 0 rs = [] then afterSeq else ae_seq (last (admitted rd 0 rs))),
        vr_Complete := reaches_end rd 0 rs\<rparr>"
    using assms(4) by (cases result) (simp add: conclude_def walkPage_def w advance_def)
qed

text \<open>The same for a whole verification.\<close>

lemma verifyWalk_intact:
  assumes "\<And>r. r \<in> set (db_entries db) \<Longrightarrow> readable env r" "0 \<le> rd_verificationCeiling rd"
    and "rs = rangeRows far scope from to afterSeq db" "rs \<noteq> []" "a = anchor_of env scope (ae_seq (hd rs)) db"
  shows "Intact (verifyWalk env rd far scope from to afterSeq db) \<longleftrightarrow>
      an_known a \<and> linked env (an_prevHash a) (ae_seq (hd rs) - 1) (admitted rd 0 rs)"
    and "Intact (verifyWalk env rd far scope from to afterSeq db) \<Longrightarrow>
      verifyWalk env rd far scope from to afterSeq db =
      (startResult (Some scope) from to afterSeq)\<lparr>vr_Checked := int (length (admitted rd 0 rs)),
        vr_LastSeq := (if admitted rd 0 rs = [] then afterSeq else ae_seq (last (admitted rd 0 rs))),
        vr_Complete := reaches_end rd 0 rs\<rparr>"
proof -
  have r: "r \<in> set rs \<Longrightarrow> readable env r" for r using assms(1,3) by (simp add: set_rangeRows)
  have v: "verifyWalk env rd far scope from to afterSeq db =
      conclude env rd rs (anchorAt a (ae_seq (hd rs)) (startWalk afterSeq)) (startResult (Some scope) from to afterSeq)"
    using assms(3-5) by (simp add: verifyWalk_def Let_def)
  have b: "vr_FirstBreak (startResult (Some scope) from to afterSeq) = None" by (simp add: startResult_def)
  show "Intact (verifyWalk env rd far scope from to afterSeq db) \<longleftrightarrow>
      an_known a \<and> linked env (an_prevHash a) (ae_seq (hd rs) - 1) (admitted rd 0 rs)"
    unfolding v by (rule conclude_intact(1) [OF r assms(2) refl b])
  show "verifyWalk env rd far scope from to afterSeq db =
      (startResult (Some scope) from to afterSeq)\<lparr>vr_Checked := int (length (admitted rd 0 rs)),
        vr_LastSeq := (if admitted rd 0 rs = [] then afterSeq else ae_seq (last (admitted rd 0 rs))),
        vr_Complete := reaches_end rd 0 rs\<rparr>"
    if "Intact (verifyWalk env rd far scope from to afterSeq db)"
    using conclude_intact(2) [OF r assms(2) refl b] that unfolding v by blast
qed

section \<open>Consistent logs verify\<close>

lemma prunedThrough_chain_of:
  "prunedThrough scope db = (cr_pruned_through_seq (chain_of db scope), cr_pruned_through_hash (chain_of db scope))"
  by (auto simp: prunedThrough_def GetAuditChain_def chain_of_def genesis_row_def split: option.splits)

lemma find_position:
  assumes "positions_unique db" "r \<in> set (db_entries db)" "ae_scope r = scope" "ae_seq r = n"
  shows "GetAuditLogEntryBySeq scope n db = Inr r"
proof -
  have u: "x = r" if "x \<in> set (db_entries db)" "ae_scope x = scope" "ae_seq x = n" for x
    using assms that by (auto simp: positions_unique_def distinct_map dest: inj_onD)
  have "find (\<lambda>r. ae_scope r = scope \<and> ae_seq r = n) (db_entries db) \<noteq> None"
    using assms(2-4) by (auto simp: find_None_iff)
  then obtain x where x: "find (\<lambda>r. ae_scope r = scope \<and> ae_seq r = n) (db_entries db) = Some x" by auto
  then have "x = r" by (intro u) (auto simp: find_Some_iff)
  with x show ?thesis by (simp add: GetAuditLogEntryBySeq_def)
qed

lemma anchor_of_predecessor:
  assumes "positions_unique db" "r \<in> set (db_entries db)" "readable env r" "ae_scope r = scope"
    and "ae_seq r \<noteq> cr_pruned_through_seq (chain_of db scope)"
  shows "anchor_of env scope (ae_seq r + 1) db = \<lparr>an_prevHash = ae_hash r, an_known = True\<rparr>"
  using assms decoded_fields(3) [OF assms(3)]
  by (simp add: anchor_of_def anchorFor_def prunedThrough_chain_of find_position entryFromRow_decoded)

lemma anchor_of_watermark:
  "anchor_of env scope (cr_pruned_through_seq (chain_of db scope) + 1) db =
   \<lparr>an_prevHash = cr_pruned_through_hash (chain_of db scope), an_known = True\<rparr>"
  by (simp add: anchor_of_def anchorFor_def prunedThrough_chain_of)

lemma anchor_of_absent:
  assumes "firstSeq \<noteq> cr_pruned_through_seq (chain_of db scope) + 1"
    and "\<And>r. r \<in> set (db_entries db) \<Longrightarrow> ae_scope r = scope \<Longrightarrow> ae_seq r \<noteq> firstSeq - 1"
  shows "\<not> an_known (anchor_of env scope firstSeq db)"
proof -
  have "find (\<lambda>r. ae_scope r = scope \<and> ae_seq r = firstSeq - 1) (db_entries db) = None"
    using assms(2) by (auto simp: find_None_iff)
  with assms(1) show ?thesis
    by (simp add: anchor_of_def anchorFor_def prunedThrough_chain_of GetAuditLogEntryBySeq_def)
qed

lemma audit_ok_positions_unique:
  assumes "audit_ok env db"
  shows "positions_unique db"
proof -
  have "distinct (db_entries db)" using audit_okD(1) [OF assms] by (simp add: distinct_map)
  moreover have "inj_on (\<lambda>r. (ae_scope r, ae_seq r)) (set (db_entries db))"
  proof (rule inj_onI)
    fix r r' assume r: "r \<in> set (db_entries db)" "r' \<in> set (db_entries db)" "(ae_scope r, ae_seq r) = (ae_scope r', ae_seq r')"
    have "distinct (map ae_seq (own_rows db (ae_scope r)))"
      using audit_okD(4) [OF assms, of "ae_scope r"] linked_sorted unfolding chain_ok_def by blast
    then show "r = r'" using r by (auto simp: distinct_map set_own_rows dest: inj_onD)
  qed
  ultimately show ?thesis by (simp add: positions_unique_def distinct_map)
qed

text \<open>The rows of a scope that an open window shows: those recorded within the bounds it coalesces to.\<close>

definition within_far :: "time \<times> time \<Rightarrow> audit_db \<Rightarrow> string \<Rightarrow> bool" where
  "within_far far db scope \<longleftrightarrow>
     list_all (\<lambda>r. fst far < ae_recorded_at r \<and> ae_recorded_at r < snd far) (own_rows db scope)"

lemma open_range:
  assumes "within_far far db scope"
  shows "rangeRows far scope zeroTime zeroTime afterSeq db = sort_key ae_seq (filter (\<lambda>r. afterSeq < ae_seq r) (own_rows db scope))"
proof -
  have "filter (chainRange far scope (boundOrNil zeroTime) (boundOrNil zeroTime) afterSeq) (db_entries db) =
      filter (\<lambda>r. afterSeq < ae_seq r) (own_rows db scope)"
    unfolding own_rows_def filter_filter
    using assms by (intro filter_cong) (auto simp: chainRange_def entryWindow_def boundOrNil_def within_far_def list_all_iff set_own_rows)
  then show ?thesis by (simp add: rangeRows_def)
qed

lemma linked_suffix:
  assumes "linked env prev n rs"
  obtains p q where "rs = p @ q" "filter (\<lambda>r. m < ae_seq r) rs = q"
proof -
  have "\<exists>p q. rs = p @ q \<and> filter (\<lambda>r. m < ae_seq r) rs = q"
    using assms
  proof (induction rs arbitrary: prev n)
    case (Cons r rs)
    show ?case
    proof (cases "m < ae_seq r")
      case True
      have "m < ae_seq x" if "x \<in> set (r # rs)" for x
        using linked_seq_bounds [of env "ae_hash r" "n + 1" rs x] Cons.prems that True by auto
      then show ?thesis by (intro exI [of _ "[]"] exI [of _ "r # rs"]) (simp add: filter_id_conv)
    next
      case False
      from Cons obtain p q where "rs = p @ q" "filter (\<lambda>r. m < ae_seq r) rs = q" by (metis linked.simps(2))
      with False show ?thesis by (intro exI [of _ "r # p"] exI [of _ q]) simp
    qed
  qed simp
  with that show thesis by blast
qed

text \<open>
  What a verification can see: the surviving rows link up from the watermark. The recorded head is not
  part of it.
\<close>

definition verifiable :: "'v audit_env \<Rightarrow> audit_db \<Rightarrow> string \<Rightarrow> bool" where
  "verifiable env db scope \<longleftrightarrow>
     positions_unique db \<and> (\<forall>r \<in> set (db_entries db). readable env r) \<and>
     linked env (cr_pruned_through_hash (chain_of db scope)) (cr_pruned_through_seq (chain_of db scope)) (own_rows db scope)"

lemma audit_ok_verifiable: "audit_ok env db \<Longrightarrow> verifiable env db scope"
  using audit_ok_positions_unique [of env db] audit_okD(3) [of env db] audit_okD(4) [of env db scope]
  by (auto simp: verifiable_def chain_ok_def)

lemma consistent_log_verifies:
  assumes ok: "verifiable env db scope" and far: "within_far far db scope" and ce: "0 \<le> rd_verificationCeiling rd"
    and rs: "rs = filter (\<lambda>r. afterSeq < ae_seq r) (own_rows db scope)"
  shows "verifyWalk env rd far scope zeroTime zeroTime afterSeq db =
    (startResult (Some scope) zeroTime zeroTime afterSeq)\<lparr>vr_Checked := int (length (admitted rd 0 rs)),
      vr_LastSeq := (if admitted rd 0 rs = [] then afterSeq else ae_seq (last (admitted rd 0 rs))),
      vr_Complete := rs = [] \<or> reaches_end rd 0 rs\<rparr>"
proof -
  let ?c = "chain_of db scope"
  from ok have l: "linked env (cr_pruned_through_hash ?c) (cr_pruned_through_seq ?c) (own_rows db scope)"
    and u: "positions_unique db" and rd: "\<And>r. r \<in> set (db_entries db) \<Longrightarrow> readable env r" by (auto simp: verifiable_def)
  from linked_suffix [OF l, of afterSeq] rs obtain p where p: "own_rows db scope = p @ rs" by blast
  with l have lq: "linked env (last_link (cr_pruned_through_hash ?c) p) (cr_pruned_through_seq ?c + int (length p)) rs"
    and lp: "linked env (cr_pruned_through_hash ?c) (cr_pruned_through_seq ?c) p" by (simp_all add: linked_append)
  have range: "rangeRows far scope zeroTime zeroTime afterSeq db = rs"
    unfolding open_range [OF far] rs [symmetric] by (rule linked_sort_key [OF lq])
  show ?thesis
  proof (cases "rs = []")
    case True
    with range show ?thesis by (simp add: verifyWalk_def admitted_def startResult_def)
  next
    case ne: False
    let ?f = "ae_seq (hd rs)"
    from ne lq have f: "?f = cr_pruned_through_seq ?c + int (length p) + 1" by (cases rs) auto
    have a: "anchor_of env scope ?f db = \<lparr>an_prevHash = last_link (cr_pruned_through_hash ?c) p, an_known = True\<rparr>"
    proof (cases "p = []")
      case True
      with f have "?f = cr_pruned_through_seq ?c + 1" by simp
      with True show ?thesis using anchor_of_watermark by simp
    next
      case False
      let ?r = "last p"
      have "?r \<in> set (own_rows db scope)" using False p by simp
      then have r: "?r \<in> set (db_entries db)" "ae_scope ?r = scope" by (simp_all add: set_own_rows)
      have sq: "ae_seq ?r = cr_pruned_through_seq ?c + int (length p)"
        using False by (rule linked_last [OF lp])
      have "anchor_of env scope (ae_seq ?r + 1) db = \<lparr>an_prevHash = ae_hash ?r, an_known = True\<rparr>"
        by (rule anchor_of_predecessor) (use u rd r sq False in auto)
      with f sq False show ?thesis by (simp add: last_link_def)
    qed
    note v = verifyWalk_intact [OF rd ce range [symmetric] ne refl]
    have "Intact (verifyWalk env rd far scope zeroTime zeroTime afterSeq db)"
    proof -
      have "linked env (last_link (cr_pruned_through_hash ?c) p) (?f - 1) (admitted rd 0 rs)"
        using lq f linked_take by (auto simp: admitted_def)
      with v(1) [THEN iffD2] a show ?thesis by simp
    qed
    with v(2) ne show ?thesis by simp
  qed
qed


lemma length_rangeRows: "length (rangeRows far scope from to afterSeq db) \<le> length (db_entries db)"
  by (simp add: rangeRows_def)

lemma consistent_Verify:
  assumes ok: "verifiable env db s" and far: "within_far far db s" and pg: "0 < rd_verificationPageSize rd"
    and ce: "0 \<le> rd_verificationCeiling rd" and fuel: "length (db_entries db) < fuel"
    and rs: "rs = filter (\<lambda>r. afterSeq < ae_seq r) (own_rows db s)"
  shows "\<exists>res. Verify fuel env rd far (Some s) zeroTime zeroTime afterSeq (Some (\<lambda>_. db)) = Some (Inr res) \<and> Intact res \<and>
    vr_Checked res = int (length (admitted rd 0 rs)) \<and>
    vr_LastSeq res = (if admitted rd 0 rs = [] then afterSeq else ae_seq (last (admitted rd 0 rs))) \<and>
    vr_Complete res = (rs = [] \<or> reaches_end rd 0 rs)"
proof -
  from ok have u: "positions_unique db" and rd: "\<And>r. r \<in> set (db_entries db) \<Longrightarrow> readable env r" by (auto simp: verifiable_def)
  have "length (rangeRows far s zeroTime zeroTime afterSeq db) < fuel"
    using length_rangeRows [of far s zeroTime zeroTime afterSeq db] fuel by simp
  from Verify_snapshot [OF u rd pg ce this] consistent_log_verifies [OF ok far ce rs]
  show ?thesis by (simp add: Intact_def startResult_def)
qed

section \<open>Resuming\<close>

lemma resume_reference:
  assumes u: "positions_unique db" and rd: "\<And>r. r \<in> set (db_entries db) \<Longrightarrow> readable env r"
    and far: "within_far far db scope"
    and wm: "\<And>r. r \<in> set (own_rows db scope) \<Longrightarrow> cr_pruned_through_seq (chain_of db scope) < ae_seq r"
    and ce: "0 < rd_verificationCeiling r1" "0 \<le> rd_verificationCeiling r2"
    and rU: "rd_verificationCeiling rU =
        (if rd_verificationCeiling r2 = 0 then 0 else rd_verificationCeiling r1 + rd_verificationCeiling r2)"
    and v1: "v1 = verifyWalk env r1 far scope zeroTime zeroTime afterSeq db" "Intact v1" "\<not> vr_Complete v1"
    and v2: "v2 = verifyWalk env r2 far scope zeroTime zeroTime (vr_LastSeq v1) db"
    and v: "v = verifyWalk env rU far scope zeroTime zeroTime afterSeq db"
  shows "Intact v \<longleftrightarrow> Intact v2"
    and "Intact v \<Longrightarrow> vr_Checked v = vr_Checked v1 + vr_Checked v2 \<and> vr_LastSeq v = vr_LastSeq v2 \<and> vr_Complete v = vr_Complete v2"
proof -
  let ?rs = "rangeRows far scope zeroTime zeroTime afterSeq db"
  define c where "c = nat (rd_verificationCeiling r1)"
  have ne: "?rs \<noteq> []" using v1 by (auto simp: verifyWalk_def startResult_def)
  let ?a = "anchor_of env scope (ae_seq (hd ?rs)) db"
  let ?p = "take c ?rs"
  have ad1: "admitted r1 0 ?rs = ?p" using ce(1) by (simp add: admitted_def c_def)
  note w1 = verifyWalk_intact [of db env r1, OF rd less_imp_le [OF ce(1)] refl ne refl]
  from w1(2) v1 have v1_eq: "vr_Complete v1 = reaches_end r1 0 ?rs" "vr_Checked v1 = int (length ?p)" by (simp_all add: ad1)
  have c: "0 < c" "c \<le> length ?rs" using v1_eq(1) v1(3) ce(1) by (auto simp: reaches_end_def c_def)
  have pne: "?p \<noteq> []" using c ne by simp
  let ?L = "last ?p"
  have L: "vr_LastSeq v1 = ae_seq ?L" using w1(2) v1 pne by (simp add: ad1)
  from w1(1) v1 have k1: "an_known ?a" "linked env (an_prevHash ?a) (ae_seq (hd ?rs) - 1) ?p" by (simp_all add: ad1)
  have Lseq: "ae_seq ?L = ae_seq (hd ?rs) - 1 + int c" using linked_last [OF k1(2) pne] c by simp
  have Lin: "?L \<in> set ?rs" using pne by (metis in_set_takeD last_in_set)
  then have Lrow: "?L \<in> set (db_entries db)" "ae_scope ?L = scope" by (simp_all add: set_rangeRows)
  have Lwm: "cr_pruned_through_seq (chain_of db scope) < ae_seq ?L" using wm Lrow by (simp add: set_own_rows)
  let ?q = "drop c ?rs"
  have q: "rangeRows far scope zeroTime zeroTime (vr_LastSeq v1) db = ?q"
    unfolding L by (rule rangeRows_resume [OF u c])
  have adU: "admitted rU 0 ?rs = ?p @ admitted r2 0 ?q"
    using ce rU c by (auto simp: admitted_def c_def nat_add_distrib take_add)
  have reU: "reaches_end rU 0 ?rs = reaches_end r2 0 ?q"
    using ce rU c by (auto simp: reaches_end_def c_def)
  have ceU: "0 \<le> rd_verificationCeiling rU" using ce rU by auto
  note wU = verifyWalk_intact [of db env rU, OF rd ceU refl ne refl, folded v]
  have iU: "Intact v \<longleftrightarrow> linked env (ae_hash ?L) (ae_seq ?L) (admitted r2 0 ?q)"
    using wU(1) k1 pne c Lseq by (simp add: adU linked_append last_link_def)
  show "Intact v \<longleftrightarrow> Intact v2"
  proof (cases "?q = []")
    case True
    then have "admitted r2 0 ?q = []" by (simp add: admitted_def)
    with iU True show ?thesis unfolding v2 verifyWalk_def Let_def q by (simp add: Intact_def startResult_def)
  next
    case False
    let ?f = "ae_seq (hd ?q)"
    have hdq: "hd ?q \<in> set ?q" using False by simp
    have adne: "admitted r2 0 ?q \<noteq> []" "hd (admitted r2 0 ?q) = hd ?q"
      using False ce(2) by (auto simp: admitted_def hd_take)
    have f: "ae_seq ?L < ?f" using hdq unfolding q [symmetric] set_rangeRows L by blast
    have i2: "Intact v2 \<longleftrightarrow> an_known (anchor_of env scope ?f db) \<and>
        linked env (an_prevHash (anchor_of env scope ?f db)) (?f - 1) (admitted r2 0 ?q)"
      unfolding v2 by (rule verifyWalk_intact(1) [of db env r2, OF rd ce(2) q [symmetric] False refl])
    show ?thesis
    proof (cases "?f = ae_seq ?L + 1")
      case True
      have "anchor_of env scope (ae_seq ?L + 1) db = \<lparr>an_prevHash = ae_hash ?L, an_known = True\<rparr>"
        by (rule anchor_of_predecessor [OF u Lrow(1) rd [OF Lrow(1)] Lrow(2)]) (use Lwm in simp)
      with i2 iU True show ?thesis by simp
    next
      case gap: False
      have "\<not> linked env (ae_hash ?L) (ae_seq ?L) (admitted r2 0 ?q)"
        using gap adne by (cases "admitted r2 0 ?q") auto
      moreover have "\<not> an_known (anchor_of env scope ?f db)"
      proof (rule anchor_of_absent)
        show "?f \<noteq> cr_pruned_through_seq (chain_of db scope) + 1" using f Lwm by simp
      next
        fix r assume r: "r \<in> set (db_entries db)" "ae_scope r = scope"
        show "ae_seq r \<noteq> ?f - 1"
        proof
          assume s: "ae_seq r = ?f - 1"
          with f gap r far have "r \<in> set ?q"
            unfolding q [symmetric] L by (auto simp: open_range set_own_rows)
          moreover have "sorted (map ae_seq ?q)"
            using rangeRows_strict [OF u] unfolding q [symmetric] by blast
          ultimately have "?f \<le> ae_seq r" using False by (cases ?q) auto
          with s show False by simp
        qed
      qed
      ultimately show ?thesis using iU i2 by simp
    qed
  qed
  then show "vr_Checked v = vr_Checked v1 + vr_Checked v2 \<and> vr_LastSeq v = vr_LastSeq v2 \<and> vr_Complete v = vr_Complete v2"
    if i: "Intact v"
  proof (cases "?q = []")
    case True
    then have "admitted r2 0 ?q = []" "reaches_end r2 0 ?q \<or> rd_verificationCeiling r2 = 0"
      using ce(2) by (auto simp: admitted_def reaches_end_def)
    moreover have "reaches_end r2 0 ?q" using True ce(2) by (auto simp: reaches_end_def)
    ultimately show ?thesis using wU(2) [OF _ i] pne True unfolding v2 verifyWalk_def Let_def q
      by (simp add: adU reU v1_eq L startResult_def)
  next
    case False
    have i2: "Intact v2" using i \<open>Intact v \<longleftrightarrow> Intact v2\<close> by simp
    have adne: "admitted r2 0 ?q \<noteq> []" using False ce(2) by (auto simp: admitted_def)
    have "v2 = (startResult (Some scope) zeroTime zeroTime (vr_LastSeq v1))\<lparr>vr_Checked := int (length (admitted r2 0 ?q)),
        vr_LastSeq := (if admitted r2 0 ?q = [] then vr_LastSeq v1 else ae_seq (last (admitted r2 0 ?q))),
        vr_Complete := reaches_end r2 0 ?q\<rparr>"
      unfolding v2 by (rule verifyWalk_intact(2) [of db env r2, OF rd ce(2) q [symmetric] False refl]) (use i2 v2 in simp_all)
    then show ?thesis using wU(2) [OF _ i] adne by (simp add: adU reU v1_eq startResult_def)
  qed
qed


section \<open>Properties\<close>

text \<open>
  C29: on a snapshot, whatever the page size, a verification is one walk over the rows of the range in
  position order, cut at the ceiling: anchored once, every link between two pages checked, complete
  exactly if no break was met and the ceiling left room for one more row than there were.
\<close>

theorem Verify_is_one_walk:
  assumes "positions_unique db" "\<And>r. r \<in> set (db_entries db) \<Longrightarrow> readable env r"
    and "0 < rd_verificationPageSize rd" "0 \<le> rd_verificationCeiling rd" "length (db_entries db) < fuel"
  shows "Verify fuel env rd far (Some scope) from to afterSeq (Some (\<lambda>_. db)) =
    Some (Inr (verifyWalk env rd far scope from to afterSeq db))"
  using assms length_rangeRows [of far scope "from" "to" afterSeq db] by (intro Verify_snapshot) auto

text \<open>
  a verification that stopped at its ceiling, continued from the position it reports, says what one
  uninterrupted verification says: the same verdict, and where it is clean the counts add up and the
  last position and completeness agree. The entries must lie in the open window and above the watermark.
\<close>

theorem resumed_verification:
  assumes "positions_unique db" "\<And>r. r \<in> set (db_entries db) \<Longrightarrow> readable env r" "within_far far db scope"
    and "\<And>r. r \<in> set (own_rows db scope) \<Longrightarrow> cr_pruned_through_seq (chain_of db scope) < ae_seq r"
    and "0 < rd_verificationPageSize rd1" "0 < rd_verificationPageSize rd2"
    and "0 < rd_verificationCeiling rd1" "0 \<le> rd_verificationCeiling rd2" "length (db_entries db) < fuel"
    and "Verify fuel env rd1 far (Some scope) zeroTime zeroTime afterSeq (Some (\<lambda>_. db)) = Some (Inr v1)"
    and "Intact v1" "\<not> vr_Complete v1"
  shows "\<exists>v v2.
      Verify fuel env (rd1\<lparr>rd_verificationCeiling := if rd_verificationCeiling rd2 = 0 then 0
          else rd_verificationCeiling rd1 + rd_verificationCeiling rd2\<rparr>)
        far (Some scope) zeroTime zeroTime afterSeq (Some (\<lambda>_. db)) = Some (Inr v) \<and>
      Verify fuel env rd2 far (Some scope) zeroTime zeroTime (vr_LastSeq v1) (Some (\<lambda>_. db)) = Some (Inr v2) \<and>
      Intact v = Intact v2 \<and>
      (Intact v \<longrightarrow> vr_Checked v = vr_Checked v1 + vr_Checked v2 \<and> vr_LastSeq v = vr_LastSeq v2 \<and> vr_Complete v = vr_Complete v2)"
proof -
  let ?rU = "rd1\<lparr>rd_verificationCeiling := if rd_verificationCeiling rd2 = 0 then 0
          else rd_verificationCeiling rd1 + rd_verificationCeiling rd2\<rparr>"
  have f: "length (rangeRows far scope zeroTime zeroTime m db) < fuel" for m
    using length_rangeRows [of far scope zeroTime zeroTime m db] assms(9) by simp
  note v = Verify_snapshot [OF assms(1,2) _ _ f]
  have v1: "v1 = verifyWalk env rd1 far scope zeroTime zeroTime afterSeq db"
    using v [of rd1 afterSeq] assms(5,7,10) by simp
  have vU: "Verify fuel env ?rU far (Some scope) zeroTime zeroTime afterSeq (Some (\<lambda>_. db)) =
      Some (Inr (verifyWalk env ?rU far scope zeroTime zeroTime afterSeq db))"
    by (rule v) (use assms(5,7,8) in auto)
  have v2: "Verify fuel env rd2 far (Some scope) zeroTime zeroTime (vr_LastSeq v1) (Some (\<lambda>_. db)) =
      Some (Inr (verifyWalk env rd2 far scope zeroTime zeroTime (vr_LastSeq v1) db))"
    by (rule v) (use assms(6,8) in auto)
  from resume_reference [OF assms(1-4,7,8) _ v1 assms(11,12) refl refl, of ?rU] vU v2 show ?thesis by auto
qed

section \<open>A concrete verification\<close>

lemma demo_within: "list_all (\<lambda>(i, at). fst far < at \<and> at < snd far) es \<Longrightarrow> within_far far (demo_db es) s"
proof -
  have "list_all (\<lambda>(i, at). fst far < at \<and> at < snd far) es \<Longrightarrow>
      list_all (\<lambda>r. fst far < ae_recorded_at r \<and> ae_recorded_at r < snd far) (demo_rows prev n es)" for prev n
    by (induction es arbitrary: prev n) (auto simp: Let_def)
  then show "list_all (\<lambda>(i, at). fst far < at \<and> at < snd far) es \<Longrightarrow> within_far far (demo_db es) s"
    by (auto simp: within_far_def demo_own_rows)
qed

lemma demo_log_within: "within_far demo_far demo_log s"
  unfolding demo_log_def by (rule demo_within) (simp add: demo_far_def Second_def)

lemma demo_log_unique: "positions_unique demo_log"
  by (rule audit_ok_positions_unique) (rule demo_log_ok)

lemma demo_log_rows: "map ae_seq (own_rows demo_log ''t'') = [0, 1, 2]"
  by (simp add: demo_log_def demo_own_rows Let_def)

lemma demo_log_entries: "length (db_entries demo_log) = 3"
  by (simp add: demo_log_def)

lemma demo_log_walk:
  assumes "0 \<le> rd_verificationCeiling rd"
  shows "Intact (verifyWalk demo_env rd demo_far ''t'' zeroTime zeroTime afterSeq demo_log)"
  using consistent_log_verifies [OF audit_ok_verifiable [OF demo_log_ok] demo_log_within assms refl]
  by (simp add: Intact_def startResult_def)

definition small_reader :: SQLReader where
  "small_reader = \<lparr>rd_verificationPageSize = 1, rd_verificationCeiling = 2\<rparr>"

theorem Verify_is_one_walk_witness:
  "\<exists>v. Verify 10 demo_env small_reader demo_far (Some ''t'') zeroTime zeroTime ChainStart (Some (\<lambda>_. demo_log)) = Some (Inr v) \<and>
     Intact v"
  using Verify_is_one_walk [OF demo_log_unique demo_readable, of small_reader 10] demo_log_walk [of small_reader]
  by (simp add: small_reader_def demo_log_entries)

lemma demo_log_own_rows: "own_rows demo_log ''t'' =
   (let a = demo_row [] 0 ''a'' 5000; b = demo_row (ae_hash a) 1 ''b'' 3000 in [a, b, demo_row (ae_hash b) 2 ''c'' 9000])"
  by (simp add: demo_log_def demo_own_rows Let_def)

lemma demo_log_result:
  assumes "0 < rd_verificationPageSize rd" "0 \<le> rd_verificationCeiling rd"
    and "Verify 10 demo_env rd demo_far (Some ''t'') zeroTime zeroTime ChainStart (Some (\<lambda>_. demo_log)) = Some (Inr v)"
  shows "Intact v"
    and "rd_verificationCeiling rd = 2 \<Longrightarrow> vr_LastSeq v = 1 \<and> \<not> vr_Complete v"
    and "3 < rd_verificationCeiling rd \<Longrightarrow> vr_Checked v = 3 \<and> vr_Complete v"
proof -
  have len: "length (rangeRows demo_far ''t'' zeroTime zeroTime ChainStart demo_log) < 10"
    using length_rangeRows [of demo_far "''t''" zeroTime zeroTime ChainStart demo_log] by (simp add: demo_log_entries)
  have v: "v = verifyWalk demo_env rd demo_far ''t'' zeroTime zeroTime ChainStart demo_log"
    using Verify_snapshot [OF demo_log_unique demo_readable assms(1,2) len] assms(3) by simp
  note w = consistent_log_verifies [OF audit_ok_verifiable [OF demo_log_ok] demo_log_within assms(2) refl, of "''t''" ChainStart, folded v]
  show "Intact v" by (simp add: w Intact_def startResult_def)
  have rs: "filter (\<lambda>r. ChainStart < ae_seq r) (own_rows demo_log ''t'') = own_rows demo_log ''t''"
    by (simp add: demo_log_own_rows ChainStart_def Let_def)
  show "rd_verificationCeiling rd = 2 \<Longrightarrow> vr_LastSeq v = 1 \<and> \<not> vr_Complete v"
    unfolding w rs by (simp add: demo_log_own_rows admitted_def reaches_end_def numeral_2_eq_2 startResult_def Let_def)
  show "3 < rd_verificationCeiling rd \<Longrightarrow> vr_Checked v = 3 \<and> vr_Complete v"
    unfolding w rs by (simp add: demo_log_own_rows admitted_def reaches_end_def startResult_def Let_def)
qed

theorem resumed_verification_witness:
  "\<exists>v1 v2. Verify 10 demo_env small_reader demo_far (Some ''t'') zeroTime zeroTime ChainStart (Some (\<lambda>_. demo_log)) = Some (Inr v1) \<and>
     Verify 10 demo_env (NewReader []) demo_far (Some ''t'') zeroTime zeroTime 1 (Some (\<lambda>_. demo_log)) = Some (Inr v2) \<and>
     Intact v2 \<and> vr_Checked v1 + vr_Checked v2 = 3 \<and> vr_Complete v2"
proof -
  let ?V = "\<lambda>rd after. Verify 10 demo_env rd demo_far (Some ''t'') zeroTime zeroTime after (Some (\<lambda>_. demo_log))"
  have len: "length (rangeRows demo_far ''t'' zeroTime zeroTime ChainStart demo_log) < 10"
    using length_rangeRows [of demo_far "''t''" zeroTime zeroTime ChainStart demo_log] by (simp add: demo_log_entries)
  obtain v1 where v1: "?V small_reader ChainStart = Some (Inr v1)"
    using Verify_snapshot [OF demo_log_unique demo_readable _ _ len, of small_reader] by (simp add: small_reader_def)
  have r1: "Intact v1" "vr_LastSeq v1 = 1" "\<not> vr_Complete v1"
    using demo_log_result [OF _ _ v1] by (simp_all add: small_reader_def)
  have wm: "cr_pruned_through_seq (chain_of demo_log ''t'') < ae_seq r" if "r \<in> set (own_rows demo_log ''t'')" for r
    using that demo_log_rows by (auto simp: demo_log_own_rows Let_def chain_of_def chain_at_def demo_log_def demo_db_def row_at_def)
  let ?rU = "small_reader\<lparr>rd_verificationCeiling := 100002\<rparr>"
  from resumed_verification [OF demo_log_unique demo_readable demo_log_within wm _ _ _ _ _ v1 r1(1,3), of "NewReader []"]
  obtain v v2 where v: "?V ?rU ChainStart = Some (Inr v)" "?V (NewReader []) 1 = Some (Inr v2)"
    "Intact v = Intact v2" "Intact v \<longrightarrow> vr_Checked v = vr_Checked v1 + vr_Checked v2 \<and> vr_Complete v = vr_Complete v2"
    by (auto simp: r1(2) demo_log_entries) (auto simp: small_reader_def NewReader_def)
  have "Intact v" "vr_Checked v = 3 \<and> vr_Complete v" using demo_log_result [OF _ _ v(1)] by (simp_all add: small_reader_def)
  with v1 v show ?thesis by auto
qed

end
