(* ===== verification/Audit_Prune.thy ===== *)
theory Audit_Prune
  imports Audit_Verify
begin

text \<open>
  Retention of the audit log (\<^verbatim>\<open>audit/prune.go\<close>).

  A batch runs in one transaction of the sweeper, so its statements act on one database and an error
  rolls all of them back. \<open>locked\<close> is the set of entries another transaction holds, which the delete of
  Postgres skips. The loop over pages of scopes takes fuel; a page a scope is enough.

  Proved for a batch that meets no lock: it removes from every scope a prefix that the cutoff has passed,
  within its budget, moves the watermark with it and keeps the log consistent; and coming back short
  means no scope is left whose oldest entry may go.
\<close>

section \<open>Configuration\<close>

record RetentionConfig =
  rc_Basis :: string
  rc_Retention :: duration
  rc_BatchSize :: int
  rc_ScopePageSize :: int

definition Hour :: duration where
  "Hour = 3600 * Second"

definition DefaultRetention :: duration where
  "DefaultRetention = 7 * 365 * 24 * Hour"

definition DefaultRetentionBatchSize :: int where
  "DefaultRetentionBatchSize = 1000"

definition DefaultScopePageSize :: int where
  "DefaultScopePageSize = 100"

definition DefaultRetentionBasis :: string where
  "DefaultRetentionBasis =
     ''audit entries are kept for the configured retention window; past it they are '' @
     ''evidence nobody is obliged to hold, in a table that grows forever if nothing removes them''"

definition RetentionConfig_EnsureDefaults :: "RetentionConfig \<Rightarrow> RetentionConfig" where
  "RetentionConfig_EnsureDefaults cfg =
     \<lparr>rc_Basis = (if rc_Basis cfg = [] then DefaultRetentionBasis else rc_Basis cfg),
      rc_Retention = (if rc_Retention cfg \<le> 0 then DefaultRetention else rc_Retention cfg),
      rc_BatchSize = (if rc_BatchSize cfg \<le> 0 then DefaultRetentionBatchSize else rc_BatchSize cfg),
      rc_ScopePageSize = (if rc_ScopePageSize cfg \<le> 0 then DefaultScopePageSize else rc_ScopePageSize cfg)\<rparr>"

definition RetentionConfig_valid :: "RetentionConfig \<Rightarrow> bool" where
  "RetentionConfig_valid cfg \<longleftrightarrow>
     rc_Retention cfg \<noteq> 0 \<and> Hour \<le> rc_Retention cfg \<and>
     rc_BatchSize cfg \<noteq> 0 \<and> 1 \<le> rc_BatchSize cfg \<and>
     rc_ScopePageSize cfg \<noteq> 0 \<and> 1 \<le> rc_ScopePageSize cfg"

section \<open>Operations\<close>

definition scopePageSize :: "int \<Rightarrow> int" where
  "scopePageSize configured = (if configured \<le> 0 then DefaultScopePageSize else configured)"

definition pruneBoundary :: "time \<Rightarrow> string \<Rightarrow> int \<Rightarrow> audit_db \<Rightarrow> int option" where
  "pruneBoundary cutoff scope budget db =
     (case GetAuditPruneBounds cutoff scope db of
        (None, _) \<Rightarrow> None
      | (Some oldest, firstKept) \<Rightarrow>
          let boundary = oldest + budget - 1;
              boundary = (case firstKept of
                            None \<Rightarrow> boundary
                          | Some kept \<Rightarrow> if kept \<le> boundary then kept - 1 else boundary)
          in if boundary < oldest then None else Some boundary)"

definition pruneScope :: "(audit_row \<Rightarrow> bool) \<Rightarrow> time \<Rightarrow> int \<Rightarrow> string \<Rightarrow> audit_db \<Rightarrow> int \<times> audit_db" where
  "pruneScope locked cutoff budget scope db =
     (case pruneBoundary cutoff scope budget db of
        None \<Rightarrow> (0, db)
      | Some boundary \<Rightarrow>
     (case GetAuditPruneTarget scope boundary db of
        Inl _ \<Rightarrow> (0, db)
      | Inr (targetSeq, targetHash) \<Rightarrow>
          (case PruneAuditLogEntries scope targetSeq budget locked db of (pruned, db1) \<Rightarrow>
             (pruned, RecordAuditChainPrune targetSeq targetHash scope db1))))"

definition prunableScopes :: "time \<Rightarrow> string option \<Rightarrow> int \<Rightarrow> audit_db \<Rightarrow> string list" where
  "prunableScopes cutoff after limit db =
     (case after of
        None \<Rightarrow> ListPrunableAuditScopes cutoff limit db
      | Some cursor \<Rightarrow> ListPrunableAuditScopesAfter cutoff cursor limit db)"

fun sweepScopes ::
  "(audit_row \<Rightarrow> bool) \<Rightarrow> time \<Rightarrow> int \<Rightarrow> string list \<Rightarrow> int \<Rightarrow> audit_db \<Rightarrow> int \<times> audit_db" where
  "sweepScopes locked cutoff limit [] removed db = (removed, db)"
| "sweepScopes locked cutoff limit (s # ss) removed db =
     (if removed \<ge> limit then (removed, db)
      else case pruneScope locked cutoff (limit - removed) s db of
             (pruned, db') \<Rightarrow> sweepScopes locked cutoff limit ss (removed + pruned) db')"

fun sweepLoop ::
  "nat \<Rightarrow> (audit_row \<Rightarrow> bool) \<Rightarrow> time \<Rightarrow> int \<Rightarrow> int \<Rightarrow> string option \<Rightarrow> int \<Rightarrow> audit_db \<Rightarrow> (int \<times> audit_db) option" where
  "sweepLoop 0 locked cutoff limit page cursor removed db = None"
| "sweepLoop (Suc fuel) locked cutoff limit page cursor removed db =
     (if \<not> removed < limit then Some (removed, db)
      else let scopes = prunableScopes cutoff cursor page db in
           if scopes = [] then Some (removed, db)
           else case sweepScopes locked cutoff limit scopes removed db of
                  (removed', db') \<Rightarrow>
                    if int (length scopes) < page then Some (removed', db')
                    else sweepLoop fuel locked cutoff limit page (Some (last scopes)) removed' db')"

definition PruneTarget_Sweep ::
  "nat \<Rightarrow> (audit_row \<Rightarrow> bool) \<Rightarrow> int \<Rightarrow> time \<Rightarrow> int \<Rightarrow> audit_db \<Rightarrow> (int \<times> audit_db) option" where
  "PruneTarget_Sweep fuel locked pageSize cutoff limit db =
     sweepLoop fuel locked cutoff limit (scopePageSize pageSize) None 0 db"

definition PruneTarget_Backlog :: "time \<Rightarrow> int \<Rightarrow> audit_db \<Rightarrow> int" where
  "PruneTarget_Backlog cutoff ceiling db = CountPrunableAuditEntries cutoff ceiling db"

section \<open>One scope\<close>

text \<open>How many rows of a chain a pass may take: the leading ones the cutoff has passed, within the budget.\<close>

definition aged_prefix :: "time \<Rightarrow> audit_row list \<Rightarrow> nat" where
  "aged_prefix cutoff rs = length (takeWhile (\<lambda>r. ae_recorded_at r \<le> cutoff) rs)"

definition prunable :: "time \<Rightarrow> int \<Rightarrow> audit_row list \<Rightarrow> nat" where
  "prunable cutoff budget rs = min (nat budget) (aged_prefix cutoff rs)"

lemma linked_Min:
  assumes "linked env prev n (r # rs)"
  shows "sql_min (map ae_seq (r # rs)) = Some (n + 1)"
proof -
  have "Min (set (map ae_seq (r # rs))) = ae_seq r"
    using linked_sorted [OF assms] by (intro Min_eqI) auto
  with assms show ?thesis by (simp add: sql_min_def)
qed

lemma first_kept:
  assumes "linked env prev n rs"
  shows "sql_min (map ae_seq (filter (\<lambda>r. \<not> ae_recorded_at r \<le> cutoff) rs)) =
    (if aged_prefix cutoff rs = length rs then None else Some (n + 1 + int (aged_prefix cutoff rs)))"
  using assms
proof (induction rs arbitrary: prev n)
  case (Cons r rs)
  show ?case
  proof (cases "ae_recorded_at r \<le> cutoff")
    case True
    with Cons.IH [of "ae_hash r" "n + 1"] Cons.prems show ?thesis by (simp add: aged_prefix_def)
  next
    case False
    have "Min (set (map ae_seq (filter (\<lambda>r. \<not> ae_recorded_at r \<le> cutoff) (r # rs)))) = ae_seq r"
      using False linked_sorted [OF Cons.prems] by (intro Min_eqI) auto
    with False Cons.prems show ?thesis by (simp add: sql_min_def aged_prefix_def)
  qed
qed (simp add: sql_min_def aged_prefix_def)

lemma linked_prefix: "linked env prev n rs \<Longrightarrow> filter (\<lambda>r. ae_seq r \<le> n + int k) rs = take k rs"
proof (induction rs arbitrary: prev n k)
  case (Cons r rs)
  show ?case
  proof (cases k)
    case 0
    have "\<not> ae_seq x \<le> n" if "x \<in> set (r # rs)" for x
      using linked_seq_bounds [OF Cons.prems that] by simp
    with 0 show ?thesis by (simp add: filter_empty_conv)
  next
    case (Suc j)
    have "filter (\<lambda>x. ae_seq x \<le> n + 1 + int j) rs = take j rs"
      using Cons.IH [of "ae_hash r" "n + 1" j] Cons.prems by simp
    with Suc Cons.prems show ?thesis by (simp add: algebra_simps)
  qed
qed simp

lemma linked_rest: "linked env prev n rs \<Longrightarrow> filter (\<lambda>r. n + int k < ae_seq r) rs = drop k rs"
proof (induction rs arbitrary: prev n k)
  case (Cons r rs)
  show ?case
  proof (cases k)
    case 0
    have "n < ae_seq x" if "x \<in> set (r # rs)" for x
      using linked_seq_bounds [OF Cons.prems that] by simp
    with 0 show ?thesis by (simp add: filter_id_conv)
  next
    case (Suc j)
    have "filter (\<lambda>x. n + 1 + int j < ae_seq x) rs = drop j rs"
      using Cons.IH [of "ae_hash r" "n + 1" j] Cons.prems by simp
    with Suc Cons.prems show ?thesis by (simp add: algebra_simps)
  qed
qed simp

lemma pruneBounds_linked:
  assumes "linked env prev n (own_rows db scope)" "own_rows db scope \<noteq> []"
  shows "GetAuditPruneBounds cutoff scope db = (Some (n + 1),
      if aged_prefix cutoff (own_rows db scope) = length (own_rows db scope) then None
      else Some (n + 1 + int (aged_prefix cutoff (own_rows db scope))))"
proof -
  obtain r rs where rs: "own_rows db scope = r # rs" using assms(2) by (cases "own_rows db scope") auto
  have "sql_min (map ae_seq (own_rows db scope)) = Some (n + 1)" using linked_Min [OF assms(1) [unfolded rs]] rs by simp
  then show ?thesis
    unfolding GetAuditPruneBounds_def Let_def own_rows_def [symmetric] first_kept [OF assms(1)] by simp
qed

text \<open>The boundary cuts the chain after the rows that may go.\<close>

lemma pruneBoundary_linked:
  assumes "linked env prev n (own_rows db scope)" "0 < budget" "k = prunable cutoff budget (own_rows db scope)"
  shows "k = 0 \<Longrightarrow> pruneBoundary cutoff scope budget db = None"
    and "0 < k \<Longrightarrow> \<exists>b. pruneBoundary cutoff scope budget db = Some b \<and>
       filter (\<lambda>r. ae_seq r \<le> b) (own_rows db scope) = take k (own_rows db scope)"
proof -
  let ?rs = "own_rows db scope"
  have le: "aged_prefix cutoff ?rs \<le> length ?rs" by (simp add: aged_prefix_def length_takeWhile_le)
  show "pruneBoundary cutoff scope budget db = None" if "k = 0"
  proof (cases "?rs = []")
    case True
    then show ?thesis by (simp add: pruneBoundary_def GetAuditPruneBounds_def own_rows_def sql_min_def)
  next
    case False
    moreover have "aged_prefix cutoff ?rs = 0" using that assms(2,3) by (auto simp: prunable_def min_def split: if_splits)
    ultimately show ?thesis
      using pruneBounds_linked [OF assms(1) False, of cutoff] assms(2) by (simp add: pruneBoundary_def)
  qed
  show "\<exists>b. pruneBoundary cutoff scope budget db = Some b \<and> filter (\<lambda>r. ae_seq r \<le> b) ?rs = take k ?rs" if "0 < k"
  proof (cases "aged_prefix cutoff ?rs = length ?rs")
    case True
    then have "?rs \<noteq> []" using that assms(3) by (auto simp: prunable_def aged_prefix_def)
    from pruneBounds_linked [OF assms(1) this, of cutoff] True assms(2)
    have "pruneBoundary cutoff scope budget db = Some (n + int (nat budget))" by (simp add: pruneBoundary_def)
    moreover have "take (nat budget) ?rs = take k ?rs" using True assms(3) by (simp add: prunable_def min_def)
    ultimately show ?thesis using linked_prefix [OF assms(1), of "nat budget"] by auto
  next
    case False
    then have "?rs \<noteq> []" by (auto simp: aged_prefix_def)
    from pruneBounds_linked [OF assms(1) this, of cutoff] False assms(2,3) that
    have "pruneBoundary cutoff scope budget db = Some (n + int k)"
      by (auto simp: pruneBoundary_def prunable_def Let_def min_def)
    then show ?thesis using linked_prefix [OF assms(1), of k] by auto
  qed
qed

lemma pruneTarget_linked:
  assumes "linked env prev n (own_rows db scope)" "0 < k" "k \<le> length (own_rows db scope)"
    and "filter (\<lambda>r. ae_seq r \<le> b) (own_rows db scope) = take k (own_rows db scope)"
  shows "GetAuditPruneTarget scope b db = Inr (n + int k, last_link prev (take k (own_rows db scope)))"
proof -
  let ?p = "take k (own_rows db scope)"
  have ne: "?p \<noteq> []" using assms(2,3) by auto
  have l: "linked env prev n ?p" using assms(1) by (rule linked_take)
  have f: "filter (\<lambda>r. ae_scope r = scope \<and> ae_seq r \<le> b) (db_entries db) = ?p"
    unfolding assms(4) [symmetric] by (simp add: own_rows_def conj_commute)
  have sq: "ae_seq (last ?p) = n + int k" using linked_last [OF l ne] assms(3) by simp
  obtain r ys where r: "rev ?p = r # ys" using ne by (cases "rev ?p") auto
  then have "last ?p = r" by (metis hd_rev list.sel(1))
  with ne sq show ?thesis
    unfolding GetAuditPruneTarget_def f linked_sort_key [OF l] r last_link_def by (simp split del: if_split)
qed

lemma pruneEntries_linked:
  assumes "linked env prev n (own_rows db scope)" "k \<le> length (own_rows db scope)" "int k \<le> budget"
    and u: "positions_unique db"
  shows "PruneAuditLogEntries scope (n + int k) budget (\<lambda>_. False) db =
     (int k, db\<lparr>db_entries := filter (\<lambda>r. \<not> (ae_scope r = scope \<and> ae_seq r \<le> n + int k)) (db_entries db)\<rparr>)"
proof -
  let ?p = "take k (own_rows db scope)" and ?hit = "\<lambda>r. ae_scope r = scope \<and> ae_seq r \<le> n + int k"
  have f: "filter ?hit (db_entries db) = ?p"
    unfolding linked_prefix [OF assms(1), symmetric] by (simp add: own_rows_def conj_commute)
  have "sql_top budget ae_seq ?hit (db_entries db) = ?p"
    using linked_sort_key [OF linked_take [OF assms(1)]] assms(2,3) by (simp add: sql_top_def f)
  then have D: "sql_top budget ae_seq (\<lambda>r. ae_scope r = scope \<and> ae_seq r \<le> n + int k \<and> \<not> False) (db_entries db) = ?p" by simp
  have hit: "(ae_scope r, ae_seq r) \<in> (\<lambda>d. (ae_scope d, ae_seq d)) ` set ?p \<longleftrightarrow> ?hit r" if "r \<in> set (db_entries db)" for r
    unfolding f [symmetric] using that by auto
  have "sql_count (\<lambda>r. (ae_scope r, ae_seq r) \<in> (\<lambda>d. (ae_scope d, ae_seq d)) ` set ?p) (db_entries db) = int k"
  proof -
    have "filter (\<lambda>r. (ae_scope r, ae_seq r) \<in> (\<lambda>d. (ae_scope d, ae_seq d)) ` set ?p) (db_entries db) = ?p"
      unfolding f [symmetric] by (rule filter_cong) (use hit [unfolded f [symmetric]] in auto)
    then show ?thesis using assms(2) by (simp add: sql_count_def)
  qed
  moreover have "sql_delete (\<lambda>r. (ae_scope r, ae_seq r) \<in> (\<lambda>d. (ae_scope d, ae_seq d)) ` set ?p) (db_entries db) =
      filter (\<lambda>r. \<not> ?hit r) (db_entries db)"
    unfolding sql_delete_def by (rule filter_cong) (use hit in auto)
  ultimately show ?thesis unfolding PruneAuditLogEntries_def Let_def D by simp
qed

lemma linked_digest: "linked env prev n rs \<Longrightarrow> rs \<noteq> [] \<Longrightarrow> last_link prev rs \<in> range (hashingHex env)"
proof (induction rs arbitrary: prev n)
  case (Cons r rs)
  then have "\<exists>m. hashingHex env m = ae_hash r"
    by (auto simp: row_digest_ok_def chainHash_def split: option.splits)
  then have "ae_hash r \<in> range (hashingHex env)" by (metis rangeI)
  with Cons show ?case by (cases "rs = []") auto
qed simp

lemma chain_ok_prune:
  assumes "chain_ok env c rs" "k \<le> length rs"
  shows "chain_ok env (c\<lparr>cr_pruned_through_seq := cr_pruned_through_seq c + int k,
      cr_pruned_through_hash := last_link (cr_pruned_through_hash c) (take k rs)\<rparr>) (drop k rs)"
proof (cases "k = 0")
  case True
  with assms show ?thesis by simp
next
  case False
  from assms have w: "watermark_ok env c" "linked env (cr_pruned_through_hash c) (cr_pruned_through_seq c) (take k rs @ drop k rs)"
    "cr_head_seq c = cr_pruned_through_seq c + int (length rs)" "cr_head_hash c = last_link (cr_pruned_through_hash c) (take k rs @ drop k rs)"
    by (simp_all add: chain_ok_def)
  from False assms(2) have ne: "take k rs \<noteq> []" by auto
  have "0 \<le> cr_pruned_through_seq c + int k" using w(1) False by (auto simp: watermark_ok_def)
  with w linked_digest [OF _ ne] assms(2) show ?thesis
    unfolding linked_append last_link_append by (auto simp: chain_ok_def watermark_ok_def min_absorb2 of_nat_diff)
qed

lemma chain_at_rows:
  assumes "audit_ok env db" "own_rows db scope \<noteq> []"
  shows "chain_at db scope \<noteq> None"
proof
  assume "chain_at db scope = None"
  then have "chain_of db scope = genesis_row scope" by (simp add: chain_of_def)
  with audit_okD(4) [OF assms(1), of scope] assms(2) show False
    by (auto simp: chain_ok_def genesis_row_def)
qed

text \<open>What a pass over one scope does to a consistent log.\<close>

lemma pruneScope_effect:
  assumes ok: "audit_ok env db" and b: "0 < budget"
    and k: "k = prunable cutoff budget (own_rows db scope)"
    and p: "pruneScope (\<lambda>_. False) cutoff budget scope db = (pruned, db')"
  shows "pruned = int k" "own_rows db' scope = drop k (own_rows db scope)"
    and "t \<noteq> scope \<Longrightarrow> own_rows db' t = own_rows db t \<and> chain_of db' t = chain_of db t"
    and "chain_of db' scope = (chain_of db scope)\<lparr>
        cr_pruned_through_seq := cr_pruned_through_seq (chain_of db scope) + int k,
        cr_pruned_through_hash := last_link (cr_pruned_through_hash (chain_of db scope)) (take k (own_rows db scope))\<rparr>"
    and "audit_ok env db'" "set (db_entries db') \<subseteq> set (db_entries db)"
proof -
  let ?c = "chain_of db scope" and ?rs = "own_rows db scope"
  let ?n = "cr_pruned_through_seq ?c" and ?h = "cr_pruned_through_hash ?c"
  let ?f = "\<lambda>c. c\<lparr>cr_pruned_through_seq := ?n + int k, cr_pruned_through_hash := last_link ?h (take k ?rs)\<rparr>"
  note o = audit_okD [OF ok]
  from o(4) [of scope] have c: "chain_ok env ?c ?rs" and l: "linked env ?h ?n ?rs" by (simp_all add: chain_ok_def)
  have le: "k \<le> length ?rs" "int k \<le> budget"
    using b length_takeWhile_le [of "\<lambda>r. ae_recorded_at r \<le> cutoff" ?rs] by (auto simp: k prunable_def aged_prefix_def)
  have "pruned = int k \<and> own_rows db' scope = drop k ?rs \<and>
      (\<forall>t. t \<noteq> scope \<longrightarrow> own_rows db' t = own_rows db t \<and> chain_of db' t = chain_of db t) \<and>
      chain_of db' scope = ?f ?c \<and> audit_ok env db' \<and> set (db_entries db') \<subseteq> set (db_entries db)"
  proof (cases "k = 0")
    case True
    then have "pruned = 0" "db' = db"
      using p pruneBoundary_linked(1) [OF l b k] by (auto simp: pruneScope_def)
    with True ok show ?thesis by simp
  next
    case False
    then obtain bd where "pruneBoundary cutoff scope budget db = Some bd"
      and f: "filter (\<lambda>r. ae_seq r \<le> bd) ?rs = take k ?rs"
      using pruneBoundary_linked(2) [OF l b k] by auto
    moreover have "GetAuditPruneTarget scope bd db = Inr (?n + int k, last_link ?h (take k ?rs))"
      using pruneTarget_linked [OF l _ le(1) f] False by simp
    ultimately have pr: "pruned = int k" and db': "db' = RecordAuditChainPrune (?n + int k) (last_link ?h (take k ?rs)) scope
        (db\<lparr>db_entries := filter (\<lambda>r. \<not> (ae_scope r = scope \<and> ae_seq r \<le> ?n + int k)) (db_entries db)\<rparr>)"
      using p pruneEntries_linked [OF l le audit_ok_positions_unique [OF ok]] by (auto simp: pruneScope_def)
    have e: "db_entries db' = filter (\<lambda>r. \<not> (ae_scope r = scope \<and> ae_seq r \<le> ?n + int k)) (db_entries db)"
      by (simp add: db' RecordAuditChainPrune_def)
    have own: "own_rows db' scope = drop k ?rs"
    proof -
      have "own_rows db' scope = filter (\<lambda>r. ?n + int k < ae_seq r) ?rs"
        by (auto simp: own_rows_def e not_le conj_commute intro!: filter_cong)
      also have "\<dots> = drop k ?rs" by (rule linked_rest [OF l])
      finally show ?thesis .
    qed
    have other: "own_rows db' t = own_rows db t" if "t \<noteq> scope" for t
      using that by (auto simp: own_rows_def e intro!: filter_cong)
    have at: "chain_at db scope \<noteq> None" using chain_at_rows [OF ok] False le(1) by (cases ?rs) auto
    have ch: "chain_of db' t = (if t = scope then ?f ?c else chain_of db t)" for t
    proof -
      have "chain_of db' t = chain_of (db\<lparr>db_chains := sql_update (\<lambda>c. cr_scope c = scope) ?f (db_chains db)\<rparr>) t"
        by (rule fun_cong [OF chain_of_chains]) (simp add: db' RecordAuditChainPrune_def)
      also have "\<dots> = (if t = scope then ?f ?c else chain_of db t)"
        by (rule chain_of_update [OF at]) simp
      finally show ?thesis .
    qed
    have "chain_ok env (chain_of db' t) (own_rows db' t)" for t
    proof (cases "t = scope")
      case True
      have "chain_ok env (?f ?c) (drop k ?rs)" by (rule chain_ok_prune [OF c le(1)])
      with True show ?thesis by (simp add: ch own)
    next
      case False
      with o(4) show ?thesis by (simp add: ch other)
    qed
    moreover have "distinct (map cr_scope (db_chains db'))"
      using o(2) by (simp add: db' RecordAuditChainPrune_def chains.pk_update)
    ultimately have "audit_ok env db'"
      using o(1,3) by (auto simp: audit_ok_def e distinct_map_filter)
    with pr own other ch e show ?thesis by auto
  qed
  then show "pruned = int k" "own_rows db' scope = drop k ?rs"
    "t \<noteq> scope \<Longrightarrow> own_rows db' t = own_rows db t \<and> chain_of db' t = chain_of db t"
    "chain_of db' scope = ?f ?c" "audit_ok env db'" "set (db_entries db') \<subseteq> set (db_entries db)" by blast+
qed

end
