(* ===== verification/Audit_Sweep.thy ===== *)
theory Audit_Sweep
  imports Audit_Prune
begin

text \<open>
  A retention batch over all scopes: what it removes, what the watermarks become, and that it visits
  every scope it has to before it comes back short.
\<close>

section \<open>Prefixes\<close>

lemma aged_prefix_drop:
  "k \<le> aged_prefix cutoff rs \<Longrightarrow> aged_prefix cutoff (drop k rs) = aged_prefix cutoff rs - k"
proof (induction rs arbitrary: k)
  case (Cons r rs)
  show ?case
  proof (cases k)
    case (Suc j)
    with Cons.prems have r: "ae_recorded_at r \<le> cutoff" "j \<le> aged_prefix cutoff rs"
      by (auto simp: aged_prefix_def split: if_splits)
    with Cons.IH [OF r(2)] Suc show ?thesis by (simp add: aged_prefix_def)
  qed simp
qed (simp add: aged_prefix_def)

text \<open>What a batch may do to a log: per scope, take an aged prefix and move the watermark past it.\<close>

definition prefix_pruned :: "time \<Rightarrow> audit_db \<Rightarrow> audit_db \<Rightarrow> string \<Rightarrow> nat \<Rightarrow> bool" where
  "prefix_pruned cutoff db db' s k \<longleftrightarrow>
     k \<le> aged_prefix cutoff (own_rows db s) \<and> own_rows db' s = drop k (own_rows db s) \<and>
     chain_of db' s = (chain_of db s)\<lparr>
       cr_pruned_through_seq := cr_pruned_through_seq (chain_of db s) + int k,
       cr_pruned_through_hash := last_link (cr_pruned_through_hash (chain_of db s)) (take k (own_rows db s))\<rparr>"

definition sweeps_to :: "time \<Rightarrow> audit_db \<Rightarrow> audit_db \<Rightarrow> bool" where
  "sweeps_to cutoff db db' \<longleftrightarrow> (\<forall>s. \<exists>k. prefix_pruned cutoff db db' s k)"

lemma prefix_pruned_zero: "own_rows db' s = own_rows db s \<Longrightarrow> chain_of db' s = chain_of db s \<Longrightarrow> prefix_pruned cutoff db db' s 0"
  by (simp add: prefix_pruned_def)

lemma prefix_pruned_trans:
  assumes "prefix_pruned cutoff db db' s k" "prefix_pruned cutoff db' db'' s j"
  shows "prefix_pruned cutoff db db'' s (k + j)"
proof -
  have "take (k + j) (own_rows db s) = take k (own_rows db s) @ take j (drop k (own_rows db s))"
    by (simp add: take_add)
  then show ?thesis
    using assms by (auto simp: prefix_pruned_def aged_prefix_drop last_link_append add.commute)
qed

lemma sweeps_to_refl: "sweeps_to cutoff db db"
  by (auto simp: sweeps_to_def intro: prefix_pruned_zero)

lemma sweeps_to_trans: "sweeps_to cutoff db db' \<Longrightarrow> sweeps_to cutoff db' db'' \<Longrightarrow> sweeps_to cutoff db db''"
  unfolding sweeps_to_def using prefix_pruned_trans by metis

definition drained :: "time \<Rightarrow> audit_db \<Rightarrow> string \<Rightarrow> bool" where
  "drained cutoff db s \<longleftrightarrow> aged_prefix cutoff (own_rows db s) = 0"

lemma drained_sweep: "drained cutoff db s \<Longrightarrow> sweeps_to cutoff db db' \<Longrightarrow> drained cutoff db' s"
  unfolding drained_def sweeps_to_def prefix_pruned_def using aged_prefix_drop
  by (metis diff_0_eq_0 le_0_eq)

section \<open>A page of scopes\<close>

lemma pruneEntries_others:
  "filter (\<lambda>r. ae_scope r \<noteq> s) (db_entries (snd (PruneAuditLogEntries s n budget locked db))) =
   filter (\<lambda>r. ae_scope r \<noteq> s) (db_entries db)"
proof -
  define D where "D = sql_top budget ae_seq (\<lambda>r. ae_scope r = s \<and> ae_seq r \<le> n \<and> \<not> locked r) (db_entries db)"
  have "d \<in> set D \<Longrightarrow> ae_scope d = s" for d unfolding D_def using set_sql_top by fastforce
  then have "filter (\<lambda>r. ae_scope r \<noteq> s) (filter (\<lambda>r. (ae_scope r, ae_seq r) \<notin> (\<lambda>d. (ae_scope d, ae_seq d)) ` set D) (db_entries db)) =
      filter (\<lambda>r. ae_scope r \<noteq> s) (db_entries db)"
    unfolding filter_filter by (intro filter_cong) auto
  then show ?thesis by (simp add: PruneAuditLogEntries_def Let_def sql_delete_def D_def)
qed

lemma pruneScope_others:
  "filter (\<lambda>r. ae_scope r \<noteq> s) (db_entries (snd (pruneScope locked cutoff budget s db))) =
   filter (\<lambda>r. ae_scope r \<noteq> s) (db_entries db)"
proof -
  have "db_entries (snd (case PruneAuditLogEntries s n budget locked db of (pruned, db1) \<Rightarrow> (pruned, RecordAuditChainPrune n h s db1)))
      = db_entries (snd (PruneAuditLogEntries s n budget locked db))" for n h
    by (simp add: RecordAuditChainPrune_def split: prod.split)
  then show ?thesis
    by (simp add: pruneScope_def pruneEntries_others split: option.split sum.split prod.split_asm)
qed

lemma pruneScope_step:
  assumes ok: "audit_ok env db" and b: "0 < budget"
    and p: "pruneScope (\<lambda>_. False) cutoff budget s db = (pruned, db')"
  shows "audit_ok env db'" "sweeps_to cutoff db db'" "0 \<le> pruned" "pruned \<le> budget"
    and "set (db_entries db') \<subseteq> set (db_entries db)" "pruned < budget \<Longrightarrow> drained cutoff db' s"
    and "int (length (db_entries db)) = int (length (db_entries db')) + pruned"
proof -
  let ?k = "prunable cutoff budget (own_rows db s)"
  note e = pruneScope_effect [OF ok b refl p]
  show "audit_ok env db'" "set (db_entries db') \<subseteq> set (db_entries db)" by (rule e)+
  show "0 \<le> pruned" "pruned \<le> budget" using e(1) b by (auto simp: prunable_def)
  have k: "prefix_pruned cutoff db db' s ?k" using e(2,4) by (simp add: prefix_pruned_def prunable_def)
  show "sweeps_to cutoff db db'" unfolding sweeps_to_def
  proof
    fix t
    show "\<exists>k. prefix_pruned cutoff db db' t k"
      using k e(3) [of t] prefix_pruned_zero by (cases "t = s") blast+
  qed
  show "drained cutoff db' s" if "pruned < budget"
  proof -
    have "?k = aged_prefix cutoff (own_rows db s)" using that e(1) b by (auto simp: prunable_def min_def split: if_splits)
    then show ?thesis using e(2) by (simp add: drained_def aged_prefix_drop)
  qed
  have "length (db_entries x) = length (own_rows x s) + length (filter (\<lambda>r. ae_scope r \<noteq> s) (db_entries x))" for x
    unfolding own_rows_def by (rule sum_length_filter_compl [symmetric])
  moreover have "filter (\<lambda>r. ae_scope r \<noteq> s) (db_entries db') = filter (\<lambda>r. ae_scope r \<noteq> s) (db_entries db)"
    using pruneScope_others [of s "\<lambda>_. False" cutoff budget db] p by simp
  moreover have "?k \<le> length (own_rows db s)"
    using length_takeWhile_le [of "\<lambda>r. ae_recorded_at r \<le> cutoff" "own_rows db s"] by (auto simp: prunable_def aged_prefix_def)
  ultimately show "int (length (db_entries db)) = int (length (db_entries db')) + pruned" using e(1,2) by simp
qed

lemma sweepScopes_effect:
  assumes "audit_ok env db" "removed \<le> limit" "sweepScopes (\<lambda>_. False) cutoff limit ss removed db = (removed', db')"
  shows "audit_ok env db' \<and> sweeps_to cutoff db db' \<and> removed \<le> removed' \<and> removed' \<le> limit \<and>
    set (db_entries db') \<subseteq> set (db_entries db) \<and> (removed' < limit \<longrightarrow> (\<forall>s \<in> set ss. drained cutoff db' s)) \<and>
    int (length (db_entries db)) = int (length (db_entries db')) + (removed' - removed)"
  using assms
proof (induction ss arbitrary: removed db)
  case Nil
  then show ?case by (auto simp: sweeps_to_refl)
next
  case (Cons s ss)
  show ?case
  proof (cases "removed \<ge> limit")
    case True
    with Cons.prems show ?thesis by (auto simp: sweeps_to_refl)
  next
    case False
    then have b: "0 < limit - removed" by simp
    obtain pruned db1 where p: "pruneScope (\<lambda>_. False) cutoff (limit - removed) s db = (pruned, db1)"
      by (cases "pruneScope (\<lambda>_. False) cutoff (limit - removed) s db")
    note st = pruneScope_step [OF Cons.prems(1) b p]
    have rest: "sweepScopes (\<lambda>_. False) cutoff limit ss (removed + pruned) db1 = (removed', db')"
      using Cons.prems(3) False p by simp
    from st(4) have le: "removed + pruned \<le> limit" by simp
    note ih = Cons.IH [OF st(1) le rest]
    have "drained cutoff db' s" if "removed' < limit"
    proof -
      from ih that have "pruned < limit - removed" by linarith
      from drained_sweep [OF st(6) [OF this]] ih show ?thesis by blast
    qed
    with ih st(2,3,5,7) show ?thesis using sweeps_to_trans by auto
  qed
qed

section \<open>All pages\<close>

definition beyond :: "string option \<Rightarrow> string \<Rightarrow> bool" where
  "beyond cursor s \<longleftrightarrow> (case cursor of None \<Rightarrow> True | Some c \<Rightarrow> c < s)"

definition pending_scopes :: "time \<Rightarrow> string option \<Rightarrow> audit_db \<Rightarrow> string list" where
  "pending_scopes cutoff cursor db =
     sort (remdups (map ae_scope (filter (\<lambda>r. ae_recorded_at r \<le> cutoff \<and> beyond cursor (ae_scope r)) (db_entries db))))"

lemma prunableScopes_page: "prunableScopes cutoff cursor n db = take (nat n) (pending_scopes cutoff cursor db)"
  by (auto simp: prunableScopes_def pending_scopes_def beyond_def ListPrunableAuditScopes_def
      ListPrunableAuditScopesAfter_def not_le split: option.splits)

lemma pending_scopes_strict: "sorted_wrt (<) (pending_scopes cutoff cursor db)"
  by (simp add: pending_scopes_def strict_sorted_iff)

lemma set_pending_scopes:
  "s \<in> set (pending_scopes cutoff cursor db) \<longleftrightarrow> beyond cursor s \<and> (\<exists>r \<in> set (own_rows db s). ae_recorded_at r \<le> cutoff)"
  by (auto simp: pending_scopes_def set_own_rows)

lemma undrained_pending: "\<not> drained cutoff db s \<Longrightarrow> \<exists>r \<in> set (own_rows db s). ae_recorded_at r \<le> cutoff"
  by (cases "own_rows db s") (auto simp: drained_def aged_prefix_def split: if_splits)

text \<open>What lies at or below the last scope of a page was on it, or below the page before.\<close>

lemma page_covers:
  assumes "0 < n" "pending_scopes cutoff cursor db \<noteq> []" "ss = take n (pending_scopes cutoff cursor db)"
    and "s \<in> set (pending_scopes cutoff cursor db)" "s \<le> last ss"
  shows "s \<in> set ss"
proof (rule ccontr)
  assume no: "s \<notin> set ss"
  let ?L = "pending_scopes cutoff cursor db"
  have "s \<in> set (drop n ?L)" using assms(3,4) no by (metis UnE append_take_drop_id set_append)
  moreover have "last ss \<in> set (take n ?L)" using assms(1-3) by (simp add: last_in_set)
  moreover have "sorted_wrt (<) (take n ?L @ drop n ?L)" using pending_scopes_strict by simp
  ultimately have "last ss < s" unfolding sorted_wrt_append by blast
  with assms(5) show False by simp
qed

definition scopes_left :: "time \<Rightarrow> string option \<Rightarrow> audit_db \<Rightarrow> nat" where
  "scopes_left cutoff cursor db = length (pending_scopes cutoff cursor db)"

lemma scopes_left_page:
  assumes "0 < n" "ss = take n (pending_scopes cutoff cursor db)" "n \<le> length (pending_scopes cutoff cursor db)"
    and "set (db_entries db') \<subseteq> set (db_entries db)"
  shows "scopes_left cutoff (Some (last ss)) db' < scopes_left cutoff cursor db"
proof -
  let ?L = "pending_scopes cutoff cursor db" and ?M = "pending_scopes cutoff (Some (last ss)) db'"
  have ne: "?L \<noteq> []" using assms(1,3) by auto
  have l: "last ss \<in> set ss" using assms(1,2) ne by (simp add: last_in_set)
  then have bl: "last ss \<in> set ?L" using assms(2) by (metis in_set_takeD)
  have "set ?M \<subseteq> set ?L - {last ss}"
  proof
    fix s assume "s \<in> set ?M"
    then have s: "last ss < s" "\<exists>r \<in> set (own_rows db s). ae_recorded_at r \<le> cutoff"
      using assms(4) unfolding set_pending_scopes beyond_def by (auto, force simp: set_own_rows)
    from bl have "beyond cursor (last ss)" by (simp add: set_pending_scopes)
    with s(1) have "beyond cursor s" by (auto simp: beyond_def split: option.splits)
    with s show "s \<in> set ?L - {last ss}" by (auto simp: set_pending_scopes)
  qed
  then have "card (set ?M) \<le> card (set ?L - {last ss})" by (intro card_mono) auto
  also have "\<dots> < card (set ?L)" using bl by (intro card_Diff1_less) auto
  finally show ?thesis
    using pending_scopes_strict by (simp add: scopes_left_def strict_sorted_iff distinct_card)
qed

lemma sweepLoop_effect:
  assumes "audit_ok env db" "0 < page" "removed \<le> limit" "scopes_left cutoff cursor db < fuel"
    and "removed < limit \<longrightarrow> (\<forall>s. \<not> beyond cursor s \<longrightarrow> drained cutoff db s)"
  shows "\<exists>removed' db'. sweepLoop fuel (\<lambda>_. False) cutoff limit page cursor removed db = Some (removed', db') \<and>
    audit_ok env db' \<and> sweeps_to cutoff db db' \<and> removed \<le> removed' \<and> removed' \<le> limit \<and>
    int (length (db_entries db)) = int (length (db_entries db')) + (removed' - removed) \<and>
    (removed' < limit \<longrightarrow> (\<forall>s. drained cutoff db' s))"
  using assms
proof (induction fuel arbitrary: cursor removed db)
  case (Suc fuel)
  let ?L = "pending_scopes cutoff cursor db"
  let ?ss = "take (nat page) ?L"
  show ?case
  proof (cases "\<not> removed < limit \<or> ?ss = []")
    case True
    then have "sweepLoop (Suc fuel) (\<lambda>_. False) cutoff limit page cursor removed db = Some (removed, db)"
      by (auto simp: prunableScopes_page)
    moreover have "drained cutoff db s" if "removed < limit" for s
    proof (rule ccontr)
      assume nd: "\<not> drained cutoff db s"
      with Suc.prems(5) that have "beyond cursor s" by blast
      with undrained_pending [OF nd] have "s \<in> set ?L" by (simp add: set_pending_scopes)
      with True that Suc.prems(2) show False by auto
    qed
    ultimately show ?thesis using Suc.prems(1,3) sweeps_to_refl by auto
  next
    case False
    obtain removed1 db1 where p: "sweepScopes (\<lambda>_. False) cutoff limit ?ss removed db = (removed1, db1)"
      by (cases "sweepScopes (\<lambda>_. False) cutoff limit ?ss removed db")
    note e = sweepScopes_effect [OF Suc.prems(1,3) p]
    have covered: "drained cutoff db1 s" if "removed1 < limit" "s \<in> set ?L \<longrightarrow> s \<in> set ?ss" for s
    proof (rule ccontr)
      assume nd: "\<not> drained cutoff db1 s"
      with e drained_sweep have nd0: "\<not> drained cutoff db s" by blast
      with Suc.prems(5) False have "beyond cursor s" by blast
      with undrained_pending [OF nd0] have "s \<in> set ?L" by (simp add: set_pending_scopes)
      with that e nd show False by blast
    qed
    show ?thesis
    proof (cases "int (length ?ss) < page")
      case True
      then have "?ss = ?L" using Suc.prems(2) by simp
      moreover have "sweepLoop (Suc fuel) (\<lambda>_. False) cutoff limit page cursor removed db = Some (removed1, db1)"
        using False p True unfolding sweepLoop.simps Let_def prunableScopes_page by (simp only: if_False if_True split_conv not_not de_Morgan_disj not_True_eq_False)
      ultimately show ?thesis using e covered by auto
    next
      case full: False
      then have len: "nat page \<le> length ?L" by auto
      let ?c = "Some (last ?ss)"
      have step: "sweepLoop (Suc fuel) (\<lambda>_. False) cutoff limit page cursor removed db =
          sweepLoop fuel (\<lambda>_. False) cutoff limit page ?c removed1 db1"
        using False p full unfolding sweepLoop.simps Let_def prunableScopes_page by (simp only: if_False if_True split_conv not_not de_Morgan_disj not_True_eq_False)
      have left: "scopes_left cutoff ?c db1 < fuel"
        using scopes_left_page [of "nat page" ?ss cutoff cursor db db1] Suc.prems(2,4) len e by simp
      have behind: "removed1 < limit \<longrightarrow> (\<forall>s. \<not> beyond ?c s \<longrightarrow> drained cutoff db1 s)"
      proof (intro impI allI)
        fix s assume r: "removed1 < limit" and s: "\<not> beyond ?c s"
        show "drained cutoff db1 s"
        proof (rule covered [OF r], rule impI)
          assume "s \<in> set ?L"
          with page_covers [of "nat page" cutoff cursor db ?ss s] s False Suc.prems(2) show "s \<in> set ?ss"
            by (auto simp: beyond_def)
        qed
      qed
      from e have e': "audit_ok env db1" "removed1 \<le> limit" by auto
      from Suc.IH [OF e'(1) Suc.prems(2) e'(2) left behind] obtain removed2 db2 where
        "sweepLoop fuel (\<lambda>_. False) cutoff limit page ?c removed1 db1 = Some (removed2, db2)"
        "audit_ok env db2" "sweeps_to cutoff db1 db2" "removed1 \<le> removed2" "removed2 \<le> limit"
        "int (length (db_entries db1)) = int (length (db_entries db2)) + (removed2 - removed1)"
        "removed2 < limit \<longrightarrow> (\<forall>s. drained cutoff db2 s)" by blast
      with step e sweeps_to_trans show ?thesis by (intro exI [of _ removed2] exI [of _ db2]) auto
    qed
  qed
qed simp


section \<open>A batch\<close>

lemma scopes_left_le: "scopes_left cutoff cursor db \<le> length (db_entries db)"
proof -
  have "length (remdups (map ae_scope (filter P (db_entries db)))) \<le> length (db_entries db)" for P
    by (rule le_trans [OF length_remdups_leq]) simp
  then show ?thesis by (simp add: scopes_left_def pending_scopes_def)
qed

lemma Sweep_effect:
  assumes "audit_ok env db" "0 \<le> limit" "length (db_entries db) < fuel"
  shows "\<exists>removed db'. PruneTarget_Sweep fuel (\<lambda>_. False) page cutoff limit db = Some (removed, db') \<and>
    audit_ok env db' \<and> sweeps_to cutoff db db' \<and> 0 \<le> removed \<and> removed \<le> limit \<and>
    int (length (db_entries db)) = int (length (db_entries db')) + removed \<and>
    (removed < limit \<longrightarrow> (\<forall>s. drained cutoff db' s))"
proof -
  have "\<exists>removed' db'. sweepLoop fuel (\<lambda>_. False) cutoff limit (scopePageSize page) None 0 db = Some (removed', db') \<and>
    audit_ok env db' \<and> sweeps_to cutoff db db' \<and> 0 \<le> removed' \<and> removed' \<le> limit \<and>
    int (length (db_entries db)) = int (length (db_entries db')) + (removed' - 0) \<and>
    (removed' < limit \<longrightarrow> (\<forall>s. drained cutoff db' s))"
  proof (rule sweepLoop_effect [OF assms(1)])
    show "0 < scopePageSize page" by (simp add: scopePageSize_def DefaultScopePageSize_def)
    show "scopes_left cutoff None db < fuel" using scopes_left_le assms(3) by (rule le_less_trans)
  qed (use assms(2) in \<open>simp_all add: beyond_def\<close>)
  then show ?thesis by (simp add: PruneTarget_Sweep_def)
qed



end
