(* ===== verification/Audit_System.thy ===== *)
theory Audit_System
  imports Audit_Recorder Audit_Sweep
begin

text \<open>
  Erasure (\<^verbatim>\<open>audit/erasure.go\<close>) and the log as a system: recorders, retention batches and erasures in any
  order, each a transaction that commits. A transaction that fails or rolls back leaves no step; writers
  of one scope are serialized by the lock on its chain row, writers of different scopes commute.
\<close>

section \<open>Erasure\<close>

fun scopeOwners :: "tscope list \<Rightarrow> audit_error + string list" where
  "scopeOwners [] = Inr []"
| "scopeOwners (s # ss) =
     (if s = None then Inl ErrNoScope
      else case scopeOwners ss of Inl e \<Rightarrow> Inl e | Inr os \<Rightarrow> Inr (owner s # os))"

definition DeleteScopes :: "audit_db option \<Rightarrow> tscope list \<Rightarrow> audit_error + int \<times> audit_db" where
  "DeleteScopes tx scopes =
     (case tx of
        None \<Rightarrow> Inl AuditErrNilExecutor
      | Some db \<Rightarrow>
          if scopes = [] then Inr (0, db)
          else case scopeOwners scopes of
                 Inl e \<Rightarrow> Inl e
               | Inr owners \<Rightarrow>
                   (case DeleteAuditLogEntriesInScopes owners db of
                      (deleted, db1) \<Rightarrow> Inr (deleted, DeleteAuditChainsInScopes owners db1)))"

definition CountMentions :: "audit_db option \<Rightarrow> string \<Rightarrow> audit_error + int" where
  "CountMentions q subject =
     (case q of None \<Rightarrow> Inl AuditErrNilExecutor | Some db \<Rightarrow> Inr (CountAuditLogEntriesForSubject subject db))"

lemma scopeOwners_Inr: "scopeOwners ss = Inr os \<Longrightarrow> map Some os = ss"
  by (induction ss arbitrary: os) (auto simp: owner_def split: if_splits sum.splits)

lemma DeleteScopes_effect:
  assumes "DeleteScopes (Some db) scopes = Inr (n, db')" "distinct (map cr_scope (db_chains db))"
  shows "own_rows db' s = (if Some s \<in> set scopes then [] else own_rows db s)"
    and "chain_of db' s = (if Some s \<in> set scopes then genesis_row s else chain_of db s)"
    and "set (db_entries db') \<subseteq> set (db_entries db)"
    and "distinct (map ae_id (db_entries db)) \<Longrightarrow> distinct (map ae_id (db_entries db'))"
    and "distinct (map cr_scope (db_chains db'))"
    and "n = int (length (db_entries db)) - int (length (db_entries db'))"
proof -
  from assms(1) obtain owners where o: "map Some owners = scopes" and n: "n = sql_count (\<lambda>r. ae_scope r \<in> set owners) (db_entries db)"
    and e: "db_entries db' = filter (\<lambda>r. ae_scope r \<notin> set owners) (db_entries db)"
    and c: "db_chains db' = sql_delete (\<lambda>c. cr_scope c \<in> set owners) (db_chains db)"
    by (cases "scopes = []")
      (auto simp: DeleteScopes_def DeleteAuditLogEntriesInScopes_def DeleteAuditChainsInScopes_def sql_delete_def sql_count_def
        dest: scopeOwners_Inr split: sum.splits)
  have m: "Some s \<in> set scopes \<longleftrightarrow> s \<in> set owners" for s using o by auto
  show "own_rows db' s = (if Some s \<in> set scopes then [] else own_rows db s)"
    by (auto simp: own_rows_def e m filter_empty_conv intro!: filter_cong)
  have "chain_at db' s = (if s \<in> set owners then None else chain_at db s)" for s
    using chains.at_delete [OF assms(2), of "\<lambda>c. cr_scope c \<in> set owners" s]
    by (auto simp: chain_at_def c dest: row_at_SomeD split: option.splits)
  then show "chain_of db' s = (if Some s \<in> set scopes then genesis_row s else chain_of db s)"
    by (simp add: chain_of_def m)
  show "set (db_entries db') \<subseteq> set (db_entries db)" by (auto simp: e)
  show "distinct (map ae_id (db_entries db')) " if "distinct (map ae_id (db_entries db))"
    using that by (simp add: e distinct_map_filter)
  show "distinct (map cr_scope (db_chains db'))" unfolding c using assms(2) by (rule chains.distinct_delete)
  show "n = int (length (db_entries db)) - int (length (db_entries db'))"
    using sum_length_filter_compl [of "\<lambda>r. ae_scope r \<in> set owners" "db_entries db"] by (simp add: n e sql_count_def)
qed

lemma DeleteScopes_keeps_ok:
  assumes "audit_ok env db" "DeleteScopes (Some db) scopes = Inr (n, db')"
  shows "audit_ok env db'"
  using audit_okD [OF assms(1)] DeleteScopes_effect [OF assms(2) audit_okD(2) [OF assms(1)]]
  by (auto simp: audit_ok_def chain_ok_genesis)

section \<open>The log as a system\<close>

definition empty_log :: audit_db where
  "empty_log = \<lparr>db_entries = [], db_chains = []\<rparr>"

definition audit_init :: "'v audit_env \<Rightarrow> audit_db \<Rightarrow> bool" where
  "audit_init env db \<longleftrightarrow> codec_ok env \<and> db = empty_log"

inductive audit_step :: "'v audit_env \<Rightarrow> audit_db \<Rightarrow> audit_db \<Rightarrow> bool" for env :: "'v audit_env" where
  as_record: "Record env r newID now scope entries (Some db) = Inr (es, db') \<Longrightarrow> audit_step env db db'"
| as_sweep: "PruneTarget_Sweep fuel (\<lambda>_. False) page cutoff limit db = Some (n, db') \<Longrightarrow> 0 \<le> limit \<Longrightarrow>
    length (db_entries db) < fuel \<Longrightarrow> audit_step env db db'"
| as_erase: "DeleteScopes (Some db) scopes = Inr (n, db') \<Longrightarrow> audit_step env db db'"

inductive_cases audit_stepE: "audit_step env db db'"

definition audit_inv :: "'v audit_env \<Rightarrow> audit_db \<Rightarrow> bool" where
  "audit_inv env db \<longleftrightarrow> codec_ok env \<and> audit_ok env db"

lemma audit_inv_init: "audit_init env db \<Longrightarrow> audit_inv env db"
  by (auto simp: audit_init_def audit_inv_def audit_ok_def empty_log_def own_rows_def chain_of_def chain_at_def chain_ok_genesis)

lemma audit_inv_step:
  assumes "audit_inv env db" "audit_step env db db'"
  shows "audit_inv env db'"
  using assms(2)
proof cases
  case (as_record r newID now scope entries es)
  then show ?thesis using assms(1) Record_keeps_ok by (auto simp: audit_inv_def)
next
  case (as_sweep fuel page cutoff limit n)
  then show ?thesis using assms(1) Sweep_effect [of env db limit fuel page cutoff] by (auto simp: audit_inv_def)
next
  case (as_erase scopes n)
  then show ?thesis using assms(1) DeleteScopes_keeps_ok by (auto simp: audit_inv_def)
qed

interpretation audit: invariant_system "audit_init env" "audit_step env" "audit_inv env" for env
  by unfold_locales (fact audit_inv_init, fact audit_inv_step)

lemma reachable_ok: "reach (audit_init env) (audit_step env) db \<Longrightarrow> audit_ok env db"
  using audit.reach_inv [of env db] by (simp add: audit_inv_def)

end
