(* ===== verification/Audit_Growing.thy ===== *)
theory Audit_Growing
  imports Audit_System
begin

text \<open>
  Verifying a log while it is written. A verification is not one snapshot: between its statements other
  transactions append to the chain it walks. Here its statements see databases that only grow in the
  scope at hand, and the verification still finds nothing wrong; with the loop's bound it also ends.
\<close>

section \<open>Growing views\<close>

definition watermark :: "audit_db \<Rightarrow> string \<Rightarrow> int \<times> string" where
  "watermark db scope = (cr_pruned_through_seq (chain_of db scope), cr_pruned_through_hash (chain_of db scope))"

definition extends :: "string \<Rightarrow> audit_db \<Rightarrow> audit_db \<Rightarrow> bool" where
  "extends scope db db' \<longleftrightarrow>
     watermark db' scope = watermark db scope \<and> (\<exists>more. own_rows db' scope = own_rows db scope @ more)"

definition growing :: "'v audit_env \<Rightarrow> time \<times> time \<Rightarrow> string \<Rightarrow> (nat \<Rightarrow> audit_db) \<Rightarrow> bool" where
  "growing env far scope view \<longleftrightarrow>
     (\<forall>k. audit_ok env (view k) \<and> within_far far (view k) scope \<and> extends scope (view k) (view (Suc k)))"

lemma extends_trans: "extends s a b \<Longrightarrow> extends s b c \<Longrightarrow> extends s a c"
  by (auto simp: extends_def)

lemma growing_extends: "growing env far scope view \<Longrightarrow> k \<le> k' \<Longrightarrow> extends scope (view k) (view k')"
proof (induction k')
  case (Suc k')
  show ?case
  proof (cases "k = Suc k'")
    case True
    then show ?thesis by (simp add: extends_def)
  next
    case False
    with Suc have "extends scope (view k) (view k')" by simp
    with Suc.prems(1) show ?thesis using extends_trans by (auto simp: growing_def)
  qed
qed (simp add: extends_def)

text \<open>Recording, in any scope, extends every chain.\<close>

lemma Record_extends:
  assumes "audit_ok env db" "Record env r newID now sc entries (Some db) = Inr (es, db')"
  shows "extends scope db db'"
proof -
  note d = audit_okD [OF assms(1)]
  obtain s new where new: "db_entries db' = db_entries db @ new" "\<And>row. row \<in> set new \<Longrightarrow> ae_scope row = s"
    and c: "chain_of db' s = (chain_of db s)\<lparr>cr_head_seq := cr_head_seq (chain_of db s) + int (length new),
        cr_head_hash := last_link (cr_head_hash (chain_of db s)) new\<rparr>" "\<And>t. t \<noteq> s \<Longrightarrow> chain_of db' t = chain_of db t"
    by (rule Record_effect [OF assms(2) d(1,2)]) blast
  show ?thesis
    using c own_rows_append [OF new] by (cases "scope = s") (auto simp: extends_def watermark_def)
qed

section \<open>The walk\<close>

text \<open>A walk that has verified the rows \<open>p\<close> of a chain and expects the one after them.\<close>

definition stands_after :: "audit_db \<Rightarrow> string \<Rightarrow> audit_row list \<Rightarrow> chainWalk \<Rightarrow> bool" where
  "stands_after db scope p w \<longleftrightarrow>
     cw_anchored w \<and> cw_known w \<and> cw_expectedPrev w = last_link (snd (watermark db scope)) p \<and>
     cw_expectedSeq w = fst (watermark db scope) + int (length p) + 1"

lemma chain_rows_linked: "audit_ok env db \<Longrightarrow> linked env (snd (watermark db scope)) (fst (watermark db scope)) (own_rows db scope)"
  using audit_okD(4) [of env db scope] by (simp add: chain_ok_def watermark_def)

lemma open_range_suffix:
  assumes "audit_ok env db" "within_far far db scope"
  obtains p where "own_rows db scope = p @ rangeRows far scope zeroTime zeroTime afterSeq db"
proof -
  let ?rs = "filter (\<lambda>r. afterSeq < ae_seq r) (own_rows db scope)"
  note l = chain_rows_linked [OF assms(1), of scope]
  from linked_suffix [OF l, of afterSeq] obtain p where p: "own_rows db scope = p @ ?rs" by metis
  with l have "linked env (last_link (snd (watermark db scope)) p) (fst (watermark db scope) + int (length p)) ?rs"
    by (metis linked_append)
  then have "rangeRows far scope zeroTime zeroTime afterSeq db = ?rs"
    unfolding open_range [OF assms(2)] by (rule linked_sort_key)
  with p that show thesis by metis
qed

lemma open_range_rest:
  assumes "audit_ok env db" "within_far far db scope" "own_rows db scope = p @ q"
  shows "rangeRows far scope zeroTime zeroTime (fst (watermark db scope) + int (length p)) db = q"
proof -
  note l = chain_rows_linked [OF assms(1), of scope]
  have "filter (\<lambda>r. fst (watermark db scope) + int (length p) < ae_seq r) (own_rows db scope) = q"
    using linked_rest [OF l, of "length p"] assms(3) by simp
  moreover have "sort_key ae_seq q = q" using l assms(3) by (auto simp: linked_append intro: linked_sort_key)
  ultimately show ?thesis by (simp add: open_range [OF assms(2)])
qed

text \<open>A page of the rows behind such a walk is walked without a break.\<close>

lemma walk_page:
  assumes "audit_ok env db" "own_rows db scope = p @ page @ rest" "stands_after db scope p w"
  shows "walkPage env (map (decoded env) page) w = (None, advance w page)"
    and "stands_after db scope (p @ page) (advance w page)"
    and "page \<noteq> [] \<Longrightarrow> cw_lastSeq (advance w page) = fst (watermark db scope) + int (length (p @ page))"
proof -
  note l = chain_rows_linked [OF assms(1), of scope, unfolded assms(2)]
  then have lp: "linked env (cw_expectedPrev w) (cw_expectedSeq w - 1) page"
    using assms(3) by (simp add: linked_append stands_after_def)
  have "walkEntries env (map (decoded env) page) w = (None, advance w page)"
  proof (rule walkEntries_advance [OF _ lp])
    fix r assume "r \<in> set page"
    then have "r \<in> set (own_rows db scope)" by (simp add: assms(2))
    then show "readable env r" using audit_okD(3) [OF assms(1)] by (simp add: set_own_rows)
  qed
  then show "walkPage env (map (decoded env) page) w = (None, advance w page)"
    using assms(3) by (simp add: walkPage_def stands_after_def)
  show "stands_after db scope (p @ page) (advance w page)"
    using assms(3) by (simp add: stands_after_def advance_def last_link_append)
  show "cw_lastSeq (advance w page) = fst (watermark db scope) + int (length (p @ page))" if "page \<noteq> []"
    using that linked_last [OF lp that] assms(3) by (simp add: advance_def stands_after_def)
qed

lemma anchor_growing:
  assumes "audit_ok env db2" "audit_ok env db3" "extends scope db1 db2" "extends scope db2 db3"
    and "own_rows db1 scope = p @ q" "q \<noteq> []" "audit_ok env db1"
  shows "anchorFor env scope (ae_seq (hd q)) db2 db3 =
    Inr \<lparr>an_prevHash = last_link (snd (watermark db1 scope)) p, an_known = True\<rparr>"
proof -
  let ?n = "fst (watermark db1 scope)" and ?h = "snd (watermark db1 scope)"
  note l = chain_rows_linked [OF assms(7), of scope, unfolded assms(5)]
  then have lp: "linked env ?h ?n p" and hq: "ae_seq (hd q) = ?n + int (length p) + 1"
    using assms(6) by (cases q; auto simp: linked_append)+
  have pt: "prunedThrough scope db2 = (?n, ?h)"
    using assms(3) by (simp add: prunedThrough_chain_of extends_def watermark_def)
  show ?thesis
  proof (cases "p = []")
    case True
    then show ?thesis by (auto simp: anchorFor_def pt hq split: prod.splits)
  next
    case False
    let ?r = "last p"
    have "?r \<in> set (own_rows db3 scope)"
      using extends_trans [OF assms(3,4)] False by (auto simp: extends_def assms(5))
    then have r: "?r \<in> set (db_entries db3)" "ae_scope ?r = scope" by (simp_all add: set_own_rows)
    have sq: "ae_seq ?r = ae_seq (hd q) - 1" using linked_last [OF lp False] hq by simp
    have "GetAuditLogEntryBySeq scope (ae_seq (hd q) - 1) db3 = Inr ?r"
      by (rule find_position [OF audit_ok_positions_unique [OF assms(2)] r(1,2) sq])
    moreover have "readable env ?r" using audit_okD(3) [OF assms(2)] r by blast
    ultimately show ?thesis
      using False hq by (auto simp: anchorFor_def pt entryFromRow_decoded decoded_fields last_link_def split: prod.splits)
  qed
qed

lemma verifyLoop_growing:
  assumes g: "growing env far scope view"
    and "own_rows (view k) scope = p @ q" "stands_after (view k) scope p w"
    and "cw_lastSeq w = fst (watermark (view k) scope) + int (length p)" "vr_FirstBreak result = None"
    and "verifyLoop fuel env rd view far scope zeroTime zeroTime k w result = Some out"
  shows "\<exists>res. out = Inr res \<and> Intact res"
  using assms(2-)
proof (induction fuel arbitrary: k p q w result)
  case (Suc fuel)
  from g have ok: "audit_ok env (view j)" and wf: "within_far far (view j) scope" for j by (auto simp: growing_def)
  define n where "n = verificationPage rd (vr_Checked result)"
  have rr: "rangeRows far scope zeroTime zeroTime (cw_lastSeq w) (view k) = q"
    unfolding Suc.prems(3) by (rule open_range_rest [OF ok wf Suc.prems(1)])
  let ?page = "take (nat n) q"
  have page: "chainPage env far scope zeroTime zeroTime (cw_lastSeq w) n (view k) = Inr (map (decoded env) ?page)"
    unfolding rr [symmetric] by (rule chainPage_readable) (rule audit_okD(3) [OF ok])
  show ?case
  proof (cases "n = 0 \<or> ?page = []")
    case True
    with Suc.prems(4,5) page show ?thesis by (auto simp: Intact_def n_def Let_def split: if_splits)
  next
    case False
    have q: "own_rows (view k) scope = p @ ?page @ drop (nat n) q" using Suc.prems(1) by simp
    note wp = walk_page [OF ok q Suc.prems(2)]
    let ?r = "result\<lparr>vr_FirstBreak := None, vr_Checked := cw_checked (advance w ?page), vr_LastSeq := cw_lastSeq (advance w ?page)\<rparr>"
    have body: "verifyLoop (Suc fuel) env rd view far scope zeroTime zeroTime k w result =
        (if (None :: Break option) \<noteq> None then Some (Inr ?r)
         else if int (length (map (decoded env) ?page)) < n then Some (Inr (?r\<lparr>vr_Complete := True\<rparr>))
         else verifyLoop fuel env rd view far scope zeroTime zeroTime (k + 1) (advance w ?page) ?r)"
      by (rule verifyLoop_page [where ?w1.0 = w])
        (use False page wp(1) Suc.prems(2) in \<open>simp_all add: n_def anchorWalk_def stands_after_def\<close>)
    show ?thesis
    proof (cases "int (length (map (decoded env) ?page)) < n")
      case True
      from Suc.prems(5) have "out = Inr (?r\<lparr>vr_Complete := True\<rparr>)"
        unfolding body by (simp only: True simp_thms if_True if_False option.inject)
      then show ?thesis by (simp add: Intact_def)
    next
      case full: False
      have ext: "extends scope (view k) (view (k + 1))" by (rule growing_extends [OF g]) simp
      then obtain more where "own_rows (view (k + 1)) scope = own_rows (view k) scope @ more"
        and wm: "watermark (view (k + 1)) scope = watermark (view k) scope" unfolding extends_def by blast
      then have more: "own_rows (view (k + 1)) scope = (p @ ?page) @ (drop (nat n) q @ more)" by (simp only: q append_assoc)
      show ?thesis
      proof (rule Suc.IH [OF more])
        show "stands_after (view (k + 1)) scope (p @ ?page) (advance w ?page)"
          using wp(2) unfolding stands_after_def wm .
        show "cw_lastSeq (advance w ?page) = fst (watermark (view (k + 1)) scope) + int (length (p @ ?page))"
          using wp(3) False unfolding wm by blast
        show "vr_FirstBreak ?r = None" by simp
        show "verifyLoop fuel env rd view far scope zeroTime zeroTime (k + 1) (advance w ?page) ?r = Some out"
          using Suc.prems(5) unfolding body by (simp only: full simp_thms if_False)
      qed
    qed
  qed
qed simp

lemma Verify_growing:
  assumes g: "growing env far scope view"
    and v: "Verify fuel env rd far (Some scope) zeroTime zeroTime afterSeq (Some view) = Some out"
  shows "\<exists>res. out = Inr res \<and> Intact res"
proof (cases fuel)
  case 0
  with v show ?thesis by (simp add: Verify_def)
next
  case (Suc m)
  from g have ok: "audit_ok env (view j)" and wf: "within_far far (view j) scope" for j by (auto simp: growing_def)
  let ?w = "startWalk afterSeq" and ?result = "startResult (Some scope) zeroTime zeroTime afterSeq"
  define n where "n = verificationPage rd (vr_Checked ?result)"
  obtain p where p: "own_rows (view 0) scope = p @ rangeRows far scope zeroTime zeroTime afterSeq (view 0)"
    by (rule open_range_suffix [OF ok wf])
  let ?q = "rangeRows far scope zeroTime zeroTime afterSeq (view 0)"
  let ?page = "take (nat n) ?q"
  have start: "verifyLoop (Suc m) env rd view far scope zeroTime zeroTime 0 ?w ?result = Some out"
    using v by (simp add: Verify_def owner_def Suc)
  have "cw_lastSeq ?w = afterSeq" by (simp add: startWalk_def)
  then have page: "chainPage env far scope zeroTime zeroTime (cw_lastSeq ?w) n (view 0) = Inr (map (decoded env) ?page)"
    by (simp only:) (rule chainPage_readable, rule audit_okD(3) [OF ok])
  show ?thesis
  proof (cases "n = 0 \<or> ?page = []")
    case True
    with start page show ?thesis by (auto simp: Intact_def n_def Let_def startResult_def split: if_splits)
  next
    case False
    then have ne: "?q \<noteq> []" "hd ?page = hd ?q" "hd ?q \<in> set ?q" by (auto simp: hd_take)
    let ?a = "\<lparr>an_prevHash = last_link (snd (watermark (view 0) scope)) p, an_known = True\<rparr>"
    let ?w1 = "anchorAt ?a (ae_seq (hd ?q)) ?w"
    have "readable env (hd ?q)" using ne(3) audit_okD(3) [OF ok [of 0]] unfolding set_rangeRows by blast
    then have hd: "ent_Seq (se_entry (hd (map (decoded env) ?page))) = ae_seq (hd ?q)"
      using False ne(2) by (simp add: hd_map decoded_fields)
    have "anchorFor env scope (ae_seq (hd ?q)) (view 1) (view (1 + 1)) = Inr ?a"
      by (rule anchor_growing [OF ok ok _ _ p ne(1) ok]) (use growing_extends [OF g] in auto)
    then have aw: "anchorWalk env view scope (ae_seq (hd ?q)) (0 + 1) ?w = Inr (?w1, 3)"
      by (simp add: anchorWalk_def startWalk_def)
    have l: "linked env (last_link (snd (watermark (view 0) scope)) p) (fst (watermark (view 0) scope) + int (length p)) ?q"
      using chain_rows_linked [OF ok [of 0], of scope] p by (metis linked_append)
    then have "ae_seq (hd ?q) = fst (watermark (view 0) scope) + int (length p) + 1" using ne(1) by (cases ?q) auto
    then have st: "stands_after (view 0) scope p ?w1" by (simp add: stands_after_def anchorAt_def)
    have q: "own_rows (view 0) scope = p @ ?page @ drop (nat n) ?q" using p by simp
    note wp = walk_page [OF ok q st]
    let ?r = "?result\<lparr>vr_FirstBreak := None, vr_Checked := cw_checked (advance ?w1 ?page), vr_LastSeq := cw_lastSeq (advance ?w1 ?page)\<rparr>"
    have body: "verifyLoop (Suc m) env rd view far scope zeroTime zeroTime 0 ?w ?result =
        (if (None :: Break option) \<noteq> None then Some (Inr ?r)
         else if int (length (map (decoded env) ?page)) < n then Some (Inr (?r\<lparr>vr_Complete := True\<rparr>))
         else verifyLoop m env rd view far scope zeroTime zeroTime 3 (advance ?w1 ?page) ?r)"
      by (rule verifyLoop_page [where ?w1.0 = ?w1]) (use False page wp(1) aw hd in \<open>simp_all add: n_def\<close>)
    show ?thesis
    proof (cases "int (length (map (decoded env) ?page)) < n")
      case True
      from start have "out = Inr (?r\<lparr>vr_Complete := True\<rparr>)"
        unfolding body by (simp only: True simp_thms if_True if_False option.inject)
      then show ?thesis by (simp add: Intact_def)
    next
      case full: False
      have "extends scope (view 0) (view 3)" by (rule growing_extends [OF g]) simp
      then obtain more where "own_rows (view 3) scope = own_rows (view 0) scope @ more"
        and wm: "watermark (view 3) scope = watermark (view 0) scope" unfolding extends_def by blast
      then have more: "own_rows (view 3) scope = (p @ ?page) @ (drop (nat n) ?q @ more)" by (simp only: q append_assoc)
      show ?thesis
      proof (rule verifyLoop_growing [OF g more])
        show "stands_after (view 3) scope (p @ ?page) (advance ?w1 ?page)" using wp(2) by (simp add: stands_after_def wm)
        show "cw_lastSeq (advance ?w1 ?page) = fst (watermark (view 3) scope) + int (length (p @ ?page))"
          using wp(3) False unfolding wm by blast
        show "vr_FirstBreak ?r = None" by simp
        show "verifyLoop m env rd view far scope zeroTime zeroTime 3 (advance ?w1 ?page) ?r = Some out"
          using start unfolding body by (simp only: full simp_thms if_False)
      qed
    qed
  qed
qed

text \<open>
  C22: a log that is being written still verifies. While consistent databases whose chain in the scope
  only grows pass by, one for each statement, a verification of the open window under a ceiling returns
  and reports no break, from whatever position it starts.
\<close>

theorem log_being_written_verifies:
  assumes "growing env far scope view"
    and "0 < rd_verificationPageSize rd" "0 < rd_verificationCeiling rd" "nat (rd_verificationCeiling rd) < fuel"
  shows "\<exists>res. Verify fuel env rd far (Some scope) zeroTime zeroTime afterSeq (Some view) = Some (Inr res) \<and> Intact res"
proof -
  have "\<exists>out. verifyLoop fuel env rd view far scope zeroTime zeroTime 0 (startWalk afterSeq)
      (startResult (Some scope) zeroTime zeroTime afterSeq) = Some out"
    by (rule verifyLoop_returns [OF assms(2,3)]) (use assms(4) in \<open>simp_all add: startResult_def startWalk_def\<close>)
  then obtain out where out: "Verify fuel env rd far (Some scope) zeroTime zeroTime afterSeq (Some view) = Some out"
    by (auto simp: Verify_def owner_def)
  with Verify_growing [OF assms(1) out] show ?thesis by auto
qed

text \<open>A log that gains an entry with every statement until it has three.\<close>

definition demo_growth :: "nat \<Rightarrow> audit_db" where
  "demo_growth k = demo_db (take k [(''a'', 5000), (''b'', 3000), (''c'', 9000)])"

lemma demo_growing: "growing demo_env demo_far ''t'' demo_growth"
proof -
  let ?es = "[(''a'', 5000), (''b'', 3000), (''c'', 9000 :: time)]"
  have rows: "demo_rows prev n (es @ fs) = demo_rows prev n es @
      demo_rows (last_link prev (demo_rows prev n es)) (n + int (length es)) fs" for prev n es fs
    by (induction es arbitrary: prev n) (auto simp: Let_def algebra_simps)
  have wm: "watermark (demo_db es) ''t'' = (-1, [])" for es
    by (simp add: watermark_def chain_of_def chain_at_def demo_db_def row_at_def Let_def)
  have "audit_ok demo_env (demo_growth k)" for k
  proof -
    have "distinct (map fst (take k ?es))" unfolding take_map [symmetric] by (rule distinct_take) simp
    then show ?thesis unfolding demo_growth_def by (rule demo_ok)
  qed
  moreover have "within_far demo_far (demo_growth k) ''t''" for k
  proof -
    have "list_all (\<lambda>(i, at). fst demo_far < at \<and> at < snd demo_far) ?es" by (simp add: demo_far_def Second_def)
    then have "list_all (\<lambda>(i, at). fst demo_far < at \<and> at < snd demo_far) (take k ?es)"
      unfolding list_all_iff by (blast dest: in_set_takeD)
    then show ?thesis unfolding demo_growth_def by (rule demo_within)
  qed
  moreover have "extends ''t'' (demo_growth k) (demo_growth (Suc k))" for k
  proof -
    have "take (Suc k) ?es = take k ?es @ take 1 (drop k ?es)" by (metis Suc_eq_plus1 take_add)
    then show ?thesis unfolding demo_growth_def extends_def wm by (simp only: demo_own_rows rows) auto
  qed
  ultimately show ?thesis by (simp add: growing_def)
qed

theorem log_being_written_verifies_witness:
  "\<exists>res. Verify 100001 demo_env (NewReader []) demo_far (Some ''t'') zeroTime zeroTime ChainStart (Some demo_growth) = Some (Inr res) \<and>
     Intact res"
  by (rule log_being_written_verifies [OF demo_growing]) (simp_all add: NewReader_def)

end
