(* ===== verification/Audit_Evidence.thy ===== *)
theory Audit_Evidence
  imports Audit_Growing
begin

text \<open>
  What a clean verification is evidence of.

  If a database verifies completely and shows at some position the hash that was published for it, then
  up to that position it holds what the log held when the hash was published, entry by entry and column
  by column, or two of the entries' preimages collide. The rest of the theory is what it is not evidence
  of: what lies behind the last entry it was shown, entries whose timestamp leaves the open window, and
  the alarms it raises over logs nobody touched.
\<close>

section \<open>Digests fix contents\<close>

definition preimage :: "audit_row \<Rightarrow> string" where
  "preimage r = (case hexDecode (ae_prev_hash r) of None \<Rightarrow> [] | Some b \<Rightarrow> b) @ row_image r"

definition row_covered :: "audit_row \<Rightarrow> int \<times> string \<times> int \<times> string list \<times> Actor \<times> string \<times> string" where
  "row_covered r = covered (rowEntry r [] [] :: unit Entry) (ae_change_set r) (ae_metadata r)"

text \<open>Everything the chain says of a row: the covered columns, its link and its hash.\<close>

definition row_content :: "audit_row \<Rightarrow> (int \<times> string \<times> int \<times> string list \<times> Actor \<times> string \<times> string) \<times> string \<times> string" where
  "row_content r = (row_covered r, ae_prev_hash r, ae_hash r)"

definition addressable_row :: "audit_row \<Rightarrow> bool" where
  "addressable_row r \<longleftrightarrow> addressable_entry (rowEntry r [] [] :: unit Entry) (ae_change_set r) (ae_metadata r)"

text \<open>The digest separates the preimages at hand; of the digest in general nothing of the kind is assumed.\<close>

definition collision_free :: "'v audit_env \<Rightarrow> audit_row list \<Rightarrow> audit_row list \<Rightarrow> bool" where
  "collision_free env rs ss \<longleftrightarrow>
     (\<forall>r \<in> set rs. \<forall>s \<in> set ss. hashingHex env (preimage r) = hashingHex env (preimage s) \<longrightarrow> preimage r = preimage s)"

lemma row_digest_preimage: "row_digest_ok env r \<Longrightarrow> ae_hash r = hashingHex env (preimage r)"
  by (auto simp: row_digest_ok_def chainHash_def preimage_def split: option.splits)

lemma same_preimage:
  assumes hd: "hex_digest env" and ok: "row_digest_ok env r" "row_digest_ok env s"
    and l: "link_hash env (ae_prev_hash r)" "link_hash env (ae_prev_hash s)" "(ae_prev_hash r = []) = (ae_prev_hash s = [])"
    and a: "addressable_row r" "addressable_row s" and eq: "preimage r = preimage s"
  shows "row_content r = row_content s"
proof -
  have dec: "\<exists>b. hexDecode h = Some b \<and> length b = (if h = [] then 0 else 32) \<and> lower_hex h" if "link_hash env h" for h
    using that hex_digest_decodes [OF hd] hd by (auto simp: link_hash_def hex_digest_def lower_hex_def)
  from dec [OF l(1)] obtain b where b: "hexDecode (ae_prev_hash r) = Some b" "length b = (if ae_prev_hash r = [] then 0 else 32)"
    "lower_hex (ae_prev_hash r)" by blast
  from dec [OF l(2)] obtain c where c: "hexDecode (ae_prev_hash s) = Some c" "length c = (if ae_prev_hash s = [] then 0 else 32)"
    "lower_hex (ae_prev_hash s)" by blast
  from b(2) c(2) l(3) have len: "length b = length c" by simp
  from eq have "b @ row_image r = c @ row_image s" by (simp add: preimage_def b(1) c(1))
  with len have bc: "b = c" "row_image r = row_image s" by (simp_all add: append_eq_append_conv)
  from bc(1) b c have prev: "ae_prev_hash r = ae_prev_hash s" using hexDecode_inject by blast
  have "row_covered r = row_covered s"
    unfolding row_covered_def using bc(2) a unfolding addressable_row_def row_image_def by (intro image_determines_covered)
  with prev row_digest_preimage [OF ok(1)] row_digest_preimage [OF ok(2)] eq show ?thesis by (simp add: row_content_def)
qed

text \<open>Two linked runs of one length from comparable starts that end in one hash have one content.\<close>

lemma linked_same_content:
  assumes hd: "hex_digest env" and "linked env p n rs" "linked env q n ss" "length rs = length ss"
    and "link_hash env p" "link_hash env q" "(p = []) = (q = [])"
    and "last_link p rs = last_link q ss" "list_all addressable_row rs" "list_all addressable_row ss" "collision_free env rs ss"
  shows "rs = [] \<or> map row_content rs = map row_content ss"
  using assms(2-)
proof (induction rs arbitrary: ss rule: rev_induct)
  case (snoc r rs)
  from snoc.prems(3) obtain s ss' where ss: "ss = ss' @ [s]" by (cases ss rule: rev_cases) auto
  with snoc.prems(1,2) have lr: "linked env p n rs" and ls: "linked env q n ss'"
    and r: "row_digest_ok env r" "ae_prev_hash r = last_link p rs" and s: "row_digest_ok env s" "ae_prev_hash s = last_link q ss'"
    by (auto simp: linked_append)
  have len: "length rs = length ss'" using snoc.prems(3) ss by simp
  have lk: "link_hash env (last_link p rs)" "link_hash env (last_link q ss')"
    using linked_link_hash [OF lr snoc.prems(4)] linked_link_hash [OF ls snoc.prems(5)] by auto
  have dne: "hashingHex env m \<noteq> []" for m using hd by (auto simp: hex_digest_def dest: spec [of _ m])
  then have ne: "last_link p rs \<noteq> []" "last_link q ss' \<noteq> []" if "rs \<noteq> []"
  proof -
    from that len have "ss' \<noteq> []" by auto
    with linked_digest [OF lr that] linked_digest [OF ls] obtain a b where
      "last_link p rs = hashingHex env a" "last_link q ss' = hashingHex env b" by blast
    with dne show "last_link p rs \<noteq> []" "last_link q ss' \<noteq> []" by simp_all
  qed
  have emp: "(last_link p rs = []) = (last_link q ss' = [])"
    using ne snoc.prems(6) len by (cases "rs = []") auto
  have "hashingHex env (preimage r) = hashingHex env (preimage s)"
    using snoc.prems(7) row_digest_preimage [OF r(1)] row_digest_preimage [OF s(1)] ss by (simp add: last_link_def)
  with snoc.prems(10) ss have pre: "preimage r = preimage s" by (auto simp: collision_free_def)
  have c: "row_content r = row_content s"
    by (rule same_preimage [OF hd r(1) s(1)]) (use lk emp pre r(2) s(2) snoc.prems(8,9) ss in auto)
  then have "last_link p rs = last_link q ss'" using r(2) s(2) by (simp add: row_content_def)
  with snoc.IH [OF lr ls len snoc.prems(4-6)] snoc.prems(8-10) ss
  have "rs = [] \<or> map row_content rs = map row_content ss'" by (auto simp: collision_free_def)
  with c ss len show ?case by auto
qed simp

section \<open>What a clean and complete verification saw\<close>

lemma verifyLoop_sound:
  assumes u: "positions_unique db" and pg: "0 < rd_verificationPageSize rd"
    and "verifyLoop fuel env rd (\<lambda>_. db) far scope from to k w result = Some (Inr res)"
    and "Intact res" "vr_Complete res" "\<not> vr_Complete result"
    and "rs = rangeRows far scope from to (cw_lastSeq w) db" "rs \<noteq> []"
  shows "\<exists>w'. (if cw_anchored w then w' = w
               else \<exists>a. anchorFor env scope (ae_seq (hd rs)) db db = Inr a \<and> w' = anchorAt a (ae_seq (hd rs)) w) \<and>
      cw_known w' \<and> linked env (cw_expectedPrev w') (cw_expectedSeq w' - 1) rs"
  using assms(3-)
proof (induction fuel arbitrary: k w result rs)
  case (Suc fuel)
  define n where "n = verificationPage rd (vr_Checked result)"
  let ?page = "take (nat n) rs"
  have n0: "n \<noteq> 0" using Suc.prems(1,3,4) by (auto simp: n_def Let_def)
  have list: "ListAuditChainEntries far scope (boundOrNil from) (boundOrNil to) (cw_lastSeq w) n db = ?page"
    unfolding page_of_range Suc.prems(5) ..
  obtain stored where st: "chainPage env far scope from to (cw_lastSeq w) n db = Inr stored"
    using Suc.prems(1) n0 by (cases "chainPage env far scope from to (cw_lastSeq w) n db") (auto simp: n_def Let_def)
  then have dec: "map (entryFromRow env) ?page = map Inr stored"
    unfolding chainPage_def list by (rule try_map_InrD)
  have read: "readable env r" if "r \<in> set ?page" for r
  proof -
    have "entryFromRow env r \<in> set (map (entryFromRow env) ?page)" using that by simp
    then show ?thesis unfolding dec by (auto simp: readable_def)
  qed
  then have "map (entryFromRow env) ?page = map Inr (map (decoded env) ?page)" by (simp add: entryFromRow_decoded)
  with dec have "map Inr stored = (map Inr (map (decoded env) ?page) :: (audit_error + 'a storedEntry) list)" by simp
  then have stored: "stored = map (decoded env) ?page" by (metis inj_map_eq_map inj_Inr)
  have "0 \<le> n" using pg by (auto simp: n_def verificationPage_def)
  with n0 have n: "0 < n" by simp
  then have pne: "?page \<noteq> []" using Suc.prems(6) by simp
  have hd: "hd ?page = hd rs" using n Suc.prems(6) by (simp add: hd_take)
  have "hd ?page \<in> set ?page" by (rule hd_in_set [OF pne])
  from read [OF this] have seq: "ent_Seq (se_entry (hd stored)) = ae_seq (hd rs)"
    unfolding stored hd_map [OF pne] hd by (rule decoded_fields)
  have ne: "stored \<noteq> []" using pne by (simp add: stored)
  obtain w1 k1 where aw: "anchorWalk env (\<lambda>_. db) scope (ent_Seq (se_entry (hd stored))) (k + 1) w = Inr (w1, k1)"
    using Suc.prems(1) n0 st ne
    by (cases "anchorWalk env (\<lambda>_. db) scope (ent_Seq (se_entry (hd stored))) (k + 1) w") (auto simp: n_def Let_def)
  have w1: "if cw_anchored w then w1 = w
      else \<exists>a. anchorFor env scope (ae_seq (hd rs)) db db = Inr a \<and> w1 = anchorAt a (ae_seq (hd rs)) w"
    using aw by (auto simp: anchorWalk_def seq split: if_splits sum.splits)
  then have anch: "cw_anchored w1" by (auto simp: anchorAt_def split: if_splits)
  obtain brk w2 where wp: "walkPage env stored w1 = (brk, w2)" by (cases "walkPage env stored w1")
  let ?r = "result\<lparr>vr_FirstBreak := brk, vr_Checked := cw_checked w2, vr_LastSeq := cw_lastSeq w2\<rparr>"
  have body: "verifyLoop (Suc fuel) env rd (\<lambda>_. db) far scope from to k w result =
      (if brk \<noteq> None then Some (Inr ?r)
       else if int (length stored) < n then Some (Inr (?r\<lparr>vr_Complete := True\<rparr>))
       else verifyLoop fuel env rd (\<lambda>_. db) far scope from to k1 w2 ?r)"
    by (rule verifyLoop_page [OF n_def n0 st ne aw wp refl])
  have brk: "brk = None"
  proof (rule ccontr)
    assume b: "brk \<noteq> None"
    with Suc.prems(1) body have "res = ?r" by simp
    with b Suc.prems(2) show False by (simp add: Intact_def)
  qed
  from wp brk have known: "cw_known w1" and we: "walkEntries env stored w1 = (None, w2)"
    by (auto simp: walkPage_def split: if_splits)
  have lp: "linked env (cw_expectedPrev w1) (cw_expectedSeq w1 - 1) ?page"
    using walkEntries_linked [of ?page env w1, OF read] we by (simp add: stored)
  have w2: "w2 = advance w1 ?page" using walkEntries_advance [OF read lp] we by (simp add: stored)
  have "linked env (cw_expectedPrev w1) (cw_expectedSeq w1 - 1) rs"
  proof (cases "drop (nat n) rs = []")
    case True
    with lp show ?thesis by simp
  next
    case rest: False
    then have len: "nat n < length rs" by simp
    then have "\<not> int (length stored) < n" by (simp add: stored)
    with Suc.prems(1) body brk have loop: "verifyLoop fuel env rd (\<lambda>_. db) far scope from to k1 w2 ?r = Some (Inr res)" by simp
    have r2: "drop (nat n) rs = rangeRows far scope from to (cw_lastSeq w2) db"
      using rangeRows_resume [OF u, of "nat n"] len n pne Suc.prems(5) by (simp add: w2 advance_def)
    have "cw_anchored w2" using anch by (simp add: w2 advance_def)
    with Suc.IH [OF loop Suc.prems(2,3) _ r2 rest] Suc.prems(4)
    have "linked env (cw_expectedPrev w2) (cw_expectedSeq w2 - 1) (drop (nat n) rs)" by auto
    moreover have "cw_expectedPrev w2 = last_link (cw_expectedPrev w1) ?page"
      "cw_expectedSeq w2 - 1 = cw_expectedSeq w1 - 1 + int (length ?page)" by (simp_all add: w2 advance_def)
    ultimately have "linked env (cw_expectedPrev w1) (cw_expectedSeq w1 - 1) (?page @ drop (nat n) rs)"
      using lp unfolding linked_append by simp
    then show ?thesis by simp
  qed
  with w1 known show ?case by blast
qed simp


section \<open>Tamper evidence\<close>

lemma collision_free_mono:
  "collision_free env rs ss \<Longrightarrow> set rs' \<subseteq> set rs \<Longrightarrow> set ss' \<subseteq> set ss \<Longrightarrow> collision_free env rs' ss'"
  unfolding collision_free_def by blast

text \<open>Where a clean and complete verification from the start begins, and what it is linked to there.\<close>

lemma clean_start:
  assumes u: "positions_unique db" and far: "within_far far db s" and pg: "0 < rd_verificationPageSize rd"
    and v: "Verify fuel env rd far (Some s) zeroTime zeroTime ChainStart (Some (\<lambda>_. db)) = Some (Inr res)"
    and clean: "Intact res" "vr_Complete res"
    and W: "-1 \<le> fst (watermark db s)" "0 \<le> fst (watermark db s) \<longrightarrow> snd (watermark db s) \<in> range (hashingHex env)"
    and rs: "rs = sort_key ae_seq (filter (\<lambda>x. -1 < ae_seq x) (own_rows db s))" "rs \<noteq> []"
  obtains prev m where "linked env prev m rs" "m \<le> fst (watermark db s)"
    "m = fst (watermark db s) \<longrightarrow> prev = snd (watermark db s)"
proof -
  have range: "rangeRows far s zeroTime zeroTime (cw_lastSeq (startWalk ChainStart)) db = rs"
    by (simp add: rs(1) open_range [OF far] startWalk_def ChainStart_def)
  have loop: "verifyLoop fuel env rd (\<lambda>_. db) far s zeroTime zeroTime 0 (startWalk ChainStart)
      (startResult (Some s) zeroTime zeroTime ChainStart) = Some (Inr res)"
    using v by (simp add: Verify_def owner_def)
  let ?f = "ae_seq (hd rs)"
  from verifyLoop_sound [OF u pg loop clean _ range [symmetric] rs(2)]
  obtain a where a: "anchorFor env s ?f db db = Inr a" "an_known a" "linked env (an_prevHash a) (?f - 1) rs"
    by (auto simp: startResult_def startWalk_def anchorAt_def)
  have pt: "prunedThrough s db = watermark db s" by (simp add: prunedThrough_chain_of watermark_def)
  show thesis
  proof (cases "?f = fst (watermark db s) + 1")
    case True
    with a(1) have "an_prevHash a = snd (watermark db s)" by (auto simp: anchorFor_def pt split: prod.splits)
    with a(3) True that show thesis by auto
  next
    case False
    obtain x where x: "GetAuditLogEntryBySeq s (?f - 1) db = Inr x"
      using a(1,2) False by (auto simp: anchorFor_def pt split: prod.splits sum.splits)
    then have xr: "x \<in> set (own_rows db s)" "ae_seq x = ?f - 1"
      by (auto simp: GetAuditLogEntryBySeq_def find_Some_iff set_own_rows split: option.splits)
    have "x \<notin> set rs"
    proof
      assume "x \<in> set rs"
      moreover have "sorted (map ae_seq rs)" by (simp add: rs(1))
      ultimately have "?f \<le> ae_seq x" using rs(2) by (cases rs) auto
      with xr(2) show False by simp
    qed
    with xr have "?f \<le> 0" by (auto simp: rs(1))
    moreover have "hd rs \<in> set rs" by (rule hd_in_set [OF rs(2)])
    then have "-1 < ?f" by (auto simp: rs(1))
    ultimately have "?f = 0" by simp
    with W(1) False have "?f - 1 < fst (watermark db s)" by simp
    with a(3) that [of "an_prevHash a" "?f - 1"] show thesis by simp
  qed
qed

lemma linked_seq_inj:
  assumes "linked env p n rs" "x \<in> set rs" "y \<in> set rs" "ae_seq x = ae_seq y"
  shows "x = y"
proof -
  have "inj_on ae_seq (set rs)" using linked_sorted [OF assms(1)] by (auto simp: distinct_map)
  with assms(2-4) show ?thesis by (simp add: inj_onD)
qed

lemma watermark_bounds:
  assumes "audit_ok env db"
  shows "-1 \<le> fst (watermark db s)" "0 \<le> fst (watermark db s) \<longrightarrow> snd (watermark db s) \<in> range (hashingHex env)"
    "fst (watermark db s) = -1 \<longrightarrow> snd (watermark db s) = []" "link_hash env (snd (watermark db s))"
  using audit_okD(4) [OF assms, of s] by (auto simp: chain_ok_def watermark_ok_def watermark_def link_hash_def)

text \<open>The part of such a database above the watermark is linked from a digest of its own, or from genesis.\<close>

lemma clean_above_watermark:
  assumes hd: "hex_digest env" and u: "positions_unique db" and far: "within_far far db s"
    and pg: "0 < rd_verificationPageSize rd"
    and v: "Verify fuel env rd far (Some s) zeroTime zeroTime ChainStart (Some (\<lambda>_. db)) = Some (Inr res)"
    and clean: "Intact res" "vr_Complete res" and ok: "audit_ok env db0" "watermark db s = watermark db0 s"
  obtains q where "linked env q (fst (watermark db s)) (sort_key ae_seq (filter (\<lambda>x. fst (watermark db s) < ae_seq x) (own_rows db s)))"
    "link_hash env q" "(snd (watermark db s) = []) = (q = [])"
proof -
  let ?W = "fst (watermark db s)" and ?h = "snd (watermark db s)"
  define rs where "rs = sort_key ae_seq (filter (\<lambda>x. -1 < ae_seq x) (own_rows db s))"
  note W = watermark_bounds [OF ok(1), of s, folded ok(2)]
  have "filter (\<lambda>x. ?W < ae_seq x) (own_rows db s) =
      filter (\<lambda>x. ?W < ae_seq x) (filter (\<lambda>x. -1 < ae_seq x) (own_rows db s))"
    unfolding filter_filter using W(1) by (intro filter_cong) auto
  then have above: "sort_key ae_seq (filter (\<lambda>x. ?W < ae_seq x) (own_rows db s)) = filter (\<lambda>x. ?W < ae_seq x) rs"
    by (simp only: filter_sort rs_def)
  show thesis
  proof (cases "filter (\<lambda>x. ?W < ae_seq x) rs = []")
    case True
    with above W(4) that [of ?h] show thesis by simp
  next
    case nonempty: False
    then have ne: "rs \<noteq> []" by auto
    obtain prev m where m: "linked env prev m rs" "m \<le> ?W" "m = ?W \<longrightarrow> prev = ?h"
      by (rule clean_start [OF u far pg v clean _ _ rs_def ne]) (use W in auto)
    define j where "j = nat (?W - m)"
    have j: "?W = m + int j" using m(2) by (simp add: j_def)
    have rest: "filter (\<lambda>x. ?W < ae_seq x) rs = drop j rs" using linked_rest [OF m(1), of j] j by simp
    with nonempty have jl: "length (take j rs) = j" by simp
    have ld: "linked env prev m (take j rs @ drop j rs)" using m(1) by (simp only: append_take_drop_id)
    let ?q = "last_link prev (take j rs)"
    from ld [unfolded linked_append] j jl have lA: "linked env prev m (take j rs)" and lB: "linked env ?q ?W (drop j rs)"
      by simp_all
    have start: "link_hash env ?q \<and> (?h = []) = (?q = [])"
    proof (cases "j = 0")
      case True
      with m(3) j W(4) show ?thesis by simp
    next
      case False
      with ne have "take j rs \<noteq> []" by simp
      then obtain e where e: "?q = hashingHex env e" using linked_digest [OF lA] by blast
      have "hd rs \<in> set rs" by (rule hd_in_set [OF ne])
      then have "-1 < ae_seq (hd rs)" by (auto simp: rs_def)
      with m(1) ne have "-1 \<le> m" by (cases rs) auto
      with False j W(2) obtain d where "?h = hashingHex env d" by auto
      moreover have "hashingHex env x \<noteq> []" for x using hd by (auto simp: hex_digest_def dest: spec [of _ x])
      ultimately show ?thesis using e by (simp add: link_hash_def)
    qed
    show thesis
      by (rule that [of ?q]) (use lB start above rest in auto)
  qed
qed

text \<open>Two linked runs from comparable starts that show one hash at one position agree up to there.\<close>

lemma same_prefix:
  assumes hd: "hex_digest env" and l: "linked env p n rs" "linked env q n ss"
    and st: "link_hash env p" "link_hash env q" "(p = []) = (q = [])"
    and r: "r \<in> set rs" "s \<in> set ss" "ae_seq s = ae_seq r" "ae_hash s = ae_hash r"
    and ad: "list_all addressable_row rs" "list_all addressable_row ss" and cf: "collision_free env rs ss"
  shows "map row_content (filter (\<lambda>x. ae_seq x \<le> ae_seq r) rs) = map row_content (filter (\<lambda>x. ae_seq x \<le> ae_seq r) ss)"
proof -
  define k where "k = nat (ae_seq r - n)"
  from linked_seq_bounds [OF l(1) r(1)] linked_seq_bounds [OF l(2) r(2)] r(3)
  have k: "0 < k" "ae_seq r = n + int k" "k \<le> length rs" "k \<le> length ss" by (auto simp: k_def)
  let ?P = "take k rs" and ?Q = "take k ss"
  have P: "filter (\<lambda>x. ae_seq x \<le> ae_seq r) rs = ?P" "filter (\<lambda>x. ae_seq x \<le> ae_seq r) ss = ?Q"
    using linked_prefix [OF l(1), of k] linked_prefix [OF l(2), of k] k(2) by simp_all
  have lP: "linked env p n ?P" and lQ: "linked env q n ?Q" using l by (auto intro: linked_take)
  have ne: "?P \<noteq> []" "?Q \<noteq> []" using k by auto
  have "ae_seq (last ?P) = ae_seq r" "ae_seq (last ?Q) = ae_seq r"
    using linked_last [OF lP ne(1)] linked_last [OF lQ ne(2)] k by simp_all
  moreover have "last ?P \<in> set rs" "last ?Q \<in> set ss" using ne by (metis in_set_takeD last_in_set)+
  ultimately have "last ?P = r" "last ?Q = s"
    using linked_seq_inj [OF l(1) _ r(1)] linked_seq_inj [OF l(2) _ r(2)] r(3) by auto
  then have same: "last_link p ?P = last_link q ?Q" using ne r(4) by (simp add: last_link_def)
  have sub: "set ?P \<subseteq> set rs" "set ?Q \<subseteq> set ss" by (auto dest: in_set_takeD)
  then have "list_all addressable_row ?P" "list_all addressable_row ?Q" using ad by (auto simp: list_all_iff)
  from linked_same_content [OF hd lP lQ _ st same this collision_free_mono [OF cf sub]] ne(1) k P
  show ?thesis by simp
qed


definition demo_single :: audit_db where
  "demo_single = demo_db [(''a'', 5000)]"

lemma demo_single_row: "own_rows demo_single s = (if s = ''t'' then [demo_row [] 0 ''a'' 5000] else [])"
  by (simp add: demo_single_def demo_own_rows Let_def)

lemma demo_single_ok: "audit_ok demo_env demo_single"
  unfolding demo_single_def by (rule demo_ok) simp

lemma demo_single_within: "within_far demo_far demo_single s"
  unfolding demo_single_def by (rule demo_within) (simp add: demo_far_def Second_def)


end
