(* ===== verification/Audit_Limits.thy ===== *)
theory Audit_Limits
  imports Audit_Evidence
begin

text \<open>
  What verification says of the logs the package produces, and what it does not see: every reachable log
  verifies, but so does one whose last entries were removed, or whose last entries were rewritten with
  timestamps beyond the open window.
\<close>

section \<open>Reachable logs\<close>

text \<open>A reader that stops for no ceiling on this database.\<close>

definition reads_all :: "SQLReader \<Rightarrow> audit_db \<Rightarrow> bool" where
  "reads_all rd db \<longleftrightarrow>
     0 < rd_verificationPageSize rd \<and>
     (rd_verificationCeiling rd = 0 \<or> int (length (db_entries db)) < rd_verificationCeiling rd)"

text \<open>A verification from the start whose range continues the watermark finds nothing wrong.\<close>

lemma Verify_from_watermark:
  assumes u: "positions_unique db" and rd: "\<And>r. r \<in> set (db_entries db) \<Longrightarrow> readable env r"
    and all: "reads_all rd db" and fuel: "length (db_entries db) < fuel"
    and rs: "rs = rangeRows far s from to ChainStart db"
    and l: "linked env (snd (watermark db s)) (fst (watermark db s)) rs"
  shows "\<exists>res. Verify fuel env rd far (Some s) from to ChainStart (Some (\<lambda>_. db)) = Some (Inr res) \<and>
    Intact res \<and> vr_Complete res \<and> vr_Checked res = int (length rs)"
proof -
  from all have pg: "0 < rd_verificationPageSize rd" and ce0: "0 \<le> rd_verificationCeiling rd" by (auto simp: reads_all_def)
  have f: "length (rangeRows far s from to ChainStart db) < fuel"
    using length_rangeRows [of far s "from" "to" ChainStart db] fuel by simp
  note v = Verify_snapshot [OF u rd pg ce0 f]
  show ?thesis
  proof (cases "rs = []")
    case True
    with v rs show ?thesis by (simp add: verifyWalk_def Intact_def startResult_def)
  next
    case False
    let ?a = "anchor_of env s (ae_seq (hd rs)) db"
    have hd: "ae_seq (hd rs) = fst (watermark db s) + 1" using l False by (cases rs) auto
    then have a: "an_known ?a" "an_prevHash ?a = snd (watermark db s)"
      using anchor_of_watermark [of env s db] by (simp_all add: watermark_def)
    have "rd_verificationCeiling rd = 0 \<or> int (length rs) < rd_verificationCeiling rd"
      using all length_rangeRows [of far s "from" "to" ChainStart db] rs by (auto simp: reads_all_def)
    then have ad: "admitted rd 0 rs = rs" "reaches_end rd 0 rs" by (auto simp: admitted_def reaches_end_def)
    have i: "Intact (verifyWalk env rd far s from to ChainStart db)"
      using verifyWalk_intact(1) [OF rd ce0 rs False refl] a l hd by (simp add: ad)
    from verifyWalk_intact(2) [OF rd ce0 rs False refl i] v i show ?thesis by (simp add: ad False)
  qed
qed

lemma watermarked_rows:
  assumes "audit_ok env db"
  shows "filter (\<lambda>r. ChainStart < ae_seq r) (own_rows db s) = own_rows db s"
  using linked_seq_bounds [OF chain_rows_linked [OF assms, of s]] watermark_bounds(1) [OF assms, of s]
  by (force simp: filter_id_conv ChainStart_def)


text \<open>What a database with finitely many rows lies within.\<close>

lemma within_some_far: "\<exists>far. within_far far db s"
proof -
  let ?T = "insert 0 (ae_recorded_at ` set (own_rows db s))"
  have "Min ?T - 1 < ae_recorded_at r \<and> ae_recorded_at r < Max ?T + 1" if "r \<in> set (own_rows db s)" for r
    using that by (simp add: le_less_trans [OF Min_le] less_le_trans) (smt (verit) Max_ge Min_le finite_imageI finite_insert finite_set image_eqI insertCI List.finite_set)
  then have "within_far (Min ?T - 1, Max ?T + 1) db s" by (simp add: within_far_def list_all_iff)
  then show ?thesis by blast
qed


section \<open>Unseen\<close>

text \<open>Rows of the scope behind a position, replaced or removed so that the window no longer admits them.\<close>

definition hidden_tail :: "time \<times> time \<Rightarrow> string \<Rightarrow> int \<Rightarrow> audit_db \<Rightarrow> audit_db \<Rightarrow> bool" where
  "hidden_tail far s n db db' \<longleftrightarrow>
     filter (entryWindow far None None) (own_rows db' s) = filter (\<lambda>r. ae_seq r \<le> n) (own_rows db s) \<and>
     watermark db' s = watermark db s"

lemma hidden_tail_unseen:
  assumes ok: "audit_ok env db" and u: "positions_unique db'" and rd: "\<And>r. r \<in> set (db_entries db') \<Longrightarrow> readable env r"
    and all: "reads_all rd db'" and fuel: "length (db_entries db') < fuel"
    and hid: "hidden_tail far s n db db'"
  shows "\<exists>res. Verify fuel env rd far (Some s) zeroTime zeroTime ChainStart (Some (\<lambda>_. db')) = Some (Inr res) \<and>
    Intact res \<and> vr_Complete res \<and> vr_Checked res = int (length (filter (\<lambda>r. ae_seq r \<le> n) (own_rows db s)))"
proof -
  let ?kept = "filter (\<lambda>r. ae_seq r \<le> n) (own_rows db s)"
  note l = chain_rows_linked [OF ok, of s]
  have "?kept = take (nat (n - fst (watermark db s))) (own_rows db s)"
  proof (cases "fst (watermark db s) \<le> n")
    case True
    with linked_prefix [OF l, of "nat (n - fst (watermark db s))"] show ?thesis by simp
  next
    case False
    then have "\<not> ae_seq r \<le> n" if "r \<in> set (own_rows db s)" for r using linked_seq_bounds [OF l that] by simp
    with False show ?thesis by (simp add: filter_empty_conv)
  qed
  with l have lk: "linked env (snd (watermark db s)) (fst (watermark db s)) ?kept" by (simp add: linked_take)
  have "filter (chainRange far s (boundOrNil zeroTime) (boundOrNil zeroTime) ChainStart) (db_entries db') =
      filter (\<lambda>r. ChainStart < ae_seq r) (filter (entryWindow far None None) (own_rows db' s))"
    unfolding own_rows_def filter_filter by (rule filter_cong) (auto simp: chainRange_def boundOrNil_def)
  also have "\<dots> = filter (\<lambda>r. ae_seq r \<le> n) (filter (\<lambda>r. ChainStart < ae_seq r) (own_rows db s))"
    using hid by (simp add: hidden_tail_def conj_commute)
  also have "\<dots> = ?kept" by (simp only: watermarked_rows [OF ok])
  finally have rs: "?kept = rangeRows far s zeroTime zeroTime ChainStart db'"
    using linked_sort_key [OF lk] by (simp add: rangeRows_def)
  show ?thesis
    by (rule Verify_from_watermark [OF u rd all fuel rs]) (use lk hid in \<open>simp_all add: hidden_tail_def\<close>)
qed

lemma demo_reads_all: "reads_all (NewReader []) demo_log"
  by (simp add: reads_all_def NewReader_def demo_log_entries)

lemma demo_log_first: "length (filter (\<lambda>r. ae_seq r \<le> 0) (own_rows demo_log ''t'')) = 1"
  by (simp add: demo_log_own_rows Let_def)

text \<open>
  C37: removing the end of a chain is not detected. Whatever position one cuts at, deleting every later
  entry of the scope from a consistent log leaves one that verifies from the start without a break and
  completely, although the chain row still records the head that is gone.
\<close>

theorem truncated_tail_unseen:
  assumes "audit_ok env db" "within_far far db s"
    and "reads_all rd db" "length (db_entries db) < fuel"
    and "db' = db\<lparr>db_entries := filter (\<lambda>r. \<not> (ae_scope r = s \<and> n < ae_seq r)) (db_entries db)\<rparr>"
  shows "\<exists>res. Verify fuel env rd far (Some s) zeroTime zeroTime ChainStart (Some (\<lambda>_. db')) = Some (Inr res) \<and>
    Intact res \<and> vr_Complete res \<and> vr_Checked res = int (length (filter (\<lambda>r. ae_seq r \<le> n) (own_rows db s))) \<and>
    cr_head_seq (chain_of db' s) = cr_head_seq (chain_of db s)"
proof -
  have own: "own_rows db' s = filter (\<lambda>r. ae_seq r \<le> n) (own_rows db s)"
    unfolding own_rows_def assms(5) by (auto intro: filter_cong)
  have ch: "chain_of db' = chain_of db" by (rule chain_of_chains) (simp add: assms(5))
  have "entryWindow far None None r" if "r \<in> set (own_rows db' s)" for r
    using assms(2) that by (auto simp: own within_far_def list_all_iff entryWindow_def)
  then have "filter (entryWindow far None None) (own_rows db' s) = own_rows db' s" by (simp add: filter_id_conv)
  then have hid: "hidden_tail far s n db db'" by (simp add: hidden_tail_def watermark_def own ch)
  have u: "positions_unique db'"
    using audit_ok_positions_unique [OF assms(1)] by (simp add: positions_unique_def assms(5) distinct_map_filter)
  have len: "length (db_entries db') \<le> length (db_entries db)" by (simp add: assms(5))
  then have fuel: "length (db_entries db') < fuel" using assms(4) by (rule le_less_trans)
  from len have all: "reads_all rd db'" using assms(3) by (auto simp: reads_all_def)
  have "\<exists>res. Verify fuel env rd far (Some s) zeroTime zeroTime ChainStart (Some (\<lambda>_. db')) = Some (Inr res) \<and>
    Intact res \<and> vr_Complete res \<and> vr_Checked res = int (length (filter (\<lambda>r. ae_seq r \<le> n) (own_rows db s)))"
    by (rule hidden_tail_unseen [OF assms(1) u _ all fuel hid]) (use audit_okD(3) [OF assms(1)] in \<open>auto simp: assms(5)\<close>)
  with ch show ?thesis by simp
qed

theorem truncated_tail_unseen_witness:
  "\<exists>res. Verify 10 demo_env (NewReader []) demo_far (Some ''t'') zeroTime zeroTime ChainStart
       (Some (\<lambda>_. demo_log\<lparr>db_entries := filter (\<lambda>r. \<not> (ae_scope r = ''t'' \<and> 0 < ae_seq r)) (db_entries demo_log)\<rparr>)) =
       Some (Inr res) \<and> Intact res \<and> vr_Complete res \<and> vr_Checked res = 1"
  using truncated_tail_unseen [OF demo_log_ok demo_log_within demo_reads_all _ refl, of 10 "''t''" 0]
  by (simp add: demo_log_entries demo_log_first) blast

text \<open>
  nor is rewriting it, if the new timestamps leave the open window. Any entries at later positions of
  the scope, rewritten in whatever way the table can hold but moved to or beyond the instants an unset
  bound stands for, are passed over: the verification is clean, complete, and counts the entries before.
\<close>

theorem rewritten_tail_unseen:
  assumes "audit_ok env db" "within_far far db s" "reads_all rd db" "length (db_entries db) < fuel"
    and keep: "\<And>r. ae_scope (edit r) = ae_scope r" "\<And>r. ae_seq (edit r) = ae_seq r" "\<And>r. readable env (edit r)"
    and out: "\<And>r. \<not> (fst far < ae_recorded_at (edit r) \<and> ae_recorded_at (edit r) < snd far)"
    and db': "db' = db\<lparr>db_entries := map (\<lambda>r. if ae_scope r = s \<and> n < ae_seq r then edit r else r) (db_entries db)\<rparr>"
  shows "\<exists>res. Verify fuel env rd far (Some s) zeroTime zeroTime ChainStart (Some (\<lambda>_. db')) = Some (Inr res) \<and>
    Intact res \<and> vr_Complete res \<and> vr_Checked res = int (length (filter (\<lambda>r. ae_seq r \<le> n) (own_rows db s)))"
proof -
  let ?f = "\<lambda>r. if ae_scope r = s \<and> n < ae_seq r then edit r else r"
  have ch: "chain_of db' = chain_of db" by (rule chain_of_chains) (simp add: db')
  have "filter (\<lambda>r. ae_scope r = s \<and> entryWindow far None None r) (map ?f rs) =
      filter (\<lambda>r. ae_scope r = s \<and> ae_seq r \<le> n) rs"
    if "\<And>r. r \<in> set rs \<Longrightarrow> ae_scope r = s \<Longrightarrow> entryWindow far None None r" for rs
    using that out by (induction rs) (auto simp: keep entryWindow_def)
  moreover have "entryWindow far None None r" if "r \<in> set (db_entries db)" "ae_scope r = s" for r
    using assms(2) that by (auto simp: within_far_def list_all_iff entryWindow_def set_own_rows)
  ultimately have hid: "hidden_tail far s n db db'"
    by (simp add: hidden_tail_def watermark_def ch) (simp add: own_rows_def db' conj_commute)
  have pos: "map (\<lambda>r. (ae_scope r, ae_seq r)) (db_entries db') = map (\<lambda>r. (ae_scope r, ae_seq r)) (db_entries db)"
    by (simp add: db' keep)
  have u: "positions_unique db'"
    using audit_ok_positions_unique [OF assms(1)] by (simp only: positions_unique_def pos)
  have "length (db_entries db') = length (db_entries db)" by (simp add: db')
  then have all: "reads_all rd db'" "length (db_entries db') < fuel" using assms(3,4) by (simp_all add: reads_all_def)
  show ?thesis
    by (rule hidden_tail_unseen [OF assms(1) u _ all hid]) (use audit_okD(3) [OF assms(1)] keep(3) in \<open>auto simp: db'\<close>)
qed

text \<open>Who acted in the later entries, rewritten.\<close>

definition framed :: "audit_row \<Rightarrow> audit_row" where
  "framed r = r\<lparr>ae_actor_id := ''mallory'', ae_recorded_at := snd demo_far\<rparr>"

theorem rewritten_tail_unseen_witness:
  "\<exists>res. Verify 10 demo_env (NewReader []) demo_far (Some ''t'') zeroTime zeroTime ChainStart
       (Some (\<lambda>_. demo_log\<lparr>db_entries := map (\<lambda>r. if ae_scope r = ''t'' \<and> 0 < ae_seq r then framed r else r) (db_entries demo_log)\<rparr>)) =
       Some (Inr res) \<and> Intact res \<and> vr_Complete res \<and> vr_Checked res = 1"
  using rewritten_tail_unseen [OF demo_log_ok demo_log_within demo_reads_all _ _ _ demo_readable _ refl, of 10 framed "''t''" 0]
  by (simp add: demo_log_entries demo_log_first framed_def)

end
