(* ===== verification/Audit_Alarms.thy ===== *)
theory Audit_Alarms
  imports Audit_Limits
begin

text \<open>
  Logs nobody tampered with that verification reports as broken: one whose retention delete skipped a row
  another transaction held, one read through a window that leaves out an entry between two it admits, and
  one whose retention commits between a verification's page and its anchor.
\<close>

section \<open>Locked rows\<close>

text \<open>A range whose first row has no predecessor in the table and does not follow the watermark.\<close>

lemma unanchored_break:
  assumes u: "positions_unique db" and rd: "\<And>r. r \<in> set (db_entries db) \<Longrightarrow> readable env r"
    and pg: "0 < rd_verificationPageSize rd" and ce: "0 \<le> rd_verificationCeiling rd" and fuel: "length (db_entries db) < fuel"
    and rs: "rs = rangeRows far s from to afterSeq db" "rs \<noteq> []"
    and wm: "ae_seq (hd rs) \<noteq> fst (watermark db s) + 1"
    and pre: "\<And>r. r \<in> set (db_entries db) \<Longrightarrow> ae_scope r = s \<Longrightarrow> ae_seq r \<noteq> ae_seq (hd rs) - 1"
  shows "\<exists>res. Verify fuel env rd far (Some s) from to afterSeq (Some (\<lambda>_. db)) = Some (Inr res) \<and> \<not> Intact res"
proof -
  have f: "length (rangeRows far s from to afterSeq db) < fuel"
    using length_rangeRows [of far s "from" "to" afterSeq db] fuel by simp
  have "\<not> an_known (anchor_of env s (ae_seq (hd rs)) db)"
    by (rule anchor_of_absent) (use wm pre in \<open>auto simp: watermark_def\<close>)
  with verifyWalk_intact(1) [OF rd ce rs refl] Verify_snapshot [OF u rd pg ce f] show ?thesis by auto
qed

text \<open>What a pass leaves when another transaction holds some of the rows it would take.\<close>

lemma pruneScope_locked:
  assumes ok: "audit_ok env db" and b: "0 < budget" and k: "k = prunable cutoff budget (own_rows db s)" "0 < k"
    and p: "pruneScope locked cutoff budget s db = (pruned, db')"
  shows "db_entries db' =
      filter (\<lambda>r. \<not> (ae_scope r = s \<and> ae_seq r \<le> fst (watermark db s) + int k \<and> \<not> locked r)) (db_entries db)"
    and "fst (watermark db' s) = fst (watermark db s) + int k"
proof -
  let ?n = "fst (watermark db s)" and ?h = "snd (watermark db s)" and ?rs = "own_rows db s"
  let ?hit = "\<lambda>r. ae_scope r = s \<and> ae_seq r \<le> ?n + int k \<and> \<not> locked r"
  note l = chain_rows_linked [OF ok, of s]
  have le: "k \<le> length ?rs" "int k \<le> budget"
    using b length_takeWhile_le [of "\<lambda>r. ae_recorded_at r \<le> cutoff" ?rs] by (auto simp: k(1) prunable_def aged_prefix_def)
  obtain bd where bd: "pruneBoundary cutoff s budget db = Some bd" "filter (\<lambda>r. ae_seq r \<le> bd) ?rs = take k ?rs"
    using pruneBoundary_linked(2) [OF l b k(1)] k(2) by auto
  have target: "GetAuditPruneTarget s bd db = Inr (?n + int k, last_link ?h (take k ?rs))"
    by (rule pruneTarget_linked [OF l k(2) le(1) bd(2)])
  let ?D = "filter (\<lambda>r. \<not> locked r) (take k ?rs)"
  have f: "filter ?hit (db_entries db) = ?D"
    unfolding linked_prefix [OF l, symmetric] by (auto simp: own_rows_def intro!: filter_cong)
  have "sorted (map ae_seq (take k ?rs))" using linked_sorted [OF linked_take [OF l]] by blast
  then have "sorted (map ae_seq ?D)" by (rule sorted_filter)
  moreover have "length ?D \<le> nat budget" using le by (intro le_trans [OF length_filter_le]) simp
  ultimately have D: "sql_top budget ae_seq ?hit (db_entries db) = ?D" by (simp add: sql_top_def f sort_key_id_if_sorted)
  have hit: "(ae_scope r, ae_seq r) \<in> (\<lambda>d. (ae_scope d, ae_seq d)) ` set ?D \<longleftrightarrow> ?hit r" if "r \<in> set (db_entries db)" for r
  proof -
    have inj: "inj_on (\<lambda>d. (ae_scope d, ae_seq d)) (set (db_entries db))"
      using audit_ok_positions_unique [OF ok] by (simp add: positions_unique_def distinct_map)
    have "set ?D \<subseteq> set (db_entries db)" by (auto simp flip: f)
    then have "(ae_scope r, ae_seq r) \<in> (\<lambda>d. (ae_scope d, ae_seq d)) ` set ?D \<longleftrightarrow> r \<in> set ?D"
      using inj_on_image_mem_iff [OF inj that] by simp
    then show ?thesis using that by (simp flip: f)
  qed
  then have del: "sql_delete (\<lambda>r. (ae_scope r, ae_seq r) \<in> (\<lambda>d. (ae_scope d, ae_seq d)) ` set ?D) (db_entries db) =
      filter (\<lambda>r. \<not> ?hit r) (db_entries db)"
    unfolding sql_delete_def by (intro filter_cong) auto
  have db': "db' = RecordAuditChainPrune (?n + int k) (last_link ?h (take k ?rs)) s
      (db\<lparr>db_entries := filter (\<lambda>r. \<not> ?hit r) (db_entries db)\<rparr>)"
    using p unfolding pruneScope_def bd(1) option.case target sum.case prod.case PruneAuditLogEntries_def Let_def D del by simp
  then show "db_entries db' = filter (\<lambda>r. \<not> ?hit r) (db_entries db)" by (simp add: RecordAuditChainPrune_def)
  have at: "chain_at db s \<noteq> None" using chain_at_rows [OF ok] k(2) le(1) by (cases ?rs) auto
  let ?f = "\<lambda>c. c\<lparr>cr_pruned_through_seq := ?n + int k, cr_pruned_through_hash := last_link ?h (take k ?rs)\<rparr>"
  have "chain_of db' s = chain_of (db\<lparr>db_chains := sql_update (\<lambda>c. cr_scope c = s) ?f (db_chains db)\<rparr>) s"
    by (rule fun_cong [OF chain_of_chains]) (simp add: db' RecordAuditChainPrune_def)
  then show "fst (watermark db' s) = ?n + int k" by (simp add: chain_of_update [OF at] watermark_def)
qed

text \<open>
  C38: a locked row turns retention into tampering. If a retention pass over a consistent log meets, below
  the position it prunes through, a row another transaction holds, its delete skips that row and its
  watermark passes it; the log it commits then fails verification from the start.
\<close>

theorem locked_row_reads_as_tampering:
  assumes "audit_ok env db" "within_far far db s" "0 < budget"
    and "r \<in> set (take (prunable cutoff budget (own_rows db s)) (own_rows db s))" "locked r"
    and "pruneScope locked cutoff budget s db = (pruned, db')"
    and "0 < rd_verificationPageSize rd" "0 \<le> rd_verificationCeiling rd" "length (db_entries db') < fuel"
  shows "\<exists>res. Verify fuel env rd far (Some s) zeroTime zeroTime ChainStart (Some (\<lambda>_. db')) = Some (Inr res) \<and> \<not> Intact res"
proof -
  let ?k = "prunable cutoff budget (own_rows db s)" and ?n = "fst (watermark db s)"
  have "0 < ?k" using assms(4) by (cases ?k) auto
  note e = pruneScope_locked [OF assms(1,3) refl this assms(6)]
  note l = chain_rows_linked [OF assms(1), of s]
  have own: "own_rows db' s = filter (\<lambda>r. \<not> (ae_seq r \<le> ?n + int ?k \<and> \<not> locked r)) (own_rows db s)"
    unfolding own_rows_def e(1) by (auto intro: filter_cong)
  have sorted: "sorted (map ae_seq (own_rows db' s))"
    unfolding own using linked_sorted [OF l] by (simp add: sorted_filter)
  have far: "within_far far db' s" using assms(2) by (auto simp: within_far_def own list_all_iff)
  have "ChainStart < ae_seq x" if "x \<in> set (own_rows db' s)" for x
    using watermarked_rows [OF assms(1), of s] that by (auto simp: own filter_id_conv)
  then have "filter (\<lambda>r. ChainStart < ae_seq r) (own_rows db' s) = own_rows db' s" by (simp add: filter_id_conv)
  then have rs: "own_rows db' s = rangeRows far s zeroTime zeroTime ChainStart db'"
    unfolding open_range [OF far] using sorted by (simp add: sort_key_id_if_sorted)
  have "r \<in> set (own_rows db s)" "ae_seq r \<le> ?n + int ?k"
    using assms(4) linked_prefix [OF l, of ?k, symmetric] by (auto dest: in_set_takeD)
  with assms(5) have r: "r \<in> set (own_rows db' s)" "ae_seq r \<le> ?n + int ?k" by (auto simp: own)
  from r(1) have ne: "own_rows db' s \<noteq> []" by auto
  have low: "ae_seq (hd (own_rows db' s)) \<le> ae_seq x" if "x \<in> set (own_rows db' s)" for x
    using sorted that by (cases "own_rows db' s") auto
  have u: "positions_unique db'"
    using audit_ok_positions_unique [OF assms(1)] by (simp add: positions_unique_def e(1) distinct_map_filter)
  show ?thesis
  proof (rule unanchored_break [OF u _ assms(7-9) rs ne])
    show "readable env x" if "x \<in> set (db_entries db')" for x using audit_okD(3) [OF assms(1)] that by (simp add: e(1))
    show "ae_seq (hd (own_rows db' s)) \<noteq> fst (watermark db' s) + 1" using low [OF r(1)] r(2) e(2) by simp
    show "ae_seq x \<noteq> ae_seq (hd (own_rows db' s)) - 1" if "x \<in> set (db_entries db')" "ae_scope x = s" for x
      using low [of x] that by (auto simp: set_own_rows)
  qed
qed

theorem locked_row_reads_as_tampering_witness:
  "\<exists>pruned db' res. pruneScope (\<lambda>r. ae_id r = ''a'') 6000 10 ''t'' demo_log = (pruned, db') \<and>
     Verify 10 demo_env (NewReader []) demo_far (Some ''t'') zeroTime zeroTime ChainStart (Some (\<lambda>_. db')) = Some (Inr res) \<and>
     \<not> Intact res"
proof -
  let ?locked = "\<lambda>r. ae_id r = ''a''" and ?k = "prunable 6000 10 (own_rows demo_log ''t'')"
  obtain pruned db' where p: "pruneScope ?locked 6000 10 ''t'' demo_log = (pruned, db')" by fastforce
  have k: "?k = 2" by (simp add: prunable_def aged_prefix_def demo_log_own_rows Let_def)
  have "demo_row [] 0 ''a'' 5000 \<in> set (take ?k (own_rows demo_log ''t''))"
    unfolding k by (simp add: demo_log_own_rows Let_def)
  moreover have "length (db_entries db') \<le> length (db_entries demo_log)"
    unfolding pruneScope_locked(1) [OF demo_log_ok _ refl _ p, unfolded k, simplified] by (rule length_filter_le)
  then have "length (db_entries db') < 10" by (simp add: demo_log_entries)
  ultimately show ?thesis
    using locked_row_reads_as_tampering [OF demo_log_ok demo_log_within _ _ _ p] p by (auto simp: NewReader_def)
qed

section \<open>Windows\<close>

text \<open>
  Positions follow the order of the appends and a window is over the recorded times, which the callers may
  set and whose clocks may disagree. A window that admits two entries and not one between them makes the
  verification of an untouched log report a missing entry.
\<close>

theorem window_reads_as_tampering:
  assumes ok: "audit_ok env db" and rd: "reads_all rd db" "length (db_entries db) < fuel"
    and own: "a \<in> set (own_rows db s)" "b \<in> set (own_rows db s)" "c \<in> set (own_rows db s)"
    and order: "ae_seq a < ae_seq b" "ae_seq b < ae_seq c"
    and w: "entryWindow far (boundOrNil from) (boundOrNil to) a" "\<not> entryWindow far (boundOrNil from) (boundOrNil to) b"
      "entryWindow far (boundOrNil from) (boundOrNil to) c"
  shows "\<exists>res. Verify fuel env rd far (Some s) from to ChainStart (Some (\<lambda>_. db)) = Some (Inr res) \<and> \<not> Intact res"
proof -
  define rs where "rs = rangeRows far s from to ChainStart db"
  note u = audit_ok_positions_unique [OF ok] and l = chain_rows_linked [OF ok, of s]
  have pg: "0 < rd_verificationPageSize rd" and ce: "0 \<le> rd_verificationCeiling rd" using rd(1) by (auto simp: reads_all_def)
  have mem: "x \<in> set rs \<longleftrightarrow> x \<in> set (own_rows db s) \<and> entryWindow far (boundOrNil from) (boundOrNil to) x" for x
  proof -
    have "ChainStart < ae_seq x" if "x \<in> set (own_rows db s)"
      using watermarked_rows [OF ok, of s] that by (simp add: filter_id_conv)
    then show ?thesis by (auto simp: rs_def set_rangeRows set_own_rows)
  qed
  with own w have rin: "a \<in> set rs" "c \<in> set rs" "b \<notin> set rs" by simp_all
  then have ne: "rs \<noteq> []" by auto
  have len: "length rs \<le> length (db_entries db)" unfolding rs_def by (rule length_rangeRows)
  then have ad: "admitted rd 0 rs = rs" using rd(1) by (auto simp: reads_all_def admitted_def)
  have "\<not> linked env prev n rs" for prev n
  proof
    assume k: "linked env prev n rs"
    have "n < ae_seq b" "ae_seq b \<le> n + int (length rs)"
      using linked_seq_bounds [OF k rin(1)] linked_seq_bounds [OF k rin(2)] order by auto
    then have "ae_seq b \<in> set (map (\<lambda>i. n + 1 + int i) [0..<length rs])"
      by (simp add: image_iff) (rule bexI [of _ "nat (ae_seq b - n - 1)"]; simp)
    then obtain x where x: "x \<in> set rs" "ae_seq x = ae_seq b" unfolding linked_seqs [OF k, symmetric] by auto
    then have "x = b" using linked_seq_inj [OF l _ own(2)] by (auto simp: mem)
    with x(1) rin(3) show False by simp
  qed
  then have "\<not> Intact (verifyWalk env rd far s from to ChainStart db)"
    using verifyWalk_intact(1) [OF audit_okD(3) [OF ok] ce rs_def ne refl] by (simp add: ad)
  moreover have "length (rangeRows far s from to ChainStart db) < fuel" using len rd(2) by (simp add: rs_def)
  ultimately show ?thesis using Verify_snapshot [OF u audit_okD(3) [OF ok] pg ce] by blast
qed

section \<open>Retention between two statements\<close>

text \<open>
  A verification whose first page was read before a retention batch committed and whose anchor was read
  after it: the watermark has passed the first row of the page and the entry before it is not there, so an
  untouched log is reported to miss an entry.
\<close>

theorem retention_race_reads_as_tampering:
  assumes ok: "audit_ok env db" and far: "within_far far db s"
    and sweep: "PruneTarget_Sweep m (\<lambda>_. False) page cutoff limit db = Some (removed, db')" "0 \<le> limit" "length (db_entries db) < m"
    and gone: "own_rows db' s \<noteq> own_rows db s"
    and rd: "0 < rd_verificationPageSize rd" "0 \<le> rd_verificationCeiling rd"
  shows "\<exists>res. Verify (Suc fuel) env rd far (Some s) zeroTime zeroTime ChainStart (Some (\<lambda>k. if k = 0 then db else db')) = Some (Inr res) \<and>
    \<not> Intact res"
proof -
  let ?view = "\<lambda>k :: nat. if k = 0 then db else db'" and ?w = "startWalk ChainStart"
    and ?result = "startResult (Some s) zeroTime zeroTime ChainStart"
  let ?rs = "own_rows db s" and ?W = "fst (watermark db s)"
  note l = chain_rows_linked [OF ok, of s]
  from Sweep_effect [OF ok sweep(2,3), of page cutoff] sweep(1) have "sweeps_to cutoff db db'" by simp
  then obtain k where "prefix_pruned cutoff db db' s k" by (auto simp: sweeps_to_def)
  then have k: "own_rows db' s = drop k ?rs" "fst (watermark db' s) = ?W + int k"
    by (simp_all add: prefix_pruned_def watermark_def)
  with gone have k0: "0 < k" by (cases k) auto
  have ne: "?rs \<noteq> []" using gone k by auto
  define n where "n = verificationPage rd (vr_Checked ?result)"
  have n: "0 < n" using rd by (auto simp: n_def verificationPage_def startResult_def)
  let ?page = "take (nat n) ?rs"
  have "?rs = rangeRows far s zeroTime zeroTime ChainStart db"
    using linked_sort_key [OF l] by (simp add: open_range [OF far] watermarked_rows [OF ok])
  moreover have "cw_lastSeq ?w = ChainStart" by (simp add: startWalk_def)
  ultimately have page: "chainPage env far s zeroTime zeroTime (cw_lastSeq ?w) n (?view 0) = Inr (map (decoded env) ?page)"
    using chainPage_readable [OF audit_okD(3) [OF ok]] by simp
  have pne: "?page \<noteq> []" using n ne by simp
  have "hd ?rs \<in> set (db_entries db)" using hd_in_set [OF ne] by (simp add: set_own_rows)
  then have hd: "ent_Seq (se_entry (hd (map (decoded env) ?page))) = ?W + 1"
    using l ne pne n audit_okD(3) [OF ok] by (cases ?rs) (auto simp: hd_map hd_take decoded_fields)
  have absent: "find (\<lambda>r. ae_scope r = s \<and> ae_seq r = ?W) (db_entries db') = None"
  proof -
    have "ae_seq r \<noteq> ?W" if "r \<in> set (db_entries db')" "ae_scope r = s" for r
    proof -
      have "r \<in> set (own_rows db' s)" using that by (simp add: set_own_rows)
      then have "r \<in> set ?rs" unfolding k(1) by (rule in_set_dropD)
      then show ?thesis using linked_seq_bounds [OF l] by fastforce
    qed
    then show ?thesis by (auto simp: find_None_iff)
  qed
  have "anchorFor env s (?W + 1) db' db' = Inr \<lparr>an_prevHash = [], an_known = False\<rparr>"
    using k(2) k0 absent by (simp add: anchorFor_def prunedThrough_chain_of watermark_def GetAuditLogEntryBySeq_def split: prod.split)
  then have aw: "anchorWalk env ?view s (ent_Seq (se_entry (hd (map (decoded env) ?page)))) (0 + 1) ?w =
      Inr (anchorAt \<lparr>an_prevHash = [], an_known = False\<rparr> (?W + 1) ?w, 3)"
    unfolding hd by (simp add: anchorWalk_def startWalk_def)
  let ?w1 = "anchorAt \<lparr>an_prevHash = [], an_known = False\<rparr> (?W + 1) ?w"
  obtain brk w2 where wp: "walkPage env (map (decoded env) ?page) ?w1 = (brk, w2)" "brk \<noteq> None"
    by (auto simp: walkPage_def anchorAt_def)
  have n0: "n \<noteq> 0" using n by simp
  have sne: "map (decoded env) ?page \<noteq> []" using pne by simp
  from verifyLoop_page [OF n_def n0 page sne aw wp(1) refl] wp(2) show ?thesis
    by (simp add: Verify_def owner_def Intact_def)
qed

end
