(* ===== verification/Meter_Types.thy ===== *)
theory Meter_Types
  imports Audit_Image
begin

text \<open>
  The vocabulary of the metering component (\<^verbatim>\<open>metering/metering.go\<close>, \<^verbatim>\<open>metering/period.go\<close>,
  \<^verbatim>\<open>metering/registry.go\<close>): aggregations, meters, quotas, usage records, the windows usage is filed in,
  and the registry of meters and quotas.

  A quantity is an \<^verbatim>\<open>int64\<close>, held as an integer; where Go adds or subtracts two of them the result is
  wrapped (\<open>wrap64\<close>). An instant counts nanoseconds from the Unix epoch and \<open>zeroTime\<close> is Go's zero
  \<^verbatim>\<open>time.Time\<close>. A string enumeration of the sources has one more constructor for any other string. A Go
  map is an association list.

  The plain-name check and the JSON encoder of a record's dimensions are packages outside the repository
  and stay parameters, fields of \<open>meter_env\<close>.
\<close>

named_theorems metering_defs \<open>statements and operations of the metering store\<close>

section \<open>Machine integers and stored instants\<close>

definition MaxInt64 :: int where
  "MaxInt64 = 2 ^ 63 - 1"

definition wrap64 :: "int \<Rightarrow> int" where
  "wrap64 n = (n + 2 ^ 63) mod 2 ^ 64 - 2 ^ 63"

definition is_int64 :: "int \<Rightarrow> bool" where
  "is_int64 n \<longleftrightarrow> - (2 ^ 63) \<le> n \<and> n \<le> MaxInt64"

lemma wrap64_id: "is_int64 n \<Longrightarrow> wrap64 n = n"
  by (simp add: is_int64_def wrap64_def MaxInt64_def)

lemma wrap64_in_range: "is_int64 (wrap64 n)"
  unfolding is_int64_def wrap64_def MaxInt64_def by simp

text \<open>\<^verbatim>\<open>time.Time.Truncate\<close>: down to a multiple of the duration since the zero time.\<close>

definition Truncate :: "duration \<Rightarrow> time \<Rightarrow> time" where
  "Truncate d t = (if d \<le> 0 then t else t - (t - zeroTime) mod d)"

lemma Truncate_le: "Truncate d t \<le> t"
  by (simp add: Truncate_def)

lemma Truncate_mono: "s \<le> t \<Longrightarrow> Truncate d s \<le> Truncate d t"
proof (cases "d \<le> 0")
  case False
  assume "s \<le> t"
  then have "(s - zeroTime) div d \<le> (t - zeroTime) div d" using False by (simp add: zdiv_mono1)
  then have "(s - zeroTime) div d * d \<le> (t - zeroTime) div d * d" using False by simp
  then have "(s - zeroTime) - (s - zeroTime) mod d \<le> (t - zeroTime) - (t - zeroTime) mod d"
    by (simp only: minus_mod_eq_div_mult)
  then show ?thesis using False by (simp add: Truncate_def)
qed (simp add: Truncate_def)

lemma Truncate_idem [simp]: "Truncate d (Truncate d t) = Truncate d t"
proof -
  have "((t - zeroTime) - (t - zeroTime) mod d) mod d = 0" by (simp only: minus_mod_eq_div_mult) simp
  then have "(t - (t - zeroTime) mod d - zeroTime) mod d = 0" by (simp add: algebra_simps)
  then show ?thesis by (simp add: Truncate_def)
qed

section \<open>Errors\<close>

datatype metering_error =
    ErrNilStore | ErrNilRegistry | MtrErrNilExecutor | MtrErrNoScope
  | ErrUnknownMeter | ErrDuplicateMeter | ErrDuplicateQuota | ErrInvalidMeterName
  | ErrUnsupportedAggregation | ErrPeriodMismatch | ErrUnknownPeriod | ErrNoBillingPeriodResolver
  | ErrInvalidBounds | ErrEmptySubject | ErrSubjectTooLong | ErrEmptyIdempotencyKey
  | ErrIdempotencyKeyTooLong | ErrNegativeQuantity | ErrNoQuota | ErrInvalidQuotaBehavior
  | ErrNegativeQuotaLimit | ErrNilProviderMapper | ErrNilUsageReporter | ErrNoProviderRef
  | ErrEncodingDimensions | ErrNumericRange | ErrNoTotal | ErrTotalMovedOn | ErrNilTotal
  | ErrInvalidFlusherConfig | ErrFlusherPanicked | ErrReporting string | ErrReadFault string

record meter_env =
  plainname_Valid :: "string \<Rightarrow> nat \<Rightarrow> bool"
  marshal_dimensions :: "(string \<times> string) list \<Rightarrow> string option"

section \<open>Aggregations\<close>

datatype Aggregation =
    AggregationSum | AggregationMax | AggregationLast | AggregationUniqueCount | OtherAggregation string

definition Aggregation_Valid :: "Aggregation \<Rightarrow> bool" where
  "Aggregation_Valid a =
     (case a of AggregationSum \<Rightarrow> True | AggregationMax \<Rightarrow> True | AggregationLast \<Rightarrow> True
      | AggregationUniqueCount \<Rightarrow> True | OtherAggregation _ \<Rightarrow> False)"

definition Aggregation_Supported :: "Aggregation \<Rightarrow> bool" where
  "Aggregation_Supported a =
     (case a of AggregationSum \<Rightarrow> True | AggregationMax \<Rightarrow> True | AggregationLast \<Rightarrow> True
      | AggregationUniqueCount \<Rightarrow> False | OtherAggregation _ \<Rightarrow> False)"

definition Fold :: "Aggregation \<Rightarrow> int \<Rightarrow> int \<Rightarrow> bool \<Rightarrow> int" where
  "Fold a running quantity newer =
     (case a of
        AggregationMax \<Rightarrow> max running quantity
      | AggregationLast \<Rightarrow> if \<not> newer then running else quantity
      | AggregationSum \<Rightarrow> wrap64 (running + quantity)
      | AggregationUniqueCount \<Rightarrow> running
      | OtherAggregation _ \<Rightarrow> running)"

section \<open>Periods\<close>

datatype Period = PeriodDay | PeriodMonth | PeriodBillingPeriod | OtherPeriod string

definition Period_Valid :: "Period \<Rightarrow> bool" where
  "Period_Valid p =
     (case p of PeriodDay \<Rightarrow> True | PeriodMonth \<Rightarrow> True | PeriodBillingPeriod \<Rightarrow> True | OtherPeriod _ \<Rightarrow> False)"

record Bounds =
  bd_Start :: time
  bd_End :: time

definition Contains :: "Bounds \<Rightarrow> time \<Rightarrow> bool" where
  "Contains b t \<longleftrightarrow> \<not> t < bd_Start b \<and> t < bd_End b"

definition Bounds_Valid :: "Bounds \<Rightarrow> bool" where
  "Bounds_Valid b \<longleftrightarrow> bd_Start b \<noteq> zeroTime \<and> bd_Start b < bd_End b"

section \<open>Meters, usage, quotas\<close>

record Meter =
  mt_Name :: string
  mt_Unit :: string
  mt_Aggregation :: Aggregation
  mt_Period :: Period
  mt_Staleness :: duration

record Usage =
  us_OccurredAt :: time
  us_Dimensions :: "(string \<times> string) list"
  us_IdempotencyKey :: string
  us_Subject :: string
  us_Meter :: string
  us_Quantity :: int

datatype QuotaBehavior = BehaviorBlock | BehaviorWarn | BehaviorAllowOverage | OtherBehavior string

record Quota =
  qt_Meter :: string
  qt_Behavior :: QuotaBehavior
  qt_Period :: Period
  qt_Limit :: int

record Decision =
  de_ResetsAt :: time
  de_Meter :: string
  de_Behavior :: QuotaBehavior
  de_Used :: int
  de_Limit :: int
  de_Overage :: int
  de_Allowed :: bool
  de_Stale :: bool
  de_Duplicate :: bool

definition MaxMeterNameLength :: nat where "MaxMeterNameLength = 64"
definition MaxSubjectLength :: nat where "MaxSubjectLength = 255"
definition MaxIdempotencyKeyLength :: nat where "MaxIdempotencyKeyLength = 255"

definition validMeterName :: "meter_env \<Rightarrow> string \<Rightarrow> bool" where
  "validMeterName env name = plainname_Valid env name MaxMeterNameLength"

definition Meter_validate :: "meter_env \<Rightarrow> Meter \<Rightarrow> metering_error option" where
  "Meter_validate env m =
     (if \<not> validMeterName env (mt_Name m) then Some ErrInvalidMeterName
      else if \<not> Aggregation_Valid (mt_Aggregation m) then Some ErrUnsupportedAggregation
      else if \<not> Aggregation_Supported (mt_Aggregation m) then Some ErrUnsupportedAggregation
      else if \<not> Period_Valid (mt_Period m) then Some ErrUnknownPeriod
      else None)"

definition Usage_validate :: "Usage \<Rightarrow> metering_error option" where
  "Usage_validate u =
     (if us_Subject u = [] then Some ErrEmptySubject
      else if length (us_Subject u) > MaxSubjectLength then Some ErrSubjectTooLong
      else if us_Meter u = [] then Some ErrInvalidMeterName
      else if us_IdempotencyKey u = [] then Some ErrEmptyIdempotencyKey
      else if length (us_IdempotencyKey u) > MaxIdempotencyKeyLength then Some ErrIdempotencyKeyTooLong
      else if us_Quantity u < 0 then Some ErrNegativeQuantity
      else None)"

definition Behavior_Valid :: "QuotaBehavior \<Rightarrow> bool" where
  "Behavior_Valid b =
     (case b of BehaviorBlock \<Rightarrow> True | BehaviorWarn \<Rightarrow> True | BehaviorAllowOverage \<Rightarrow> True
      | OtherBehavior _ \<Rightarrow> False)"

definition records :: "QuotaBehavior \<Rightarrow> bool" where
  "records b \<longleftrightarrow> b \<noteq> BehaviorBlock"

definition Unlimited :: int where "Unlimited = MaxInt64"

definition UnlimitedQuota :: "string \<Rightarrow> Period \<Rightarrow> Quota" where
  "UnlimitedQuota meter period =
     \<lparr>qt_Meter = meter, qt_Behavior = BehaviorAllowOverage, qt_Period = period, qt_Limit = Unlimited\<rparr>"

definition Quota_validate :: "Quota \<Rightarrow> Meter \<Rightarrow> metering_error option" where
  "Quota_validate q m =
     (if \<not> Behavior_Valid (qt_Behavior q) then Some ErrInvalidQuotaBehavior
      else if qt_Limit q < 0 then Some ErrNegativeQuotaLimit
      else if qt_Period q \<noteq> mt_Period m then Some ErrPeriodMismatch
      else None)"

definition overageOf :: "int \<Rightarrow> int \<Rightarrow> int" where
  "overageOf used limit = max 0 (wrap64 (used - limit))"

definition newDecision :: "string \<Rightarrow> QuotaBehavior \<Rightarrow> int \<Rightarrow> int \<Rightarrow> time \<Rightarrow> Decision" where
  "newDecision meter behavior projected limit resetsAt =
     \<lparr>de_ResetsAt = resetsAt, de_Meter = meter, de_Behavior = behavior, de_Used = projected, de_Limit = limit,
      de_Overage = overageOf projected limit, de_Allowed = (projected \<le> limit \<or> records behavior),
      de_Stale = False, de_Duplicate = False\<rparr>"

section \<open>The registry\<close>

record Registry =
  rg_meters :: "(string \<times> Meter) list"
  rg_quotas :: "(string \<times> Quota) list"

definition NewRegistry :: Registry where
  "NewRegistry = \<lparr>rg_meters = [], rg_quotas = []\<rparr>"

definition RegisterMeter :: "meter_env \<Rightarrow> Meter \<Rightarrow> Registry \<Rightarrow> metering_error + Registry" where
  "RegisterMeter env m r =
     (case Meter_validate env m of
        Some e \<Rightarrow> Inl e
      | None \<Rightarrow>
          if map_of (rg_meters r) (mt_Name m) \<noteq> None then Inl ErrDuplicateMeter
          else Inr (r\<lparr>rg_meters := (mt_Name m, m) # rg_meters r\<rparr>))"

definition RegisterQuota :: "Quota \<Rightarrow> Registry \<Rightarrow> metering_error + Registry" where
  "RegisterQuota q r =
     (case map_of (rg_meters r) (qt_Meter q) of
        None \<Rightarrow> Inl ErrUnknownMeter
      | Some m \<Rightarrow>
          (case Quota_validate q m of
             Some e \<Rightarrow> Inl e
           | None \<Rightarrow>
               if map_of (rg_quotas r) (qt_Meter q) \<noteq> None then Inl ErrDuplicateQuota
               else Inr (r\<lparr>rg_quotas := (qt_Meter q, q) # rg_quotas r\<rparr>)))"

definition RegisterUnlimitedQuota :: "string \<Rightarrow> Registry \<Rightarrow> metering_error + Registry" where
  "RegisterUnlimitedQuota meter r =
     (case map_of (rg_meters r) meter of
        None \<Rightarrow> Inl ErrUnknownMeter
      | Some m \<Rightarrow> RegisterQuota (UnlimitedQuota meter (mt_Period m)) r)"

definition Registry_Meter :: "Registry \<Rightarrow> string \<Rightarrow> Meter option" where
  "Registry_Meter r name = map_of (rg_meters r) name"

definition Registry_Quota :: "Registry \<Rightarrow> string \<Rightarrow> Quota option" where
  "Registry_Quota r meter = map_of (rg_quotas r) meter"

definition sortedKeys :: "(string \<times> 'a) list \<Rightarrow> string list" where
  "sortedKeys m = sort (map fst m)"

definition MeterNames :: "Registry \<Rightarrow> string list" where
  "MeterNames r = sortedKeys (rg_meters r)"

definition QuotaMeters :: "Registry \<Rightarrow> string list" where
  "QuotaMeters r = sortedKeys (rg_quotas r)"

definition RegistryQuotaFor :: "Registry option \<Rightarrow> string \<Rightarrow> string \<Rightarrow> metering_error + Quota" where
  "RegistryQuotaFor registry subject meter =
     (case registry of
        None \<Rightarrow> Inl ErrNilRegistry
      | Some r \<Rightarrow> (case Registry_Quota r meter of None \<Rightarrow> Inl ErrNoQuota | Some q \<Rightarrow> Inr q))"

lemmas registry_defs = RegisterMeter_def RegisterQuota_def RegisterUnlimitedQuota_def Meter_validate_def
  Quota_validate_def Registry_Meter_def Registry_Quota_def

text \<open>
  What a registry built by its own operations holds: distinct names, meters that passed validation under
  their own name, and quotas of a registered meter with its period and a limit that is not negative.
\<close>

definition meter_registered :: "meter_env \<Rightarrow> string \<times> Meter \<Rightarrow> bool" where
  "meter_registered env nm \<longleftrightarrow> fst nm = mt_Name (snd nm) \<and> Meter_validate env (snd nm) = None"

definition quota_registered :: "Registry \<Rightarrow> string \<times> Quota \<Rightarrow> bool" where
  "quota_registered r nq \<longleftrightarrow> fst nq = qt_Meter (snd nq) \<and>
     (\<exists>m. map_of (rg_meters r) (fst nq) = Some m \<and> Quota_validate (snd nq) m = None)"

definition registry_wf :: "meter_env \<Rightarrow> Registry \<Rightarrow> bool" where
  "registry_wf env r \<longleftrightarrow>
     distinct (map fst (rg_meters r)) \<and> distinct (map fst (rg_quotas r)) \<and>
     list_all (meter_registered env) (rg_meters r) \<and> list_all (quota_registered r) (rg_quotas r)"

lemma NewRegistry_wf: "registry_wf env NewRegistry"
  by (simp add: registry_wf_def NewRegistry_def)

lemma RegisterMeter_wf:
  assumes wf: "registry_wf env r" and reg: "RegisterMeter env m r = Inr r'"
  shows "registry_wf env r'"
proof -
  from reg have v: "Meter_validate env m = None" and new: "map_of (rg_meters r) (mt_Name m) = None"
    and r': "r' = r\<lparr>rg_meters := (mt_Name m, m) # rg_meters r\<rparr>"
    by (auto simp: RegisterMeter_def split: option.splits if_splits)
  have "quota_registered r' nq" if "quota_registered r nq" for nq
    using that new unfolding quota_registered_def r' by auto
  moreover have "mt_Name m \<notin> fst ` set (rg_meters r)" using new by (simp add: map_of_eq_None_iff)
  ultimately show ?thesis
    using wf v by (auto simp: registry_wf_def list_all_iff r' meter_registered_def)
qed

lemma RegisterQuota_wf:
  assumes wf: "registry_wf env r" and reg: "RegisterQuota q r = Inr r'"
  shows "registry_wf env r'"
proof -
  from reg obtain m where m: "map_of (rg_meters r) (qt_Meter q) = Some m" and v: "Quota_validate q m = None"
    and new: "map_of (rg_quotas r) (qt_Meter q) = None"
    and r': "r' = r\<lparr>rg_quotas := (qt_Meter q, q) # rg_quotas r\<rparr>"
    by (auto simp: RegisterQuota_def split: option.splits if_splits)
  have "quota_registered r' = quota_registered r" by (rule ext) (simp add: quota_registered_def r')
  moreover have "quota_registered r (qt_Meter q, q)" using m v by (simp add: quota_registered_def)
  moreover have "qt_Meter q \<notin> fst ` set (rg_quotas r)" using new by (simp add: map_of_eq_None_iff)
  ultimately show ?thesis using wf by (auto simp: registry_wf_def r')
qed

lemma RegisterUnlimitedQuota_wf:
  "registry_wf env r \<Longrightarrow> RegisterUnlimitedQuota n r = Inr r' \<Longrightarrow> registry_wf env r'"
  unfolding RegisterUnlimitedQuota_def by (auto intro: RegisterQuota_wf split: option.splits)

lemma registered_meter:
  "registry_wf env r \<Longrightarrow> Registry_Meter r n = Some m \<Longrightarrow>
   mt_Name m = n \<and> validMeterName env n \<and> Aggregation_Supported (mt_Aggregation m) \<and> Period_Valid (mt_Period m)"
  unfolding registry_wf_def Registry_Meter_def
  by (auto simp: list_all_iff meter_registered_def Meter_validate_def dest!: map_of_SomeD split: if_splits)

lemma registered_quota:
  "registry_wf env r \<Longrightarrow> Registry_Quota r n = Some q \<Longrightarrow>
   qt_Meter q = n \<and> 0 \<le> qt_Limit q \<and> Behavior_Valid (qt_Behavior q) \<and>
   (\<exists>m. Registry_Meter r n = Some m \<and> qt_Period q = mt_Period m)"
  unfolding registry_wf_def Registry_Meter_def Registry_Quota_def
  by (fastforce simp: list_all_iff quota_registered_def Quota_validate_def dest!: map_of_SomeD split: if_splits)

end
