(* ===== verification/Meter_Store.thy ===== *)
theory Meter_Store
  imports Meter_Types
begin

text \<open>
  The two metering tables, the statements of \<^verbatim>\<open>metering/internal/queries/queries.go\<close> and the methods of
  \<^verbatim>\<open>metering/sqlstore.go\<close>, with the schema of \<^verbatim>\<open>metering/migrations\<close>: an event is keyed by scope, meter
  and idempotency key, a total by scope, subject, meter and period start.

  Each method is a function of the tables; an error is a transaction that rolls back. \<open>tx\<close> says whether
  the caller passed a transaction. A sum that leaves \<^verbatim>\<open>BIGINT\<close> is the error Postgres and MySQL raise; SQLite
  turns it into a floating point value, which is not modelled. \<open>res\<close> is the store's resolution: every
  bound instant is brought down to it. \<open>locked\<close> says which rows another transaction holds, which the two
  \<^verbatim>\<open>SKIP LOCKED\<close> reads leave out; without that clause it is the predicate that holds nowhere.
\<close>

section \<open>Tables\<close>

record event_row =
  ev_scope :: string
  ev_idempotency_key :: string
  ev_subject :: string
  ev_meter :: string
  ev_quantity :: int
  ev_occurred_at :: time
  ev_recorded_at :: time
  ev_period_start :: time
  ev_dimensions :: "string option"

record total_row =
  to_scope :: string
  to_subject :: string
  to_meter :: string
  to_period_start :: time
  to_period_end :: time
  to_aggregation :: Aggregation
  to_quantity :: int
  to_last_occurred_at :: time
  to_claimed_quantity :: int
  to_flushed_quantity :: int
  to_flush_sequence :: int
  to_flush_attempts :: int
  to_next_flush :: time
  to_claimed_until :: "time option"
  to_last_error :: string
  to_created_at :: time
  to_last_updated_at :: "time option"

record mtr_db =
  md_events :: "event_row list"
  md_totals :: "total_row list"

type_synonym event_key = "string \<times> string \<times> string"
type_synonym total_key = "string \<times> string \<times> string \<times> time"

definition event_pk :: "event_row \<Rightarrow> event_key" where
  "event_pk e = (ev_scope e, ev_meter e, ev_idempotency_key e)"

definition total_pk :: "total_row \<Rightarrow> total_key" where
  "total_pk r = (to_scope r, to_subject r, to_meter r, to_period_start r)"

definition event_total :: "event_row \<Rightarrow> total_key" where
  "event_total e = (ev_scope e, ev_subject e, ev_meter e, ev_period_start e)"

interpretation events: keyed_table event_pk .
interpretation totals: keyed_table total_pk .

definition total_at :: "mtr_db \<Rightarrow> total_key \<Rightarrow> total_row option" where
  "total_at db = row_at total_pk (md_totals db)"

section \<open>Event statements\<close>

definition InsertMeteringEvent :: "event_row \<Rightarrow> mtr_db \<Rightarrow> int \<times> mtr_db" where
  "InsertMeteringEvent e db =
     (if event_pk e \<in> event_pk ` set (md_events db) then (0, db)
      else (1, db\<lparr>md_events := md_events db @ [e]\<rparr>))"

definition MeteringEventExists :: "string \<Rightarrow> string \<Rightarrow> string \<Rightarrow> mtr_db \<Rightarrow> bool" where
  "MeteringEventExists scope meter key db \<longleftrightarrow> (scope, meter, key) \<in> event_pk ` set (md_events db)"

definition owes :: "total_row \<Rightarrow> bool" where
  "owes r \<longleftrightarrow> to_quantity r > to_flushed_quantity r"

definition reapable :: "time \<Rightarrow> mtr_db \<Rightarrow> event_row \<Rightarrow> bool" where
  "reapable horizon db e \<longleftrightarrow>
     ev_recorded_at e \<le> horizon \<and> \<not> list_ex (\<lambda>t. total_pk t = event_total e \<and> owes t) (md_totals db)"

definition PruneMeteringEvents :: "(event_key \<Rightarrow> bool) \<Rightarrow> time \<Rightarrow> int \<Rightarrow> mtr_db \<Rightarrow> int \<times> mtr_db" where
  "PruneMeteringEvents locked horizon limit db =
     (let doomed = sql_top limit ev_recorded_at (\<lambda>e. reapable horizon db e \<and> \<not> locked (event_pk e)) (md_events db);
          kept = sql_delete (\<lambda>e. event_pk e \<in> event_pk ` set doomed) (md_events db)
      in (int (length (md_events db)) - int (length kept), db\<lparr>md_events := kept\<rparr>))"

section \<open>Total statements\<close>

definition InsertMeteringTotal :: "total_row \<Rightarrow> mtr_db \<Rightarrow> mtr_db" where
  "InsertMeteringTotal r db =
     (if total_pk r \<in> total_pk ` set (md_totals db) then db else db\<lparr>md_totals := md_totals db @ [r]\<rparr>)"

definition update_total :: "total_key \<Rightarrow> (total_row \<Rightarrow> bool) \<Rightarrow> (total_row \<Rightarrow> total_row) \<Rightarrow> mtr_db \<Rightarrow> int \<times> mtr_db" where
  "update_total k guard f db =
     (sql_count (\<lambda>r. total_pk r = k \<and> guard r) (md_totals db),
      db\<lparr>md_totals := sql_update (\<lambda>r. total_pk r = k \<and> guard r) f (md_totals db)\<rparr>)"

definition keepLarger :: "int \<Rightarrow> int \<Rightarrow> int" where
  "keepLarger column argument = (if column < argument then argument else column)"

text \<open>The two assignments every fold makes after its own.\<close>

definition fold_stamps :: "time \<Rightarrow> time \<Rightarrow> total_row \<Rightarrow> total_row" where
  "fold_stamps occurred updated r =
     r\<lparr>to_last_occurred_at := keepLarger (to_last_occurred_at r) occurred, to_last_updated_at := Some updated\<rparr>"

definition sum_row :: "int \<Rightarrow> time \<Rightarrow> time \<Rightarrow> total_row \<Rightarrow> total_row" where
  "sum_row q occurred updated r = (fold_stamps occurred updated r)\<lparr>to_quantity := to_quantity r + q\<rparr>"

definition max_row :: "int \<Rightarrow> time \<Rightarrow> time \<Rightarrow> total_row \<Rightarrow> total_row" where
  "max_row q occurred updated r = (fold_stamps occurred updated r)\<lparr>to_quantity := keepLarger (to_quantity r) q\<rparr>"

definition last_row :: "int \<Rightarrow> time \<Rightarrow> time \<Rightarrow> total_row \<Rightarrow> total_row" where
  "last_row q occurred updated r =
     (fold_stamps occurred updated r)\<lparr>to_quantity := (if to_last_occurred_at r < occurred then q else to_quantity r)\<rparr>"

definition FoldMeteringTotalSum :: "int \<Rightarrow> time \<Rightarrow> time \<Rightarrow> total_key \<Rightarrow> mtr_db \<Rightarrow> metering_error + mtr_db" where
  "FoldMeteringTotalSum q occurred updated k db =
     (if list_ex (\<lambda>r. total_pk r = k \<and> \<not> is_int64 (to_quantity r + q)) (md_totals db) then Inl ErrNumericRange
      else Inr (snd (update_total k (\<lambda>_. True) (sum_row q occurred updated) db)))"

definition FoldMeteringTotalMax :: "int \<Rightarrow> time \<Rightarrow> time \<Rightarrow> total_key \<Rightarrow> mtr_db \<Rightarrow> mtr_db" where
  "FoldMeteringTotalMax q occurred updated k db = snd (update_total k (\<lambda>_. True) (max_row q occurred updated) db)"

definition FoldMeteringTotalLast :: "int \<Rightarrow> time \<Rightarrow> time \<Rightarrow> total_key \<Rightarrow> mtr_db \<Rightarrow> mtr_db" where
  "FoldMeteringTotalLast q occurred updated k db = snd (update_total k (\<lambda>_. True) (last_row q occurred updated) db)"

definition ApplyMeteringConsume :: "int \<Rightarrow> time \<Rightarrow> time \<Rightarrow> total_key \<Rightarrow> mtr_db \<Rightarrow> mtr_db" where
  "ApplyMeteringConsume q occurred updated k db =
     snd (update_total k (\<lambda>_. True)
       (\<lambda>r. r\<lparr>to_quantity := q, to_last_occurred_at := occurred, to_last_updated_at := Some updated\<rparr>) db)"

definition flush_order :: "total_row \<Rightarrow> time \<times> string \<times> string \<times> string" where
  "flush_order r = (to_next_flush r, to_scope r, to_subject r, to_meter r)"

definition flushable :: "time \<Rightarrow> int \<Rightarrow> total_row \<Rightarrow> bool" where
  "flushable now maxAttempts r \<longleftrightarrow>
     owes r \<and> to_next_flush r \<le> now \<and> to_flush_attempts r < maxAttempts \<and>
     (case to_claimed_until r of None \<Rightarrow> True | Some u \<Rightarrow> u \<le> now)"

definition SelectFlushableMeteringTotals ::
  "(total_key \<Rightarrow> bool) \<Rightarrow> time \<Rightarrow> int \<Rightarrow> int \<Rightarrow> mtr_db \<Rightarrow> total_row list" where
  "SelectFlushableMeteringTotals locked now maxAttempts limit db =
     sql_top limit flush_order (\<lambda>r. flushable now maxAttempts r \<and> \<not> locked (total_pk r)) (md_totals db)"

definition PinnedQuantity :: "int \<Rightarrow> int \<Rightarrow> int \<Rightarrow> int" where
  "PinnedQuantity claimed flushed quantity = (if claimed > flushed then claimed else quantity)"

definition pinned_row :: "time \<Rightarrow> total_row \<Rightarrow> total_row" where
  "pinned_row until r =
     r\<lparr>to_claimed_quantity := PinnedQuantity (to_claimed_quantity r) (to_flushed_quantity r) (to_quantity r),
       to_claimed_until := Some until, to_flush_attempts := to_flush_attempts r + 1\<rparr>"

definition ClaimMeteringTotal :: "time \<Rightarrow> total_key \<Rightarrow> mtr_db \<Rightarrow> int \<times> mtr_db" where
  "ClaimMeteringTotal until k = update_total k owes (pinned_row until)"

definition settled_row :: "time \<Rightarrow> time \<Rightarrow> total_row \<Rightarrow> total_row" where
  "settled_row nextFlush updated r =
     r\<lparr>to_flushed_quantity := to_claimed_quantity r, to_flush_sequence := to_flush_sequence r + 1,
       to_flush_attempts := 0, to_next_flush := nextFlush, to_claimed_until := None, to_last_error := [],
       to_last_updated_at := Some updated\<rparr>"

definition MarkMeteringTotalFlushed :: "time \<Rightarrow> time \<Rightarrow> total_key \<Rightarrow> int \<Rightarrow> mtr_db \<Rightarrow> int \<times> mtr_db" where
  "MarkMeteringTotalFlushed nextFlush updated k seq =
     update_total k (\<lambda>r. to_flush_sequence r = seq) (settled_row nextFlush updated)"

definition released_total :: "time \<Rightarrow> string \<Rightarrow> time \<Rightarrow> total_row \<Rightarrow> total_row" where
  "released_total nextFlush lastErr updated r =
     r\<lparr>to_next_flush := nextFlush, to_last_error := lastErr, to_claimed_until := None,
       to_last_updated_at := Some updated\<rparr>"

definition ReleaseMeteringFlush ::
  "time \<Rightarrow> string \<Rightarrow> time \<Rightarrow> total_key \<Rightarrow> int \<Rightarrow> mtr_db \<Rightarrow> int \<times> mtr_db" where
  "ReleaseMeteringFlush nextFlush lastErr updated k seq =
     update_total k (\<lambda>r. to_flush_sequence r = seq) (released_total nextFlush lastErr updated)"

section \<open>The store\<close>

datatype meter_dialect = Meter_Postgres | Meter_MySQL | Meter_SQLite

definition storedResolution :: "meter_dialect \<Rightarrow> duration" where
  "storedResolution d = (if d = Meter_SQLite then Second else Microsecond)"

record UsageEntry =
  ue_Usage :: Usage
  ue_Bounds :: Bounds
  ue_Aggregation :: Aggregation

record RecordResult =
  rr_Accepted :: int
  rr_Duplicates :: int

record Total =
  tt_PeriodStart :: time
  tt_PeriodEnd :: time
  tt_LastOccurredAt :: time
  tt_NextFlush :: time
  tt_Subject :: string
  tt_Meter :: string
  tt_LastError :: string
  tt_Aggregation :: Aggregation
  tt_Scope :: tscope
  tt_Quantity :: int
  tt_ClaimedQuantity :: int
  tt_FlushedQuantity :: int
  tt_FlushSequence :: int
  tt_FlushAttempts :: int

definition totalFrom :: "total_row \<Rightarrow> Total" where
  "totalFrom r =
     \<lparr>tt_PeriodStart = to_period_start r, tt_PeriodEnd = to_period_end r, tt_LastOccurredAt = to_last_occurred_at r,
      tt_NextFlush = to_next_flush r, tt_Subject = to_subject r, tt_Meter = to_meter r,
      tt_LastError = to_last_error r, tt_Aggregation = to_aggregation r, tt_Scope = Some (to_scope r),
      tt_Quantity = to_quantity r, tt_ClaimedQuantity = to_claimed_quantity r,
      tt_FlushedQuantity = to_flushed_quantity r, tt_FlushSequence = to_flush_sequence r,
      tt_FlushAttempts = to_flush_attempts r\<rparr>"

definition Pending :: "Total option \<Rightarrow> bool" where
  "Pending t = (case t of None \<Rightarrow> False | Some t \<Rightarrow> tt_Quantity t > tt_FlushedQuantity t)"

definition Delta :: "Total option \<Rightarrow> int" where
  "Delta t = (case t of None \<Rightarrow> 0 | Some t \<Rightarrow> max 0 (wrap64 (tt_ClaimedQuantity t - tt_FlushedQuantity t)))"

definition seedLastOccurredAt :: "Bounds \<Rightarrow> time" where
  "seedLastOccurredAt b = bd_Start b - Second"

definition laterOf :: "time \<Rightarrow> time \<Rightarrow> time" where
  "laterOf a b = (if b > a then b else a)"

definition encodeDimensions :: "meter_env \<Rightarrow> (string \<times> string) list \<Rightarrow> metering_error + string option" where
  "encodeDimensions env d =
     (if d = [] then Inr None
      else (case marshal_dimensions env d of None \<Rightarrow> Inl ErrEncodingDimensions | Some s \<Rightarrow> Inr (Some s)))"

definition entry_key :: "duration \<Rightarrow> tscope \<Rightarrow> UsageEntry \<Rightarrow> total_key" where
  "entry_key res s e =
     (owner s, us_Subject (ue_Usage e), us_Meter (ue_Usage e), Truncate res (bd_Start (ue_Bounds e)))"

definition event_of ::
  "duration \<Rightarrow> tscope \<Rightarrow> UsageEntry \<Rightarrow> time \<Rightarrow> string option \<Rightarrow> event_row" where
  "event_of res s e at dims =
     \<lparr>ev_scope = owner s, ev_idempotency_key = us_IdempotencyKey (ue_Usage e), ev_subject = us_Subject (ue_Usage e),
      ev_meter = us_Meter (ue_Usage e), ev_quantity = us_Quantity (ue_Usage e),
      ev_occurred_at = Truncate res (us_OccurredAt (ue_Usage e)), ev_recorded_at = Truncate res at,
      ev_period_start = Truncate res (bd_Start (ue_Bounds e)), ev_dimensions = dims\<rparr>"

definition insertEvent ::
  "meter_env \<Rightarrow> duration \<Rightarrow> tscope \<Rightarrow> UsageEntry \<Rightarrow> time \<Rightarrow> mtr_db \<Rightarrow> metering_error + bool \<times> mtr_db" where
  "insertEvent env res s e at db =
     (case encodeDimensions env (us_Dimensions (ue_Usage e)) of
        Inl err \<Rightarrow> Inl err
      | Inr dims \<Rightarrow> (let (affected, db') = InsertMeteringEvent (event_of res s e at dims) db in Inr (affected > 0, db')))"

definition eventExists :: "tscope \<Rightarrow> UsageEntry \<Rightarrow> mtr_db \<Rightarrow> bool" where
  "eventExists s e db =
     MeteringEventExists (owner s) (us_Meter (ue_Usage e)) (us_IdempotencyKey (ue_Usage e)) db"

definition opened_row ::
  "duration \<Rightarrow> tscope \<Rightarrow> string \<Rightarrow> string \<Rightarrow> Aggregation \<Rightarrow> Bounds \<Rightarrow> time \<Rightarrow> total_row" where
  "opened_row res s subject meter aggregation bounds at =
     \<lparr>to_scope = owner s, to_subject = subject, to_meter = meter, to_period_start = Truncate res (bd_Start bounds),
      to_period_end = Truncate res (bd_End bounds), to_aggregation = aggregation, to_quantity = 0,
      to_last_occurred_at = Truncate res (seedLastOccurredAt bounds), to_claimed_quantity = 0,
      to_flushed_quantity = 0, to_flush_sequence = 0, to_flush_attempts = 0, to_next_flush = Truncate res at,
      to_claimed_until = None, to_last_error = [], to_created_at = Truncate res at, to_last_updated_at = None\<rparr>"

definition openTotal ::
  "duration \<Rightarrow> tscope \<Rightarrow> string \<Rightarrow> string \<Rightarrow> Aggregation \<Rightarrow> Bounds \<Rightarrow> time \<Rightarrow> mtr_db \<Rightarrow> mtr_db" where
  "openTotal res s subject meter aggregation bounds at =
     InsertMeteringTotal (opened_row res s subject meter aggregation bounds at)"

subsection \<open>Recording\<close>

record entryGroup =
  gr_bounds :: Bounds
  gr_lastOccurredAt :: time
  gr_subject :: string
  gr_meter :: string
  gr_aggregation :: Aggregation
  gr_quantity :: int

text \<open>\<open>fmt\<close> is the layout \<^verbatim>\<open>time.RFC3339Nano\<close> of an instant in UTC.\<close>

definition group_key :: "(time \<Rightarrow> string) \<Rightarrow> UsageEntry \<Rightarrow> string" where
  "group_key fmt e =
     us_Subject (ue_Usage e) @ [CHR 0x00] @ us_Meter (ue_Usage e) @ [CHR 0x00] @ fmt (bd_Start (ue_Bounds e))"

definition new_group :: "UsageEntry \<Rightarrow> entryGroup" where
  "new_group e =
     \<lparr>gr_bounds = ue_Bounds e, gr_lastOccurredAt = seedLastOccurredAt (ue_Bounds e),
      gr_subject = us_Subject (ue_Usage e), gr_meter = us_Meter (ue_Usage e),
      gr_aggregation = ue_Aggregation e, gr_quantity = 0\<rparr>"

definition into_group :: "duration \<Rightarrow> UsageEntry \<Rightarrow> entryGroup \<Rightarrow> entryGroup" where
  "into_group res e g =
     (let occurred = Truncate res (us_OccurredAt (ue_Usage e));
          newer = occurred > gr_lastOccurredAt g;
          g' = g\<lparr>gr_quantity := Fold (ue_Aggregation e) (gr_quantity g) (us_Quantity (ue_Usage e)) newer\<rparr>
      in if newer then g'\<lparr>gr_lastOccurredAt := occurred\<rparr> else g')"

text \<open>The map of groups in the order each key was first seen.\<close>

fun group_entry ::
  "(time \<Rightarrow> string) \<Rightarrow> duration \<Rightarrow> UsageEntry \<Rightarrow> (string \<times> entryGroup) list \<Rightarrow> (string \<times> entryGroup) list" where
  "group_entry fmt res e [] = [(group_key fmt e, into_group res e (new_group e))]"
| "group_entry fmt res e ((k, g) # gs) =
     (if k = group_key fmt e then (k, into_group res e g) # gs else (k, g) # group_entry fmt res e gs)"

definition groupEntries :: "(time \<Rightarrow> string) \<Rightarrow> duration \<Rightarrow> UsageEntry list \<Rightarrow> entryGroup list" where
  "groupEntries fmt res es = map snd (fold (group_entry fmt res) es [])"

definition group_total :: "duration \<Rightarrow> tscope \<Rightarrow> entryGroup \<Rightarrow> total_key" where
  "group_total res s g = (owner s, gr_subject g, gr_meter g, Truncate res (bd_Start (gr_bounds g)))"

definition fold_group ::
  "duration \<Rightarrow> tscope \<Rightarrow> time \<Rightarrow> entryGroup \<Rightarrow> mtr_db \<Rightarrow> metering_error + mtr_db" where
  "fold_group res s at g db =
     (let db = openTotal res s (gr_subject g) (gr_meter g) (gr_aggregation g) (gr_bounds g) at db;
          occurred = Truncate res (gr_lastOccurredAt g);
          updated = Truncate res at;
          k = group_total res s g
      in case gr_aggregation g of
           AggregationSum \<Rightarrow> FoldMeteringTotalSum (gr_quantity g) occurred updated k db
         | AggregationMax \<Rightarrow> Inr (FoldMeteringTotalMax (gr_quantity g) occurred updated k db)
         | AggregationLast \<Rightarrow> Inr (FoldMeteringTotalLast (gr_quantity g) occurred updated k db)
         | AggregationUniqueCount \<Rightarrow> Inl ErrUnsupportedAggregation
         | OtherAggregation _ \<Rightarrow> Inl ErrUnsupportedAggregation)"

fun fold_groups ::
  "duration \<Rightarrow> tscope \<Rightarrow> time \<Rightarrow> entryGroup list \<Rightarrow> mtr_db \<Rightarrow> metering_error + mtr_db" where
  "fold_groups res s at [] db = Inr db"
| "fold_groups res s at (g # gs) db =
     (case fold_group res s at g db of Inl err \<Rightarrow> Inl err | Inr db \<Rightarrow> fold_groups res s at gs db)"

text \<open>The first loop of \<^verbatim>\<open>record\<close>: the entries whose ledger row was new, in order.\<close>

fun insert_entries ::
  "meter_env \<Rightarrow> duration \<Rightarrow> tscope \<Rightarrow> time \<Rightarrow> UsageEntry list \<Rightarrow> mtr_db \<Rightarrow> metering_error + UsageEntry list \<times> mtr_db" where
  "insert_entries env res s at [] db = Inr ([], db)"
| "insert_entries env res s at (e # es) db =
     (case insertEvent env res s e at db of
        Inl err \<Rightarrow> Inl err
      | Inr (inserted, db) \<Rightarrow>
          (case insert_entries env res s at es db of
             Inl err \<Rightarrow> Inl err
           | Inr (accepted, db) \<Rightarrow> Inr (if inserted then e # accepted else accepted, db)))"

definition Store_Record ::
  "meter_env \<Rightarrow> (time \<Rightarrow> string) \<Rightarrow> duration \<Rightarrow> bool \<Rightarrow> tscope \<Rightarrow> UsageEntry list \<Rightarrow> time \<Rightarrow> mtr_db \<Rightarrow>
   metering_error + RecordResult \<times> mtr_db" where
  "Store_Record env fmt res tx s entries at db =
     (if \<not> tx then Inl MtrErrNilExecutor
      else if s = None then Inl MtrErrNoScope
      else if entries = [] then Inr (\<lparr>rr_Accepted = 0, rr_Duplicates = 0\<rparr>, db)
      else (case insert_entries env res s at entries db of
              Inl err \<Rightarrow> Inl err
            | Inr (accepted, db) \<Rightarrow>
                (case fold_groups res s at (groupEntries fmt res accepted) db of
                   Inl err \<Rightarrow> Inl err
                 | Inr db \<Rightarrow>
                     Inr (\<lparr>rr_Accepted = int (length accepted),
                           rr_Duplicates = int (length entries) - int (length accepted)\<rparr>, db))))"

subsection \<open>Reading\<close>

definition Store_Total ::
  "duration \<Rightarrow> bool \<Rightarrow> tscope \<Rightarrow> string \<Rightarrow> string \<Rightarrow> Bounds \<Rightarrow> mtr_db \<Rightarrow> metering_error + Total" where
  "Store_Total res q s subject meter bounds db =
     (if \<not> q then Inl MtrErrNilExecutor
      else if s = None then Inl MtrErrNoScope
      else (case total_at db (owner s, subject, meter, Truncate res (bd_Start bounds)) of
              Some r \<Rightarrow> Inr (totalFrom r)
            | None \<Rightarrow>
                Inr \<lparr>tt_PeriodStart = bd_Start bounds, tt_PeriodEnd = bd_End bounds, tt_LastOccurredAt = zeroTime,
                     tt_NextFlush = zeroTime, tt_Subject = subject, tt_Meter = meter, tt_LastError = [],
                     tt_Aggregation = OtherAggregation [], tt_Scope = s, tt_Quantity = 0, tt_ClaimedQuantity = 0,
                     tt_FlushedQuantity = 0, tt_FlushSequence = 0, tt_FlushAttempts = 0\<rparr>))"

subsection \<open>Consuming\<close>

definition consume ::
  "meter_env \<Rightarrow> duration \<Rightarrow> tscope \<Rightarrow> UsageEntry \<Rightarrow> int \<Rightarrow> QuotaBehavior \<Rightarrow> time \<Rightarrow> mtr_db \<Rightarrow>
   metering_error + Decision \<times> mtr_db" where
  "consume env res s e limit behavior at db =
     (let u = ue_Usage e;
          k = entry_key res s e;
          db = openTotal res s (us_Subject u) (us_Meter u) (ue_Aggregation e) (ue_Bounds e) at db
      in case total_at db k of
           None \<Rightarrow> Inl ErrNoTotal
         | Some row \<Rightarrow>
             (let total = totalFrom row;
                  occurred = Truncate res (us_OccurredAt u);
                  newer = occurred > tt_LastOccurredAt total;
                  projected = Fold (ue_Aggregation e) (tt_Quantity total) (us_Quantity u) newer;
                  decision = newDecision (us_Meter u) behavior projected limit (bd_End (ue_Bounds e));
                  current = decision\<lparr>de_Used := tt_Quantity total, de_Overage := overageOf (tt_Quantity total) limit\<rparr>
              in if \<not> de_Allowed decision \<and> \<not> records behavior
                 then Inr (if eventExists s e db then current\<lparr>de_Duplicate := True, de_Allowed := True\<rparr> else current, db)
                 else (case insertEvent env res s e at db of
                         Inl err \<Rightarrow> Inl err
                       | Inr (inserted, db) \<Rightarrow>
                           if \<not> inserted then Inr (current\<lparr>de_Duplicate := True\<rparr>, db)
                           else Inr (decision,
                                 ApplyMeteringConsume projected (laterOf (tt_LastOccurredAt total) occurred)
                                   (Truncate res at) k db))))"

definition Store_Consume ::
  "meter_env \<Rightarrow> duration \<Rightarrow> bool \<Rightarrow> tscope \<Rightarrow> UsageEntry \<Rightarrow> int \<Rightarrow> QuotaBehavior \<Rightarrow> time \<Rightarrow> mtr_db \<Rightarrow>
   metering_error + Decision \<times> mtr_db" where
  "Store_Consume env res tx s e limit behavior at db =
     (if \<not> tx then Inl MtrErrNilExecutor
      else if s = None then Inl MtrErrNoScope
      else consume env res s e limit behavior at db)"

subsection \<open>Flushing and retention\<close>

definition row_key :: "Total \<Rightarrow> total_key" where
  "row_key t = (owner (tt_Scope t), tt_Subject t, tt_Meter t, tt_PeriodStart t)"

fun lease_totals :: "duration \<Rightarrow> time \<Rightarrow> total_row list \<Rightarrow> mtr_db \<Rightarrow> Total list \<times> mtr_db" where
  "lease_totals res until [] db = ([], db)"
| "lease_totals res until (r # rs) db =
     (let total = totalFrom r;
          (affected, db) = ClaimMeteringTotal (Truncate res until) (row_key total) db
      in if affected = 0 then lease_totals res until rs db
         else (let total = total\<lparr>tt_ClaimedQuantity := PinnedQuantity (tt_ClaimedQuantity total)
                                   (tt_FlushedQuantity total) (tt_Quantity total),
                                 tt_FlushAttempts := tt_FlushAttempts total + 1\<rparr>;
                   (claimed, db) = lease_totals res until rs db
               in (total # claimed, db)))"

definition ClaimFlushable ::
  "duration \<Rightarrow> (total_key \<Rightarrow> bool) \<Rightarrow> time \<Rightarrow> int \<Rightarrow> int \<Rightarrow> time \<Rightarrow> mtr_db \<Rightarrow> Total list \<times> mtr_db" where
  "ClaimFlushable res locked now limit maxAttempts leaseUntil db =
     lease_totals res leaseUntil
       (SelectFlushableMeteringTotals locked (Truncate res now) maxAttempts limit db) db"

definition guard_count :: "int \<times> mtr_db \<Rightarrow> metering_error + mtr_db" where
  "guard_count ad = (if fst ad = 0 then Inl ErrTotalMovedOn else Inr (snd ad))"

definition MarkFlushed :: "duration \<Rightarrow> Total option \<Rightarrow> time \<Rightarrow> mtr_db \<Rightarrow> metering_error + mtr_db" where
  "MarkFlushed res claimed at db =
     (case claimed of
        None \<Rightarrow> Inl ErrNilTotal
      | Some t \<Rightarrow> guard_count
          (MarkMeteringTotalFlushed (Truncate res at) (Truncate res at) (row_key t) (tt_FlushSequence t) db))"

definition ReleaseFlush :: "duration \<Rightarrow> Total option \<Rightarrow> string \<Rightarrow> time \<Rightarrow> mtr_db \<Rightarrow> metering_error + mtr_db" where
  "ReleaseFlush res claimed lastErr nextFlush db =
     (case claimed of
        None \<Rightarrow> Inl ErrNilTotal
      | Some t \<Rightarrow> guard_count
          (ReleaseMeteringFlush (Truncate res nextFlush) lastErr (Truncate res nextFlush) (row_key t) (tt_FlushSequence t) db))"

definition ReapEvents :: "duration \<Rightarrow> (event_key \<Rightarrow> bool) \<Rightarrow> time \<Rightarrow> int \<Rightarrow> mtr_db \<Rightarrow> int \<times> mtr_db" where
  "ReapEvents res locked horizon limit db =
     (if limit \<le> 0 then (0, db) else PruneMeteringEvents locked (Truncate res horizon) limit db)"

end
