(* ===== verification/Meter_Fold.thy ===== *)
theory Meter_Fold
  imports Meter_Store
begin

text \<open>
  The batch fold of \<^verbatim>\<open>Record\<close> against the statements: grouping the accepted records in process and
  folding each group into its total is the same as folding the records one at a time
  (\<open>batch_is_one_at_a_time\<close>), which is what \<^verbatim>\<open>groupEntries\<close> and \<^verbatim>\<open>Aggregation.Fold\<close> promise. The one way
  the two come apart is a sum past \<^verbatim>\<open>int64\<close> (\<open>batch_sum_wraps\<close>).

  A group's write to the totals is, on every aggregation, an \<open>open_fold\<close>: open the row, test it, update
  it. The proof commutes such writes at different keys and merges two at the same key.
\<close>

section \<open>Keys\<close>

text \<open>A separator that does not occur to its right is found from the right.\<close>

lemma split_at_last_separator:
  assumes "c \<notin> set b" "c \<notin> set b'" "a @ c # b = a' @ c # b'"
  shows "a = a' \<and> b = b'"
proof -
  have tail: "takeWhile (\<lambda>x. x \<noteq> c) (rev (x @ c # y)) = rev y" if "c \<notin> set y" for x y
    using that by (simp only: rev_append rev.simps append.assoc append.simps) (subst takeWhile_append2, auto)
  from assms(3) have "takeWhile (\<lambda>x. x \<noteq> c) (rev (a @ c # b)) = takeWhile (\<lambda>x. x \<noteq> c) (rev (a' @ c # b'))"
    by simp
  then have "rev b = rev b'" unfolding tail [OF assms(1)] tail [OF assms(2)] .
  with assms(3) show ?thesis by simp
qed

text \<open>What the rest of the platform promises of the parts of a key.\<close>

definition key_parts_ok :: "(time \<Rightarrow> string) \<Rightarrow> UsageEntry \<Rightarrow> bool" where
  "key_parts_ok fmt e \<longleftrightarrow> CHR 0x00 \<notin> set (us_Meter (ue_Usage e)) \<and> CHR 0x00 \<notin> set (fmt (bd_Start (ue_Bounds e)))"

lemma group_key_eq:
  assumes "inj fmt" "key_parts_ok fmt e" "key_parts_ok fmt e'"
  shows "group_key fmt e = group_key fmt e' \<longleftrightarrow>
     us_Subject (ue_Usage e) = us_Subject (ue_Usage e') \<and> us_Meter (ue_Usage e) = us_Meter (ue_Usage e') \<and>
     bd_Start (ue_Bounds e) = bd_Start (ue_Bounds e')"
proof
  assume eq: "group_key fmt e = group_key fmt e'"
  let ?p = "\<lambda>e. us_Subject (ue_Usage e) @ CHR 0x00 # us_Meter (ue_Usage e)"
  from eq have "?p e @ CHR 0x00 # fmt (bd_Start (ue_Bounds e)) = ?p e' @ CHR 0x00 # fmt (bd_Start (ue_Bounds e'))"
    by (simp add: group_key_def)
  from split_at_last_separator [OF _ _ this] assms(2,3)
  have p: "?p e = ?p e'" and f: "fmt (bd_Start (ue_Bounds e)) = fmt (bd_Start (ue_Bounds e'))"
    by (auto simp: key_parts_ok_def)
  from split_at_last_separator [OF _ _ p] assms(2,3) f \<open>inj fmt\<close>
  show "us_Subject (ue_Usage e) = us_Subject (ue_Usage e') \<and> us_Meter (ue_Usage e) = us_Meter (ue_Usage e') \<and>
     bd_Start (ue_Bounds e) = bd_Start (ue_Bounds e')"
    by (auto simp: key_parts_ok_def inj_def)
qed (simp add: group_key_def)

section \<open>Opening and folding a row\<close>

definition opened :: "total_row \<Rightarrow> total_row list \<Rightarrow> total_row list" where
  "opened r0 T = (if total_pk r0 \<in> total_pk ` set T then T else T @ [r0])"

definition open_fold ::
  "total_row \<Rightarrow> (total_row \<Rightarrow> bool) \<Rightarrow> (total_row \<Rightarrow> total_row) \<Rightarrow> total_row list \<Rightarrow> total_row list option" where
  "open_fold r0 ok f T =
     (if list_ex (\<lambda>r. total_pk r = total_pk r0 \<and> \<not> ok r) (opened r0 T) then None
      else Some (sql_update (\<lambda>r. total_pk r = total_pk r0) f (opened r0 T)))"

definition keeps_pk :: "(total_row \<Rightarrow> total_row) \<Rightarrow> bool" where
  "keeps_pk f \<longleftrightarrow> (\<forall>r. total_pk (f r) = total_pk r)"

lemma opened_present: "total_pk r0 \<in> total_pk ` set T \<Longrightarrow> opened r0 T = T"
  by (simp add: opened_def)

lemma pk_opened: "total_pk ` set (opened r0 T) = insert (total_pk r0) (total_pk ` set T)"
  by (auto simp: opened_def)

lemma pk_sql_update: "keeps_pk f \<Longrightarrow> total_pk ` set (sql_update p f T) = total_pk ` set T"
  unfolding keeps_pk_def by (metis totals.pk_update list.set_map)

lemma open_fold_keys:
  "keeps_pk f \<Longrightarrow> open_fold r0 ok f T = Some T' \<Longrightarrow>
   total_pk ` set T' = insert (total_pk r0) (total_pk ` set T)"
  by (metis (no_types, lifting) open_fold_def option.distinct(1) option.inject pk_opened pk_sql_update)

text \<open>Two writes to one row are the write of their composition.\<close>

lemma open_fold_merge:
  assumes fst: "open_fold r0 ok f T = Some T1" and snd: "open_fold r1 ok1 f1 T1 = Some T2"
    and pk: "total_pk r1 = total_pk r0" "keeps_pk f"
    and both: "\<And>r. r \<in> set (opened r0 T) \<Longrightarrow> total_pk r = total_pk r0 \<Longrightarrow> ok r \<Longrightarrow> ok1 (f r) \<Longrightarrow>
      ok2 r \<and> f2 r = f1 (f r)"
  shows "open_fold r0 ok2 f2 T = Some T2"
proof -
  let ?p = "\<lambda>r. total_pk r = total_pk r0"
  from fst have ok: "\<And>r. r \<in> set (opened r0 T) \<Longrightarrow> ?p r \<Longrightarrow> ok r"
    and T1: "T1 = sql_update ?p f (opened r0 T)"
    by (auto simp: open_fold_def list_ex_iff split: if_splits)
  have "total_pk r1 \<in> total_pk ` set T1"
    using open_fold_keys [OF pk(2) fst] pk(1) by simp
  then have o1: "opened r1 T1 = T1" by (rule opened_present)
  from snd have "\<And>r. r \<in> set T1 \<Longrightarrow> ?p r \<Longrightarrow> ok1 r" and T2: "T2 = sql_update ?p f1 T1"
    unfolding open_fold_def o1 pk(1) by (auto simp: list_ex_iff split: if_splits)
  then have ok1: "\<And>r. r \<in> set (opened r0 T) \<Longrightarrow> ?p r \<Longrightarrow> ok1 (f r)"
    using pk(2) unfolding T1 set_sql_update keeps_pk_def by force
  have "T2 = map (\<lambda>r. if ?p r then f1 (f r) else r) (opened r0 T)"
    unfolding T2 T1 sql_update_def map_map using pk(2) by (auto simp: keeps_pk_def)
  also have "\<dots> = sql_update ?p f2 (opened r0 T)"
    unfolding sql_update_def by (rule map_cong) (use both ok ok1 in auto)
  finally show ?thesis using both ok ok1 by (auto simp: open_fold_def list_ex_iff)
qed

text \<open>A write to a row that is there commutes with a write at another key.\<close>

lemma open_fold_commute:
  assumes there: "total_pk r0 \<in> total_pk ` set T" and ne: "total_pk r1 \<noteq> total_pk r0"
    and keep: "keeps_pk f" "keeps_pk f1"
    and fst: "open_fold r1 ok1 f1 T = Some T1" and snd: "open_fold r0 ok f T1 = Some T2"
  shows "\<exists>T1'. open_fold r0 ok f T = Some T1' \<and> open_fold r1 ok1 f1 T1' = Some T2"
proof -
  let ?p = "\<lambda>r. total_pk r = total_pk r0" and ?q = "\<lambda>r. total_pk r = total_pk r1"
  let ?T1' = "sql_update ?p f T"
  have o0: "opened r0 T = T" by (rule opened_present [OF there])
  have "total_pk r0 \<in> total_pk ` set T1" using open_fold_keys [OF keep(2) fst] there by simp
  then have o1: "opened r0 T1 = T1" by (rule opened_present)
  from fst have T1: "T1 = sql_update ?q f1 (opened r1 T)"
    and ok1: "\<And>r. r \<in> set (opened r1 T) \<Longrightarrow> ?q r \<Longrightarrow> ok1 r"
    by (auto simp: open_fold_def list_ex_iff split: if_splits)
  from snd have T2: "T2 = sql_update ?p f T1" and ok: "\<And>r. r \<in> set T1 \<Longrightarrow> ?p r \<Longrightarrow> ok r"
    unfolding open_fold_def o1 by (auto simp: list_ex_iff split: if_splits)
  have sub: "set T \<subseteq> set (opened r1 T)" by (auto simp: opened_def)
  have okT: "ok r" if "r \<in> set T" "?p r" for r
    using ok [of r] that sub ne unfolding T1 set_sql_update by force
  have op: "opened r1 ?T1' = sql_update ?p f (opened r1 T)"
    using ne unfolding opened_def pk_sql_update [OF keep(1)] by (simp add: sql_update_def)
  have "open_fold r0 ok f T = Some ?T1'"
    using okT by (auto simp: open_fold_def o0 list_ex_iff)
  moreover have "open_fold r1 ok1 f1 ?T1' = Some T2"
  proof -
    have "ok1 r" if "r \<in> set (opened r1 ?T1')" "?q r" for r
      using that ok1 ne keep(1) unfolding op set_sql_update keeps_pk_def by auto
    moreover have "T2 = sql_update ?q f1 (opened r1 ?T1')"
      unfolding T2 T1 op unfolding sql_update_def map_map
      by (rule map_cong) (use ne keep in \<open>auto simp: keeps_pk_def\<close>)
    ultimately show ?thesis by (auto simp: open_fold_def list_ex_iff)
  qed
  ultimately show ?thesis by blast
qed

section \<open>A group's write\<close>

definition group_ok :: "entryGroup \<Rightarrow> total_row \<Rightarrow> bool" where
  "group_ok g r =
     (case gr_aggregation g of
        AggregationSum \<Rightarrow> is_int64 (to_quantity r + gr_quantity g)
      | AggregationMax \<Rightarrow> True | AggregationLast \<Rightarrow> True
      | AggregationUniqueCount \<Rightarrow> False | OtherAggregation _ \<Rightarrow> False)"

definition group_row :: "duration \<Rightarrow> time \<Rightarrow> entryGroup \<Rightarrow> total_row \<Rightarrow> total_row" where
  "group_row res at g =
     (let occurred = Truncate res (gr_lastOccurredAt g); updated = Truncate res at
      in case gr_aggregation g of
           AggregationSum \<Rightarrow> sum_row (gr_quantity g) occurred updated
         | AggregationMax \<Rightarrow> max_row (gr_quantity g) occurred updated
         | AggregationLast \<Rightarrow> last_row (gr_quantity g) occurred updated
         | AggregationUniqueCount \<Rightarrow> id | OtherAggregation _ \<Rightarrow> id)"

definition group_opened :: "duration \<Rightarrow> tscope \<Rightarrow> time \<Rightarrow> entryGroup \<Rightarrow> total_row" where
  "group_opened res s at g =
     opened_row res s (gr_subject g) (gr_meter g) (gr_aggregation g) (gr_bounds g) at"

definition group_write ::
  "duration \<Rightarrow> tscope \<Rightarrow> time \<Rightarrow> entryGroup \<Rightarrow> total_row list \<Rightarrow> total_row list option" where
  "group_write res s at g = open_fold (group_opened res s at g) (group_ok g) (group_row res at g)"

lemmas row_defs = sum_row_def max_row_def last_row_def fold_stamps_def

lemma keeps_pk_group_row: "keeps_pk (group_row res at g)"
  by (auto simp: keeps_pk_def group_row_def Let_def row_defs total_pk_def split: Aggregation.splits)

lemma pk_group_opened: "total_pk (group_opened res s at g) = group_total res s g"
  by (simp add: group_opened_def opened_row_def total_pk_def group_total_def)

lemma fold_group_write:
  "fold_group res s at g db = Inr db' \<longleftrightarrow>
   (\<exists>T. group_write res s at g (md_totals db) = Some T \<and> db' = db\<lparr>md_totals := T\<rparr>)"
proof -
  have o: "openTotal res s (gr_subject g) (gr_meter g) (gr_aggregation g) (gr_bounds g) at db =
      db\<lparr>md_totals := opened (group_opened res s at g) (md_totals db)\<rparr>"
    by (simp add: openTotal_def InsertMeteringTotal_def opened_def group_opened_def)
  have ex: "list_ex (\<lambda>r. False) T = False" for T :: "total_row list"
    by (simp add: list_ex_iff)
  have ne: "list_ex (\<lambda>r. total_pk r = group_total res s g) (opened (group_opened res s at g) T)" for T
  proof -
    have "group_total res s g \<in> total_pk ` set (opened (group_opened res s at g) T)"
      by (simp add: pk_opened pk_group_opened)
    then show ?thesis by (auto simp: list_ex_iff)
  qed
  show ?thesis
    unfolding fold_group_def Let_def o group_write_def open_fold_def pk_group_opened
    by (cases "gr_aggregation g")
      (auto simp: FoldMeteringTotalSum_def FoldMeteringTotalMax_def FoldMeteringTotalLast_def update_total_def
        group_ok_def group_row_def Let_def ex ne)
qed

text \<open>What a row and a group of validated records hold.\<close>

definition row_ok :: "total_row \<Rightarrow> bool" where
  "row_ok r \<longleftrightarrow> 0 \<le> to_quantity r \<and> to_quantity r \<le> MaxInt64 \<and> to_period_start r - Second \<le> to_last_occurred_at r"

definition group_inv :: "duration \<Rightarrow> entryGroup \<Rightarrow> bool" where
  "group_inv res g \<longleftrightarrow> 0 \<le> gr_quantity g \<and> is_int64 (gr_quantity g) \<and>
     Truncate res (gr_lastOccurredAt g) = gr_lastOccurredAt g \<and>
     bd_Start (gr_bounds g) - Second \<le> gr_lastOccurredAt g \<and>
     Truncate res (bd_Start (gr_bounds g)) = bd_Start (gr_bounds g)"

definition entry_ok :: "duration \<Rightarrow> UsageEntry \<Rightarrow> bool" where
  "entry_ok res e \<longleftrightarrow> 0 \<le> us_Quantity (ue_Usage e) \<and> is_int64 (us_Quantity (ue_Usage e)) \<and>
     Truncate res (bd_Start (ue_Bounds e)) = bd_Start (ue_Bounds e)"

abbreviation single :: "duration \<Rightarrow> UsageEntry \<Rightarrow> entryGroup" where
  "single res e \<equiv> into_group res e (new_group e)"

lemma Truncate_less_Second:
  assumes "Truncate (storedResolution d) t = t"
  shows "Truncate (storedResolution d) (t - Second) = t - Second"
proof -
  have "Second mod storedResolution d = 0" "0 < storedResolution d"
    by (simp_all add: storedResolution_def Second_def Microsecond_def)
  moreover from this assms have "(t - zeroTime) mod storedResolution d = 0" by (simp add: Truncate_def)
  ultimately have "(t - zeroTime - Second) mod storedResolution d = 0" by (metis mod_diff_eq diff_self mod_0)
  then have "(t - Second - zeroTime) mod storedResolution d = 0" by (simp add: algebra_simps)
  then show ?thesis by (simp add: Truncate_def)
qed

lemma group_inv_new:
  "entry_ok (storedResolution d) e \<Longrightarrow> group_inv (storedResolution d) (new_group e)"
  by (simp add: entry_ok_def group_inv_def new_group_def seedLastOccurredAt_def Truncate_less_Second is_int64_def
      MaxInt64_def)

lemma into_group_keeps:
  "gr_subject (into_group res e g) = gr_subject g" "gr_meter (into_group res e g) = gr_meter g"
  "gr_bounds (into_group res e g) = gr_bounds g" "gr_aggregation (into_group res e g) = gr_aggregation g"
  by (simp_all add: into_group_def Let_def)

lemma group_total_into: "group_total res s (into_group res e g) = group_total res s g"
  by (simp add: group_total_def into_group_keeps)

lemma group_opened_into: "group_opened res s at (into_group res e g) = group_opened res s at g"
  by (simp add: group_opened_def into_group_keeps)


lemma gr_quantity_into:
  "gr_quantity (into_group res e g) =
     Fold (ue_Aggregation e) (gr_quantity g) (us_Quantity (ue_Usage e))
       (gr_lastOccurredAt g < Truncate res (us_OccurredAt (ue_Usage e)))"
  by (simp add: into_group_def Let_def)

lemma gr_lastOccurredAt_into:
  "gr_lastOccurredAt (into_group res e g) = keepLarger (gr_lastOccurredAt g) (Truncate res (us_OccurredAt (ue_Usage e)))"
  by (simp add: into_group_def Let_def keepLarger_def)

lemma new_group_fields [simp]:
  "gr_quantity (new_group e) = 0" "gr_lastOccurredAt (new_group e) = bd_Start (ue_Bounds e) - Second"
  "gr_bounds (new_group e) = ue_Bounds e" "gr_aggregation (new_group e) = ue_Aggregation e"
  by (simp_all add: new_group_def seedLastOccurredAt_def)

text \<open>Folding one more record into a group is writing the group and then the record.\<close>

lemma keepLarger_max: "keepLarger a b = max a b"
  by (simp add: keepLarger_def max_def)

definition moved_row :: "time \<Rightarrow> int \<Rightarrow> time \<Rightarrow> total_row \<Rightarrow> total_row" where
  "moved_row updated q occurred r =
     r\<lparr>to_last_occurred_at := occurred, to_last_updated_at := Some updated, to_quantity := q\<rparr>"

lemma group_row_moved:
  "gr_aggregation g = AggregationSum \<Longrightarrow>
   group_row res at g r = moved_row (Truncate res at) (to_quantity r + gr_quantity g)
     (max (to_last_occurred_at r) (Truncate res (gr_lastOccurredAt g))) r"
  "gr_aggregation g = AggregationMax \<Longrightarrow>
   group_row res at g r = moved_row (Truncate res at) (max (to_quantity r) (gr_quantity g))
     (max (to_last_occurred_at r) (Truncate res (gr_lastOccurredAt g))) r"
  "gr_aggregation g = AggregationLast \<Longrightarrow>
   group_row res at g r = moved_row (Truncate res at)
     (if to_last_occurred_at r < Truncate res (gr_lastOccurredAt g) then gr_quantity g else to_quantity r)
     (max (to_last_occurred_at r) (Truncate res (gr_lastOccurredAt g))) r"
  by (simp_all add: group_row_def Let_def row_defs moved_row_def keepLarger_max)

lemma moved_row_fields [simp]:
  "to_quantity (moved_row u q t r) = q" "to_last_occurred_at (moved_row u q t r) = t"
  "to_period_start (moved_row u q t r) = to_period_start r"
  "moved_row u q' t' (moved_row u q t r) = moved_row u q' t' r"
  by (simp_all add: moved_row_def)

lemma group_row_merge:
  assumes r: "row_ok r" "to_period_start r = bd_Start (gr_bounds g)"
    and g: "group_inv (storedResolution d) g" and e: "entry_ok (storedResolution d) e"
    and same: "gr_aggregation g = ue_Aggregation e" "bd_Start (gr_bounds g) = bd_Start (ue_Bounds e)"
    and ok: "group_ok g r" "group_ok (single (storedResolution d) e) (group_row (storedResolution d) at g r)"
  shows "group_ok (into_group (storedResolution d) e g) r \<and>
     group_row (storedResolution d) at (into_group (storedResolution d) e g) r =
       group_row (storedResolution d) at (single (storedResolution d) e) (group_row (storedResolution d) at g r) \<and>
     group_inv (storedResolution d) (into_group (storedResolution d) e g)"
proof -
  let ?res = "storedResolution d"
  define o' where "o' = Truncate ?res (us_OccurredAt (ue_Usage e))"
  define q where "q = us_Quantity (ue_Usage e)"
  define L where "L = to_last_occurred_at r"
  define l where "l = gr_lastOccurredAt g"
  define seed where "seed = bd_Start (ue_Bounds e) - Second"
  have tr: "Truncate ?res seed = seed" "Truncate ?res l = l" "Truncate ?res o' = o'"
    using g same by (simp_all add: group_inv_def Truncate_less_Second seed_def l_def o'_def)
  then have trm: "Truncate ?res (max l o') = max l o'" "Truncate ?res (max seed o') = max seed o'"
    by (simp_all add: max_def)
  have le: "seed \<le> l" "seed \<le> L" using g r same by (simp_all add: group_inv_def row_ok_def seed_def l_def L_def)
  have mx: "max L (max l o') = max (max L l) (max seed o')" using le by (simp add: max_def)
  have G: "gr_lastOccurredAt (into_group ?res e g) = max l o'"
    "gr_quantity (into_group ?res e g) = Fold (ue_Aggregation e) (gr_quantity g) q (l < o')"
    "gr_aggregation (into_group ?res e g) = ue_Aggregation e"
    "gr_lastOccurredAt (single ?res e) = max seed o'"
    "gr_quantity (single ?res e) = Fold (ue_Aggregation e) 0 q (seed < o')"
    "gr_aggregation (single ?res e) = ue_Aggregation e"
    by (simp_all add: gr_quantity_into gr_lastOccurredAt_into into_group_keeps keepLarger_max same
        l_def o'_def q_def seed_def)
  have inv: "group_inv ?res (into_group ?res e g) \<longleftrightarrow>
      0 \<le> gr_quantity (into_group ?res e g) \<and> is_int64 (gr_quantity (into_group ?res e g))"
    using g le(1) same trm(1) unfolding group_inv_def G(1) into_group_keeps
    by (auto simp: seed_def max_def)
  have nn: "0 \<le> to_quantity r" "0 \<le> gr_quantity g" "0 \<le> q" "is_int64 (gr_quantity g)" "is_int64 q"
    using r g e by (simp_all add: row_ok_def group_inv_def entry_ok_def q_def)
  show ?thesis
  proof (cases "ue_Aggregation e")
    case AggregationSum
    have q1: "Fold AggregationSum 0 q b = q" for b using nn by (simp add: Fold_def wrap64_id)
    have i: "is_int64 (to_quantity r + gr_quantity g + q)"
      using ok(2) by (simp add: group_ok_def G AggregationSum q1 group_row_moved same)
    with nn have i': "is_int64 (gr_quantity g + q)" by (simp add: is_int64_def)
    then have q2: "Fold AggregationSum (gr_quantity g) q b = gr_quantity g + q" for b
      by (simp add: Fold_def wrap64_id)
    show ?thesis
      unfolding inv using i i' nn mx
      by (simp add: group_ok_def G AggregationSum q1 q2 group_row_moved same trm tr(2) add.assoc
          flip: L_def l_def)
  next
    case AggregationMax
    have "max (to_quantity r) (max (gr_quantity g) q) = max (max (to_quantity r) (gr_quantity g)) (max 0 q)"
      using nn by (simp add: max_def)
    moreover have "0 \<le> max (gr_quantity g) q" "is_int64 (max (gr_quantity g) q)" using nn by (simp_all add: max_def)
    ultimately show ?thesis
      unfolding inv using mx
      by (simp add: group_ok_def G AggregationMax Fold_def group_row_moved same trm tr(2) flip: L_def l_def)
  next
    case AggregationLast
    have F: "Fold AggregationLast x y b = (if b then y else x)" for x y b by (simp add: Fold_def)
    have quantity: "(if max L l < max seed o' then if seed < o' then q else 0
         else if L < l then gr_quantity g else to_quantity r) =
        (if L < max l o' then if l < o' then q else gr_quantity g else to_quantity r)"
      using le by (auto simp: max_def)
    let ?u = "Truncate ?res at"
    have "group_row ?res at g r = moved_row ?u (if L < l then gr_quantity g else to_quantity r) (max L l) r"
      using AggregationLast same by (simp add: group_row_moved L_def tr(2) flip: l_def)
    then have "group_row ?res at (single ?res e) (group_row ?res at g r) =
        moved_row ?u (if L < max l o' then if l < o' then q else gr_quantity g else to_quantity r)
          (max L (max l o')) r"
      using AggregationLast by (simp only: group_row_moved(3) G trm F moved_row_fields mx quantity)
    moreover have "group_row ?res at (into_group ?res e g) r =
        moved_row ?u (if L < max l o' then if l < o' then q else gr_quantity g else to_quantity r)
          (max L (max l o')) r"
      using AggregationLast by (simp only: group_row_moved(3) G trm F L_def)
    ultimately show ?thesis
      unfolding inv using nn AggregationLast by (simp add: group_ok_def G F)
  qed (use ok same in \<open>simp_all add: group_ok_def\<close>)
qed

section \<open>A batch of groups\<close>

definition rows_ok :: "total_row list \<Rightarrow> bool" where
  "rows_ok T \<longleftrightarrow> list_all row_ok T"

lemma row_ok_opened: "group_inv (storedResolution d) g \<Longrightarrow> row_ok (group_opened (storedResolution d) s at g)"
  by (simp add: row_ok_def group_opened_def opened_row_def seedLastOccurredAt_def group_inv_def Truncate_less_Second
      MaxInt64_def)

lemma rows_ok_opened:
  "rows_ok T \<Longrightarrow> group_inv (storedResolution d) g \<Longrightarrow> rows_ok (opened (group_opened (storedResolution d) s at g) T)"
  by (auto simp: rows_ok_def opened_def row_ok_opened)

lemma start_of_key:
  "total_pk r = group_total res s g \<Longrightarrow> group_inv res g \<Longrightarrow> to_period_start r = bd_Start (gr_bounds g)"
  by (simp add: total_pk_def group_total_def group_inv_def)

lemma group_write_rows_ok:
  assumes T: "rows_ok T" and g: "group_inv (storedResolution d) g"
    and w: "group_write (storedResolution d) s at g T = Some T'"
  shows "rows_ok T'"
proof -
  let ?res = "storedResolution d"
  let ?o = "opened (group_opened ?res s at g) T"
  from w have T': "T' = sql_update (\<lambda>r. total_pk r = group_total ?res s g) (group_row ?res at g) ?o"
    and ok: "\<And>r. r \<in> set ?o \<Longrightarrow> total_pk r = group_total ?res s g \<Longrightarrow> group_ok g r"
    by (auto simp: group_write_def open_fold_def pk_group_opened list_ex_iff split: if_splits)
  have "row_ok (group_row ?res at g r)" if "row_ok r" "group_ok g r" for r
    using that g
    by (cases "gr_aggregation g")
      (auto simp: group_row_def Let_def row_ok_def row_defs keepLarger_max group_ok_def group_inv_def is_int64_def)
  with ok rows_ok_opened [OF T g] show ?thesis
    unfolding T' by (auto simp: rows_ok_def list_all_iff set_sql_update)
qed

lemma group_write_keys:
  "group_write res s at g T = Some T' \<Longrightarrow> total_pk ` set T' = insert (group_total res s g) (total_pk ` set T)"
  unfolding group_write_def using open_fold_keys [OF keeps_pk_group_row] by (simp add: pk_group_opened)

lemma single_total: "group_total res s (single res e) = entry_key res s e"
  by (simp add: group_total_into) (simp add: group_total_def entry_key_def new_group_def)

lemma group_write_merge:
  assumes T: "rows_ok T" and g: "group_inv (storedResolution d) g" and e: "entry_ok (storedResolution d) e"
    and same: "gr_aggregation g = ue_Aggregation e" "bd_Start (gr_bounds g) = bd_Start (ue_Bounds e)"
      "group_total (storedResolution d) s g = entry_key (storedResolution d) s e"
    and fst: "group_write (storedResolution d) s at g T = Some T1"
    and snd: "group_write (storedResolution d) s at (single (storedResolution d) e) T1 = Some T2"
  shows "group_write (storedResolution d) s at (into_group (storedResolution d) e g) T = Some T2 \<and>
     group_inv (storedResolution d) (into_group (storedResolution d) e g)"
proof -
  let ?res = "storedResolution d"
  let ?o = "opened (group_opened ?res s at g) T"
  have pk: "total_pk (group_opened ?res s at (single ?res e)) = group_total ?res s g"
    unfolding pk_group_opened group_total_into same by (simp add: group_total_def entry_key_def new_group_def)
  have merge: "group_ok (into_group ?res e g) r \<and>
      group_row ?res at (into_group ?res e g) r = group_row ?res at (single ?res e) (group_row ?res at g r) \<and>
      group_inv ?res (into_group ?res e g)"
    if "r \<in> set ?o" "total_pk r = group_total ?res s g" "group_ok g r" "group_ok (single ?res e) (group_row ?res at g r)" for r
    using that rows_ok_opened [OF T g] start_of_key [OF that(2) g]
    by (intro group_row_merge [OF _ _ g e same(1,2)]) (auto simp: rows_ok_def list_all_iff)
  obtain r where r: "r \<in> set ?o" "total_pk r = group_total ?res s g"
    using pk_opened [of "group_opened ?res s at g" T] by (metis image_iff insertI1 pk_group_opened)
  have fr: "group_ok g r" using fst r
    by (auto simp: group_write_def open_fold_def pk_group_opened list_ex_iff split: if_splits)
  have T1: "group_row ?res at g r \<in> set T1" using fst r
    by (auto simp: group_write_def open_fold_def pk_group_opened set_sql_update split: if_splits)
  have "total_pk (group_row ?res at g r) = group_total ?res s g"
    using keeps_pk_group_row r by (simp add: keeps_pk_def)
  then have "group_ok (single ?res e) (group_row ?res at g r)" using snd T1
    unfolding group_write_def open_fold_def pk by (auto simp: list_ex_iff opened_def split: if_splits)
  with merge [OF r fr] have "group_inv ?res (into_group ?res e g)" by blast
  moreover have "open_fold (group_opened ?res s at g) (group_ok (into_group ?res e g))
      (group_row ?res at (into_group ?res e g)) T = Some T2"
    by (rule open_fold_merge [OF fst [unfolded group_write_def] snd [unfolded group_write_def]])
      (use merge in \<open>auto simp: single_total same pk_group_opened keeps_pk_group_row\<close>)
  ultimately show ?thesis by (simp add: group_write_def group_opened_into)
qed

fun group_writes ::
  "duration \<Rightarrow> tscope \<Rightarrow> time \<Rightarrow> entryGroup list \<Rightarrow> total_row list \<Rightarrow> total_row list option" where
  "group_writes res s at [] T = Some T"
| "group_writes res s at (g # gs) T =
     (case group_write res s at g T of None \<Rightarrow> None | Some T \<Rightarrow> group_writes res s at gs T)"

lemma fold_groups_writes:
  "fold_groups res s at gs db = Inr db' \<longleftrightarrow>
   (\<exists>T. group_writes res s at gs (md_totals db) = Some T \<and> db' = db\<lparr>md_totals := T\<rparr>)"
proof (induction gs arbitrary: db)
  case (Cons g gs)
  show ?case
  proof (cases "group_write res s at g (md_totals db)")
    case None
    then have "\<And>d. fold_group res s at g db \<noteq> Inr d" by (simp add: fold_group_write)
    with None show ?thesis by (auto split: sum.splits)
  next
    case (Some T)
    then have "fold_group res s at g db = Inr (db\<lparr>md_totals := T\<rparr>)" by (simp add: fold_group_write)
    with Some Cons.IH show ?thesis by simp
  qed
qed auto

lemma group_writes_append:
  "group_writes res s at (gs @ hs) T =
   (case group_writes res s at gs T of None \<Rightarrow> None | Some T \<Rightarrow> group_writes res s at hs T)"
  by (induction gs arbitrary: T) (auto split: option.splits)

lemma group_writes_commute:
  assumes "group_total res s h \<in> total_pk ` set T" "\<And>g. g \<in> set gs \<Longrightarrow> group_total res s g \<noteq> group_total res s h"
    "group_writes res s at gs T = Some T1" "group_write res s at h T1 = Some T2"
  shows "\<exists>T1'. group_write res s at h T = Some T1' \<and> group_writes res s at gs T1' = Some T2"
  using assms
proof (induction gs arbitrary: T)
  case (Cons g gs)
  from Cons.prems(3) obtain U where U: "group_write res s at g T = Some U" "group_writes res s at gs U = Some T1"
    by (auto split: option.splits)
  have "group_total res s h \<in> total_pk ` set U" using group_write_keys [OF U(1)] Cons.prems(1) by simp
  from Cons.IH [OF this _ U(2) Cons.prems(4)] Cons.prems(2)
  obtain V where V: "group_write res s at h U = Some V" "group_writes res s at gs V = Some T2" by auto
  have "total_pk (group_opened res s at g) \<noteq> total_pk (group_opened res s at h)"
    using Cons.prems(2) by (simp add: pk_group_opened)
  from open_fold_commute [OF _ this keeps_pk_group_row keeps_pk_group_row U(1) [unfolded group_write_def] V(1) [unfolded group_write_def]]
    Cons.prems(1) V(2) show ?case by (auto simp: group_write_def pk_group_opened)
qed simp

text \<open>One more record through \<^verbatim>\<open>groupEntries\<close> is one more write at the end.\<close>

lemma group_inv_single:
  "entry_ok (storedResolution d) e \<Longrightarrow> group_inv (storedResolution d) (single (storedResolution d) e)"
  using group_inv_new [of d e] unfolding group_inv_def entry_ok_def
  by (auto simp: into_group_keeps gr_quantity_into gr_lastOccurredAt_into keepLarger_def Fold_def
      wrap64_id max_def split: Aggregation.splits)

lemma group_entry_writes:
  assumes T: "rows_ok T" and e: "entry_ok (storedResolution d) e"
    and gs: "\<And>k g. (k, g) \<in> set gs \<Longrightarrow> group_inv (storedResolution d) g \<and>
      (if k = group_key fmt e
       then gr_aggregation g = ue_Aggregation e \<and> bd_Start (gr_bounds g) = bd_Start (ue_Bounds e) \<and>
         group_total (storedResolution d) s g = entry_key (storedResolution d) s e
       else group_total (storedResolution d) s g \<noteq> entry_key (storedResolution d) s e)"
    and dist: "distinct (map fst gs)"
    and fst: "group_writes (storedResolution d) s at (map snd gs) T = Some T1"
    and snd: "group_write (storedResolution d) s at (single (storedResolution d) e) T1 = Some T2"
  shows "group_writes (storedResolution d) s at (map snd (group_entry fmt (storedResolution d) e gs)) T = Some T2 \<and>
     (\<forall>kg \<in> set (group_entry fmt (storedResolution d) e gs). group_inv (storedResolution d) (snd kg))"
  using T gs dist fst
proof (induction gs arbitrary: T)
  case Nil
  with snd group_inv_single [OF e] show ?case by simp
next
  case (Cons kg gs)
  let ?res = "storedResolution d"
  obtain k g where kg: "kg = (k, g)" by force
  from Cons.prems(4) obtain U where U: "group_write ?res s at g T = Some U" "group_writes ?res s at (map snd gs) U = Some T1"
    unfolding kg by (auto split: option.splits)
  have inv: "group_inv ?res g" "\<forall>kg \<in> set gs. group_inv ?res (snd kg)" using Cons.prems(2) unfolding kg by fastforce+
  show ?case
  proof (cases "k = group_key fmt e")
    case True
    with Cons.prems(2) [of k g] have same: "gr_aggregation g = ue_Aggregation e"
      "bd_Start (gr_bounds g) = bd_Start (ue_Bounds e)" "group_total ?res s g = entry_key ?res s e" by (auto simp: kg)
    have "group_total ?res s (single ?res e) \<in> total_pk ` set U"
      using group_write_keys [OF U(1)] by (simp add: single_total same)
    moreover have "group_total ?res s h \<noteq> group_total ?res s (single ?res e)" if "h \<in> set (map snd gs)" for h
    proof -
      from that obtain k' where k': "(k', h) \<in> set gs" by auto
      with Cons.prems(3) True have "k' \<noteq> group_key fmt e" by (auto simp: kg image_iff)
      with Cons.prems(2) [of k' h] k' show ?thesis by (simp add: single_total split: if_splits)
    qed
    ultimately obtain V where V: "group_write ?res s at (single ?res e) U = Some V"
        "group_writes ?res s at (map snd gs) V = Some T2"
      using group_writes_commute [OF _ _ U(2) snd] by blast
    from group_write_merge [OF Cons.prems(1) inv(1) e same U(1) V(1)] V(2) True inv(2)
    show ?thesis by (simp add: kg)
  next
    case False
    have "rows_ok U" by (rule group_write_rows_ok [OF Cons.prems(1) inv(1) U(1)])
    moreover have "distinct (map fst gs)" using Cons.prems(3) by simp
    ultimately show ?thesis
      using Cons.IH [OF _ _ _ U(2)] Cons.prems(2) U(1) inv(1) False unfolding kg by auto
  qed
qed

text \<open>
  What the recorder hands the store: validated quantities, windows the store can represent, one
  aggregation per meter, and keys whose parts hold no separator.
\<close>

definition entries_fit :: "(time \<Rightarrow> string) \<Rightarrow> duration \<Rightarrow> UsageEntry list \<Rightarrow> bool" where
  "entries_fit fmt res es \<longleftrightarrow>
     list_all (\<lambda>e. entry_ok res e \<and> key_parts_ok fmt e \<and>
       list_all (\<lambda>e'. us_Meter (ue_Usage e') = us_Meter (ue_Usage e) \<longrightarrow> ue_Aggregation e' = ue_Aggregation e) es) es"

lemma entries_fitD:
  "entries_fit fmt res es \<Longrightarrow> e \<in> set es \<Longrightarrow> entry_ok res e \<and> key_parts_ok fmt e"
  "entries_fit fmt res es \<Longrightarrow> e \<in> set es \<Longrightarrow> e' \<in> set es \<Longrightarrow> us_Meter (ue_Usage e') = us_Meter (ue_Usage e) \<Longrightarrow>
   ue_Aggregation e' = ue_Aggregation e"
  unfolding entries_fit_def list_all_iff by blast+

lemma entries_fit_mono: "entries_fit fmt res es \<Longrightarrow> set es' \<subseteq> set es \<Longrightarrow> entries_fit fmt res es'"
  unfolding entries_fit_def list_all_iff by (meson subsetD)

definition grouped_from :: "(time \<Rightarrow> string) \<Rightarrow> duration \<Rightarrow> tscope \<Rightarrow> UsageEntry list \<Rightarrow> string \<times> entryGroup \<Rightarrow> bool" where
  "grouped_from fmt res s es kg \<longleftrightarrow>
     (\<exists>e \<in> set es. fst kg = group_key fmt e \<and> gr_aggregation (snd kg) = ue_Aggregation e \<and>
        bd_Start (gr_bounds (snd kg)) = bd_Start (ue_Bounds e) \<and> group_total res s (snd kg) = entry_key res s e)"

lemma grouped_from_append: "grouped_from fmt res s es kg \<Longrightarrow> grouped_from fmt res s (es @ es') kg"
  by (auto simp: grouped_from_def)

lemma group_entry_from:
  assumes "kg \<in> set (group_entry fmt res e gs)" "\<forall>kg \<in> set gs. grouped_from fmt res s es kg"
  shows "grouped_from fmt res s (es @ [e]) kg"
  using assms
proof (induction gs)
  case Nil
  then show ?case by (simp add: grouped_from_def into_group_keeps single_total)
next
  case (Cons kg' gs)
  obtain k g where kg': "kg' = (k, g)" by force
  have old: "grouped_from fmt res s (es @ [e]) h" if "h \<in> set (kg' # gs)" for h
    using Cons.prems(2) that by (intro grouped_from_append) blast
  have "grouped_from fmt res s (es @ [e]) (k, into_group res e g)"
    using old [of kg'] by (simp add: grouped_from_def into_group_keeps group_total_into kg')
  with Cons.prems Cons.IH old show ?case unfolding kg' by (simp split: if_splits) blast+
qed

lemma group_entry_fst:
  "map fst (group_entry fmt res e gs) =
   (if group_key fmt e \<in> set (map fst gs) then map fst gs else map fst gs @ [group_key fmt e])"
  by (induction gs) (auto simp del: set_map)

lemma grouping_writes:
  assumes inj: "inj fmt" and fit: "entries_fit fmt (storedResolution d) es" and T: "rows_ok T"
    and w: "group_writes (storedResolution d) s at (map (single (storedResolution d)) es) T = Some T'"
  shows "group_writes (storedResolution d) s at (groupEntries fmt (storedResolution d) es) T = Some T'"
proof -
  let ?res = "storedResolution d"
  let ?G = "\<lambda>es. fold (group_entry fmt ?res) es []"
  have "group_writes ?res s at (map snd (?G es)) T = Some T' \<and> distinct (map fst (?G es)) \<and>
      (\<forall>kg \<in> set (?G es). group_inv ?res (snd kg) \<and> grouped_from fmt ?res s es kg)"
    using fit w
  proof (induction es arbitrary: T' rule: rev_induct)
    case (snoc e es)
    from snoc.prems(2) obtain T1 where T1: "group_writes ?res s at (map (single ?res) es) T = Some T1"
        "group_write ?res s at (single ?res e) T1 = Some T'"
      by (auto simp: group_writes_append split: option.splits)
    have "entries_fit fmt ?res es" using snoc.prems(1) by (rule entries_fit_mono) auto
    from snoc.IH [OF this T1(1)] have IH: "group_writes ?res s at (map snd (?G es)) T = Some T1"
        "distinct (map fst (?G es))" "\<And>kg. kg \<in> set (?G es) \<Longrightarrow> group_inv ?res (snd kg)"
        "\<forall>kg \<in> set (?G es). grouped_from fmt ?res s es kg"
      by auto
    note e = entries_fitD(1) [OF snoc.prems(1), of e, simplified]
    have match: "group_inv ?res g \<and>
      (if k = group_key fmt e
       then gr_aggregation g = ue_Aggregation e \<and> bd_Start (gr_bounds g) = bd_Start (ue_Bounds e) \<and>
         group_total ?res s g = entry_key ?res s e
       else group_total ?res s g \<noteq> entry_key ?res s e)" if kg: "(k, g) \<in> set (?G es)" for k g
    proof -
      from IH(4) kg obtain e' where e': "e' \<in> set es" "k = group_key fmt e'" "gr_aggregation g = ue_Aggregation e'"
          "bd_Start (gr_bounds g) = bd_Start (ue_Bounds e')" "group_total ?res s g = entry_key ?res s e'"
        by (auto simp: grouped_from_def)
      note ok = entries_fitD(1) [OF snoc.prems(1), of e'] and
        agg = entries_fitD(2) [OF snoc.prems(1), of e e', simplified]
      have "group_key fmt e' = group_key fmt e \<longleftrightarrow> entry_key ?res s e' = entry_key ?res s e"
        using group_key_eq [OF inj, of e' e] ok e e'(1) by (auto simp: entry_key_def entry_ok_def)
      moreover have "entry_key ?res s e' = entry_key ?res s e \<longrightarrow>
          ue_Aggregation e' = ue_Aggregation e \<and> bd_Start (ue_Bounds e') = bd_Start (ue_Bounds e)"
        using agg ok e e'(1) by (auto simp: entry_key_def entry_ok_def)
      ultimately show ?thesis using IH(3) [OF kg] e' by auto
    qed
    have "distinct (map fst (?G (es @ [e])))" using IH(2) by (simp add: group_entry_fst)
    moreover have "\<forall>kg \<in> set (?G (es @ [e])). grouped_from fmt ?res s (es @ [e]) kg"
      using group_entry_from [OF _ IH(4)] by simp
    ultimately show ?case
      using group_entry_writes [OF T _ match IH(2) IH(1) T1(2)] e by simp
  qed simp
  then show ?thesis by (simp add: groupEntries_def)
qed

section \<open>The store\<close>

text \<open>\<^verbatim>\<open>Record\<close> called once per record, in the same transaction.\<close>

fun Record_each ::
  "meter_env \<Rightarrow> (time \<Rightarrow> string) \<Rightarrow> duration \<Rightarrow> tscope \<Rightarrow> time \<Rightarrow> UsageEntry list \<Rightarrow> mtr_db \<Rightarrow>
   metering_error + RecordResult \<times> mtr_db" where
  "Record_each env fmt res s at [] db = Inr (\<lparr>rr_Accepted = 0, rr_Duplicates = 0\<rparr>, db)"
| "Record_each env fmt res s at (e # es) db =
     (case Store_Record env fmt res True s [e] at db of
        Inl err \<Rightarrow> Inl err
      | Inr (r, db) \<Rightarrow>
          (case Record_each env fmt res s at es db of
             Inl err \<Rightarrow> Inl err
           | Inr (r', db) \<Rightarrow>
               Inr (\<lparr>rr_Accepted = rr_Accepted r + rr_Accepted r', rr_Duplicates = rr_Duplicates r + rr_Duplicates r'\<rparr>, db)))"

lemma InsertMeteringEvent_totals:
  "snd (InsertMeteringEvent e (db\<lparr>md_totals := T\<rparr>)) = (snd (InsertMeteringEvent e db))\<lparr>md_totals := T\<rparr>"
  "fst (InsertMeteringEvent e (db\<lparr>md_totals := T\<rparr>)) = fst (InsertMeteringEvent e db)"
  "md_totals (snd (InsertMeteringEvent e db)) = md_totals db"
  by (simp_all add: InsertMeteringEvent_def)

lemma insertEvent_totals:
  assumes "insertEvent env res s e at db = Inr (b, db')"
  shows "insertEvent env res s e at (db\<lparr>md_totals := T\<rparr>) = Inr (b, db'\<lparr>md_totals := T\<rparr>) \<and> md_totals db' = md_totals db"
  using assms InsertMeteringEvent_totals(3) unfolding insertEvent_def
  by (auto simp: Let_def case_prod_beta InsertMeteringEvent_totals(1,2) split: sum.splits)

lemma insert_entries_totals:
  "insert_entries env res s at es db = Inr (acc, db') \<Longrightarrow>
   insert_entries env res s at es (db\<lparr>md_totals := T\<rparr>) = Inr (acc, db'\<lparr>md_totals := T\<rparr>) \<and> md_totals db' = md_totals db"
proof (induction es arbitrary: db acc db')
  case (Cons e es)
  from Cons.prems obtain b db1 acc1 where 1: "insertEvent env res s e at db = Inr (b, db1)"
      "insert_entries env res s at es db1 = Inr (acc1, db')" "acc = (if b then e # acc1 else acc1)"
    by (auto split: sum.splits prod.splits)
  from insertEvent_totals [OF 1(1)] Cons.IH [OF 1(2)] 1(3) show ?case by simp
qed simp

lemma Record_each_decomposed:
  assumes "Record_each env fmt res s at es db = Inr (rr, db')"
  shows "\<exists>acc dbe T. insert_entries env res s at es db = Inr (acc, dbe) \<and>
     group_writes res s at (map (single res) acc) (md_totals db) = Some T \<and> db' = dbe\<lparr>md_totals := T\<rparr> \<and>
     rr = \<lparr>rr_Accepted = int (length acc), rr_Duplicates = int (length es) - int (length acc)\<rparr>"
  using assms
proof (induction es arbitrary: db rr)
  case Nil
  then show ?case by auto
next
  case (Cons e es)
  from Cons.prems obtain r db1 r' where 1: "Store_Record env fmt res True s [e] at db = Inr (r, db1)"
      "Record_each env fmt res s at es db1 = Inr (r', db')"
      "rr = \<lparr>rr_Accepted = rr_Accepted r + rr_Accepted r', rr_Duplicates = rr_Duplicates r + rr_Duplicates r'\<rparr>"
    by (auto split: sum.splits prod.splits)
  from 1(1) obtain b dbi where 2: "insertEvent env res s e at db = Inr (b, dbi)"
    by (auto simp: Store_Record_def split: sum.splits prod.splits if_splits)
  have g: "groupEntries fmt res [e] = [single res e]" by (simp add: groupEntries_def)
  from 1(1) 2 obtain T1 where 3: "group_writes res s at (if b then [single res e] else []) (md_totals dbi) = Some T1"
      "db1 = dbi\<lparr>md_totals := T1\<rparr>" "r = \<lparr>rr_Accepted = of_bool b, rr_Duplicates = 1 - of_bool b\<rparr>"
    by (cases b) (auto simp: Store_Record_def g fold_groups_writes groupEntries_def simp del: fold_groups.simps
        group_writes.simps(2) split: sum.splits if_splits)
  from Cons.IH [OF 1(2)] obtain acc dbe T where 4: "insert_entries env res s at es db1 = Inr (acc, dbe)"
      "group_writes res s at (map (single res) acc) T1 = Some T" "db' = dbe\<lparr>md_totals := T\<rparr>"
      "r' = \<lparr>rr_Accepted = int (length acc), rr_Duplicates = int (length es) - int (length acc)\<rparr>"
    unfolding 3(2) by auto
  have ti: "md_totals dbi = md_totals db" using insertEvent_totals [OF 2] by simp
  have "insert_entries env res s at es dbi = Inr (acc, dbe\<lparr>md_totals := md_totals dbi\<rparr>)"
    using insert_entries_totals [OF 4(1), of "md_totals dbi"] unfolding 3(2) by simp
  then have "insert_entries env res s at (e # es) db =
      Inr (if b then e # acc else acc, dbe\<lparr>md_totals := md_totals dbi\<rparr>)" by (simp add: 2)
  moreover have "group_writes res s at (map (single res) (if b then e # acc else acc)) (md_totals db) = Some T"
    using 3(1) 4(2) ti by (cases b) (auto split: option.splits)
  ultimately show ?case using 1(3) 3(3) 4 by (cases b) auto
qed

lemma accepted_subset: "insert_entries env res s at es db = Inr (acc, db') \<Longrightarrow> set acc \<subseteq> set es"
  by (induction es arbitrary: db acc) (fastforce split: sum.splits prod.splits if_splits)+

text \<open>C10: Whenever recording a batch of records one call at a time succeeds, recording it in one call leaves
  the same ledger and the same totals and reports the same counts, on every dialect: grouping the records
  and folding them in process changes nothing, for sums, peaks and last readings, ties and late
  arrivals included.\<close>

theorem batch_is_one_at_a_time:
  assumes "inj fmt" "entries_fit fmt (storedResolution d) es" "rows_ok (md_totals db)" "s \<noteq> None"
    and "Record_each env fmt (storedResolution d) s at es db = Inr (rr, db')"
  shows "Store_Record env fmt (storedResolution d) True s es at db = Inr (rr, db')"
proof -
  let ?res = "storedResolution d"
  from Record_each_decomposed [OF assms(5)] obtain acc dbe T where
    1: "insert_entries env ?res s at es db = Inr (acc, dbe)"
      "group_writes ?res s at (map (single ?res) acc) (md_totals db) = Some T" "db' = dbe\<lparr>md_totals := T\<rparr>"
      "rr = \<lparr>rr_Accepted = int (length acc), rr_Duplicates = int (length es) - int (length acc)\<rparr>"
    by blast
  have "entries_fit fmt ?res acc" using entries_fit_mono [OF assms(2) accepted_subset [OF 1(1)]] .
  from grouping_writes [OF assms(1) this assms(3) 1(2)] insert_entries_totals [OF 1(1)] 1(3)
  have "fold_groups ?res s at (groupEntries fmt ?res acc) dbe = Inr db'" by (simp add: fold_groups_writes)
  with 1 assms(4,5) show ?thesis by (auto simp: Store_Record_def)
qed

section \<open>Instances\<close>

definition demo_menv :: meter_env where
  "demo_menv = \<lparr>plainname_Valid = (\<lambda>n l. n \<noteq> [] \<and> CHR 0x00 \<notin> set n \<and> length n \<le> l),
     marshal_dimensions = (\<lambda>_. Some ''{}'')\<rparr>"

definition empty_mdb :: mtr_db where
  "empty_mdb = \<lparr>md_events = [], md_totals = []\<rparr>"

definition demo_entry :: "Aggregation \<Rightarrow> string \<Rightarrow> string \<Rightarrow> time \<Rightarrow> int \<Rightarrow> UsageEntry" where
  "demo_entry a meter key t q =
     \<lparr>ue_Usage = \<lparr>us_OccurredAt = t * Second, us_Dimensions = [], us_IdempotencyKey = key, us_Subject = ''s'',
        us_Meter = meter, us_Quantity = q\<rparr>,
      ue_Bounds = \<lparr>bd_Start = 0, bd_End = 100 * Second\<rparr>, ue_Aggregation = a\<rparr>"

definition demo_batch :: "UsageEntry list" where
  "demo_batch = [demo_entry AggregationSum ''m'' ''a'' 3 4, demo_entry AggregationLast ''g'' ''a'' 9 7,
     demo_entry AggregationSum ''m'' ''a'' 3 4, demo_entry AggregationLast ''g'' ''b'' 5 2,
     demo_entry AggregationSum ''m'' ''c'' 1 6]"

lemma FormatInt_no_separator: "CHR 0x00 \<notin> set (FormatInt n)"
  using decimal_chars [of "CHR 0x00"] by (auto simp: FormatInt_def)

lemma inj_FormatInt: "inj FormatInt"
  by (simp add: inj_def FormatInt_inject)

lemma Truncate_zero [simp]: "Truncate (storedResolution d) 0 = 0"
  by (cases d) (simp_all add: Truncate_def storedResolution_def zeroTime_def Second_def Microsecond_def)

lemma demo_entry_fits:
  "0 \<le> q \<Longrightarrow> is_int64 q \<Longrightarrow> CHR 0x00 \<notin> set meter \<Longrightarrow>
   entry_ok (storedResolution d) (demo_entry a meter key t q) \<and> key_parts_ok FormatInt (demo_entry a meter key t q)"
  by (simp add: entry_ok_def key_parts_ok_def demo_entry_def FormatInt_no_separator)

lemma demo_batch_fits: "entries_fit FormatInt (storedResolution d) demo_batch"
  unfolding entries_fit_def demo_batch_def
  by (simp add: demo_entry_fits is_int64_def MaxInt64_def) (simp add: demo_entry_def)

text \<open>A redelivered record and a late reading: four of the five records count, and the late one displaces nothing.\<close>

lemma batch_is_one_at_a_time_witness:
  "\<exists>rr db'. Store_Record demo_menv FormatInt (storedResolution Meter_SQLite) True (Some ''t'') demo_batch 7 empty_mdb = Inr (rr, db') \<and>
     rr_Accepted rr = 4 \<and> map to_quantity (md_totals db') = [10, 7]"
proof -
  let ?each = "Record_each demo_menv FormatInt (storedResolution Meter_SQLite) (Some ''t'') 7 demo_batch empty_mdb"
  have "case ?each of Inl _ \<Rightarrow> False | Inr (rr, db') \<Rightarrow> rr_Accepted rr = 4 \<and> map to_quantity (md_totals db') = [10, 7]"
    by code_simp
  then obtain rr db' where e: "?each = Inr (rr, db')" "rr_Accepted rr = 4" "map to_quantity (md_totals db') = [10, 7]"
    by (auto split: sum.splits)
  from batch_is_one_at_a_time [OF inj_FormatInt demo_batch_fits _ _ e(1)] e(2,3)
  show ?thesis by (auto simp: rows_ok_def empty_mdb_def)
qed

text \<open>
  Two records that pass validation and whose sum is past \<^verbatim>\<open>int64\<close>: one at a time, the second is refused by
  the server. In one call the sum is taken in process, where it wraps, and the total becomes negative.
\<close>

lemma batch_sum_wraps:
  "Record_each demo_menv FormatInt (storedResolution Meter_Postgres) (Some ''t'') 7
     [demo_entry AggregationSum ''m'' ''a'' 1 MaxInt64, demo_entry AggregationSum ''m'' ''b'' 2 MaxInt64] empty_mdb =
     Inl ErrNumericRange \<and>
   (case Store_Record demo_menv FormatInt (storedResolution Meter_Postgres) True (Some ''t'')
       [demo_entry AggregationSum ''m'' ''a'' 1 MaxInt64, demo_entry AggregationSum ''m'' ''b'' 2 MaxInt64] 7 empty_mdb of
      Inl _ \<Rightarrow> False | Inr (rr, db') \<Rightarrow> map to_quantity (md_totals db') = [-2])"
  by (rule conjI) code_simp+

end
