(* ===== verification/Meter_Flusher.thy ===== *)
theory Meter_Flusher
  imports Meter_Fold
begin

text \<open>
  The flusher (\<^verbatim>\<open>metering/flusher.go\<close>): what one post carries, the key it carries it under, how one
  claimed total is posted and settled, and the pass.

  Outside the repository, hence parameters: the billing provider (\<open>report\<close>, which answers a report and
  moves its own state), the application's provider mapper, the digest of the key (SHA-256 and URL-safe
  base64), the retry schedule with its jitter, and the clock, a reading per call. The goroutines of a pass
  complete in some order, \<open>sched\<close>, which is any permutation of the claimed totals; all their steps on one
  total are consecutive here, and arbitrary interleavings are the subject of \<^verbatim>\<open>Meter_System\<close>. Instruments
  and log lines are left out.
\<close>

section \<open>Posts\<close>

record ProviderRef =
  pr_CustomerID :: string
  pr_MeterName :: string

definition zeroRef :: ProviderRef where
  "zeroRef = \<lparr>pr_CustomerID = [], pr_MeterName = []\<rparr>"

record UsageReportInput =
  ui_CustomerID :: string
  ui_MeterName :: string
  ui_Quantity :: int
  ui_OccurredAt :: time
  ui_IdempotencyKey :: string
  ui_Metadata :: "(string \<times> string) list"

record FlushResult =
  fr_Claimed :: int
  fr_Flushed :: int
  fr_Skipped :: int
  fr_Failed :: int
  fr_Quantity :: int
  fr_EventsReaped :: int

record FlusherConfig =
  fc_LeaseDuration :: duration
  fc_FlushTimeout :: duration
  fc_EventRetention :: duration
  fc_BatchSize :: int
  fc_Concurrency :: int
  fc_MaxAttempts :: int
  fc_ReapBatchSize :: int
  fc_DisableReap :: bool

record 'p flusher_env =
  fe_report :: "UsageReportInput \<Rightarrow> 'p \<Rightarrow> metering_error option \<times> 'p"
  fe_mapper :: "string \<Rightarrow> string \<Rightarrow> metering_error + ProviderRef"
  fe_digest :: "string \<Rightarrow> string"
  fe_backoff :: "int \<Rightarrow> duration"
  fe_format :: "time \<Rightarrow> string"
  fe_render :: "metering_error \<Rightarrow> string"

datatype flushOutcome = outcomeFailed | outcomeFlushed | outcomeSkipped

definition idempotencyKeyPrefix :: string where "idempotencyKeyPrefix = ''mtr_''"

text \<open>\<^verbatim>\<open>time.Time.Unix\<close>: whole seconds, rounded down.\<close>

definition Unix :: "time \<Rightarrow> int" where
  "Unix t = t div Second"

definition flush_image :: "string \<Rightarrow> string \<Rightarrow> time \<Rightarrow> int \<Rightarrow> string" where
  "flush_image subject meter start sequence =
     subject @ [CHR 0x00] @ meter @ [CHR 0x00] @ FormatInt (Unix start) @ [CHR 0x00] @ FormatInt sequence"

definition FlushIdempotencyKey :: "(string \<Rightarrow> string) \<Rightarrow> Total option \<Rightarrow> string" where
  "FlushIdempotencyKey digest claimed =
     (case claimed of
        None \<Rightarrow> []
      | Some t \<Rightarrow> idempotencyKeyPrefix @
          digest (flush_image (tt_Subject t) (tt_Meter t) (tt_PeriodStart t) (tt_FlushSequence t)))"

definition reportTimestamp :: "time \<Rightarrow> Total \<Rightarrow> time" where
  "reportTimestamp now t = (if now < tt_PeriodEnd t then now else tt_PeriodEnd t - Second)"

definition report_input :: "'p flusher_env \<Rightarrow> Total \<Rightarrow> ProviderRef \<Rightarrow> int \<Rightarrow> time \<Rightarrow> UsageReportInput" where
  "report_input env t ref delta now =
     \<lparr>ui_CustomerID = pr_CustomerID ref, ui_MeterName = pr_MeterName ref, ui_Quantity = delta,
      ui_OccurredAt = reportTimestamp now t, ui_IdempotencyKey = FlushIdempotencyKey (fe_digest env) (Some t),
      ui_Metadata = [(''metering_meter'', tt_Meter t), (''metering_subject'', tt_Subject t),
        (''metering_period_start'', fe_format env (tt_PeriodStart t)),
        (''metering_sequence'', FormatInt (tt_FlushSequence t))]\<rparr>"

definition maxStoredErrorLength :: nat where "maxStoredErrorLength = 1024"

text \<open>\<^verbatim>\<open>utf8.RuneStart\<close>: any byte but a continuation byte.\<close>

definition RuneStart :: "char \<Rightarrow> bool" where
  "RuneStart c \<longleftrightarrow> \<not> (128 \<le> (of_char c :: nat) \<and> (of_char c :: nat) < 192)"

fun rune_cut :: "string \<Rightarrow> nat \<Rightarrow> nat" where
  "rune_cut rendered 0 = 0"
| "rune_cut rendered (Suc n) = (if RuneStart (rendered ! Suc n) then Suc n else rune_cut rendered n)"

definition truncateError :: "string option \<Rightarrow> string" where
  "truncateError err =
     (case err of
        None \<Rightarrow> []
      | Some rendered \<Rightarrow>
          if length rendered \<le> maxStoredErrorLength then rendered
          else take (rune_cut rendered maxStoredErrorLength) rendered)"

section \<open>One total\<close>

text \<open>The tables and the provider.\<close>

type_synonym 'p flush_state = "mtr_db \<times> 'p"

definition settle ::
  "'p flusher_env \<Rightarrow> duration \<Rightarrow> time \<Rightarrow> Total \<Rightarrow> bool \<Rightarrow> 'p flush_state \<Rightarrow> flushOutcome \<times> 'p flush_state" where
  "settle env res now t skipped st =
     (case MarkFlushed res (Some t) now (fst st) of
        Inl _ \<Rightarrow> (outcomeFailed, st)
      | Inr db \<Rightarrow> (if skipped then outcomeSkipped else outcomeFlushed, (db, snd st)))"

definition fail :: "'p flusher_env \<Rightarrow> duration \<Rightarrow> time \<Rightarrow> Total \<Rightarrow> metering_error \<Rightarrow> 'p flush_state \<Rightarrow> 'p flush_state" where
  "fail env res now t cause st =
     (case ReleaseFlush res (Some t) (truncateError (Some (fe_render env cause)))
             (now + fe_backoff env (tt_FlushAttempts t)) (fst st) of
        Inl _ \<Rightarrow> st
      | Inr db \<Rightarrow> (db, snd st))"

definition flushOne ::
  "'p flusher_env \<Rightarrow> duration \<Rightarrow> (nat \<Rightarrow> time) \<Rightarrow> Total \<Rightarrow> 'p flush_state \<Rightarrow> (flushOutcome \<times> int) \<times> 'p flush_state" where
  "flushOne env res clock t st =
     (let delta = Delta (Some t)
      in if delta \<le> 0 then ((outcomeSkipped, 0), st)
         else (case fe_mapper env (tt_Subject t) (tt_Meter t) of
           Inl err \<Rightarrow>
             if err = ErrNoProviderRef
             then (let (o', st) = settle env res (clock 0) t True st in ((o', 0), st))
             else ((outcomeFailed, 0), fail env res (clock 0) t err st)
         | Inr ref \<Rightarrow>
             if ref = zeroRef
             then (let (o', st) = settle env res (clock 0) t True st in ((o', 0), st))
             else (let (err, p) = fe_report env (report_input env t ref delta (clock 0)) (snd st);
                       st = (fst st, p)
                   in case err of
                        Some e \<Rightarrow> ((outcomeFailed, 0), fail env res (clock 1) t e st)
                      | None \<Rightarrow> (let (o', st) = settle env res (clock 1) t False st in ((o', delta), st)))))"

section \<open>The pass\<close>

definition tally :: "flushOutcome \<times> int \<Rightarrow> FlushResult \<Rightarrow> FlushResult" where
  "tally o' result =
     (case fst o' of
        outcomeFlushed \<Rightarrow> result\<lparr>fr_Flushed := fr_Flushed result + 1, fr_Quantity := wrap64 (fr_Quantity result + snd o')\<rparr>
      | outcomeSkipped \<Rightarrow> result\<lparr>fr_Skipped := fr_Skipped result + 1\<rparr>
      | outcomeFailed \<Rightarrow> result\<lparr>fr_Failed := fr_Failed result + 1\<rparr>)"

fun post ::
  "'p flusher_env \<Rightarrow> duration \<Rightarrow> (nat \<Rightarrow> nat \<Rightarrow> time) \<Rightarrow> nat \<Rightarrow> Total list \<Rightarrow> FlushResult \<times> 'p flush_state \<Rightarrow>
   FlushResult \<times> 'p flush_state" where
  "post env res clock n [] rs = rs"
| "post env res clock n (t # ts) rs =
     (let (o', st) = flushOne env res (clock n) t (snd rs)
      in post env res clock (Suc n) ts (tally o' (fst rs), st))"

definition no_result :: FlushResult where
  "no_result = \<lparr>fr_Claimed = 0, fr_Flushed = 0, fr_Skipped = 0, fr_Failed = 0, fr_Quantity = 0, fr_EventsReaped = 0\<rparr>"

definition Flush ::
  "'p flusher_env \<Rightarrow> FlusherConfig \<Rightarrow> duration \<Rightarrow> (Total list \<Rightarrow> Total list) \<Rightarrow> (nat \<Rightarrow> nat \<Rightarrow> time) \<Rightarrow>
   (total_key \<Rightarrow> bool) \<Rightarrow> (event_key \<Rightarrow> bool) \<Rightarrow> time \<Rightarrow> 'p flush_state \<Rightarrow> FlushResult \<times> 'p flush_state" where
  "Flush env cfg res sched clock lockedTotals lockedEvents now st =
     (let (claimed, db) = ClaimFlushable res lockedTotals now (fc_BatchSize cfg) (fc_MaxAttempts cfg)
                            (now + fc_LeaseDuration cfg) (fst st);
          (result, db, p) = post env res clock 0 (sched claimed)
                              (no_result\<lparr>fr_Claimed := int (length claimed)\<rparr>, db, snd st)
      in if fc_DisableReap cfg then (result, db, p)
         else (let (reaped, db) = ReapEvents res lockedEvents (now - fc_EventRetention cfg) (fc_ReapBatchSize cfg) db
               in (if reaped > 0 then result\<lparr>fr_EventsReaped := reaped\<rparr> else result, db, p)))"

section \<open>The key of a post\<close>

lemma flush_image_eq:
  assumes "CHR 0x00 \<notin> set m" "CHR 0x00 \<notin> set m'"
  shows "flush_image s m t n = flush_image s' m' t' n' \<longleftrightarrow> s = s' \<and> m = m' \<and> Unix t = Unix t' \<and> n = n'"
proof
  assume eq: "flush_image s m t n = flush_image s' m' t' n'"
  let ?a = "\<lambda>s m t. (s @ CHR 0x00 # m) @ CHR 0x00 # FormatInt (Unix t)"
  from eq have "?a s m t @ CHR 0x00 # FormatInt n = ?a s' m' t' @ CHR 0x00 # FormatInt n'"
    by (simp add: flush_image_def)
  from split_at_last_separator [OF FormatInt_no_separator FormatInt_no_separator this]
  have a: "?a s m t = ?a s' m' t'" and n: "n = n'" by (simp_all add: FormatInt_inject)
  from split_at_last_separator [OF FormatInt_no_separator FormatInt_no_separator a]
  have b: "s @ CHR 0x00 # m = s' @ CHR 0x00 # m'" and t: "Unix t = Unix t'" by (simp_all add: FormatInt_inject)
  from split_at_last_separator [OF assms b] n t show "s = s' \<and> m = m' \<and> Unix t = Unix t' \<and> n = n'" by simp
qed (simp add: flush_image_def)

text \<open>
  The key names a post up to the digest, and nothing less: equal keys are posts of one subject, meter,
  period second and sequence.
\<close>

lemma FlushIdempotencyKey_eq:
  assumes "inj digest" "CHR 0x00 \<notin> set (tt_Meter t)" "CHR 0x00 \<notin> set (tt_Meter t')"
  shows "FlushIdempotencyKey digest (Some t) = FlushIdempotencyKey digest (Some t') \<longleftrightarrow>
     tt_Subject t = tt_Subject t' \<and> tt_Meter t = tt_Meter t' \<and>
     Unix (tt_PeriodStart t) = Unix (tt_PeriodStart t') \<and> tt_FlushSequence t = tt_FlushSequence t'"
  using flush_image_eq [OF assms(2,3)] assms(1) by (simp add: FlushIdempotencyKey_def inj_eq)

end
