(* ===== verification/Meter_System.thy ===== *)
theory Meter_System
  imports Meter_Flusher
begin

text \<open>
  The metering platform as a step system: recorders, consumers, flushers, reapers and a billing provider
  sharing the two tables. A step is one committed transaction of the store or one call of the provider; a
  transaction that fails or rolls back is no step. A flusher may act on a total it once claimed at any
  later time, however often, and in any order: the system keeps every total ever handed out (\<open>mw_held\<close>)
  and every total a report of which the provider confirmed (\<open>mw_accepted\<close>), and nothing ties a settle to
  the lease or to the process that took it. So a crash, a lapsed lease and a late answer need no steps of
  their own.

  \<open>mw_log\<close> is every ledger row ever inserted, in order, and \<open>mw_reaped\<close> the rows the retention pass has
  deleted. \<open>pf_totals\<close> are the totals the deployment may open and \<open>pf_agg\<close> the aggregation its registry
  gives each meter. Usage stays inside \<^verbatim>\<open>int64\<close> (\<open>in_range\<close>); \<open>batch_sum_wraps\<close> shows what happens otherwise.
\<close>

section \<open>The world\<close>

record 'p metering_platform =
  pf_env :: meter_env
  pf_fmt :: "time \<Rightarrow> string"
  pf_dialect :: meter_dialect
  pf_flusher :: "'p flusher_env"
  pf_agg :: "string \<Rightarrow> Aggregation"
  pf_totals :: "total_key \<Rightarrow> bool"
  pf_booked :: "'p \<Rightarrow> string \<Rightarrow> int option"

record 'p metering_world =
  mw_db :: mtr_db
  mw_provider :: 'p
  mw_log :: "event_row list"
  mw_reaped :: "event_row list"
  mw_held :: "Total list"
  mw_accepted :: "Total list"

abbreviation pf_res :: "'p metering_platform \<Rightarrow> duration" where
  "pf_res P \<equiv> storedResolution (pf_dialect P)"

definition batch_quantity :: "UsageEntry list \<Rightarrow> int" where
  "batch_quantity es = sum_list (map (\<lambda>e. us_Quantity (ue_Usage e)) es)"

definition in_range :: "UsageEntry list \<Rightarrow> mtr_db \<Rightarrow> bool" where
  "in_range es db \<longleftrightarrow> batch_quantity es \<le> MaxInt64 \<and>
     list_all (\<lambda>r. to_quantity r + batch_quantity es \<le> MaxInt64) (md_totals db)"

text \<open>What a recorder or an enforcer hands the store.\<close>

definition recordable :: "'p metering_platform \<Rightarrow> tscope \<Rightarrow> UsageEntry list \<Rightarrow> mtr_db \<Rightarrow> bool" where
  "recordable P s es db \<longleftrightarrow> s \<noteq> None \<and> entries_fit (pf_fmt P) (pf_res P) es \<and> in_range es db \<and>
     list_all (\<lambda>e. ue_Aggregation e = pf_agg P (us_Meter (ue_Usage e)) \<and> Aggregation_Supported (ue_Aggregation e) \<and>
       pf_totals P (entry_key (pf_res P) s e)) es"

definition new_events :: "mtr_db \<Rightarrow> mtr_db \<Rightarrow> event_row list" where
  "new_events db db' = drop (length (md_events db)) (md_events db')"

definition billed_to :: "'p metering_platform \<Rightarrow> string \<Rightarrow> string \<Rightarrow> ProviderRef \<Rightarrow> bool" where
  "billed_to P subject meter ref \<longleftrightarrow> fe_mapper (pf_flusher P) subject meter = Inr ref \<and> ref \<noteq> zeroRef"

definition unbilled :: "'p metering_platform \<Rightarrow> string \<Rightarrow> string \<Rightarrow> bool" where
  "unbilled P subject meter \<longleftrightarrow>
     fe_mapper (pf_flusher P) subject meter = Inl ErrNoProviderRef \<or> fe_mapper (pf_flusher P) subject meter = Inr zeroRef"

inductive metering_step :: "'p metering_platform \<Rightarrow> 'p metering_world \<Rightarrow> 'p metering_world \<Rightarrow> bool"
  for P :: "'p metering_platform" where
  recorded: "recordable P s es (mw_db w) \<Longrightarrow>
     Store_Record (pf_env P) (pf_fmt P) (pf_res P) True s es at (mw_db w) = Inr (rr, db') \<Longrightarrow>
     metering_step P w (w\<lparr>mw_db := db', mw_log := mw_log w @ new_events (mw_db w) db'\<rparr>)"
| consumed: "recordable P s [e] (mw_db w) \<Longrightarrow>
     Store_Consume (pf_env P) (pf_res P) True s e limit behavior at (mw_db w) = Inr (dec, db') \<Longrightarrow>
     metering_step P w (w\<lparr>mw_db := db', mw_log := mw_log w @ new_events (mw_db w) db'\<rparr>)"
| claimed: "ClaimFlushable (pf_res P) locked now limit maxAttempts until (mw_db w) = (ts, db') \<Longrightarrow>
     metering_step P w (w\<lparr>mw_db := db', mw_held := ts @ mw_held w\<rparr>)"
| reported: "t \<in> set (mw_held w) \<Longrightarrow> billed_to P (tt_Subject t) (tt_Meter t) ref \<Longrightarrow> 0 < Delta (Some t) \<Longrightarrow>
     fe_report (pf_flusher P) (report_input (pf_flusher P) t ref (Delta (Some t)) now) (mw_provider w) = (err, p) \<Longrightarrow>
     metering_step P w (w\<lparr>mw_provider := p, mw_accepted := (if err = None then t # mw_accepted w else mw_accepted w)\<rparr>)"
| settled: "t \<in> set (mw_accepted w) \<or> t \<in> set (mw_held w) \<and> unbilled P (tt_Subject t) (tt_Meter t) \<Longrightarrow>
     MarkFlushed (pf_res P) (Some t) now (mw_db w) = Inr db' \<Longrightarrow> metering_step P w (w\<lparr>mw_db := db'\<rparr>)"
| released: "t \<in> set (mw_held w) \<Longrightarrow>
     ReleaseFlush (pf_res P) (Some t) lastErr nextFlush (mw_db w) = Inr db' \<Longrightarrow> metering_step P w (w\<lparr>mw_db := db'\<rparr>)"
| reaped: "ReapEvents (pf_res P) lockedEvents horizon limit (mw_db w) = (n, db') \<Longrightarrow>
     metering_step P w (w\<lparr>mw_db := db',
       mw_reaped := mw_reaped w @ filter (\<lambda>e. e \<notin> set (md_events db')) (md_events (mw_db w))\<rparr>)"

definition metering_init :: "'p metering_platform \<Rightarrow> 'p metering_world \<Rightarrow> bool" where
  "metering_init P w \<longleftrightarrow> mw_db w = empty_mdb \<and> mw_log w = [] \<and> mw_reaped w = [] \<and> mw_held w = [] \<and>
     mw_accepted w = [] \<and> pf_booked P (mw_provider w) = (\<lambda>_. None)"

abbreviation metering_reach :: "'p metering_platform \<Rightarrow> 'p metering_world \<Rightarrow> bool" where
  "metering_reach P \<equiv> reach (metering_init P) (metering_step P)"

section \<open>What one ledger row does to the totals\<close>

text \<open>The reference: an aggregation as a fold over ledger rows, on unbounded integers.\<close>

definition meter_step :: "Aggregation \<Rightarrow> int \<times> time \<Rightarrow> event_row \<Rightarrow> int \<times> time" where
  "meter_step a ql e =
     (case a of
        AggregationSum \<Rightarrow> fst ql + ev_quantity e
      | AggregationMax \<Rightarrow> max (fst ql) (ev_quantity e)
      | AggregationLast \<Rightarrow> if snd ql < ev_occurred_at e then ev_quantity e else fst ql
      | AggregationUniqueCount \<Rightarrow> fst ql | OtherAggregation _ \<Rightarrow> fst ql,
      max (snd ql) (ev_occurred_at e))"

definition metered :: "Aggregation \<Rightarrow> time \<Rightarrow> event_row list \<Rightarrow> int \<times> time" where
  "metered a start es = foldl (meter_step a) (0, start - Second) es"

definition reading :: "total_row \<Rightarrow> int \<times> time" where
  "reading r = (to_quantity r, to_last_occurred_at r)"

definition billing :: "total_row \<Rightarrow> int \<times> int \<times> int" where
  "billing r = (to_claimed_quantity r, to_flushed_quantity r, to_flush_sequence r)"

definition fresh :: "(string \<Rightarrow> Aggregation) \<Rightarrow> total_row \<Rightarrow> bool" where
  "fresh agg r \<longleftrightarrow> reading r = (0, to_period_start r - Second) \<and> billing r = (0, 0, 0) \<and>
     to_aggregation r = agg (to_meter r)"

definition base_row :: "(string \<Rightarrow> Aggregation) \<Rightarrow> total_key \<Rightarrow> total_row list \<Rightarrow> total_row \<Rightarrow> bool" where
  "base_row agg k T r \<longleftrightarrow>
     (case row_at total_pk T k of Some r0 \<Rightarrow> r = r0 | None \<Rightarrow> total_pk r = k \<and> fresh agg r)"

definition opens :: "(string \<Rightarrow> Aggregation) \<Rightarrow> total_key \<Rightarrow> total_row list \<Rightarrow> total_row list \<Rightarrow> bool" where
  "opens agg k T T' \<longleftrightarrow> distinct (map total_pk T') \<and>
     (\<exists>r. base_row agg k T r \<and> row_at total_pk T' = (row_at total_pk T)(k \<mapsto> r))"

definition counts_one :: "(string \<Rightarrow> Aggregation) \<Rightarrow> event_row \<Rightarrow> total_row list \<Rightarrow> total_row list \<Rightarrow> bool" where
  "counts_one agg e T T' \<longleftrightarrow> distinct (map total_pk T') \<and>
     (\<exists>r r'. base_row agg (event_total e) T r \<and> row_at total_pk T' = (row_at total_pk T)(event_total e \<mapsto> r') \<and>
        total_pk r' = event_total e \<and> reading r' = meter_step (agg (ev_meter e)) (reading r) e \<and>
        billing r' = billing r \<and> to_aggregation r' = to_aggregation r)"

fun counts :: "(string \<Rightarrow> Aggregation) \<Rightarrow> event_row list \<Rightarrow> total_row list \<Rightarrow> total_row list \<Rightarrow> bool" where
  "counts agg [] T T' \<longleftrightarrow> T' = T"
| "counts agg (e # es) T T' \<longleftrightarrow> (\<exists>U. counts_one agg e T U \<and> counts agg es U T')"

lemma distinct_opened: "distinct (map total_pk T) \<Longrightarrow> distinct (map total_pk (opened r0 T))"
  by (auto simp: opened_def)

lemma row_at_opened:
  "row_at total_pk (opened r0 T) =
     (case row_at total_pk T (total_pk r0) of Some _ \<Rightarrow> row_at total_pk T
      | None \<Rightarrow> (row_at total_pk T)(total_pk r0 \<mapsto> r0))"
proof (cases "row_at total_pk T (total_pk r0)")
  case None
  then have n: "total_pk r0 \<notin> total_pk ` set T" by (auto simp: row_at_None_iff)
  then show ?thesis using None by (auto simp: opened_def row_at_snoc)
next
  case (Some r)
  then have "total_pk r0 \<in> total_pk ` set T" by (metis image_eqI row_at_SomeD)
  with Some show ?thesis by (simp add: opened_def)
qed

lemma opened_opens:
  assumes "distinct (map total_pk T)" "total_pk r0 = k" "fresh agg r0"
  shows "opens agg k T (opened r0 T)"
  using assms distinct_opened [OF assms(1)]
  by (auto simp: opens_def base_row_def row_at_opened split: option.splits intro!: exI [of _ r0])

lemma open_fold_at:
  assumes d: "distinct (map total_pk T)" and w: "open_fold r0 ok f T = Some T'" and f: "keeps_pk f"
  shows "distinct (map total_pk T') \<and>
     (\<exists>r. (case row_at total_pk T (total_pk r0) of Some r1 \<Rightarrow> r = r1 | None \<Rightarrow> r = r0) \<and> ok r \<and>
        row_at total_pk T' = (row_at total_pk T)(total_pk r0 \<mapsto> f r))"
proof -
  let ?k = "total_pk r0"
  have pk: "\<And>r. total_pk (f r) = total_pk r" using f by (simp add: keeps_pk_def)
  from w have T': "T' = sql_update (\<lambda>r. total_pk r = ?k) f (opened r0 T)"
    and ok: "\<And>r. r \<in> set (opened r0 T) \<Longrightarrow> total_pk r = ?k \<Longrightarrow> ok r"
    by (auto simp: open_fold_def list_ex_iff split: if_splits)
  have at: "row_at total_pk T' j = map_option (\<lambda>r. if total_pk r = ?k then f r else r) (row_at total_pk (opened r0 T) j)" for j
    unfolding T' by (rule totals.at_update) (rule pk)
  obtain r where r: "row_at total_pk (opened r0 T) ?k = Some r"
      "case row_at total_pk T ?k of Some r1 \<Rightarrow> r = r1 | None \<Rightarrow> r = r0"
    by (cases "row_at total_pk T ?k") (auto simp: row_at_opened)
  have "row_at total_pk T' = (row_at total_pk T)(?k \<mapsto> f r)"
  proof
    fix j
    show "row_at total_pk T' j = ((row_at total_pk T)(?k \<mapsto> f r)) j"
    proof (cases "j = ?k")
      case True
      with r(1) row_at_SomeD [OF r(1)] show ?thesis by (simp add: at)
    next
      case False
      then have "row_at total_pk (opened r0 T) j = row_at total_pk T j"
        by (simp add: row_at_opened split: option.splits)
      with False show ?thesis by (auto simp: at map_option_case dest: row_at_SomeD split: option.splits)
    qed
  qed
  moreover have "ok r" using row_at_SomeD [OF r(1)] ok by blast
  moreover have "distinct (map total_pk T')"
    unfolding T' using totals.distinct_update [where f = f] pk distinct_opened [OF d] by blast
  ultimately show ?thesis using r(2) by blast
qed

lemma event_of_fields [simp]:
  "event_total (event_of res s e at dims) = entry_key res s e"
  "ev_quantity (event_of res s e at dims) = us_Quantity (ue_Usage e)"
  "ev_occurred_at (event_of res s e at dims) = Truncate res (us_OccurredAt (ue_Usage e))"
  "ev_meter (event_of res s e at dims) = us_Meter (ue_Usage e)"
  "ev_period_start (event_of res s e at dims) = Truncate res (bd_Start (ue_Bounds e))"
  by (simp_all add: event_of_def event_total_def entry_key_def)

lemma group_row_single:
  assumes r: "row_ok r" "total_pk r = entry_key (storedResolution d) s e" and e: "entry_ok (storedResolution d) e"
    and a: "Aggregation_Supported (ue_Aggregation e)"
  shows "reading (group_row (storedResolution d) at (single (storedResolution d) e) r) =
      meter_step (ue_Aggregation e) (reading r) (event_of (storedResolution d) s e at' dims)"
proof -
  let ?res = "storedResolution d"
  have L: "bd_Start (ue_Bounds e) - Second \<le> to_last_occurred_at r" "0 \<le> to_quantity r"
    using r e by (simp_all add: row_ok_def total_pk_def entry_key_def entry_ok_def)
  have t: "Truncate ?res (bd_Start (ue_Bounds e) - Second) = bd_Start (ue_Bounds e) - Second"
    using e by (simp add: entry_ok_def Truncate_less_Second)
  note simps = reading_def meter_step_def group_row_moved into_group_keeps t gr_lastOccurredAt_into gr_quantity_into
    keepLarger_max Fold_def
  show ?thesis
  proof (cases "ue_Aggregation e")
    case AggregationSum
    with L e show ?thesis by (simp add: simps entry_ok_def wrap64_id max_def)
  next
    case AggregationMax
    with L e show ?thesis by (simp add: simps entry_ok_def max_def)
  next
    case AggregationLast
    with L e show ?thesis by (simp add: simps entry_ok_def max_def)
  qed (use a in \<open>simp_all add: Aggregation_Supported_def\<close>)
qed

lemma group_row_keeps:
  "billing (group_row res at g r) = billing r" "to_aggregation (group_row res at g r) = to_aggregation r"
  by (cases "gr_aggregation g"; simp add: group_row_def Let_def row_defs billing_def)+

lemma opened_fresh:
  assumes "Truncate (storedResolution d) (bd_Start b) = bd_Start b" "a = agg m"
  shows "fresh agg (opened_row (storedResolution d) s sub m a b at)"
  using assms by (simp add: fresh_def opened_row_def reading_def billing_def seedLastOccurredAt_def Truncate_less_Second)

lemma single_write_counts:
  assumes T: "rows_ok T" "distinct (map total_pk T)" and e: "entry_ok (storedResolution d) e"
    and a: "ue_Aggregation e = agg (us_Meter (ue_Usage e))" "Aggregation_Supported (ue_Aggregation e)"
    and w: "group_write (storedResolution d) s at (single (storedResolution d) e) T = Some T'"
  shows "counts_one agg (event_of (storedResolution d) s e at' dims) T T'"
proof -
  let ?res = "storedResolution d"
  let ?g = "single ?res e" and ?k = "entry_key ?res s e"
  let ?r0 = "group_opened ?res s at ?g"
  have k: "total_pk ?r0 = ?k" by (simp add: pk_group_opened single_total)
  have f: "fresh agg ?r0"
    using e a(1) by (auto simp: group_opened_def into_group_keeps entry_ok_def new_group_def intro!: opened_fresh)
  from open_fold_at [OF T(2) w [unfolded group_write_def] keeps_pk_group_row] k obtain r where
    d: "distinct (map total_pk T')" and b: "case row_at total_pk T ?k of Some r1 \<Rightarrow> r = r1 | None \<Rightarrow> r = ?r0"
    and at: "row_at total_pk T' = (row_at total_pk T)(?k \<mapsto> group_row ?res at ?g r)" by auto
  have base: "base_row agg ?k T r" using b f k by (auto simp: base_row_def split: option.splits)
  have pk: "total_pk r = ?k" using b k by (auto dest: row_at_SomeD split: option.splits)
  have "row_ok r"
    using b T(1) row_ok_opened [OF group_inv_single [OF e], of s at]
    by (auto simp: rows_ok_def list_all_iff dest!: row_at_SomeD split: option.splits)
  have "base_row agg ?k T r \<and> row_at total_pk T' = (row_at total_pk T)(?k \<mapsto> group_row ?res at ?g r) \<and>
      total_pk (group_row ?res at ?g r) = ?k \<and>
      reading (group_row ?res at ?g r) = meter_step (ue_Aggregation e) (reading r) (event_of ?res s e at' dims) \<and>
      billing (group_row ?res at ?g r) = billing r \<and> to_aggregation (group_row ?res at ?g r) = to_aggregation r"
    using base at pk keeps_pk_group_row [of ?res at ?g] group_row_keeps group_row_single [OF \<open>row_ok r\<close> pk e a(2)]
    by (simp add: keeps_pk_def)
  with d show ?thesis unfolding counts_one_def event_of_fields a(1) by blast
qed

lemma insert_entries_events:
  "insert_entries env res s at es db = Inr (acc, db') \<Longrightarrow>
   \<exists>evs. md_events db' = md_events db @ evs \<and> list_all2 (\<lambda>e ev. \<exists>dims. ev = event_of res s e at dims) acc evs \<and>
     (distinct (map event_pk (md_events db)) \<longrightarrow> distinct (map event_pk (md_events db')))"
proof (induction es arbitrary: db acc)
  case Nil
  then show ?case by simp
next
  case (Cons e es)
  from Cons.prems obtain b db1 acc1 where 1: "insertEvent env res s e at db = Inr (b, db1)"
      "insert_entries env res s at es db1 = Inr (acc1, db')" "acc = (if b then e # acc1 else acc1)"
    by (auto split: sum.splits prod.splits)
  from Cons.IH [OF 1(2)] obtain evs where 2: "md_events db' = md_events db1 @ evs"
      "list_all2 (\<lambda>e ev. \<exists>dims. ev = event_of res s e at dims) acc1 evs"
      "distinct (map event_pk (md_events db1)) \<longrightarrow> distinct (map event_pk (md_events db'))" by blast
  obtain dims where dims: "encodeDimensions env (us_Dimensions (ue_Usage e)) = Inr dims"
    using 1(1) by (cases "encodeDimensions env (us_Dimensions (ue_Usage e))") (auto simp: insertEvent_def)
  let ?ev = "event_of res s e at dims"
  show ?case
  proof (cases "event_pk ?ev \<in> event_pk ` set (md_events db)")
    case True
    with 1(1) dims have "\<not> b" "db1 = db" by (auto simp: insertEvent_def InsertMeteringEvent_def)
    with 1(3) 2 show ?thesis by simp
  next
    case False
    with 1(1) dims have b: b "md_events db1 = md_events db @ [?ev]" by (auto simp: insertEvent_def InsertMeteringEvent_def)
    with False have "distinct (map event_pk (md_events db)) \<longrightarrow> distinct (map event_pk (md_events db1))" by simp
    moreover have "list_all2 (\<lambda>e ev. \<exists>dims. ev = event_of res s e at dims) acc (?ev # evs)"
      using 2(2) b(1) 1(3) by auto
    ultimately show ?thesis using 2(1,3) b(2) by (metis append.assoc append_Cons append_Nil)
  qed
qed

lemma single_writes_count:
  assumes "list_all2 (\<lambda>e ev. \<exists>dims. ev = event_of (storedResolution d) s e at dims) es evs"
    "rows_ok T" "distinct (map total_pk T)"
    "\<And>e. e \<in> set es \<Longrightarrow> entry_ok (storedResolution d) e \<and> ue_Aggregation e = agg (us_Meter (ue_Usage e)) \<and>
       Aggregation_Supported (ue_Aggregation e)"
    "group_writes (storedResolution d) s at (map (single (storedResolution d)) es) T = Some T'"
  shows "counts agg evs T T'"
  using assms
proof (induction arbitrary: T rule: list_all2_induct)
  case (Cons e es ev evs)
  let ?res = "storedResolution d"
  from Cons.prems(4) obtain U where U: "group_write ?res s at (single ?res e) T = Some U"
      "group_writes ?res s at (map (single ?res) es) U = Some T'" by (auto split: option.splits)
  from Cons.prems(3) [of e] have e: "entry_ok ?res e" "ue_Aggregation e = agg (us_Meter (ue_Usage e))"
    "Aggregation_Supported (ue_Aggregation e)" by auto
  from Cons.hyps obtain dims where "ev = event_of ?res s e at dims" by blast
  with single_write_counts [where agg = agg, OF Cons.prems(1,2) e U(1)] have c: "counts_one agg ev T U" by blast
  then have "distinct (map total_pk U)" by (simp add: counts_one_def)
  then have "counts agg evs U T'"
    by (rule Cons.IH [OF group_write_rows_ok [OF Cons.prems(1) group_inv_single [OF e(1)] U(1)] _ _ U(2)])
      (rule Cons.prems(3), simp)
  with c show ?case by auto
qed simp

text \<open>Inside \<^verbatim>\<open>int64\<close>, folding one at a time does not fail.\<close>

lemma single_quantity:
  "entry_ok (storedResolution d) e \<Longrightarrow> 0 \<le> gr_quantity (single (storedResolution d) e) \<and>
     gr_quantity (single (storedResolution d) e) \<le> us_Quantity (ue_Usage e)"
  by (auto simp: gr_quantity_into Fold_def entry_ok_def wrap64_id split: Aggregation.splits)

lemma single_write_in_range:
  assumes T: "rows_ok T" and e: "entry_ok (storedResolution d) e" "Aggregation_Supported (ue_Aggregation e)"
    and q: "us_Quantity (ue_Usage e) \<le> b" "b \<le> MaxInt64" "\<forall>r \<in> set T. to_quantity r + b \<le> MaxInt64"
  shows "\<exists>T'. group_write (storedResolution d) s at (single (storedResolution d) e) T = Some T' \<and>
     (\<forall>r \<in> set T'. to_quantity r + (b - us_Quantity (ue_Usage e)) \<le> MaxInt64)"
proof -
  let ?res = "storedResolution d"
  let ?g = "single ?res e"
  let ?o = "opened (group_opened ?res s at ?g) T"
  have o: "rows_ok ?o" by (rule rows_ok_opened [OF T group_inv_single [OF e(1)]])
  have bound: "to_quantity r + b \<le> MaxInt64" if "r \<in> set ?o" for r
    using that q(2,3) by (auto simp: opened_def group_opened_def opened_row_def split: if_splits)
  have q0: "0 \<le> us_Quantity (ue_Usage e)" using e(1) by (simp add: entry_ok_def)
  have ok: "group_ok ?g r" if r: "r \<in> set ?o" for r
  proof -
    have "0 \<le> to_quantity r" using o r by (simp add: rows_ok_def list_all_iff row_ok_def)
    with bound [OF r] single_quantity [OF e(1)] q(1) e(2) show ?thesis
      by (auto simp: group_ok_def into_group_keeps is_int64_def Aggregation_Supported_def split: Aggregation.splits)
  qed
  let ?T' = "sql_update (\<lambda>r. total_pk r = total_pk (group_opened ?res s at ?g)) (group_row ?res at ?g) ?o"
  have "group_write ?res s at ?g T = Some ?T'"
    using ok by (auto simp: group_write_def open_fold_def list_ex_iff)
  moreover have "to_quantity (group_row ?res at ?g r) \<le> to_quantity r + us_Quantity (ue_Usage e)"
    if "r \<in> set ?o" for r
  proof -
    have "0 \<le> to_quantity r" using o that by (simp add: rows_ok_def list_all_iff row_ok_def)
    with single_quantity [OF e(1)] q0 e(2) show ?thesis
      by (cases "gr_aggregation ?g")
        (auto simp: group_row_moved into_group_keeps Aggregation_Supported_def)
  qed
  then have "\<forall>r \<in> set ?T'. to_quantity r + (b - us_Quantity (ue_Usage e)) \<le> MaxInt64"
    using bound q0 unfolding set_sql_update by fastforce
  ultimately show ?thesis by blast
qed

lemma single_writes_in_range:
  assumes "rows_ok T" "\<And>e. e \<in> set es \<Longrightarrow> entry_ok (storedResolution d) e \<and> Aggregation_Supported (ue_Aggregation e)"
    "batch_quantity es \<le> b" "b \<le> MaxInt64" "\<forall>r \<in> set T. to_quantity r + b \<le> MaxInt64"
  shows "\<exists>T'. group_writes (storedResolution d) s at (map (single (storedResolution d)) es) T = Some T'"
  using assms
proof (induction es arbitrary: T b)
  case (Cons e es)
  let ?res = "storedResolution d"
  from Cons.prems(2) [of e] have e: "entry_ok ?res e" "Aggregation_Supported (ue_Aggregation e)" by auto
  have nn: "0 \<le> batch_quantity es"
    unfolding batch_quantity_def using Cons.prems(2) by (intro sum_list_nonneg) (auto simp: entry_ok_def)
  have le: "us_Quantity (ue_Usage e) \<le> b" "batch_quantity es \<le> b - us_Quantity (ue_Usage e)"
    using Cons.prems(3) nn by (simp_all add: batch_quantity_def)
  from single_write_in_range [OF Cons.prems(1) e le(1) Cons.prems(4,5)] obtain U where
    U: "group_write ?res s at (single ?res e) T = Some U"
      "\<forall>r \<in> set U. to_quantity r + (b - us_Quantity (ue_Usage e)) \<le> MaxInt64" by blast
  have "b - us_Quantity (ue_Usage e) \<le> MaxInt64" using Cons.prems(4) e(1) by (simp add: entry_ok_def)
  from Cons.IH [OF group_write_rows_ok [OF Cons.prems(1) group_inv_single [OF e(1)] U(1)] _ le(2) this U(2)]
    Cons.prems(2) U(1) show ?case by auto
qed simp

lemma accepted_quantity:
  "insert_entries env res s at es db = Inr (acc, db') \<Longrightarrow> (\<And>e. e \<in> set es \<Longrightarrow> 0 \<le> us_Quantity (ue_Usage e)) \<Longrightarrow>
   batch_quantity acc \<le> batch_quantity es"
proof (induction es arbitrary: db acc)
  case (Cons e es)
  from Cons.prems(1) obtain b db1 acc1 where 1: "insert_entries env res s at es db1 = Inr (acc1, db')"
      "acc = (if b then e # acc1 else acc1)"
    by (auto split: sum.splits prod.splits)
  from Cons.IH [OF 1(1)] Cons.prems(2) have "batch_quantity acc1 \<le> batch_quantity es" by simp
  with 1(2) Cons.prems(2) [of e] show ?case by (simp add: batch_quantity_def)
qed (simp add: batch_quantity_def)

lemma group_writes_rows_ok:
  assumes "rows_ok T" "\<And>e. e \<in> set es \<Longrightarrow> entry_ok (storedResolution d) e"
    "group_writes (storedResolution d) s at (map (single (storedResolution d)) es) T = Some T'"
  shows "rows_ok T'"
  using assms
  by (induction es arbitrary: T) (auto split: option.splits dest: group_write_rows_ok [OF _ group_inv_single])

text \<open>
  What \<^verbatim>\<open>Record\<close> and \<^verbatim>\<open>Consume\<close> do to the tables: new ledger rows under new keys, and the totals that
  counting those rows one by one gives.
\<close>

definition ingests :: "'p metering_platform \<Rightarrow> mtr_db \<Rightarrow> mtr_db \<Rightarrow> bool" where
  "ingests P db db' \<longleftrightarrow>
     (\<exists>evs U. md_events db' = md_events db @ evs \<and> distinct (map event_pk (md_events db')) \<and>
        list_all (\<lambda>ev. pf_totals P (event_total ev) \<and> ev_quantity ev \<le> MaxInt64 \<and> 0 \<le> ev_quantity ev) evs \<and>
        (U = md_totals db \<or> (\<exists>k. pf_totals P k \<and> opens (pf_agg P) k (md_totals db) U)) \<and>
        counts (pf_agg P) evs U (md_totals db') \<and> rows_ok (md_totals db'))"

lemma Record_ingests:
  assumes rec: "recordable P s es db" and T: "rows_ok (md_totals db)" "distinct (map total_pk (md_totals db))"
    and E: "distinct (map event_pk (md_events db))" and inj: "inj (pf_fmt P)"
    and st: "Store_Record (pf_env P) (pf_fmt P) (pf_res P) True s es at db = Inr (rr, db')"
  shows "ingests P db db'"
proof (cases "es = []")
  case True
  with st rec have "db' = db" by (auto simp: Store_Record_def recordable_def)
  with E T(1) show ?thesis
    unfolding ingests_def by (intro exI [of _ "[] :: event_row list"] exI [of _ "md_totals db"]) simp
next
  case False
  from st rec False obtain acc dbe where 1: "insert_entries (pf_env P) (pf_res P) s at es db = Inr (acc, dbe)"
      "fold_groups (pf_res P) s at (groupEntries (pf_fmt P) (pf_res P) acc) dbe = Inr db'"
    by (auto simp: Store_Record_def recordable_def split: sum.splits)
  from insert_entries_totals [OF 1(1)] have tot: "md_totals dbe = md_totals db" by simp
  have sub: "set acc \<subseteq> set es" by (rule accepted_subset [OF 1(1)])
  have fit: "entries_fit (pf_fmt P) (pf_res P) acc"
    using rec sub by (auto simp: recordable_def intro: entries_fit_mono)
  have ok: "entry_ok (pf_res P) e \<and> ue_Aggregation e = pf_agg P (us_Meter (ue_Usage e)) \<and>
      Aggregation_Supported (ue_Aggregation e) \<and> pf_totals P (entry_key (pf_res P) s e)" if "e \<in> set acc" for e
    using that sub rec entries_fitD(1) [OF fit that] by (auto simp: recordable_def list_all_iff)
  have "batch_quantity acc \<le> batch_quantity es"
    by (rule accepted_quantity [OF 1(1)]) (use rec in \<open>auto simp: recordable_def entries_fit_def list_all_iff entry_ok_def\<close>)
  moreover from rec have "batch_quantity es \<le> MaxInt64" "\<forall>r \<in> set (md_totals db). to_quantity r + batch_quantity es \<le> MaxInt64"
    by (auto simp: recordable_def in_range_def list_all_iff)
  moreover have "\<And>e. e \<in> set acc \<Longrightarrow> entry_ok (pf_res P) e \<and> Aggregation_Supported (ue_Aggregation e)" using ok by blast
  ultimately obtain T' where T': "group_writes (pf_res P) s at (map (single (pf_res P)) acc) (md_totals db) = Some T'"
    using single_writes_in_range [OF T(1), of acc "pf_dialect P" "batch_quantity es" s at] by blast
  from grouping_writes [OF inj fit T(1) T'] 1(2) tot have db': "db' = dbe\<lparr>md_totals := T'\<rparr>"
    by (simp add: fold_groups_writes)
  from insert_entries_events [OF 1(1)] E obtain evs where evs: "md_events dbe = md_events db @ evs"
      "list_all2 (\<lambda>e ev. \<exists>dims. ev = event_of (pf_res P) s e at dims) acc evs" "distinct (map event_pk (md_events dbe))"
    by blast
  have "counts (pf_agg P) evs (md_totals db) T'"
    by (rule single_writes_count [OF evs(2) T _ T']) (use ok in blast)
  moreover have "list_all (\<lambda>ev. pf_totals P (event_total ev) \<and> ev_quantity ev \<le> MaxInt64 \<and> 0 \<le> ev_quantity ev) evs"
  proof -
    have "\<exists>e \<in> set acc. \<exists>dims. ev = event_of (pf_res P) s e at dims" if "ev \<in> set evs" for ev
    proof -
      from that obtain i where i: "i < length evs" "evs ! i = ev" by (auto simp: in_set_conv_nth)
      with evs(2) have "i < length acc" "\<exists>dims. ev = event_of (pf_res P) s (acc ! i) at dims"
        by (auto simp: list_all2_conv_all_nth)
      then show ?thesis by (metis nth_mem)
    qed
    with ok show ?thesis by (fastforce simp: list_all_iff entry_ok_def is_int64_def)
  qed
  moreover have "rows_ok T'" by (rule group_writes_rows_ok [OF T(1) _ T']) (use ok in auto)
  ultimately show ?thesis using evs db' unfolding ingests_def by auto
qed

lemma update_total_at:
  assumes "keeps_pk f"
  shows "total_at (snd (update_total k g f db)) j =
     map_option (\<lambda>r. if total_pk r = k \<and> g r then f r else r) (total_at db j)"
  unfolding total_at_def update_total_def snd_conv
  using totals.at_update [of "\<lambda>r. total_pk r = k \<and> g r" f "md_totals db" j] assms by (simp add: keeps_pk_def)

lemma update_total_distinct:
  assumes "keeps_pk f" "distinct (map total_pk (md_totals db))"
  shows "distinct (map total_pk (md_totals (snd (update_total k g f db))))"
  unfolding update_total_def snd_conv
  using totals.distinct_update [of "\<lambda>r. total_pk r = k \<and> g r" f "md_totals db"] assms by (simp add: keeps_pk_def)

lemma update_total_events [simp]: "md_events (snd (update_total k g f db)) = md_events db"
  by (simp add: update_total_def)

lemma counts_one_Some:
  assumes "distinct (map total_pk T)" "row_at total_pk T (event_total e) = Some r"
    and "T' = sql_update (\<lambda>x. total_pk x = event_total e \<and> True) f T" "keeps_pk f"
    and "reading (f r) = meter_step (agg (ev_meter e)) (reading r) e" "billing (f r) = billing r"
    "to_aggregation (f r) = to_aggregation r"
  shows "counts_one agg e T T'"
proof -
  have pk: "total_pk r = event_total e" using row_at_SomeD [OF assms(2)] by simp
  have "row_at total_pk T' = (row_at total_pk T)(event_total e \<mapsto> f r)"
  proof
    fix j
    have "row_at total_pk T' j = map_option (\<lambda>x. if total_pk x = event_total e \<and> True then f x else x) (row_at total_pk T j)"
      unfolding assms(3) using assms(4) by (intro totals.at_update) (simp add: keeps_pk_def)
    then show "row_at total_pk T' j = ((row_at total_pk T)(event_total e \<mapsto> f r)) j"
      using assms(2) pk by (cases "row_at total_pk T j") (auto dest: row_at_SomeD)
  qed
  moreover have "distinct (map total_pk T')"
    unfolding assms(3) using assms(1,4) by (intro totals.distinct_update) (simp_all add: keeps_pk_def)
  moreover have "base_row agg (event_total e) T r" using assms(2) by (simp add: base_row_def)
  moreover have "total_pk (f r) = event_total e" using assms(4) pk by (simp add: keeps_pk_def)
  ultimately show ?thesis using assms(5-7) unfolding counts_one_def by blast
qed

lemma openTotal_tables:
  "md_totals (openTotal res s sub m a b at db) = opened (opened_row res s sub m a b at) (md_totals db)"
  "md_events (openTotal res s sub m a b at db) = md_events db"
  by (simp_all add: openTotal_def InsertMeteringTotal_def opened_def)

lemma Consume_ingests:
  assumes rec: "recordable P s [e] db" and T: "rows_ok (md_totals db)" "distinct (map total_pk (md_totals db))"
    and E: "distinct (map event_pk (md_events db))"
    and st: "Store_Consume (pf_env P) (pf_res P) True s e limit behavior at db = Inr (dec, db')"
  shows "ingests P db db'"
proof -
  let ?res = "pf_res P" and ?u = "ue_Usage e" and ?k = "entry_key (pf_res P) s e"
  let ?r0 = "opened_row ?res s (us_Subject ?u) (us_Meter ?u) (ue_Aggregation e) (ue_Bounds e) at"
  define db1 where "db1 = openTotal ?res s (us_Subject ?u) (us_Meter ?u) (ue_Aggregation e) (ue_Bounds e) at db"
  from rec have ok: "entry_ok ?res e" "ue_Aggregation e = pf_agg P (us_Meter ?u)"
    "Aggregation_Supported (ue_Aggregation e)" "pf_totals P ?k"
    using entries_fitD(1) [of "pf_fmt P" ?res "[e]" e] by (auto simp: recordable_def list_all_iff)
  have r0: "total_pk ?r0 = ?k" by (simp add: opened_row_def total_pk_def entry_key_def)
  have tot: "md_totals db1 = opened ?r0 (md_totals db)" and ev: "md_events db1 = md_events db"
    by (simp_all add: db1_def openTotal_tables)
  have op: "opens (pf_agg P) ?k (md_totals db) (md_totals db1)"
    unfolding tot using ok by (intro opened_opens T(2) r0 opened_fresh) (auto simp: entry_ok_def)
  have d1: "distinct (map total_pk (md_totals db1))" unfolding tot by (rule distinct_opened [OF T(2)])
  obtain row where row: "total_at db1 ?k = Some row"
    using op by (auto simp: opens_def total_at_def)
  have rowmem: "row \<in> set (md_totals db1)" and rowpk: "total_pk row = ?k"
    using row_at_SomeD [OF row [unfolded total_at_def]] by simp_all
  let ?q = "us_Quantity ?u" and ?o = "Truncate ?res (us_OccurredAt ?u)"
  have range: "0 \<le> to_quantity row" "to_quantity row + ?q \<le> MaxInt64" "0 \<le> ?q"
    using rowmem rec T(1) ok(1)
    by (auto simp: tot opened_def recordable_def in_range_def list_all_iff rows_ok_def row_ok_def batch_quantity_def
        entry_ok_def opened_row_def split: if_splits)
  have ok1: "rows_ok (md_totals db1)"
    using T(1) ok(1)
    by (auto simp: tot opened_def rows_ok_def row_ok_def opened_row_def seedLastOccurredAt_def entry_ok_def
        Truncate_less_Second MaxInt64_def)
  define projected where "projected = Fold (ue_Aggregation e) (to_quantity row) ?q (to_last_occurred_at row < ?o)"
  let ?later = "laterOf (to_last_occurred_at row) ?o"
  have step: "(projected, ?later) = meter_step (pf_agg P (us_Meter ?u)) (reading row) (event_of ?res s e at dims)" for dims
    using range ok(3) unfolding ok(2) [symmetric]
    by (auto simp: projected_def Fold_def meter_step_def reading_def laterOf_def max_def wrap64_id is_int64_def
        split: Aggregation.splits)
  have ex: "\<exists>k. pf_totals P k \<and> opens (pf_agg P) k (md_totals db) (md_totals db1)" using op ok(4) by blast
  then have quiet: "ingests P db db1"
    unfolding ingests_def using E ev ok1
    by (intro exI [of _ "[] :: event_row list"] exI [of _ "md_totals db1"]) simp
  have cons: "consume (pf_env P) ?res s e limit behavior at db = Inr (dec, db')"
    using st rec by (auto simp: Store_Consume_def recordable_def)
  have cases: "db' = db1 \<or> (\<exists>dims. insertEvent (pf_env P) ?res s e at db1 = Inr (True, db1\<lparr>md_events := md_events db1 @ [event_of ?res s e at dims]\<rparr>) \<and>
      event_pk (event_of ?res s e at dims) \<notin> event_pk ` set (md_events db1) \<and>
      db' = ApplyMeteringConsume projected ?later (Truncate ?res at) ?k (db1\<lparr>md_events := md_events db1 @ [event_of ?res s e at dims]\<rparr>))"
    using cons row unfolding consume_def Let_def db1_def [symmetric]
    by (auto simp: totalFrom_def projected_def insertEvent_def InsertMeteringEvent_def Let_def split: sum.splits if_splits)
  then show ?thesis
  proof
    assume "db' = db1"
    with quiet show ?thesis by simp
  next
    assume "\<exists>dims. insertEvent (pf_env P) ?res s e at db1 = Inr (True, db1\<lparr>md_events := md_events db1 @ [event_of ?res s e at dims]\<rparr>) \<and>
      event_pk (event_of ?res s e at dims) \<notin> event_pk ` set (md_events db1) \<and>
      db' = ApplyMeteringConsume projected ?later (Truncate ?res at) ?k (db1\<lparr>md_events := md_events db1 @ [event_of ?res s e at dims]\<rparr>)"
    then obtain dims where new: "event_pk (event_of ?res s e at dims) \<notin> event_pk ` set (md_events db1)"
      and db': "db' = ApplyMeteringConsume projected ?later (Truncate ?res at) ?k (db1\<lparr>md_events := md_events db1 @ [event_of ?res s e at dims]\<rparr>)"
      by blast
    let ?ev = "event_of ?res s e at dims"
    let ?f = "\<lambda>r. r\<lparr>to_quantity := projected, to_last_occurred_at := ?later, to_last_updated_at := Some (Truncate ?res at)\<rparr>"
    have "counts_one (pf_agg P) ?ev (md_totals db1) (md_totals db')"
      by (rule counts_one_Some [where r = row and f = ?f])
        (use d1 row step [of dims] in \<open>auto simp: total_at_def db' ApplyMeteringConsume_def update_total_def keeps_pk_def
          total_pk_def reading_def billing_def\<close>)
    moreover have "rows_ok (md_totals db')"
    proof -
      have "0 \<le> projected" "projected \<le> MaxInt64" "to_last_occurred_at row \<le> ?later"
        using range ok(1,3)
        by (auto simp: projected_def Fold_def laterOf_def wrap64_id is_int64_def entry_ok_def split: Aggregation.splits)
      moreover have "row_ok row" using ok1 rowmem by (simp add: rows_ok_def list_all_iff)
      moreover have "to_period_start r = to_period_start row" if "total_pk r = ?k" for r
        using that rowpk by (metis prod.inject total_pk_def)
      ultimately have "row_ok (?f r)" if "total_pk r = ?k" for r
        using that by (simp add: row_ok_def)
      with ok1 show ?thesis
        by (auto simp: db' ApplyMeteringConsume_def update_total_def rows_ok_def list_all_iff set_sql_update)
    qed
    moreover have "md_events db' = md_events db @ [?ev]" by (simp add: db' ApplyMeteringConsume_def ev)
    moreover from this have "distinct (map event_pk (md_events db'))" using E new ev by simp
    ultimately show ?thesis
      unfolding ingests_def using ex ok(1,4)
      by (intro exI [of _ "[?ev]"] exI [of _ "md_totals db1"]) (simp add: entry_ok_def is_int64_def)
  qed
qed

section \<open>A demonstration platform\<close>

text \<open>A provider that keeps the first quantity it accepts under a key.\<close>

definition demo_report :: "UsageReportInput \<Rightarrow> (string \<times> int) list \<Rightarrow> metering_error option \<times> (string \<times> int) list" where
  "demo_report i p =
     (None, if ui_IdempotencyKey i \<in> fst ` set p then p else (ui_IdempotencyKey i, ui_Quantity i) # p)"

definition demo_flusher :: "(string \<times> int) list flusher_env" where
  "demo_flusher = \<lparr>fe_report = demo_report, fe_mapper = (\<lambda>s m. Inr \<lparr>pr_CustomerID = s, pr_MeterName = m\<rparr>),
     fe_digest = id, fe_backoff = (\<lambda>_. Second), fe_format = FormatInt,
     fe_render = (\<lambda>_. ''failed'')\<rparr>"

definition demo_agg :: "string \<Rightarrow> Aggregation" where
  "demo_agg m = (if m = ''g'' then AggregationLast else AggregationSum)"

definition demo_total :: "total_key \<Rightarrow> bool" where
  "demo_total k \<longleftrightarrow> k = (''t'', ''s'', ''m'', 0) \<or> k = (''t'', ''s'', ''g'', 0)"

definition demo_platform :: "(string \<times> int) list metering_platform" where
  "demo_platform = \<lparr>pf_env = demo_menv, pf_fmt = FormatInt, pf_dialect = Meter_SQLite, pf_flusher = demo_flusher,
     pf_agg = demo_agg, pf_totals = demo_total, pf_booked = map_of\<rparr>"

definition demo_start :: "(string \<times> int) list metering_world" where
  "demo_start = \<lparr>mw_db = empty_mdb, mw_provider = [], mw_log = [], mw_reaped = [], mw_held = [], mw_accepted = []\<rparr>"

lemma demo_start_reached: "metering_reach demo_platform demo_start"
  by (rule reach_init) (simp add: metering_init_def demo_start_def demo_platform_def fun_eq_iff)

lemma demo_recordable:
  "recordable demo_platform (Some ''t'') demo_batch empty_mdb"
  using demo_batch_fits [of Meter_SQLite]
  by (simp add: recordable_def demo_platform_def in_range_def batch_quantity_def empty_mdb_def MaxInt64_def)
    (simp add: demo_batch_def demo_entry_def demo_agg_def Aggregation_Supported_def demo_total_def entry_key_def owner_def)

definition demo_recorded :: "(string \<times> int) list metering_world" where
  "demo_recorded =
     (case Store_Record demo_menv FormatInt (storedResolution Meter_SQLite) True (Some ''t'') demo_batch (7 * Second) empty_mdb of
        Inl _ \<Rightarrow> demo_start
      | Inr (rr, db) \<Rightarrow> demo_start\<lparr>mw_db := db, mw_log := new_events empty_mdb db\<rparr>)"

lemma demo_recorded_reached: "metering_reach demo_platform demo_recorded"
proof -
  let ?st = "Store_Record demo_menv FormatInt (storedResolution Meter_SQLite) True (Some ''t'') demo_batch (7 * Second) empty_mdb"
  have "\<not> isl ?st" by code_simp
  then obtain rr db where st: "?st = Inr (rr, db)" by (cases ?st) auto
  have "metering_step demo_platform demo_start
      (demo_start\<lparr>mw_db := db, mw_log := mw_log demo_start @ new_events (mw_db demo_start) db\<rparr>)"
    by (rule recorded [of _ "Some ''t''" demo_batch _ "7 * Second" rr])
      (use st demo_recordable in \<open>simp_all add: demo_start_def demo_platform_def\<close>)
  then have "metering_step demo_platform demo_start demo_recorded"
    by (simp add: demo_recorded_def st demo_start_def)
  then show ?thesis by (rule reach_step [OF demo_start_reached])
qed

end
