(* ===== verification/Meter_Ledger.thy ===== *)
theory Meter_Ledger
  imports Meter_System
begin

text \<open>
  What the tables count. In every reachable world a total is the fold of the ledger rows ever taken for it,
  each idempotency key once while its row is retained (\<open>totals_fold_the_ledger\<close>); a blocking quota is a
  ceiling and a retried consume is answered as counted (\<open>block_is_a_ceiling\<close>); the retention pass deletes
  no evidence of unbilled usage (\<open>reap_spares_unbilled\<close>).
\<close>

section \<open>Totals and ledger\<close>

definition key_meter :: "total_key \<Rightarrow> string" where "key_meter k = fst (snd (snd k))"
definition key_start :: "total_key \<Rightarrow> time" where "key_start k = snd (snd (snd k))"

definition rows_for :: "total_key \<Rightarrow> event_row list \<Rightarrow> event_row list" where
  "rows_for k = filter (\<lambda>e. event_total e = k)"

definition tracked :: "Aggregation \<Rightarrow> time \<Rightarrow> total_row option \<Rightarrow> event_row list \<Rightarrow> bool" where
  "tracked a start ro es \<longleftrightarrow>
     (case ro of None \<Rightarrow> es = [] | Some r \<Rightarrow> reading r = metered a start es \<and> to_aggregation r = a)"

definition tracks :: "(string \<Rightarrow> Aggregation) \<Rightarrow> total_row list \<Rightarrow> event_row list \<Rightarrow> bool" where
  "tracks agg T log \<longleftrightarrow> (\<forall>k. tracked (agg (key_meter k)) (key_start k) (row_at total_pk T k) (rows_for k log))"

lemma tracksD: "tracks agg T log \<Longrightarrow> tracked (agg (key_meter k)) (key_start k) (row_at total_pk T k) (rows_for k log)"
  unfolding tracks_def by (rule spec)

lemma tracksI:
  "(\<And>k. tracked (agg (key_meter k)) (key_start k) (row_at total_pk T k) (rows_for k log)) \<Longrightarrow> tracks agg T log"
  unfolding tracks_def by (rule allI)

lemma rows_for_snoc: "rows_for k (log @ [e]) = rows_for k log @ (if event_total e = k then [e] else [])"
  by (simp add: rows_for_def)

lemma metered_snoc: "metered a start (es @ [e]) = meter_step a (metered a start es) e"
  by (simp add: metered_def)

lemma key_parts: "key_meter (event_total e) = ev_meter e" "key_start (event_total e) = ev_period_start e"
  "key_meter (total_pk r) = to_meter r" "key_start (total_pk r) = to_period_start r"
  by (simp_all add: key_meter_def key_start_def event_total_def total_pk_def)

lemma base_row_tracks:
  assumes t: "tracks agg T log" and b: "base_row agg k T r"
  shows "tracked (agg (key_meter k)) (key_start k) (Some r) (rows_for k log)"
proof (cases "row_at total_pk T k")
  case None
  with tracksD [OF t, of k] have e: "rows_for k log = []" by (simp add: tracked_def)
  from None b have "total_pk r = k" "fresh agg r" by (simp_all add: base_row_def)
  then show ?thesis using key_parts(3,4) [of r] unfolding e by (simp add: tracked_def fresh_def metered_def)
next
  case (Some r0)
  with b tracksD [OF t, of k] show ?thesis by (simp add: base_row_def)
qed

lemma tracks_opens: "tracks agg T log \<Longrightarrow> opens agg k T U \<Longrightarrow> tracks agg U log"
  unfolding opens_def by (rule tracksI) (auto intro: base_row_tracks tracksD)

lemma tracks_counts_one:
  assumes t: "tracks agg T log" and c: "counts_one agg e T U"
  shows "tracks agg U (log @ [e])"
proof (rule tracksI)
  fix k
  from c obtain r r' where r: "base_row agg (event_total e) T r"
    "row_at total_pk U = (row_at total_pk T)(event_total e \<mapsto> r')"
    "reading r' = meter_step (agg (ev_meter e)) (reading r) e" "to_aggregation r' = to_aggregation r"
    unfolding counts_one_def by blast
  show "tracked (agg (key_meter k)) (key_start k) (row_at total_pk U k) (rows_for k (log @ [e]))"
  proof (cases "k = event_total e")
    case True
    with base_row_tracks [OF t r(1)] r(3,4) show ?thesis
      by (simp add: tracked_def r(2) rows_for_snoc metered_snoc key_parts)
  next
    case False
    with tracksD [OF t, of k] show ?thesis by (simp add: r(2) rows_for_snoc)
  qed
qed

lemma tracks_counts: "tracks agg T log \<Longrightarrow> counts agg es T U \<Longrightarrow> tracks agg U (log @ es)"
proof (induction es arbitrary: T log)
  case (Cons e es)
  from Cons.prems(2) obtain V where "counts_one agg e T V" "counts agg es V U" by auto
  with Cons.IH [OF tracks_counts_one [OF Cons.prems(1)]] show ?case by simp
qed simp

lemma counts_distinct: "distinct (map total_pk T) \<Longrightarrow> counts agg es T U \<Longrightarrow> distinct (map total_pk U)"
  by (induction es arbitrary: T) (auto simp: counts_one_def)

lemma counts_keys:
  "counts agg es T U \<Longrightarrow> list_all K (map total_pk T) \<Longrightarrow> list_all K (map event_total es) \<Longrightarrow> list_all K (map total_pk U)"
proof (induction es arbitrary: T)
  case (Cons e es)
  from Cons.prems(1) obtain V where V: "counts_one agg e T V" "counts agg es V U" by auto
  have "list_all K (map total_pk V)"
  proof -
    from V(1) obtain r' where d: "distinct (map total_pk V)"
      and at: "row_at total_pk V = (row_at total_pk T)(event_total e \<mapsto> r')" by (auto simp: counts_one_def)
    have "K (total_pk r)" if "r \<in> set V" for r
      using row_at_distinct [OF d that] Cons.prems(2,3) unfolding at
      by (auto simp: list_all_iff split: if_splits dest!: row_at_SomeD)
    then show ?thesis by (simp add: list_all_iff)
  qed
  from Cons.IH [OF V(2) this] Cons.prems(3) show ?case by simp
qed simp

lemma opens_keys:
  assumes "opens agg k T U" "K k" "list_all K (map total_pk T)"
  shows "list_all K (map total_pk U)"
proof -
  from assms(1) obtain r' where d: "distinct (map total_pk U)"
    and at: "row_at total_pk U = (row_at total_pk T)(k \<mapsto> r')" by (auto simp: opens_def)
  have "K (total_pk r)" if "r \<in> set U" for r
    using row_at_distinct [OF d that] assms(2,3) unfolding at
    by (auto simp: list_all_iff split: if_splits dest!: row_at_SomeD)
  then show ?thesis by (simp add: list_all_iff)
qed

text \<open>The writes of the flush protocol leave what a total counts alone.\<close>

definition keeps_usage :: "(total_row \<Rightarrow> total_row) \<Rightarrow> bool" where
  "keeps_usage f \<longleftrightarrow> (\<forall>r. total_pk (f r) = total_pk r \<and> reading (f r) = reading r \<and> to_aggregation (f r) = to_aggregation r)"

lemma keeps_usage_pk: "keeps_usage f \<Longrightarrow> keeps_pk f"
  by (simp add: keeps_usage_def keeps_pk_def)

lemma flush_writes_keep_usage:
  "keeps_usage (pinned_row until)" "keeps_usage (settled_row a b)" "keeps_usage (released_total a e b)"
  by (simp_all add: keeps_usage_def pinned_row_def settled_row_def released_total_def total_pk_def reading_def)

definition totals_inv :: "'p metering_platform \<Rightarrow> mtr_db \<Rightarrow> event_row list \<Rightarrow> bool" where
  "totals_inv P db log \<longleftrightarrow>
     distinct (map total_pk (md_totals db)) \<and> rows_ok (md_totals db) \<and> tracks (pf_agg P) (md_totals db) log \<and>
     list_all (\<lambda>r. pf_totals P (total_pk r)) (md_totals db)"

lemma tracked_cong:
  "rel_option (\<lambda>r r'. reading r' = reading r \<and> to_aggregation r' = to_aggregation r) ro ro' \<Longrightarrow>
   tracked a start ro es \<Longrightarrow> tracked a start ro' es"
  by (cases ro; cases ro') (auto simp: tracked_def)

lemma row_ok_cong: "total_pk r' = total_pk r \<Longrightarrow> reading r' = reading r \<Longrightarrow> row_ok r' = row_ok r"
  by (simp add: row_ok_def total_pk_def reading_def)

lemma totals_inv_update:
  assumes inv: "totals_inv P db log" and f: "keeps_usage f"
  shows "totals_inv P (snd (update_total k g f db)) log"
proof -
  let ?db' = "snd (update_total k g f db)"
  note at = update_total_at [OF keeps_usage_pk [OF f], of k g db]
  have rel: "rel_option (\<lambda>r r'. reading r' = reading r \<and> to_aggregation r' = to_aggregation r)
     (row_at total_pk (md_totals db) j) (row_at total_pk (md_totals ?db') j)" for j
    using at [of j] f by (cases "row_at total_pk (md_totals db) j") (auto simp: total_at_def keeps_usage_def)
  have t: "tracks (pf_agg P) (md_totals db) log" using inv by (simp add: totals_inv_def)
  have "tracks (pf_agg P) (md_totals ?db') log"
    by (rule tracksI) (rule tracked_cong [OF rel tracksD [OF t]])
  moreover have "rows_ok (md_totals ?db')"
  proof -
    have "row_ok (f r) = row_ok r" for r using f by (intro row_ok_cong) (simp_all add: keeps_usage_def)
    with inv show ?thesis by (auto simp: totals_inv_def rows_ok_def list_all_iff update_total_def set_sql_update)
  qed
  moreover have "distinct (map total_pk (md_totals ?db'))"
    using inv by (intro update_total_distinct keeps_usage_pk f) (simp add: totals_inv_def)
  moreover have "list_all (\<lambda>r. pf_totals P (total_pk r)) (md_totals ?db')"
    using inv f by (auto simp: totals_inv_def list_all_iff update_total_def set_sql_update keeps_usage_def)
  ultimately show ?thesis by (simp add: totals_inv_def)
qed

lemma lease_totals_induct:
  assumes "Q db" "\<And>until k db. Q db \<Longrightarrow> Q (snd (ClaimMeteringTotal until k db))"
  shows "Q (snd (lease_totals res until rs db))"
  using assms(1)
proof (induction rs arbitrary: db)
  case (Cons r rs)
  have "Q (snd (ClaimMeteringTotal (Truncate res until) (row_key (totalFrom r)) db))" by (rule assms(2) [OF Cons.prems])
  from Cons.IH [OF this] show ?case by (auto simp: Let_def case_prod_beta split: prod.splits)
qed simp

lemma lease_totals_events: "md_events (snd (lease_totals res until rs db)) = md_events db"
  using lease_totals_induct [of "\<lambda>d. md_events d = md_events db" db res until rs]
  by (simp add: ClaimMeteringTotal_def)

lemma totals_inv_lease: "totals_inv P db log \<Longrightarrow> totals_inv P (snd (lease_totals res until rs db)) log"
  by (rule lease_totals_induct) (auto simp: ClaimMeteringTotal_def intro: totals_inv_update flush_writes_keep_usage)

lemma guard_count_Inr: "guard_count ad = Inr db \<longleftrightarrow> fst ad \<noteq> 0 \<and> snd ad = db"
  by (auto simp: guard_count_def)

lemma MarkFlushed_Inr:
  "MarkFlushed res (Some t) at db = Inr db' \<longleftrightarrow>
   (\<exists>r \<in> set (md_totals db). total_pk r = row_key t \<and> to_flush_sequence r = tt_FlushSequence t) \<and>
   db' = snd (update_total (row_key t) (\<lambda>r. to_flush_sequence r = tt_FlushSequence t)
           (settled_row (Truncate res at) (Truncate res at)) db)"
  by (auto simp: MarkFlushed_def MarkMeteringTotalFlushed_def guard_count_Inr update_total_def sql_count_def
      filter_empty_conv)

lemma ReleaseFlush_Inr:
  "ReleaseFlush res (Some t) err nxt db = Inr db' \<Longrightarrow>
   db' = snd (update_total (row_key t) (\<lambda>r. to_flush_sequence r = tt_FlushSequence t)
           (released_total (Truncate res nxt) err (Truncate res nxt)) db)"
  by (auto simp: ReleaseFlush_def ReleaseMeteringFlush_def guard_count_Inr)

lemma totals_inv_ingests:
  assumes "totals_inv P db log" "ingests P db db'"
  shows "totals_inv P db' (log @ new_events db db')"
proof -
  from assms(2) obtain evs U where u: "md_events db' = md_events db @ evs"
    "list_all (\<lambda>ev. pf_totals P (event_total ev) \<and> ev_quantity ev \<le> MaxInt64 \<and> 0 \<le> ev_quantity ev) evs"
    "U = md_totals db \<or> (\<exists>k. pf_totals P k \<and> opens (pf_agg P) k (md_totals db) U)"
    "counts (pf_agg P) evs U (md_totals db')" "rows_ok (md_totals db')"
    unfolding ingests_def by blast
  have inv: "distinct (map total_pk (md_totals db))" "tracks (pf_agg P) (md_totals db) log"
    "list_all (pf_totals P) (map total_pk (md_totals db))"
    using assms(1) by (simp_all add: totals_inv_def list_all_iff)
  have U: "distinct (map total_pk U) \<and> tracks (pf_agg P) U log \<and> list_all (pf_totals P) (map total_pk U)"
    using u(3)
  proof (elim disjE exE conjE)
    fix k
    assume k: "pf_totals P k" "opens (pf_agg P) k (md_totals db) U"
    then have "distinct (map total_pk U)" by (simp add: opens_def)
    with tracks_opens [OF inv(2) k(2)] opens_keys [where K = "pf_totals P", OF k(2,1) inv(3)] show ?thesis by blast
  qed (use inv in simp)
  have "list_all (pf_totals P) (map event_total evs)" using u(2) by (auto simp: list_all_iff)
  with U have "list_all (pf_totals P) (map total_pk (md_totals db'))" by (intro counts_keys [OF u(4)]) blast+
  moreover have "new_events db db' = evs" by (simp add: new_events_def u(1))
  moreover have "tracks (pf_agg P) (md_totals db') (log @ evs)" by (rule tracks_counts [OF _ u(4)]) (use U in blast)
  moreover have "distinct (map total_pk (md_totals db'))" by (rule counts_distinct [OF _ u(4)]) (use U in blast)
  ultimately show ?thesis using u(5) by (simp add: totals_inv_def list_all_iff)
qed

definition ledger_core :: "'p metering_platform \<Rightarrow> mtr_db \<Rightarrow> event_row list \<Rightarrow> event_row list \<Rightarrow> bool" where
  "ledger_core P db log gone \<longleftrightarrow>
     totals_inv P db log \<and> distinct (map event_pk (md_events db)) \<and>
     mset log = mset (md_events db) + mset gone \<and> (gone = [] \<longrightarrow> log = md_events db)"

definition ledger_inv :: "'p metering_platform \<Rightarrow> 'p metering_world \<Rightarrow> bool" where
  "ledger_inv P w \<longleftrightarrow> (inj (pf_fmt P) \<longrightarrow> ledger_core P (mw_db w) (mw_log w) (mw_reaped w))"

lemma prune_tables:
  "md_totals (snd (ReapEvents res locked horizon limit db)) = md_totals db"
  "\<exists>p. md_events (snd (ReapEvents res locked horizon limit db)) = filter p (md_events db)"
  by (auto simp: ReapEvents_def PruneMeteringEvents_def Let_def sql_delete_def intro: exI [of _ "\<lambda>_. True"])

lemma mset_reaped:
  assumes "ys = filter p xs"
  shows "mset xs = mset ys + mset (filter (\<lambda>e. e \<notin> set ys) xs) \<and> (filter (\<lambda>e. e \<notin> set ys) xs = [] \<longrightarrow> ys = xs)"
proof -
  have "filter (\<lambda>e. e \<notin> set ys) xs = filter (\<lambda>e. \<not> p e) xs"
    by (rule filter_cong) (auto simp: assms)
  moreover have "filter (\<lambda>e. \<not> p e) xs = [] \<longrightarrow> filter p xs = xs"
    by (simp add: filter_empty_conv filter_id_conv)
  moreover have "mset xs = mset (filter p xs) + mset (filter (\<lambda>e. \<not> p e) xs)"
    unfolding mset_filter by (rule multiset_partition)
  ultimately show ?thesis by (simp add: assms)
qed

lemma core_ingests:
  assumes "ledger_core P db log gone" "ingests P db db'"
  shows "ledger_core P db' (log @ new_events db db') gone"
  using assms totals_inv_ingests [of P db log db'] unfolding ledger_core_def
  by (auto simp: ingests_def new_events_def)

lemma core_totals:
  "ledger_core P db log gone \<Longrightarrow> totals_inv P db' log \<Longrightarrow> md_events db' = md_events db \<Longrightarrow> ledger_core P db' log gone"
  by (simp add: ledger_core_def)

lemma core_reap:
  assumes core: "ledger_core P db log gone" and db': "db' = snd (ReapEvents res locked horizon limit db)"
  shows "ledger_core P db' log (gone @ filter (\<lambda>e. e \<notin> set (md_events db')) (md_events db))"
proof -
  obtain p where p: "md_events db' = filter p (md_events db)" using prune_tables(2) db' by blast
  have tot: "md_totals db' = md_totals db" unfolding db' by (rule prune_tables(1))
  have "totals_inv P db' log" using core by (simp add: ledger_core_def totals_inv_def tot)
  moreover have "distinct (map event_pk (md_events db'))" using core p by (simp add: ledger_core_def distinct_map_filter)
  moreover define removed where "removed = filter (\<lambda>e. e \<notin> set (md_events db')) (md_events db)"
  ultimately show ?thesis
    using core mset_reaped [OF p] unfolding ledger_core_def removed_def [symmetric] by (auto simp: ac_simps)
qed

lemma ledger_step: "metering_step P w w' \<Longrightarrow> ledger_inv P w \<Longrightarrow> ledger_inv P w'"
proof (induction rule: metering_step.induct)
  case (recorded s es w at rr db')
  show ?case unfolding ledger_inv_def
  proof
    assume i: "inj (pf_fmt P)"
    with recorded(3) have c: "ledger_core P (mw_db w) (mw_log w) (mw_reaped w)" by (simp add: ledger_inv_def)
    then have "ingests P (mw_db w) db'"
      by (intro Record_ingests [OF recorded(1) _ _ _ i recorded(2)]) (simp_all add: ledger_core_def totals_inv_def)
    from core_ingests [OF c this]
    show "ledger_core P (mw_db (w\<lparr>mw_db := db', mw_log := mw_log w @ new_events (mw_db w) db'\<rparr>))
      (mw_log (w\<lparr>mw_db := db', mw_log := mw_log w @ new_events (mw_db w) db'\<rparr>))
      (mw_reaped (w\<lparr>mw_db := db', mw_log := mw_log w @ new_events (mw_db w) db'\<rparr>))" by simp
  qed
next
  case (consumed s e w limit behavior at dec db')
  show ?case unfolding ledger_inv_def
  proof
    assume i: "inj (pf_fmt P)"
    with consumed(3) have c: "ledger_core P (mw_db w) (mw_log w) (mw_reaped w)" by (simp add: ledger_inv_def)
    then have "ingests P (mw_db w) db'"
      by (intro Consume_ingests [OF consumed(1) _ _ _ consumed(2)]) (simp_all add: ledger_core_def totals_inv_def)
    from core_ingests [OF c this]
    show "ledger_core P (mw_db (w\<lparr>mw_db := db', mw_log := mw_log w @ new_events (mw_db w) db'\<rparr>))
      (mw_log (w\<lparr>mw_db := db', mw_log := mw_log w @ new_events (mw_db w) db'\<rparr>))
      (mw_reaped (w\<lparr>mw_db := db', mw_log := mw_log w @ new_events (mw_db w) db'\<rparr>))" by simp
  qed
next
  case (claimed locked now limit maxAttempts until w ts db')
  then have db': "db' = snd (lease_totals (pf_res P) until
      (SelectFlushableMeteringTotals locked (Truncate (pf_res P) now) maxAttempts limit (mw_db w)) (mw_db w))"
    by (simp add: ClaimFlushable_def)
  have "totals_inv P db' (mw_log w)" if "totals_inv P (mw_db w) (mw_log w)"
    unfolding db' by (rule totals_inv_lease [OF that])
  moreover have "md_events db' = md_events (mw_db w)" unfolding db' by (rule lease_totals_events)
  ultimately show ?case using claimed(2) by (simp add: ledger_inv_def ledger_core_def)
next
  case (settled t w now db')
  then show ?case
    by (auto simp: ledger_inv_def MarkFlushed_Inr ledger_core_def intro!: totals_inv_update flush_writes_keep_usage)
next
  case (released t w lastErr nextFlush db')
  from ReleaseFlush_Inr [OF released(2)] released(3) show ?case
    by (auto simp: ledger_inv_def ledger_core_def intro!: totals_inv_update flush_writes_keep_usage)
next
  case (reaped locked horizon limit w n db')
  then have "db' = snd (ReapEvents (pf_res P) locked horizon limit (mw_db w))" by simp
  with reaped(2) core_reap [of P "mw_db w" "mw_log w" "mw_reaped w" db'] show ?case
    by (simp add: ledger_inv_def)
qed (simp add: ledger_inv_def)

interpretation ledger: invariant_system "metering_init P" "metering_step P" "ledger_inv P" for P
proof
  show "ledger_inv P w" if "metering_init P w" for w
  proof -
    have "tracks (pf_agg P) [] []" by (rule tracksI) (simp add: tracked_def rows_for_def)
    with that show ?thesis
      by (simp add: metering_init_def ledger_inv_def ledger_core_def totals_inv_def rows_ok_def empty_mdb_def)
  qed
  show "ledger_inv P w'" if "ledger_inv P w" "metering_step P w w'" for w w'
    by (rule ledger_step [OF that(2,1)])
qed

lemma metered_sum: "fst (metered AggregationSum start es) = sum_list (map ev_quantity es)"
  by (induction es rule: rev_induct) (simp_all add: metered_def meter_step_def)

lemma metered_max: "fst (metered AggregationMax start es) = foldl max 0 (map ev_quantity es)"
  by (induction es rule: rev_induct) (simp_all add: metered_def meter_step_def)

text \<open>C7: In every reachable world, whatever recorders, consumers, flushers and reapers did in whatever order, a
  total holds the fold of the ledger rows ever taken for it (the sum, the peak, the latest reading), the
  ledger holds one row per tenant, meter and idempotency key, and it is all the rows ever taken but those
  the retention pass deleted: a redelivered record counts once.\<close>

theorem totals_fold_the_ledger:
  assumes "inj (pf_fmt P)" "metering_reach P w" "total_at (mw_db w) k = Some r"
  shows "reading r = metered (pf_agg P (key_meter k)) (key_start k) (rows_for k (mw_log w)) \<and>
     distinct (map event_pk (md_events (mw_db w))) \<and>
     mset (mw_log w) = mset (md_events (mw_db w)) + mset (mw_reaped w)"
proof -
  from ledger.reach_inv [OF assms(2)] assms(1) have core: "ledger_core P (mw_db w) (mw_log w) (mw_reaped w)"
    by (simp add: ledger_inv_def)
  then have "tracks (pf_agg P) (md_totals (mw_db w)) (mw_log w)" by (simp add: ledger_core_def totals_inv_def)
  from tracksD [OF this, of k] assms(3) core show ?thesis by (simp add: tracked_def total_at_def ledger_core_def)
qed

lemma totals_fold_the_ledger_witness:
  "\<exists>r. total_at (mw_db demo_recorded) (''t'', ''s'', ''m'', 0) = Some r \<and> to_quantity r = 10 \<and>
     reading r = metered AggregationSum 0 (rows_for (''t'', ''s'', ''m'', 0) (mw_log demo_recorded))"
proof -
  have "map_option to_quantity (total_at (mw_db demo_recorded) (''t'', ''s'', ''m'', 0)) = Some 10" by code_simp
  then obtain r where r: "total_at (mw_db demo_recorded) (''t'', ''s'', ''m'', 0) = Some r" "to_quantity r = 10" by auto
  from totals_fold_the_ledger [OF _ demo_recorded_reached r(1)] r
  show ?thesis by (simp add: demo_platform_def inj_FormatInt demo_agg_def key_meter_def key_start_def)
qed

section \<open>Consuming under a quota\<close>

definition used :: "mtr_db \<Rightarrow> total_key \<Rightarrow> int" where
  "used db k = (case total_at db k of None \<Rightarrow> 0 | Some r \<Rightarrow> to_quantity r)"

text \<open>C13: A blocking quota is a ceiling. A consume either counts, and then the total it leaves is the one it
  reports and within the limit, or it writes no usage: the total and the ledger are what they were. It is a
  duplicate exactly if its key is in the ledger, and a duplicate is always allowed: the retry of a counted
  consume is not refused for the usage it already had.\<close>

theorem block_is_a_ceiling:
  assumes st: "Store_Consume (pf_env P) (pf_res P) True s e limit BehaviorBlock at db = Inr (dec, db')"
  shows "(de_Duplicate dec \<longleftrightarrow> eventExists s e db) \<and> (de_Duplicate dec \<longrightarrow> de_Allowed dec) \<and>
     (if de_Allowed dec \<and> \<not> de_Duplicate dec
      then used db' (entry_key (pf_res P) s e) = de_Used dec \<and> de_Used dec \<le> limit \<and> eventExists s e db'
      else used db' (entry_key (pf_res P) s e) = used db (entry_key (pf_res P) s e) \<and> md_events db' = md_events db)"
proof -
  let ?res = "pf_res P" and ?u = "ue_Usage e" and ?k = "entry_key (pf_res P) s e"
  let ?r0 = "opened_row ?res s (us_Subject ?u) (us_Meter ?u) (ue_Aggregation e) (ue_Bounds e) at"
  define db1 where "db1 = openTotal ?res s (us_Subject ?u) (us_Meter ?u) (ue_Aggregation e) (ue_Bounds e) at db"
  have r0: "total_pk ?r0 = ?k" by (simp add: opened_row_def total_pk_def entry_key_def)
  have ev: "md_events db1 = md_events db" by (simp add: db1_def openTotal_tables)
  have at1: "total_at db1 ?k = Some (case total_at db ?k of Some r \<Rightarrow> r | None \<Rightarrow> ?r0)"
    by (auto simp: db1_def total_at_def openTotal_tables row_at_opened r0 split: option.splits)
  have u1: "used db1 ?k = used db ?k"
    by (simp add: used_def at1 opened_row_def split: option.splits)
  obtain row where row: "total_at db1 ?k = Some row" using at1 by blast
  then have q: "to_quantity row = used db ?k" using u1 by (simp add: used_def)
  have pk: "total_pk row = ?k" using row row_at_SomeD by (metis total_at_def)
  have cons: "consume (pf_env P) ?res s e limit BehaviorBlock at db = Inr (dec, db')"
    using st by (auto simp: Store_Consume_def split: if_splits)
  have ex: "eventExists s e db1 = eventExists s e db" by (simp add: eventExists_def MeteringEventExists_def ev)
  have apply_used: "used (ApplyMeteringConsume x t a ?k d) ?k = x" if "md_totals d = md_totals db1" for x t a d
  proof -
    have "total_at d ?k = Some row" using row that by (simp add: total_at_def)
    moreover have "keeps_pk (\<lambda>r. r\<lparr>to_quantity := x, to_last_occurred_at := t, to_last_updated_at := Some a\<rparr>)"
      by (simp add: keeps_pk_def total_pk_def)
    ultimately show ?thesis using pk by (simp add: used_def ApplyMeteringConsume_def update_total_at)
  qed
  have new: "event_pk (event_of ?res s e at dims) \<in> event_pk ` set (md_events db1) \<longleftrightarrow> eventExists s e db1" for dims
    by (simp add: eventExists_def MeteringEventExists_def event_pk_def event_of_def image_iff)
  have ins: "insertEvent (pf_env P) ?res s e at db1 = Inr (b, db2) \<Longrightarrow>
      b = (\<not> eventExists s e db1) \<and> md_totals db2 = md_totals db1 \<and> (\<not> b \<longrightarrow> db2 = db1) \<and> (b \<longrightarrow> eventExists s e db2)" for b db2
    by (auto simp: insertEvent_def InsertMeteringEvent_def new Let_def eventExists_def MeteringEventExists_def
        event_of_def event_pk_def split: sum.splits if_splits)
  have applied: "md_events (ApplyMeteringConsume x t a j d) = md_events d"
    "eventExists s e (ApplyMeteringConsume x t a j d) = eventExists s e d" for x t a j d
    by (simp_all add: ApplyMeteringConsume_def eventExists_def MeteringEventExists_def)
  define x where "x = Fold (ue_Aggregation e) (used db ?k) (us_Quantity ?u)
    (to_last_occurred_at row < Truncate ?res (us_OccurredAt ?u))"
  have sum: "tt_Quantity (totalFrom row) = used db ?k" "tt_LastOccurredAt (totalFrom row) = to_last_occurred_at row"
    by (simp_all add: totalFrom_def q)
  let ?d = "newDecision (us_Meter ?u) BehaviorBlock x limit (bd_End (ue_Bounds e))"
  let ?c = "?d\<lparr>de_Used := used db ?k, de_Overage := overageOf (used db ?k) limit\<rparr>"
  have allowed: "de_Allowed ?d \<longleftrightarrow> x \<le> limit" "de_Used ?d = x" "de_Duplicate ?d = False"
    by (simp_all add: newDecision_def records_def)
  have body: "(if \<not> x \<le> limit
      then Inr (if eventExists s e db then ?c\<lparr>de_Duplicate := True, de_Allowed := True\<rparr> else ?c, db1)
      else (case insertEvent (pf_env P) ?res s e at db1 of
              Inl err \<Rightarrow> Inl err
            | Inr (inserted, db2) \<Rightarrow>
                if \<not> inserted then Inr (?c\<lparr>de_Duplicate := True\<rparr>, db2)
                else Inr (?d, ApplyMeteringConsume x (laterOf (to_last_occurred_at row) (Truncate ?res (us_OccurredAt ?u)))
                       (Truncate ?res at) ?k db2))) = Inr (dec, db')"
  proof -
    have "records BehaviorBlock = False" by (simp add: records_def)
    note eq = cons [unfolded consume_def Let_def, folded db1_def, unfolded row option.case sum, folded x_def,
        unfolded allowed(1) this ex]
    from eq show ?thesis by (simp only: HOL.simp_thms)
  qed
  show ?thesis
  proof (cases "x \<le> limit")
    case False
    with body have "dec = (if eventExists s e db then ?c\<lparr>de_Duplicate := True, de_Allowed := True\<rparr> else ?c)" "db' = db1"
      by auto
    with False u1 ev show ?thesis by (simp add: allowed)
  next
    case True
    from body True obtain b db2 where i: "insertEvent (pf_env P) ?res s e at db1 = Inr (b, db2)" by (auto split: sum.splits)
    from ins [OF i] ex have b: "b = (\<not> eventExists s e db)" "md_totals db2 = md_totals db1" "b \<longrightarrow> eventExists s e db2"
      "\<not> b \<longrightarrow> db2 = db1" by auto
    show ?thesis
    proof (cases b)
      case True
      with body i \<open>x \<le> limit\<close> show ?thesis using b by (auto simp: allowed apply_used applied)
    next
      case False
      with body i \<open>x \<le> limit\<close> have "dec = ?c\<lparr>de_Duplicate := True\<rparr>" "db' = db1" using b by auto
      with False b u1 ev \<open>x \<le> limit\<close> show ?thesis by (simp add: allowed)
    qed
  qed
qed

lemma block_is_a_ceiling_witness:
  "\<exists>dec db'. Store_Consume demo_menv (storedResolution Meter_SQLite) True (Some ''t'') (demo_entry AggregationSum ''m'' ''a'' 4 3)
       12 BehaviorBlock 9 (mw_db demo_recorded) = Inr (dec, db') \<and>
     de_Allowed dec \<and> used db' (''t'', ''s'', ''m'', 0) = used (mw_db demo_recorded) (''t'', ''s'', ''m'', 0)"
proof -
  let ?e = "demo_entry AggregationSum ''m'' ''a'' 4 3"
  let ?st = "Store_Consume demo_menv (storedResolution Meter_SQLite) True (Some ''t'') ?e 12 BehaviorBlock 9 (mw_db demo_recorded)"
  have "\<not> isl ?st \<and> eventExists (Some ''t'') ?e (mw_db demo_recorded)" by code_simp
  then obtain dec db' where st: "?st = Inr (dec, db')" and ex: "eventExists (Some ''t'') ?e (mw_db demo_recorded)"
    by (cases ?st) auto
  have "Store_Consume (pf_env demo_platform) (pf_res demo_platform) True (Some ''t'') ?e 12 BehaviorBlock 9 (mw_db demo_recorded) =
      Inr (dec, db')" using st by (simp add: demo_platform_def)
  moreover have "entry_key (pf_res demo_platform) (Some ''t'') ?e = (''t'', ''s'', ''m'', 0)" by code_simp
  ultimately show ?thesis using block_is_a_ceiling [of demo_platform "Some ''t''" ?e] ex st by fastforce
qed

text \<open>
  The ceiling is one of \<^verbatim>\<open>int64\<close> arithmetic: a quantity that wraps the sum is projected below zero, is
  allowed under any limit and leaves a negative total.
\<close>

lemma huge_quantity_passes_the_quota:
  "case Store_Consume demo_menv (storedResolution Meter_Postgres) True (Some ''t'') (demo_entry AggregationSum ''m'' ''z'' 4 MaxInt64)
      12 BehaviorBlock 9 (mw_db demo_recorded) of
     Inl _ \<Rightarrow> False
   | Inr (dec, db') \<Rightarrow> de_Allowed dec \<and> \<not> de_Duplicate dec \<and> Usage_validate (ue_Usage (demo_entry AggregationSum ''m'' ''z'' 4 MaxInt64)) = None \<and>
       used db' (''t'', ''s'', ''m'', 0) < 0"
  by code_simp

section \<open>Retention of the ledger\<close>

text \<open>C23: The retention pass deletes at most its batch of ledger rows, reports how many, leaves every total as it
  is, and each row it deletes was recorded at or before the horizon and belongs to a total that owes the
  provider nothing: no evidence of unbilled usage goes, and no key of an unbilled row is reopened.\<close>

theorem reap_spares_unbilled:
  assumes d: "distinct (map event_pk (md_events db))"
    and r: "ReapEvents res locked horizon limit db = (n, db')"
  shows "md_totals db' = md_totals db \<and> n = int (length (md_events db)) - int (length (md_events db')) \<and>
     0 \<le> n \<and> n \<le> max 0 limit \<and>
     list_all (\<lambda>e. e \<in> set (md_events db') \<or>
        ev_recorded_at e \<le> Truncate res horizon \<and>
        (\<forall>t. total_at db (event_total e) = Some t \<longrightarrow> to_quantity t \<le> to_flushed_quantity t)) (md_events db)"
proof (cases "limit \<le> 0")
  case True
  with r show ?thesis by (auto simp: ReapEvents_def list_all_iff)
next
  case False
  let ?h = "Truncate res horizon"
  define D where "D = sql_top limit ev_recorded_at (\<lambda>e. reapable ?h db e \<and> \<not> locked (event_pk e)) (md_events db)"
  have db': "db' = db\<lparr>md_events := sql_delete (\<lambda>e. event_pk e \<in> event_pk ` set D) (md_events db)\<rparr>"
    and n: "n = int (length (md_events db)) - int (length (md_events db'))"
    using r False by (auto simp: ReapEvents_def PruneMeteringEvents_def Let_def D_def)
  have sub: "set D \<subseteq> set (md_events db)" and re: "\<And>e. e \<in> set D \<Longrightarrow> reapable ?h db e"
    unfolding D_def by (auto dest: set_sql_top)
  have dD: "distinct D" using distinct_map_sql_top [OF d] unfolding D_def distinct_map by blast
  have len: "n = int (length D)" unfolding n using length_delete_by_key [OF d dD sub] by (simp add: db')
  have "list_all (\<lambda>e. e \<in> set (md_events db') \<or> ev_recorded_at e \<le> ?h \<and>
        (\<forall>t. total_at db (event_total e) = Some t \<longrightarrow> to_quantity t \<le> to_flushed_quantity t)) (md_events db)"
    unfolding list_all_iff
  proof
    fix e assume e: "e \<in> set (md_events db)"
    show "e \<in> set (md_events db') \<or> ev_recorded_at e \<le> ?h \<and>
        (\<forall>t. total_at db (event_total e) = Some t \<longrightarrow> to_quantity t \<le> to_flushed_quantity t)"
    proof (cases "e \<in> set D")
      case True
      from re [OF this] show ?thesis
        by (auto simp: reapable_def list_ex_iff owes_def total_at_def dest!: row_at_SomeD)
    next
      case False
      then show ?thesis using e selected_by_key [OF d sub e] by (simp add: db' sql_delete_def)
    qed
  qed
  moreover have "length D \<le> nat limit" unfolding D_def by (rule length_sql_top_le)
  ultimately show ?thesis using n len False by (simp add: db')
qed

text \<open>The recorded totals as a provider that has been told everything leaves them.\<close>

definition demo_flushed :: mtr_db where
  "demo_flushed = (mw_db demo_recorded)\<lparr>md_totals :=
     map (\<lambda>r. r\<lparr>to_flushed_quantity := to_quantity r\<rparr>) (md_totals (mw_db demo_recorded))\<rparr>"

lemma reap_spares_unbilled_witness:
  "md_totals (snd (ReapEvents (storedResolution Meter_SQLite) (\<lambda>_. False) (90 * Second) 3 demo_flushed)) = md_totals demo_flushed \<and>
   fst (ReapEvents (storedResolution Meter_SQLite) (\<lambda>_. False) (90 * Second) 3 demo_flushed) = 3"
proof -
  from ledger.reach_inv [OF demo_recorded_reached] have d: "distinct (map event_pk (md_events demo_flushed))"
    by (simp add: ledger_inv_def ledger_core_def demo_platform_def inj_FormatInt demo_flushed_def)
  let ?r = "ReapEvents (storedResolution Meter_SQLite) (\<lambda>_. False) (90 * Second) 3 demo_flushed"
  have "fst ?r = 3" by code_simp
  moreover have "?r = (fst ?r, snd ?r)" by simp
  ultimately show ?thesis using reap_spares_unbilled [OF d, of "storedResolution Meter_SQLite" "\<lambda>_. False" "90 * Second" 3] by blast
qed

end
