(* ===== verification/Meter_Billing.thy ===== *)
theory Meter_Billing
  imports Meter_Ledger
begin

text \<open>
  What the provider is told. The provider keeps the first quantity it accepts under an idempotency key
  (\<open>provider_dedups\<close>, the documented contract of a usage reporter); it may accept a report and lose the
  answer. Under that contract, and where no two totals of the deployment share a subject, a meter and a
  period second (\<open>separated\<close>), the quantities the provider holds for a total are, in every reachable
  world, what the row says was flushed, or what the outstanding claim pinned (\<open>billed_once\<close>).

  The two hypotheses are needed. The key leaves out the tenant, so without \<open>separated\<close> one tenant's usage
  is dropped as a duplicate of another's (\<open>two_tenants_one_key\<close>); and for a gauge the quantity may fall
  below what was already billed (\<open>gauge_is_not_credited\<close>).
\<close>

section \<open>Keys and books\<close>

definition key_subject :: "total_key \<Rightarrow> string" where "key_subject k = fst (snd k)"

definition post_key :: "(string \<Rightarrow> string) \<Rightarrow> total_key \<Rightarrow> int \<Rightarrow> string" where
  "post_key digest k n = idempotencyKeyPrefix @ digest (flush_image (key_subject k) (key_meter k) (key_start k) n)"

lemma FlushIdempotencyKey_post: "FlushIdempotencyKey digest (Some t) = post_key digest (row_key t) (tt_FlushSequence t)"
  by (simp add: FlushIdempotencyKey_def post_key_def row_key_def key_subject_def key_meter_def key_start_def)

definition separated :: "'p metering_platform \<Rightarrow> bool" where
  "separated P \<longleftrightarrow>
     (\<forall>k k'. pf_totals P k \<longrightarrow> pf_totals P k' \<longrightarrow> key_subject k = key_subject k' \<longrightarrow> key_meter k = key_meter k' \<longrightarrow>
        Unix (key_start k) = Unix (key_start k') \<longrightarrow> k = k') \<and>
     (\<forall>k. pf_totals P k \<longrightarrow> CHR 0x00 \<notin> set (key_meter k))"

definition taken :: "UsageReportInput \<Rightarrow> (string \<Rightarrow> int option) \<Rightarrow> string \<Rightarrow> int option" where
  "taken i b = (if b (ui_IdempotencyKey i) = None then b(ui_IdempotencyKey i \<mapsto> ui_Quantity i) else b)"

definition provider_dedups :: "'p metering_platform \<Rightarrow> bool" where
  "provider_dedups P \<longleftrightarrow>
     (\<forall>i p err p'. fe_report (pf_flusher P) i p = (err, p') \<longrightarrow>
        pf_booked P p' = taken i (pf_booked P p) \<or> err \<noteq> None \<and> pf_booked P p' = pf_booked P p)"

definition sound_platform :: "'p metering_platform \<Rightarrow> bool" where
  "sound_platform P \<longleftrightarrow> inj (pf_fmt P) \<and> inj (fe_digest (pf_flusher P)) \<and> separated P \<and> provider_dedups P"

abbreviation pkey :: "'p metering_platform \<Rightarrow> total_key \<Rightarrow> int \<Rightarrow> string" where
  "pkey P \<equiv> post_key (fe_digest (pf_flusher P))"

definition bills :: "'p metering_platform \<Rightarrow> total_key \<Rightarrow> bool" where
  "bills P k \<longleftrightarrow> pf_totals P k \<and> (\<exists>ref. billed_to P (key_subject k) (key_meter k) ref)"

lemma pkey_eq:
  assumes "sound_platform P" "pf_totals P k" "pf_totals P k'"
  shows "pkey P k n = pkey P k' n' \<longleftrightarrow> k = k' \<and> n = n'"
proof
  assume eq: "pkey P k n = pkey P k' n'"
  from assms have s: "inj (fe_digest (pf_flusher P))" "separated P" by (simp_all add: sound_platform_def)
  then have m: "CHR 0x00 \<notin> set (key_meter k)" "CHR 0x00 \<notin> set (key_meter k')"
    using assms(2,3) unfolding separated_def by blast+
  from eq s(1) have "flush_image (key_subject k) (key_meter k) (key_start k) n =
      flush_image (key_subject k') (key_meter k') (key_start k') n'"
    by (simp add: post_key_def inj_eq)
  then have "key_subject k = key_subject k' \<and> key_meter k = key_meter k' \<and> Unix (key_start k) = Unix (key_start k') \<and> n = n'"
    unfolding flush_image_eq [OF m] .
  with s(2) assms(2,3) show "k = k' \<and> n = n'" unfolding separated_def by blast
qed simp

text \<open>What the provider holds against the first \<open>n\<close> keys of a total.\<close>

definition amount :: "int option \<Rightarrow> int" where
  "amount a = (case a of None \<Rightarrow> 0 | Some q \<Rightarrow> q)"

definition billed_upto :: "(int \<Rightarrow> int option) \<Rightarrow> nat \<Rightarrow> int" where
  "billed_upto b n = (\<Sum>i<n. amount (b (int i)))"

definition books :: "(int \<Rightarrow> int option) \<Rightarrow> total_row option \<Rightarrow> bool" where
  "books b ro \<longleftrightarrow>
     (case ro of
        None \<Rightarrow> \<forall>n\<ge>0. b n = None
      | Some r \<Rightarrow>
          billed_upto b (nat (to_flush_sequence r)) = to_flushed_quantity r \<and>
          (\<forall>n. 0 \<le> n \<longrightarrow> n < to_flush_sequence r \<longrightarrow> b n \<noteq> None) \<and>
          (\<forall>n. to_flush_sequence r < n \<longrightarrow> b n = None) \<and>
          (b (to_flush_sequence r) = None \<or>
           b (to_flush_sequence r) = Some (to_claimed_quantity r - to_flushed_quantity r) \<and>
             to_flushed_quantity r < to_claimed_quantity r))"

definition row_billing :: "(string \<Rightarrow> Aggregation) \<Rightarrow> total_row \<Rightarrow> bool" where
  "row_billing agg r \<longleftrightarrow>
     0 \<le> to_flush_sequence r \<and> 0 \<le> to_flushed_quantity r \<and> to_flushed_quantity r \<le> to_claimed_quantity r \<and>
     to_claimed_quantity r \<le> MaxInt64 \<and> (agg (to_meter r) \<noteq> AggregationLast \<longrightarrow> to_claimed_quantity r \<le> to_quantity r)"

definition held_by_row :: "Total \<Rightarrow> total_row option \<Rightarrow> bool" where
  "held_by_row t ro \<longleftrightarrow>
     (case ro of
        None \<Rightarrow> False
      | Some r \<Rightarrow>
          0 \<le> tt_FlushSequence t \<and> tt_FlushSequence t \<le> to_flush_sequence r \<and>
          0 \<le> tt_FlushedQuantity t \<and> tt_FlushedQuantity t < tt_ClaimedQuantity t \<and> tt_ClaimedQuantity t \<le> MaxInt64 \<and>
          (tt_FlushSequence t = to_flush_sequence r \<longrightarrow>
             tt_ClaimedQuantity t = to_claimed_quantity r \<and> tt_FlushedQuantity t = to_flushed_quantity r))"

lemma billed_upto_cong: "(\<And>n. 0 \<le> n \<Longrightarrow> b n = b' n) \<Longrightarrow> billed_upto b k = billed_upto b' k"
  by (simp add: billed_upto_def)

lemma billed_upto_Suc: "billed_upto b (Suc k) = billed_upto b k + amount (b (int k))"
  by (simp add: billed_upto_def)

section \<open>The moves of a row\<close>

text \<open>Usage moves the quantity and nothing of the flush protocol, and opens rows that owe nothing yet.\<close>

definition usage_move :: "Aggregation \<Rightarrow> total_row option \<Rightarrow> total_row option \<Rightarrow> bool" where
  "usage_move a ro ro' \<longleftrightarrow>
     (case ro of
        None \<Rightarrow> (case ro' of None \<Rightarrow> True | Some r' \<Rightarrow> billing r' = (0, 0, 0))
      | Some r \<Rightarrow> (case ro' of None \<Rightarrow> False
          | Some r' \<Rightarrow> billing r' = billing r \<and> (a \<noteq> AggregationLast \<longrightarrow> to_quantity r \<le> to_quantity r')))"

lemma usage_move_refl: "usage_move a ro ro"
  by (simp add: usage_move_def split: option.splits)

lemma usage_move_trans: "usage_move a ro ro' \<Longrightarrow> usage_move a ro' ro'' \<Longrightarrow> usage_move a ro ro''"
  by (auto simp: usage_move_def split: option.splits)

lemma meter_step_mono:
  "0 \<le> ev_quantity e \<Longrightarrow> a \<noteq> AggregationLast \<Longrightarrow> fst ql \<le> fst (meter_step a ql e)"
  by (auto simp: meter_step_def split: Aggregation.splits)

lemma counts_one_move:
  assumes c: "counts_one agg e T U" and q: "0 \<le> ev_quantity e"
  shows "usage_move (agg (key_meter k)) (row_at total_pk T k) (row_at total_pk U k)"
proof -
  from c obtain r r' where r: "base_row agg (event_total e) T r"
    "row_at total_pk U = (row_at total_pk T)(event_total e \<mapsto> r')"
    "reading r' = meter_step (agg (ev_meter e)) (reading r) e" "billing r' = billing r"
    unfolding counts_one_def by blast
  show ?thesis
  proof (cases "k = event_total e")
    case False
    with r(2) show ?thesis by (simp add: usage_move_refl)
  next
    case True
    have "to_quantity r' = fst (meter_step (agg (ev_meter e)) (reading r) e)"
      using r(3) by (metis fst_conv reading_def)
    then have mono: "agg (ev_meter e) \<noteq> AggregationLast \<Longrightarrow> to_quantity r \<le> to_quantity r'"
      using meter_step_mono [OF q, of "agg (ev_meter e)" "reading r"] by (simp add: reading_def)
    show ?thesis
    proof (cases "row_at total_pk T k")
      case None
      with True r(1) have "fresh agg r" by (simp add: base_row_def)
      then have "billing r' = (0, 0, 0)" using r(4) by (simp add: fresh_def)
      then show ?thesis using None True r(2) by (simp add: usage_move_def)
    next
      case (Some r0)
      with True r(1) have "r = r0" by (simp add: base_row_def)
      with Some True r(2,4) mono show ?thesis by (simp add: usage_move_def key_parts)
    qed
  qed
qed

lemma opens_move:
  assumes "opens agg j T U"
  shows "usage_move (agg (key_meter k)) (row_at total_pk T k) (row_at total_pk U k)"
proof -
  from assms obtain r where r: "base_row agg j T r" "row_at total_pk U = (row_at total_pk T)(j \<mapsto> r)"
    unfolding opens_def by blast
  show ?thesis
  proof (cases "j = k")
    case True
    with r show ?thesis
      by (cases "row_at total_pk T k") (simp_all add: base_row_def usage_move_def fresh_def)
  qed (simp add: r(2) usage_move_refl)
qed

lemma counts_move:
  "counts agg es T U \<Longrightarrow> list_all (\<lambda>e. 0 \<le> ev_quantity e) es \<Longrightarrow>
   usage_move (agg (key_meter k)) (row_at total_pk T k) (row_at total_pk U k)"
proof (induction es arbitrary: T)
  case (Cons e es)
  from Cons.prems(1) obtain V where V: "counts_one agg e T V" "counts agg es V U" by auto
  from Cons.prems(2) have q: "0 \<le> ev_quantity e" "list_all (\<lambda>e. 0 \<le> ev_quantity e) es" by simp_all
  show ?case by (rule usage_move_trans [OF counts_one_move [OF V(1) q(1)] Cons.IH [OF V(2) q(2)]])
qed (simp add: usage_move_refl)

lemma ingests_move:
  assumes "ingests P db db'"
  shows "usage_move (pf_agg P (key_meter k)) (total_at db k) (total_at db' k)"
proof -
  from assms obtain evs U where u:
    "list_all (\<lambda>ev. pf_totals P (event_total ev) \<and> ev_quantity ev \<le> MaxInt64 \<and> 0 \<le> ev_quantity ev) evs"
    "U = md_totals db \<or> (\<exists>k. pf_totals P k \<and> opens (pf_agg P) k (md_totals db) U)"
    "counts (pf_agg P) evs U (md_totals db')"
    unfolding ingests_def by blast
  have "list_all (\<lambda>e. 0 \<le> ev_quantity e) evs" using u(1) by (simp add: list_all_iff)
  note moved = counts_move [OF u(3) this]
  from u(2) show ?thesis unfolding total_at_def
  proof (elim disjE exE conjE)
    assume "U = md_totals db"
    with moved show "usage_move (pf_agg P (key_meter k)) (row_at total_pk (md_totals db) k) (row_at total_pk (md_totals db') k)"
      by simp
  next
    fix j
    assume "opens (pf_agg P) j (md_totals db) U"
    from usage_move_trans [OF opens_move [OF this] moved]
    show "usage_move (pf_agg P (key_meter k)) (row_at total_pk (md_totals db) k) (row_at total_pk (md_totals db') k)" .
  qed
qed

text \<open>Every move keeps the billing facts of a row.\<close>

lemma billing_eqD:
  "billing r' = billing r \<Longrightarrow> to_claimed_quantity r' = to_claimed_quantity r \<and>
     to_flushed_quantity r' = to_flushed_quantity r \<and> to_flush_sequence r' = to_flush_sequence r"
  by (simp add: billing_def)

lemma books_billing: "billing r' = billing r \<Longrightarrow> books b (Some r') = books b (Some r)"
  by (drule billing_eqD) (simp add: books_def)

lemma books_fresh: "books b None \<Longrightarrow> billing r = (0, 0, 0) \<Longrightarrow> books b (Some r)"
  by (simp add: books_def billing_def billed_upto_def)

lemma usage_move_cases:
  assumes "usage_move a ro ro'"
  obtains "ro = None" "ro' = None" | r' where "ro = None" "ro' = Some r'" "billing r' = (0, 0, 0)"
  | r r' where "ro = Some r" "ro' = Some r'" "billing r' = billing r" "a \<noteq> AggregationLast \<longrightarrow> to_quantity r \<le> to_quantity r'"
  using assms by (cases ro; cases ro') (simp_all add: usage_move_def)

lemma books_move: "usage_move a ro ro' \<Longrightarrow> books b ro \<Longrightarrow> books b ro'"
  by (erule usage_move_cases) (blast intro: books_fresh books_billing [THEN iffD2])+

lemma held_billing: "billing r' = billing r \<Longrightarrow> held_by_row t (Some r') = held_by_row t (Some r)"
  by (drule billing_eqD) (simp add: held_by_row_def)

lemma held_move: "usage_move a ro ro' \<Longrightarrow> held_by_row t ro \<Longrightarrow> held_by_row t ro'"
proof (erule usage_move_cases)
  fix r r' assume "ro = Some r" "ro' = Some r'" "billing r' = billing r" "held_by_row t ro"
  then show ?thesis using held_billing [of r' r t] by simp
qed (simp_all add: held_by_row_def)

lemma row_billing_move:
  "usage_move (agg (to_meter r')) ro (Some r') \<Longrightarrow> 0 \<le> to_quantity r' \<Longrightarrow>
   (\<And>r. ro = Some r \<Longrightarrow> row_billing agg r \<and> to_meter r = to_meter r') \<Longrightarrow> row_billing agg r'"
proof (erule usage_move_cases)
  fix r s
  assume "ro = Some r" "Some r' = Some s" "billing s = billing r"
    "agg (to_meter r') \<noteq> AggregationLast \<longrightarrow> to_quantity r \<le> to_quantity s"
    "\<And>r. ro = Some r \<Longrightarrow> row_billing agg r \<and> to_meter r = to_meter r'"
  then show ?thesis using billing_eqD [of s r] by (auto simp: row_billing_def)
next
  fix s
  assume "Some r' = Some s" "billing s = (0, 0, 0)" "0 \<le> to_quantity r'"
  then show ?thesis by (simp add: row_billing_def billing_def MaxInt64_def)
qed simp

lemma billing_release: "billing (released_total a e b r) = billing r" "to_quantity (released_total a e b r) = to_quantity r"
  by (simp_all add: released_total_def billing_def)

lemma books_pin:
  "books b (Some r) \<Longrightarrow> row_billing agg r \<Longrightarrow> books b (Some (pinned_row until r))"
  by (auto simp: books_def pinned_row_def PinnedQuantity_def)

lemma held_pin: "held_by_row t (Some r) \<Longrightarrow> held_by_row t (Some (pinned_row until r))"
  by (auto simp: held_by_row_def pinned_row_def PinnedQuantity_def)

lemma row_billing_pin:
  "row_billing agg r \<Longrightarrow> owes r \<Longrightarrow> row_ok r \<Longrightarrow> row_billing agg (pinned_row until r)"
  by (auto simp: row_billing_def pinned_row_def PinnedQuantity_def owes_def row_ok_def)

definition leased_total :: "total_row \<Rightarrow> Total" where
  "leased_total r =
     (totalFrom r)\<lparr>tt_ClaimedQuantity := PinnedQuantity (tt_ClaimedQuantity (totalFrom r))
         (tt_FlushedQuantity (totalFrom r)) (tt_Quantity (totalFrom r)),
       tt_FlushAttempts := tt_FlushAttempts (totalFrom r) + 1\<rparr>"

lemma row_key_totalFrom: "row_key (totalFrom r) = total_pk r" "row_key (leased_total r) = total_pk r"
  by (simp_all add: row_key_def totalFrom_def total_pk_def owner_def leased_total_def)

lemma held_after_pin:
  "row_billing agg r \<Longrightarrow> owes r \<Longrightarrow> row_ok r \<Longrightarrow> held_by_row (leased_total r) (Some (pinned_row until r))"
  by (auto simp: held_by_row_def pinned_row_def PinnedQuantity_def owes_def row_ok_def row_billing_def totalFrom_def
      leased_total_def)

lemma row_billing_settle: "row_billing agg r \<Longrightarrow> row_billing agg (settled_row a c r)"
  by (auto simp: row_billing_def settled_row_def)

lemma held_settle: "held_by_row t (Some r) \<Longrightarrow> held_by_row t (Some (settled_row a c r))"
  by (auto simp: held_by_row_def settled_row_def)

lemma books_settle:
  assumes b: "books b (Some r)" "row_billing agg r" and told: "b (to_flush_sequence r) \<noteq> None"
  shows "books b (Some (settled_row a c r))"
proof -
  let ?n = "to_flush_sequence r"
  have n: "0 \<le> ?n" using b(2) by (simp add: row_billing_def)
  have "nat (?n + 1) = Suc (nat ?n)" using n by simp
  then have "billed_upto b (nat (?n + 1)) = to_flushed_quantity r + amount (b ?n)"
    using b(1) n by (simp add: billed_upto_Suc books_def)
  also have "\<dots> = to_claimed_quantity r" using b(1) told by (auto simp: books_def amount_def)
  finally have "billed_upto b (nat (?n + 1)) = to_claimed_quantity r" .
  moreover have "b m \<noteq> None" if "0 \<le> m" "m < ?n + 1" for m
    using b(1) told that by (cases "m = ?n") (simp_all add: books_def)
  moreover have "b m = None" if "?n + 1 \<le> m" for m using b(1) that by (simp add: books_def)
  ultimately show ?thesis by (simp add: books_def settled_row_def)
qed

section \<open>The invariant\<close>

lemma all_rowsI:
  assumes "distinct (map total_pk (md_totals db))" "\<And>k r. total_at db k = Some r \<Longrightarrow> Q r"
  shows "list_all Q (md_totals db)"
  unfolding list_all_iff
proof
  fix r assume "r \<in> set (md_totals db)"
  from row_at_distinct [OF assms(1) this] show "Q r" by (rule assms(2) [unfolded total_at_def])
qed

lemma all_rowsD: "list_all Q (md_totals db) \<Longrightarrow> total_at db k = Some r \<Longrightarrow> Q r \<and> total_pk r = k"
  unfolding total_at_def by (drule row_at_SomeD) (simp add: list_all_iff)

lemma lease_totals_Cons:
  "lease_totals res until (r # rs) db =
     (let (affected, db) = ClaimMeteringTotal (Truncate res until) (total_pk r) db
      in if affected = 0 then lease_totals res until rs db
         else (let (claimed, db) = lease_totals res until rs db in (leased_total r # claimed, db)))"
  by (simp only: lease_totals.simps Let_def row_key_totalFrom leased_total_def)

text \<open>A claim takes every total it selected, and pins each.\<close>

lemma lease_all:
  assumes "\<And>r. r \<in> set rs \<Longrightarrow> total_at db (total_pk r) = Some r \<and> owes r" "distinct (map total_pk rs)"
    "lease_totals res until rs db = (ts, db')"
  shows "ts = map leased_total rs \<and>
     (\<forall>k. total_at db' k =
        map_option (\<lambda>r. if k \<in> total_pk ` set rs then pinned_row (Truncate res until) r else r) (total_at db k))"
  using assms
proof (induction rs arbitrary: db ts)
  case Nil
  then show ?case by (simp add: option.map_ident)
next
  case (Cons r rs)
  let ?u = "Truncate res until" and ?k = "total_pk r"
  define db1 where "db1 = snd (ClaimMeteringTotal ?u ?k db)"
  have r: "total_at db ?k = Some r" "owes r" using Cons.prems(1) [of r] by simp_all
  have at1: "total_at db1 j = map_option (\<lambda>x. if total_pk x = ?k \<and> owes x then pinned_row ?u x else x) (total_at db j)" for j
    unfolding db1_def ClaimMeteringTotal_def
    by (rule update_total_at) (rule keeps_usage_pk [OF flush_writes_keep_usage(1)])
  have "fst (ClaimMeteringTotal ?u ?k db) \<noteq> 0"
  proof -
    have "r \<in> set (md_totals db)" using r(1) row_at_SomeD by (metis total_at_def)
    then show ?thesis using r(2) by (auto simp: ClaimMeteringTotal_def update_total_def sql_count_def filter_empty_conv)
  qed
  moreover obtain ts1 dbx where l: "lease_totals res until rs db1 = (ts1, dbx)" by force
  ultimately have "lease_totals res until (r # rs) db = (leased_total r # ts1, dbx)"
    unfolding lease_totals_Cons by (simp add: case_prod_beta db1_def)
  with Cons.prems(3) l have rest: "lease_totals res until rs db1 = (ts1, db')" "ts = leased_total r # ts1"
    by simp_all
  have other: "total_at db1 j = total_at db j" if "j \<noteq> ?k" for j
  proof (cases "total_at db j")
    case (Some x)
    then have "total_pk x = j" using row_at_SomeD by (metis total_at_def)
    with Some that show ?thesis by (simp add: at1)
  qed (simp add: at1)
  have mem: "total_at db1 (total_pk x) = Some x \<and> owes x" if "x \<in> set rs" for x
  proof -
    have "total_pk x \<noteq> ?k" using that Cons.prems(2) by (auto simp: image_iff)
    with Cons.prems(1) [of x] that show ?thesis by (simp add: other)
  qed
  have D: "distinct (map total_pk rs)" using Cons.prems(2) by simp
  note IH0 = Cons.IH [OF mem D rest(1)]
  note IH = conjunct1 [OF IH0] conjunct2 [OF IH0, THEN spec]
  have "total_at db' j = map_option (\<lambda>x. if j \<in> total_pk ` set (r # rs) then pinned_row ?u x else x) (total_at db j)" for j
  proof (cases "j = ?k")
    case True
    then have "j \<notin> total_pk ` set rs" using Cons.prems(2) by auto
    with True r show ?thesis by (simp add: IH(2) at1 option.map_ident)
  next
    case False
    then show ?thesis by (simp add: IH(2) other)
  qed
  with rest(2) IH(1) show ?case by simp
qed

lemma claim_all:
  assumes d: "distinct (map total_pk (md_totals db))"
    and c: "ClaimFlushable res locked now limit maxAttempts until db = (ts, db')"
  shows "\<exists>rs. ts = map leased_total rs \<and> distinct (map total_pk rs) \<and>
     rs = SelectFlushableMeteringTotals locked (Truncate res now) maxAttempts limit db \<and>
     (\<forall>r \<in> set rs. total_at db (total_pk r) = Some r \<and> owes r) \<and>
     (\<forall>k. total_at db' k =
        map_option (\<lambda>r. if k \<in> total_pk ` set rs then pinned_row (Truncate res until) r else r) (total_at db k))"
proof -
  define rs where "rs = SelectFlushableMeteringTotals locked (Truncate res now) maxAttempts limit db"
  have mem: "total_at db (total_pk r) = Some r \<and> owes r" if "r \<in> set rs" for r
    using set_sql_top [OF that [unfolded rs_def SelectFlushableMeteringTotals_def]] row_at_distinct [OF d, of r]
    by (simp add: flushable_def total_at_def)
  have dist: "distinct (map total_pk rs)"
    unfolding rs_def SelectFlushableMeteringTotals_def by (rule distinct_map_sql_top [OF d])
  from c have "lease_totals res until rs db = (ts, db')" by (simp add: ClaimFlushable_def rs_def)
  from lease_all [OF mem dist this] mem dist show ?thesis unfolding rs_def [symmetric] by blast
qed

definition books_all :: "'p metering_platform \<Rightarrow> 'p \<Rightarrow> mtr_db \<Rightarrow> bool" where
  "books_all P p db \<longleftrightarrow> (\<forall>k. bills P k \<longrightarrow> books (\<lambda>n. pf_booked P p (pkey P k n)) (total_at db k))"

lemma books_allI:
  "(\<And>k. bills P k \<Longrightarrow> books (\<lambda>n. pf_booked P p (pkey P k n)) (total_at db k)) \<Longrightarrow> books_all P p db"
  unfolding books_all_def by (intro allI impI)

lemma books_allD:
  "books_all P p db \<Longrightarrow> bills P k \<Longrightarrow> books (\<lambda>n. pf_booked P p (pkey P k n)) (total_at db k)"
  unfolding books_all_def by (drule spec, erule mp)

definition billing_core :: "'p metering_platform \<Rightarrow> mtr_db \<Rightarrow> 'p \<Rightarrow> Total list \<Rightarrow> Total list \<Rightarrow> bool" where
  "billing_core P db p held acc \<longleftrightarrow>
     list_all (row_billing (pf_agg P)) (md_totals db) \<and>
     list_all (\<lambda>t. held_by_row t (total_at db (row_key t))) held \<and>
     set acc \<subseteq> set held \<and>
     list_all (\<lambda>t. pf_booked P p (pkey P (row_key t) (tt_FlushSequence t)) \<noteq> None) acc \<and>
     books_all P p db"

definition billing_inv :: "'p metering_platform \<Rightarrow> 'p metering_world \<Rightarrow> bool" where
  "billing_inv P w \<longleftrightarrow> (sound_platform P \<longrightarrow>
     ledger_core P (mw_db w) (mw_log w) (mw_reaped w) \<and>
     billing_core P (mw_db w) (mw_provider w) (mw_held w) (mw_accepted w))"

text \<open>What every transaction of the store does to a row is one of these moves.\<close>

lemma core_row_moves:
  assumes core: "billing_core P db p held acc" and T: "totals_inv P db log" "totals_inv P db' log'"
    and books: "\<And>k. bills P k \<Longrightarrow> books (\<lambda>n. pf_booked P p (pkey P k n)) (total_at db k) \<Longrightarrow>
       books (\<lambda>n. pf_booked P p (pkey P k n)) (total_at db' k)"
    and held: "\<And>k t. held_by_row t (total_at db k) \<Longrightarrow> held_by_row t (total_at db' k)"
    and row: "\<And>k r'. total_at db' k = Some r' \<Longrightarrow> row_ok r' \<Longrightarrow> to_meter r' = key_meter k \<Longrightarrow>
       (\<And>r. total_at db k = Some r \<Longrightarrow> row_billing (pf_agg P) r \<and> row_ok r \<and> to_meter r = key_meter k) \<Longrightarrow>
       row_billing (pf_agg P) r'"
  shows "billing_core P db' p held acc"
proof -
  have rows: "list_all row_ok (md_totals db)" "list_all row_ok (md_totals db')"
    using T by (simp_all add: totals_inv_def rows_ok_def)
  have bill: "list_all (row_billing (pf_agg P)) (md_totals db)" using core by (simp add: billing_core_def)
  have meter: "to_meter r = key_meter k" if "total_pk r = k" for r k using that key_parts(3) by metis
  have "list_all (row_billing (pf_agg P)) (md_totals db')"
  proof (rule all_rowsI)
    show "distinct (map total_pk (md_totals db'))" using T(2) by (simp add: totals_inv_def)
    fix k r' assume r': "total_at db' k = Some r'"
    from all_rowsD [OF rows(2) r'] have "row_ok r'" "to_meter r' = key_meter k" using meter by blast+
    then show "row_billing (pf_agg P) r'"
    proof (rule row [OF r'])
      fix r assume r: "total_at db k = Some r"
      from all_rowsD [OF rows(1) r] all_rowsD [OF bill r] meter
      show "row_billing (pf_agg P) r \<and> row_ok r \<and> to_meter r = key_meter k" by blast
    qed
  qed
  moreover have "list_all (\<lambda>t. held_by_row t (total_at db' (row_key t))) held"
    using core held by (auto simp: billing_core_def list_all_iff)
  moreover have "books_all P p db'"
    using core by (auto simp: billing_core_def intro!: books_allI books dest: books_allD)
  ultimately show ?thesis using core by (simp add: billing_core_def)
qed

lemma core_ingested:
  assumes core: "billing_core P db p held acc" and T: "totals_inv P db log" and i: "ingests P db db'"
  shows "billing_core P db' p held acc"
proof (rule core_row_moves [OF core T totals_inv_ingests [OF T i]])
  fix k
  note move = ingests_move [OF i, of k]
  show "books (\<lambda>n. pf_booked P p (pkey P k n)) (total_at db k) \<Longrightarrow> books (\<lambda>n. pf_booked P p (pkey P k n)) (total_at db' k)"
    by (rule books_move [OF move])
  show "held_by_row t (total_at db k) \<Longrightarrow> held_by_row t (total_at db' k)" for t by (rule held_move [OF move])
  show "row_billing (pf_agg P) r'"
    if "total_at db' k = Some r'" "row_ok r'" "to_meter r' = key_meter k"
      "\<And>r. total_at db k = Some r \<Longrightarrow> row_billing (pf_agg P) r \<and> row_ok r \<and> to_meter r = key_meter k" for r'
    by (rule row_billing_move [of "pf_agg P" r' "total_at db k"]) (use that move in \<open>auto simp: row_ok_def\<close>)
qed

lemma core_claimed:
  assumes core: "billing_core P db p held acc" and T: "totals_inv P db log"
    and c: "ClaimFlushable res locked now limit maxAttempts until db = (ts, db')"
  shows "billing_core P db' p (ts @ held) acc"
proof -
  have "distinct (map total_pk (md_totals db))" using T by (simp add: totals_inv_def)
  from claim_all [OF this c] obtain rs where rs: "ts = map leased_total rs"
    "\<And>r. r \<in> set rs \<Longrightarrow> total_at db (total_pk r) = Some r \<and> owes r"
    "\<forall>k. total_at db' k =
        map_option (\<lambda>r. if k \<in> total_pk ` set rs then pinned_row (Truncate res until) r else r) (total_at db k)"
    by blast
  note at = rs(3) [THEN spec]
  have T': "totals_inv P db' log"
    using totals_inv_lease [OF T] c unfolding ClaimFlushable_def by (metis snd_conv)
  have bill: "list_all (row_billing (pf_agg P)) (md_totals db)" and ok: "list_all row_ok (md_totals db)"
    using core T by (simp_all add: billing_core_def totals_inv_def rows_ok_def)
  have owing: "owes r" if "k \<in> total_pk ` set rs" "total_at db k = Some r" for k r using that rs(2) by fastforce
  have "billing_core P db' p held acc"
  proof (rule core_row_moves [OF core T T'])
    fix k
    show "books (\<lambda>n. pf_booked P p (pkey P k n)) (total_at db' k)"
      if "books (\<lambda>n. pf_booked P p (pkey P k n)) (total_at db k)"
    proof (cases "total_at db k")
      case (Some r)
      with that all_rowsD [OF bill Some] show ?thesis by (auto simp: at intro: books_pin)
    qed (use that in \<open>simp add: at\<close>)
    show "held_by_row t (total_at db' k)" if "held_by_row t (total_at db k)" for t
      using that by (cases "total_at db k") (simp_all add: at held_pin)
    show "row_billing (pf_agg P) r'"
      if "total_at db' k = Some r'"
        "\<And>r. total_at db k = Some r \<Longrightarrow> row_billing (pf_agg P) r \<and> row_ok r \<and> to_meter r = key_meter k" for r'
    proof (cases "total_at db k")
      case (Some r)
      with that owing [OF _ Some] show ?thesis by (auto simp: at row_billing_pin split: if_splits)
    qed (use that in \<open>simp add: at\<close>)
  qed
  moreover have "held_by_row t (total_at db' (row_key t))" if "t \<in> set ts" for t
  proof -
    from that rs(1) obtain r where r: "r \<in> set rs" "t = leased_total r" by auto
    from rs(2) [OF r(1)] have a: "total_at db (total_pk r) = Some r" "owes r" by simp_all
    then have "total_at db' (total_pk r) = Some (pinned_row (Truncate res until) r)" using r(1) by (simp add: at)
    moreover have "held_by_row (leased_total r) (Some (pinned_row (Truncate res until) r))"
      using all_rowsD [OF bill a(1)] all_rowsD [OF ok a(1)] a(2) by (blast intro: held_after_pin)
    ultimately show ?thesis by (simp add: r(2) row_key_totalFrom)
  qed
  ultimately show ?thesis by (auto simp: billing_core_def list_all_iff)
qed

lemma core_updated:
  assumes core: "billing_core P db p held acc" and T: "totals_inv P db log" and f: "keeps_usage f"
    and books: "\<And>r. total_at db j = Some r \<Longrightarrow> g r \<Longrightarrow> bills P j \<Longrightarrow>
       books (\<lambda>n. pf_booked P p (pkey P j n)) (Some r) \<Longrightarrow> row_billing (pf_agg P) r \<Longrightarrow>
       books (\<lambda>n. pf_booked P p (pkey P j n)) (Some (f r))"
    and held: "\<And>t r. held_by_row t (Some r) \<Longrightarrow> held_by_row t (Some (f r))"
    and row: "\<And>r. row_billing (pf_agg P) r \<Longrightarrow> row_billing (pf_agg P) (f r)"
  shows "billing_core P (snd (update_total j g f db)) p held acc"
proof -
  note at = update_total_at [OF keeps_usage_pk [OF f], of j g db]
  have bill: "list_all (row_billing (pf_agg P)) (md_totals db)" using core by (simp add: billing_core_def)
  show ?thesis
  proof (rule core_row_moves [OF core T totals_inv_update [OF T f]])
    fix k
    show "books (\<lambda>n. pf_booked P p (pkey P k n)) (total_at (snd (update_total j g f db)) k)"
      if "bills P k" "books (\<lambda>n. pf_booked P p (pkey P k n)) (total_at db k)"
    proof (cases "total_at db k")
      case (Some r)
      with that all_rowsD [OF bill Some] books [of r] show ?thesis by (auto simp: at)
    qed (use that in \<open>simp add: at\<close>)
    show "held_by_row t (total_at (snd (update_total j g f db)) k)" if "held_by_row t (total_at db k)" for t
      using that by (cases "total_at db k") (simp_all add: at held)
    show "row_billing (pf_agg P) r'"
      if "total_at (snd (update_total j g f db)) k = Some r'"
        "\<And>r. total_at db k = Some r \<Longrightarrow> row_billing (pf_agg P) r \<and> row_ok r \<and> to_meter r = key_meter k" for r'
      using that by (cases "total_at db k") (auto simp: at row split: if_splits)
  qed
qed

lemma core_released:
  assumes "billing_core P db p held acc" "totals_inv P db log"
  shows "billing_core P (snd (update_total j g (released_total a e b) db)) p held acc"
  by (rule core_updated [OF assms flush_writes_keep_usage(3)])
    (auto simp: books_def held_by_row_def row_billing_def released_total_def)

text \<open>A settle is of a post the provider was told, or of a total it is not told about.\<close>

lemma core_settled:
  assumes core: "billing_core P db p held acc" and T: "totals_inv P db log"
    and t: "t \<in> set acc \<or> t \<in> set held \<and> unbilled P (tt_Subject t) (tt_Meter t)"
  shows "billing_core P (snd (update_total (row_key t) (\<lambda>r. to_flush_sequence r = tt_FlushSequence t) (settled_row a c) db)) p held acc"
proof (rule core_updated [OF core T flush_writes_keep_usage(2)])
  fix r
  assume r: "to_flush_sequence r = tt_FlushSequence t" "bills P (row_key t)" "row_billing (pf_agg P) r"
    "books (\<lambda>n. pf_booked P p (pkey P (row_key t) n)) (Some r)"
  have "\<not> unbilled P (tt_Subject t) (tt_Meter t)"
    using r(2) by (auto simp: bills_def billed_to_def unbilled_def key_subject_def key_meter_def row_key_def)
  with t core r(1) have "pf_booked P p (pkey P (row_key t) (to_flush_sequence r)) \<noteq> None"
    by (auto simp: billing_core_def list_all_iff)
  with r(3,4) show "books (\<lambda>n. pf_booked P p (pkey P (row_key t) n)) (Some (settled_row a c r))"
    by (intro books_settle)
qed (simp_all add: held_settle row_billing_settle)

text \<open>A report tells the provider exactly what the claim pinned, or nothing it did not already hold.\<close>

lemma core_reported:
  assumes sound: "sound_platform P" and core: "billing_core P db p held acc" and T: "totals_inv P db log"
    and t: "t \<in> set held" "billed_to P (tt_Subject t) (tt_Meter t) ref"
    and rep: "fe_report (pf_flusher P) (report_input (pf_flusher P) t ref (Delta (Some t)) now) p = (err, p')"
  shows "billing_core P db p' held (if err = None then t # acc else acc)"
proof -
  let ?k = "row_key t" and ?n = "tt_FlushSequence t"
  let ?i = "report_input (pf_flusher P) t ref (Delta (Some t)) now"
  have ikey: "ui_IdempotencyKey ?i = pkey P ?k ?n" "ui_Quantity ?i = Delta (Some t)"
    by (simp_all add: report_input_def FlushIdempotencyKey_post)
  from core t(1) have "held_by_row t (total_at db ?k)" by (simp add: billing_core_def list_all_iff)
  then obtain r where r: "total_at db ?k = Some r" "held_by_row t (Some r)"
    by (cases "total_at db ?k") (auto simp: held_by_row_def)
  have "pf_totals P ?k" using T all_rowsD [of "\<lambda>r. pf_totals P (total_pk r)" db ?k r] r(1) by (auto simp: totals_inv_def)
  moreover have kb: "bills P ?k"
    using t(2) \<open>pf_totals P ?k\<close> by (auto simp: bills_def key_subject_def key_meter_def row_key_def)
  moreover from core have "books_all P p db" by (simp add: billing_core_def)
  ultimately have bk: "books (\<lambda>n. pf_booked P p (pkey P ?k n)) (Some r)" using books_allD r(1) by metis
  have delta: "Delta (Some t) = tt_ClaimedQuantity t - tt_FlushedQuantity t"
    using r(2) by (simp add: Delta_def held_by_row_def wrap64_id is_int64_def MaxInt64_def)
  consider "pf_booked P p' = pf_booked P p" "err \<noteq> None"
    | "pf_booked P p' = pf_booked P p" "pf_booked P p (pkey P ?k ?n) \<noteq> None"
    | "pf_booked P p (pkey P ?k ?n) = None" "pf_booked P p' = (pf_booked P p)(pkey P ?k ?n \<mapsto> Delta (Some t))"
  proof -
    from sound have "provider_dedups P" by (simp add: sound_platform_def)
    with rep have "pf_booked P p' = taken ?i (pf_booked P p) \<or> err \<noteq> None \<and> pf_booked P p' = pf_booked P p"
      unfolding provider_dedups_def by blast
    moreover have "taken ?i (pf_booked P p) = (if pf_booked P p (pkey P ?k ?n) = None
        then (pf_booked P p)(pkey P ?k ?n \<mapsto> Delta (Some t)) else pf_booked P p)"
      by (simp add: taken_def ikey)
    ultimately show thesis using that by (metis (full_types))
  qed
  then show ?thesis
  proof cases
    case 1
    with core show ?thesis by (auto simp: billing_core_def books_all_def)
  next
    case 2
    with core t(1) show ?thesis by (auto simp: billing_core_def books_all_def)
  next
    case 3
    have n: "?n = to_flush_sequence r"
      using bk r(2) 3(1) by (cases "?n < to_flush_sequence r") (auto simp: books_def held_by_row_def)
    have "books (\<lambda>n. pf_booked P p' (pkey P k n)) (total_at db k)" if b: "bills P k" for k
    proof (cases "k = ?k")
      case True
      have other: "pf_booked P p' (pkey P ?k m) = pf_booked P p (pkey P ?k m)" if "m \<noteq> ?n" for m
        using 3(2) pkey_eq [OF sound \<open>pf_totals P ?k\<close> \<open>pf_totals P ?k\<close>] that by simp
      have here: "pf_booked P p' (pkey P ?k ?n) = Some (to_claimed_quantity r - to_flushed_quantity r)"
        using 3(2) r(2) n delta by (simp add: held_by_row_def)
      have pos: "to_flushed_quantity r < to_claimed_quantity r" "0 \<le> to_flush_sequence r"
        using r(2) n by (simp_all add: held_by_row_def)
      have "billed_upto (\<lambda>n. pf_booked P p' (pkey P ?k n)) (nat (to_flush_sequence r)) =
          billed_upto (\<lambda>n. pf_booked P p (pkey P ?k n)) (nat (to_flush_sequence r))"
        unfolding billed_upto_def using other n pos(2) by (intro sum.cong) auto
      moreover have "\<forall>m. 0 \<le> m \<longrightarrow> m < to_flush_sequence r \<longrightarrow> pf_booked P p' (pkey P ?k m) \<noteq> None"
        using bk other n by (simp add: books_def)
      moreover have "\<forall>m. to_flush_sequence r < m \<longrightarrow> pf_booked P p' (pkey P ?k m) = None"
        using bk other n by (simp add: books_def)
      ultimately show ?thesis using bk here pos True r(1) n by (simp add: books_def)
    next
      case False
      have "pf_booked P p' (pkey P k m) = pf_booked P p (pkey P k m)" for m
        using 3(2) pkey_eq [OF sound _ \<open>pf_totals P ?k\<close>] b False by (simp add: bills_def)
      with books_allD [OF \<open>books_all P p db\<close> b] show ?thesis by simp
    qed
    then have "books_all P p' db" by (rule books_allI)
    with core t(1) 3(2) show ?thesis by (auto simp: billing_core_def list_all_iff)
  qed
qed

lemma billing_step: "metering_step P w w' \<Longrightarrow> billing_inv P w \<Longrightarrow> billing_inv P w'"
proof -
  assume step: "metering_step P w w'" and inv: "billing_inv P w"
  show "billing_inv P w'" unfolding billing_inv_def
  proof
    assume s: "sound_platform P"
    then have i: "inj (pf_fmt P)" by (simp add: sound_platform_def)
    from inv s have L: "ledger_core P (mw_db w) (mw_log w) (mw_reaped w)"
      and B: "billing_core P (mw_db w) (mw_provider w) (mw_held w) (mw_accepted w)"
      by (simp_all add: billing_inv_def)
    have "ledger_inv P w" using L by (simp add: ledger_inv_def)
    from ledger_step [OF step this] i have L': "ledger_core P (mw_db w') (mw_log w') (mw_reaped w')"
      by (simp add: ledger_inv_def)
    have T: "totals_inv P (mw_db w) (mw_log w)" and E: "distinct (map event_pk (md_events (mw_db w)))"
      using L by (simp_all add: ledger_core_def)
    then have R: "rows_ok (md_totals (mw_db w))" "distinct (map total_pk (md_totals (mw_db w)))"
      by (simp_all add: totals_inv_def)
    from step have "billing_core P (mw_db w') (mw_provider w') (mw_held w') (mw_accepted w')"
    proof cases
      case (recorded s es at rr db')
      show ?thesis using core_ingested [OF B T Record_ingests [OF recorded(2) R E i recorded(3)]] recorded(1) by simp
    next
      case (consumed s e limit behavior at dec db')
      show ?thesis using core_ingested [OF B T Consume_ingests [OF consumed(2) R E consumed(3)]] consumed(1) by simp
    next
      case (claimed locked now limit maxAttempts until ts db')
      show ?thesis using core_claimed [OF B T claimed(2)] claimed(1) by simp
    next
      case (reported t ref now err p)
      show ?thesis using core_reported [OF s B T reported(2,3,5)] reported(1) by simp
    next
      case (settled t now db')
      from settled(3) have "db' = snd (update_total (row_key t) (\<lambda>r. to_flush_sequence r = tt_FlushSequence t)
           (settled_row (Truncate (pf_res P) now) (Truncate (pf_res P) now)) (mw_db w))"
        by (simp add: MarkFlushed_Inr)
      with core_settled [OF B T settled(2)] settled(1) show ?thesis by simp
    next
      case (released t lastErr nextFlush db')
      show ?thesis using core_released [OF B T] ReleaseFlush_Inr [OF released(3)] released(1) by simp
    next
      case (reaped lockedEvents horizon limit n db')
      then have "md_totals db' = md_totals (mw_db w)" using prune_tables(1) by (metis snd_conv)
      with B reaped(1) show ?thesis by (simp add: billing_core_def total_at_def books_all_def)
    qed
    with L' show "ledger_core P (mw_db w') (mw_log w') (mw_reaped w') \<and>
      billing_core P (mw_db w') (mw_provider w') (mw_held w') (mw_accepted w')" by blast
  qed
qed

interpretation billing: invariant_system "metering_init P" "metering_step P" "billing_inv P" for P
proof
  show "billing_inv P w" if "metering_init P w" for w
  proof -
    have "ledger_inv P w" by (rule ledger.init_inv [OF that])
    with that show ?thesis
      by (auto simp: metering_init_def billing_inv_def ledger_inv_def sound_platform_def billing_core_def empty_mdb_def
          books_all_def books_def total_at_def)
  qed
  show "billing_inv P w'" if "billing_inv P w" "metering_step P w w'" for w w'
    by (rule billing_step [OF that(2,1)])
qed

section \<open>Exactly once\<close>

text \<open>All the provider holds for a total: the keys up to the one the next post will use.\<close>

definition billed :: "'p metering_platform \<Rightarrow> 'p metering_world \<Rightarrow> total_key \<Rightarrow> int \<Rightarrow> int" where
  "billed P w k seq = billed_upto (\<lambda>n. pf_booked P (mw_provider w) (pkey P k n)) (nat seq + 1)"


text \<open>So a total with nothing owed has been billed exactly what was recorded.\<close>

corollary settled_is_billed:
  assumes "sound_platform P" "metering_reach P w" "bills P k" "total_at (mw_db w) k = Some r"
    and "pf_agg P (key_meter k) \<noteq> AggregationLast" "to_flushed_quantity r = to_quantity r"
  shows "billed P w k (to_flush_sequence r) = to_quantity r"
proof -
  from billing.reach_inv [OF assms(2)] assms(1)
  have "list_all (row_billing (pf_agg P)) (md_totals (mw_db w))" and books: "books_all P (mw_provider w) (mw_db w)"
    by (simp_all add: billing_inv_def billing_core_def)
  from all_rowsD [OF this(1) assms(4)] have r: "row_billing (pf_agg P) r" "total_pk r = k" by simp_all
  have "to_meter r = key_meter k" using r(2) key_parts(3) by metis
  with r(1) assms(5,6) have "to_claimed_quantity r = to_flushed_quantity r" by (auto simp: row_billing_def)
  with books_allD [OF books assms(3)] assms(4,6) r(1) show ?thesis
    by (auto simp: billed_def billed_upto_Suc books_def row_billing_def amount_def)
qed

end
