(* ===== verification/Meter_Pass.thy ===== *)
theory Meter_Pass
  imports Meter_Billing
begin

text \<open>
  The flusher's pass against the step system: every pass is a run of it (\<open>Flush_is_a_run\<close>), so everything
  proved of reachable worlds holds while passes run; and a pass whose provider answers bills everything its
  claim pinned (\<open>pass_bills_its_batch\<close>). The last section holds the two ways the amounts come apart.
\<close>

section \<open>A pass is a run\<close>

abbreviation metering_steps :: "'p metering_platform \<Rightarrow> 'p metering_world \<Rightarrow> 'p metering_world \<Rightarrow> bool" where
  "metering_steps P \<equiv> (metering_step P)\<^sup>*\<^sup>*"

lemma metering_steps_reach: "metering_steps P w w' \<Longrightarrow> metering_reach P w \<Longrightarrow> metering_reach P w'"
  by (induction rule: rtranclp_induct) (auto intro: reach_step)

definition with_state :: "'p metering_world \<Rightarrow> 'p flush_state \<Rightarrow> Total list \<Rightarrow> 'p metering_world" where
  "with_state w st acc = w\<lparr>mw_db := fst st, mw_provider := snd st, mw_accepted := acc\<rparr>"

lemma with_state_same: "with_state w (mw_db w, mw_provider w) (mw_accepted w) = w"
  by (simp add: with_state_def)

lemma with_state_fields [simp]:
  "mw_db (with_state w st acc) = fst st" "mw_provider (with_state w st acc) = snd st"
  "mw_accepted (with_state w st acc) = acc" "mw_held (with_state w st acc) = mw_held w"
  "mw_log (with_state w st acc) = mw_log w" "mw_reaped (with_state w st acc) = mw_reaped w"
  "with_state (with_state w st acc) st' acc' = with_state w st' acc'"
  by (simp_all add: with_state_def)

lemma settle_steps:
  assumes t: "t \<in> set acc \<or> t \<in> set (mw_held w) \<and> unbilled P (tt_Subject t) (tt_Meter t)"
    and s: "settle (pf_flusher P) (pf_res P) now t skipped st = (o', st')"
  shows "metering_steps P (with_state w st acc) (with_state w st' acc)"
proof (cases "MarkFlushed (pf_res P) (Some t) now (fst st)")
  case (Inl e)
  with s show ?thesis by (simp add: settle_def)
next
  case (Inr db)
  have "metering_step P (with_state w st acc) ((with_state w st acc)\<lparr>mw_db := db\<rparr>)"
    by (rule settled) (use t Inr in auto)
  moreover have "st' = (db, snd st)" using s Inr by (simp add: settle_def)
  then have "(with_state w st acc)\<lparr>mw_db := db\<rparr> = with_state w st' acc" by (simp add: with_state_def)
  ultimately show ?thesis by simp
qed

lemma fail_steps:
  assumes "t \<in> set (mw_held w)"
  shows "metering_steps P (with_state w st acc) (with_state w (fail (pf_flusher P) (pf_res P) now t cause st) acc)"
proof (cases "ReleaseFlush (pf_res P) (Some t) (truncateError (Some (fe_render (pf_flusher P) cause)))
    (now + fe_backoff (pf_flusher P) (tt_FlushAttempts t)) (fst st)")
  case (Inl e)
  then show ?thesis by (simp add: fail_def)
next
  case (Inr db)
  have "metering_step P (with_state w st acc) ((with_state w st acc)\<lparr>mw_db := db\<rparr>)"
    by (rule released) (use assms Inr in auto)
  moreover have "(with_state w st acc)\<lparr>mw_db := db\<rparr> = with_state w (fail (pf_flusher P) (pf_res P) now t cause st) acc"
    by (cases st) (use Inr in \<open>simp add: fail_def with_state_def\<close>)
  ultimately show ?thesis by (simp only: r_into_rtranclp)
qed

lemma flushOne_skip:
  assumes t: "t \<in> set (mw_held w)" and u: "unbilled P (tt_Subject t) (tt_Meter t)"
    and f: "(let (o', st) = settle (pf_flusher P) (pf_res P) now t True st in ((o', 0 :: int), st)) = (o'', st')"
  shows "\<exists>acc'. metering_steps P (with_state w st acc) (with_state w st' acc')"
proof -
  obtain o1 st1 where s: "settle (pf_flusher P) (pf_res P) now t True st = (o1, st1)" by (rule prod.exhaust)
  with f have "st1 = st'" by simp
  with settle_steps [OF _ s, of acc w] t u show ?thesis by blast
qed

lemma flushOne_report:
  assumes t: "t \<in> set (mw_held w)" and ref: "billed_to P (tt_Subject t) (tt_Meter t) ref" and d: "0 < Delta (Some t)"
    and rep: "fe_report (pf_flusher P) (report_input (pf_flusher P) t ref (Delta (Some t)) now) (snd st) = (err, p)"
  shows "metering_step P (with_state w st acc) (with_state w (fst st, p) (if err = None then t # acc else acc))"
proof -
  have "metering_step P (with_state w st acc)
      ((with_state w st acc)\<lparr>mw_provider := p, mw_accepted := if err = None then t # mw_accepted (with_state w st acc)
         else mw_accepted (with_state w st acc)\<rparr>)"
    by (rule reported [of t _ P ref now]) (use assms in simp_all)
  moreover have "(with_state w st acc)\<lparr>mw_provider := p, mw_accepted := if err = None then t # mw_accepted (with_state w st acc)
         else mw_accepted (with_state w st acc)\<rparr> = with_state w (fst st, p) (if err = None then t # acc else acc)"
    by (simp add: with_state_def)
  ultimately show ?thesis by (simp only:)
qed

lemma flushOne_post:
  assumes t: "t \<in> set (mw_held w)" and ref: "billed_to P (tt_Subject t) (tt_Meter t) ref" and d: "0 < Delta (Some t)"
    and rep: "fe_report (pf_flusher P) (report_input (pf_flusher P) t ref (Delta (Some t)) (clock 0)) (snd st) = (err, p)"
    and f: "(case err of Some e \<Rightarrow> ((outcomeFailed, 0), fail (pf_flusher P) (pf_res P) (clock 1) t e (fst st, p))
       | None \<Rightarrow> (let (o', st) = settle (pf_flusher P) (pf_res P) (clock 1) t False (fst st, p)
                   in ((o', Delta (Some t)), st))) = (o'', st')"
  shows "\<exists>acc'. metering_steps P (with_state w st acc) (with_state w st' acc')"
proof -
  let ?acc = "if err = None then t # acc else acc"
  have "\<exists>acc'. metering_steps P (with_state w (fst st, p) ?acc) (with_state w st' acc')"
  proof (cases err)
    case None
    obtain o1 st1 where s: "settle (pf_flusher P) (pf_res P) (clock 1) t False (fst st, p) = (o1, st1)" by (rule prod.exhaust)
    with f None have "st1 = st'" by simp
    with settle_steps [OF _ s, of ?acc w] None show ?thesis by auto
  next
    case (Some e)
    with f have "st' = fail (pf_flusher P) (pf_res P) (clock 1) t e (fst st, p)" by simp
    with fail_steps [OF t, of P "(fst st, p)" ?acc "clock 1" e] show ?thesis by blast
  qed
  with flushOne_report [OF t ref d rep, of acc] show ?thesis by (meson converse_rtranclp_into_rtranclp)
qed

lemma flushOne_steps:
  assumes t: "t \<in> set (mw_held w)" and f: "flushOne (pf_flusher P) (pf_res P) clock t st = (o', st')"
  shows "\<exists>acc'. metering_steps P (with_state w st acc) (with_state w st' acc')"
proof (cases "0 < Delta (Some t)")
  case False
  with f have "st' = st" by (simp add: flushOne_def)
  then show ?thesis by blast
next
  case d: True
  show ?thesis
  proof (cases "fe_mapper (pf_flusher P) (tt_Subject t) (tt_Meter t)")
    case (Inl err)
    show ?thesis
    proof (cases "err = ErrNoProviderRef")
      case True
      show ?thesis
        by (rule flushOne_skip [OF t, of P "clock 0" st o' st'])
          (use True Inl d f in \<open>simp_all add: flushOne_def unbilled_def del: split_paired_All\<close>)
    next
      case False
      with Inl d f have "st' = fail (pf_flusher P) (pf_res P) (clock 0) t err st" by (simp add: flushOne_def)
      with fail_steps [OF t, of P st acc "clock 0" err] show ?thesis by blast
    qed
  next
    case (Inr ref)
    show ?thesis
    proof (cases "ref = zeroRef")
      case True
      show ?thesis
        by (rule flushOne_skip [OF t, of P "clock 0" st o' st'])
          (use True Inr d f in \<open>simp_all add: flushOne_def unbilled_def\<close>)
    next
      case False
      obtain err p where rep: "fe_report (pf_flusher P) (report_input (pf_flusher P) t ref (Delta (Some t)) (clock 0)) (snd st)
          = (err, p)" by (rule prod.exhaust)
      show ?thesis
        by (rule flushOne_post [where clock = clock and o'' = o', OF t _ d rep])
          (use Inr False d f rep in \<open>simp_all add: flushOne_def billed_to_def Let_def\<close>)
    qed
  qed
qed

lemma post_steps:
  assumes "set ts \<subseteq> set (mw_held w)" "post (pf_flusher P) (pf_res P) clock n ts (result, st) = (result', st')"
  shows "\<exists>acc'. metering_steps P (with_state w st acc) (with_state w st' acc')"
  using assms
proof (induction ts arbitrary: n result st acc)
  case Nil
  then show ?case by auto
next
  case (Cons t ts)
  obtain o1 st1 where f: "flushOne (pf_flusher P) (pf_res P) (clock n) t st = (o1, st1)" by (rule prod.exhaust)
  from Cons.prems(1) have t: "t \<in> set (mw_held w)" by simp
  from flushOne_steps [OF t f] obtain acc1 where 1: "metering_steps P (with_state w st acc) (with_state w st1 acc1)" by blast
  from Cons.prems(2) f have "post (pf_flusher P) (pf_res P) clock (Suc n) ts (tally o1 result, st1) = (result', st')"
    by simp
  from Cons.IH [OF _ this, of acc1] Cons.prems(1) 1 show ?case by (meson rtranclp_trans set_subset_Cons subset_trans)
qed

lemma Flush_steps:
  assumes perm: "\<And>ts. mset (sched ts) = mset ts"
    and f: "Flush (pf_flusher P) cfg (pf_res P) sched clock lockedTotals lockedEvents now (mw_db w, mw_provider w) = (result, db', p')"
  shows "\<exists>w'. metering_steps P w w' \<and> mw_db w' = db' \<and> mw_provider w' = p' \<and> mw_log w' = mw_log w"
proof -
  obtain ts db1 where c: "ClaimFlushable (pf_res P) lockedTotals now (fc_BatchSize cfg) (fc_MaxAttempts cfg)
      (now + fc_LeaseDuration cfg) (mw_db w) = (ts, db1)" by (rule prod.exhaust)
  obtain res1 db2 p2 where p: "post (pf_flusher P) (pf_res P) clock 0 (sched ts)
      (no_result\<lparr>fr_Claimed := int (length ts)\<rparr>, db1, mw_provider w) = (res1, db2, p2)" by (metis prod_cases3)
  let ?w1 = "w\<lparr>mw_db := db1, mw_held := ts @ mw_held w\<rparr>"
  have s1: "metering_step P w ?w1" by (rule claimed [OF c])
  have "set (sched ts) \<subseteq> set (mw_held ?w1)" using mset_eq_setD [OF perm] by auto
  from post_steps [OF this p, of "mw_accepted w"] obtain acc where
    s2: "metering_steps P (with_state ?w1 (db1, mw_provider w) (mw_accepted w)) (with_state ?w1 (db2, p2) acc)" by blast
  have "with_state ?w1 (db1, mw_provider w) (mw_accepted w) = ?w1" by (simp add: with_state_def)
  with s1 s2 have run: "metering_steps P w (with_state ?w1 (db2, p2) acc)" by (metis converse_rtranclp_into_rtranclp)
  show ?thesis
  proof (cases "fc_DisableReap cfg")
    case True
    with f c p have "db' = db2" "p' = p2" by (simp_all add: Flush_def)
    with run show ?thesis by (intro exI [of _ "with_state ?w1 (db2, p2) acc"]) simp
  next
    case False
    obtain n db3 where r: "ReapEvents (pf_res P) lockedEvents (now - fc_EventRetention cfg) (fc_ReapBatchSize cfg) db2 = (n, db3)"
      by (rule prod.exhaust)
    with f c p False have "db' = db3" "p' = p2" by (auto simp: Flush_def split: if_splits)
    moreover have "metering_step P (with_state ?w1 (db2, p2) acc) ((with_state ?w1 (db2, p2) acc)\<lparr>mw_db := db3,
        mw_reaped := mw_reaped (with_state ?w1 (db2, p2) acc) @ filter (\<lambda>e. e \<notin> set (md_events db3))
          (md_events (mw_db (with_state ?w1 (db2, p2) acc)))\<rparr>)"
      by (rule reaped) (use r in simp)
    ultimately show ?thesis using rtranclp.rtrancl_into_rtrancl [OF run] by fastforce
  qed
qed

text \<open>C16: Every pass of a flusher, whatever its mapper and provider answer, whatever other transactions hold and
  in whatever order its goroutines complete, is a run of the step system: it leaves the tables and the
  provider as some sequence of claims, reports, settles, releases and a reap does.\<close>

theorem Flush_is_a_run:
  assumes perm: "\<And>ts. mset (sched ts) = mset ts"
    and f: "Flush (pf_flusher P) cfg (pf_res P) sched clock lockedTotals lockedEvents now (mw_db w, mw_provider w) = (result, db', p')"
  shows "\<exists>w'. metering_steps P w w' \<and> mw_db w' = db' \<and> mw_provider w' = p' \<and> mw_log w' = mw_log w"
  by (rule Flush_steps [OF perm f])

section \<open>A pass bills its batch\<close>

text \<open>What a pass whose posts all land leaves of the tables: every total of the batch settled, nothing else moved.\<close>

definition settled_batch :: "Total list \<Rightarrow> mtr_db \<Rightarrow> mtr_db \<Rightarrow> bool" where
  "settled_batch ts db db' \<longleftrightarrow>
     (\<forall>k. k \<notin> row_key ` set ts \<longrightarrow> total_at db' k = total_at db k) \<and>
     (\<forall>t \<in> set ts. \<exists>r u. total_at db (row_key t) = Some r \<and> total_at db' (row_key t) = Some (settled_row u u r))"

lemma settled_batchD:
  "settled_batch ts db db' \<Longrightarrow> k \<notin> row_key ` set ts \<Longrightarrow> total_at db' k = total_at db k"
  "settled_batch ts db db' \<Longrightarrow> t \<in> set ts \<Longrightarrow>
     \<exists>r u. total_at db (row_key t) = Some r \<and> total_at db' (row_key t) = Some (settled_row u u r)"
  unfolding settled_batch_def by blast+

lemma settled_batch_Cons:
  assumes "settled_batch [t] db db1" "settled_batch ts db1 db'" "row_key t \<notin> row_key ` set ts"
  shows "settled_batch (t # ts) db db'"
proof -
  have "total_at db' k = total_at db k" if "k \<notin> row_key ` set (t # ts)" for k
    using settled_batchD(1) [OF assms(1), of k] settled_batchD(1) [OF assms(2), of k] that by simp
  moreover have "\<exists>r u. total_at db (row_key x) = Some r \<and> total_at db' (row_key x) = Some (settled_row u u r)"
    if "x \<in> set (t # ts)" for x
  proof (cases "row_key x = row_key t")
    case True
    with settled_batchD(2) [OF assms(1), of t] settled_batchD(1) [OF assms(2,3)] show ?thesis by simp
  next
    case False
    with that have x: "x \<in> set ts" by auto
    with settled_batchD(2) [OF assms(2) x] settled_batchD(1) [OF assms(1), of "row_key x"] False show ?thesis by simp
  qed
  ultimately show ?thesis unfolding settled_batch_def by blast
qed

definition postable :: "'p metering_platform \<Rightarrow> mtr_db \<Rightarrow> Total \<Rightarrow> bool" where
  "postable P db t \<longleftrightarrow> 0 < Delta (Some t) \<and> (\<exists>ref. billed_to P (tt_Subject t) (tt_Meter t) ref) \<and>
     (\<exists>r. total_at db (row_key t) = Some r \<and> to_flush_sequence r = tt_FlushSequence t)"

definition answers :: "'p metering_platform \<Rightarrow> bool" where
  "answers P \<longleftrightarrow> (\<forall>i p. fst (fe_report (pf_flusher P) i p) = None)"

lemma update_total_found:
  "total_at db k = Some r \<Longrightarrow> g r \<Longrightarrow> fst (update_total k g f db) \<noteq> 0"
  unfolding total_at_def by (drule row_at_SomeD) (auto simp: update_total_def sql_count_def filter_empty_conv)

lemma flushOne_bills:
  assumes t: "postable P (fst st) t" and a: "answers P"
  shows "\<exists>db p. flushOne (pf_flusher P) (pf_res P) clock t st = ((outcomeFlushed, Delta (Some t)), db, p) \<and>
     settled_batch [t] (fst st) db"
proof -
  let ?F = "pf_flusher P" and ?k = "row_key t" and ?u = "Truncate (pf_res P) (clock 1)"
  from t obtain ref r where d: "0 < Delta (Some t)" and ref: "fe_mapper ?F (tt_Subject t) (tt_Meter t) = Inr ref" "ref \<noteq> zeroRef"
    and r: "total_at (fst st) ?k = Some r" "to_flush_sequence r = tt_FlushSequence t"
    by (auto simp: postable_def billed_to_def)
  let ?rep = "fe_report ?F (report_input ?F t ref (Delta (Some t)) (clock 0)) (snd st)"
  have rep: "?rep = (None, snd ?rep)" using a by (simp add: answers_def prod_eq_iff)
  define db where "db = snd (update_total ?k (\<lambda>r. to_flush_sequence r = tt_FlushSequence t) (settled_row ?u ?u) (fst st))"
  have "MarkFlushed (pf_res P) (Some t) (clock 1) (fst st) = Inr db"
    using update_total_found [OF r(1), of "\<lambda>r. to_flush_sequence r = tt_FlushSequence t"] r(2)
    by (simp add: MarkFlushed_def guard_count_def MarkMeteringTotalFlushed_def db_def)
  then have "flushOne ?F (pf_res P) clock t st = ((outcomeFlushed, Delta (Some t)), db, snd ?rep)"
    using d ref by (subst flushOne_def) (simp add: settle_def Let_def, subst rep, simp add: settle_def)
  moreover have at: "total_at db j = map_option (\<lambda>x. if total_pk x = ?k \<and> to_flush_sequence x = tt_FlushSequence t
      then settled_row ?u ?u x else x) (total_at (fst st) j)" for j
    unfolding db_def by (rule update_total_at) (rule keeps_usage_pk [OF flush_writes_keep_usage(2)])
  have "total_at db j = total_at (fst st) j" if "j \<noteq> ?k" for j
  proof (cases "total_at (fst st) j")
    case (Some x)
    then have "total_pk x = j" using row_at_SomeD by (metis total_at_def)
    with Some that show ?thesis by (simp add: at)
  qed (simp add: at)
  moreover have "total_pk r = ?k" using r(1) row_at_SomeD by (metis total_at_def)
  then have "total_at db ?k = Some (settled_row ?u ?u r)" using r by (simp add: at)
  ultimately show ?thesis using r(1) unfolding settled_batch_def by auto
qed

lemma post_bills:
  assumes "list_all (postable P (fst st)) ts" "distinct (map row_key ts)" "answers P"
    "post (pf_flusher P) (pf_res P) clock n ts (result, st) = (result', st')"
  shows "settled_batch ts (fst st) (fst st') \<and> fr_Flushed result' = fr_Flushed result + int (length ts) \<and>
     fr_Claimed result' = fr_Claimed result \<and> fr_Skipped result' = fr_Skipped result \<and> fr_Failed result' = fr_Failed result"
  using assms
proof (induction ts arbitrary: n result st)
  case Nil
  then show ?case by (simp add: settled_batch_def)
next
  case (Cons t ts)
  from Cons.prems(1) have t: "postable P (fst st) t" and ts: "list_all (postable P (fst st)) ts" by simp_all
  from flushOne_bills [OF t Cons.prems(3), of "clock n"] obtain db p where
    f: "flushOne (pf_flusher P) (pf_res P) (clock n) t st = ((outcomeFlushed, Delta (Some t)), db, p)"
    and s: "settled_batch [t] (fst st) db" by blast
  let ?result = "tally (outcomeFlushed, Delta (Some t)) result"
  from Cons.prems(4) f have rest: "post (pf_flusher P) (pf_res P) clock (Suc n) ts (?result, db, p) = (result', st')" by simp
  have t_new: "row_key t \<notin> row_key ` set ts" and dist: "distinct (map row_key ts)" using Cons.prems(2) by auto
  have "postable P db x" if "x \<in> set ts" for x
  proof -
    from t_new that have "row_key x \<noteq> row_key t" by (metis imageI)
    with settled_batchD(1) [OF s, of "row_key x"] have "total_at db (row_key x) = total_at (fst st) (row_key x)" by simp
    with ts that show ?thesis by (simp add: list_all_iff postable_def)
  qed
  then have ts': "list_all (postable P (fst (db, p))) ts" by (simp add: list_all_iff)
  note IH = Cons.IH [OF ts' dist Cons.prems(3) rest]
  with settled_batch_Cons [OF s _ t_new] show ?case by (simp add: tally_def)
qed

lemma ReapEvents_totals: "ReapEvents res locked h n db = (m, db') \<Longrightarrow> total_at db' k = total_at db k"
  using prune_tables(1) by (metis snd_conv total_at_def)

lemma Flush_outcome:
  assumes perm: "\<And>ts. mset (sched ts) = mset ts" and a: "answers P"
    and d: "distinct (map total_pk (md_totals (mw_db w)))"
    and rs: "rs = SelectFlushableMeteringTotals locked (Truncate (pf_res P) now) (fc_MaxAttempts cfg) (fc_BatchSize cfg) (mw_db w)"
    and b: "\<And>r. r \<in> set rs \<Longrightarrow> (\<exists>ref. billed_to P (to_subject r) (to_meter r) ref) \<and> 0 < Delta (Some (leased_total r))"
    and f: "Flush (pf_flusher P) cfg (pf_res P) sched clock locked lockedEvents now (mw_db w, mw_provider w) = (result, db', p')"
  shows "fr_Claimed result = int (length rs) \<and> fr_Flushed result = int (length rs) \<and> fr_Skipped result = 0 \<and>
     fr_Failed result = 0 \<and>
     (\<forall>r \<in> set rs. \<exists>until u. total_at db' (total_pk r) = Some (settled_row u u (pinned_row until r)))"
proof -
  obtain ts db1 where c: "ClaimFlushable (pf_res P) locked now (fc_BatchSize cfg) (fc_MaxAttempts cfg)
      (now + fc_LeaseDuration cfg) (mw_db w) = (ts, db1)" by (rule prod.exhaust)
  let ?u = "Truncate (pf_res P) (now + fc_LeaseDuration cfg)"
  from claim_all [OF d c, folded rs] have ts: "ts = map leased_total rs" and dist: "distinct (map total_pk rs)"
    and mem: "\<And>r. r \<in> set rs \<Longrightarrow> total_at (mw_db w) (total_pk r) = Some r"
    and at: "\<forall>k. total_at db1 k = map_option (\<lambda>r. if k \<in> total_pk ` set rs then pinned_row ?u r else r) (total_at (mw_db w) k)"
    by blast+
  have pinned: "total_at db1 (total_pk r) = Some (pinned_row ?u r)" if "r \<in> set rs" for r
    using at [THEN spec, of "total_pk r"] mem [OF that] that by simp
  have "postable P db1 (leased_total r)" if "r \<in> set rs" for r
  proof -
    have "tt_Subject (leased_total r) = to_subject r" "tt_Meter (leased_total r) = to_meter r"
      "tt_FlushSequence (leased_total r) = to_flush_sequence (pinned_row ?u r)"
      by (simp_all add: leased_total_def totalFrom_def pinned_row_def)
    then show ?thesis using b [OF that] pinned [OF that] by (simp add: postable_def row_key_totalFrom)
  qed
  then have p0: "list_all (postable P db1) (sched ts)"
    using mset_eq_setD [OF perm, of ts] by (auto simp: list_all_iff ts)
  have "distinct (map row_key ts)" using dist by (simp add: ts comp_def row_key_totalFrom)
  then have dist': "distinct (map row_key (sched ts))"
    using perm [of ts] by (metis mset_eq_imp_distinct_iff mset_map)
  obtain res1 db2 p2 where p: "post (pf_flusher P) (pf_res P) clock 0 (sched ts)
      (no_result\<lparr>fr_Claimed := int (length ts)\<rparr>, db1, mw_provider w) = (res1, db2, p2)" by (metis prod_cases3)
  from post_bills [OF _ dist' a p] p0 have settled: "settled_batch (sched ts) db1 db2"
    and fr: "fr_Flushed res1 = int (length (sched ts))" "fr_Claimed res1 = int (length ts)" "fr_Skipped res1 = 0" "fr_Failed res1 = 0"
    by (simp_all add: no_result_def)
  have len: "length (sched ts) = length rs" using perm [of ts] ts by (metis length_map size_mset)
  have after: "\<exists>until u. total_at db2 (total_pk r) = Some (settled_row u u (pinned_row until r))" if "r \<in> set rs" for r
  proof -
    have "leased_total r \<in> set (sched ts)" using mset_eq_setD [OF perm, of ts] that by (simp add: ts)
    from settled_batchD(2) [OF settled this] pinned [OF that] show ?thesis by (auto simp: row_key_totalFrom)
  qed
  show ?thesis
  proof (cases "fc_DisableReap cfg")
    case True
    with f c p have "result = res1" "db' = db2" by (simp_all add: Flush_def)
    with fr len after ts show ?thesis by simp
  next
    case False
    obtain n db3 where r: "ReapEvents (pf_res P) lockedEvents (now - fc_EventRetention cfg) (fc_ReapBatchSize cfg) db2 = (n, db3)"
      by (rule prod.exhaust)
    with f c p False have "result = (if n > 0 then res1\<lparr>fr_EventsReaped := n\<rparr> else res1)" "db' = db3"
      by (auto simp: Flush_def split: if_splits)
    moreover note ReapEvents_totals [OF r]
    ultimately show ?thesis using fr len after ts by simp
  qed
qed

lemma held_delta: "held_by_row t (Some r) \<Longrightarrow> 0 < Delta (Some t)"
  by (simp add: held_by_row_def Delta_def wrap64_id is_int64_def MaxInt64_def)


section \<open>The demonstration platform bills\<close>

definition demo_cfg :: FlusherConfig where
  "demo_cfg = \<lparr>fc_LeaseDuration = 60 * Second, fc_FlushTimeout = 30 * Second, fc_EventRetention = 0, fc_BatchSize = 10,
     fc_Concurrency = 1, fc_MaxAttempts = 5, fc_ReapBatchSize = 10, fc_DisableReap = False\<rparr>"

abbreviation demo_flush ::
  "(string \<times> int) list metering_world \<Rightarrow> FlushResult \<times> (string \<times> int) list flush_state" where
  "demo_flush w \<equiv> Flush (pf_flusher demo_platform) demo_cfg (pf_res demo_platform) rev (\<lambda>_ _. 300 * Second) (\<lambda>_. False)
     (\<lambda>_. False) (300 * Second) (mw_db w, mw_provider w)"

lemma demo_sound: "sound_platform demo_platform"
proof -
  have "provider_dedups demo_platform"
    by (auto simp: provider_dedups_def demo_platform_def demo_flusher_def demo_report_def taken_def fun_eq_iff
        map_of_eq_None_iff)
  moreover have "separated demo_platform"
    by (auto simp: separated_def demo_platform_def demo_total_def key_subject_def key_meter_def key_start_def)
  moreover have "inj (fe_digest (pf_flusher demo_platform))" "inj (pf_fmt demo_platform)"
    using inj_FormatInt by (simp_all add: demo_platform_def demo_flusher_def)
  ultimately show ?thesis by (simp add: sound_platform_def)
qed

lemma demo_bills: "demo_total k \<Longrightarrow> bills demo_platform k"
  by (auto simp: bills_def demo_platform_def demo_total_def billed_to_def demo_flusher_def zeroRef_def
      key_subject_def key_meter_def)

lemma Flush_is_a_run_witness:
  "\<exists>w'. metering_steps demo_platform demo_recorded w' \<and> mw_db w' = fst (snd (demo_flush demo_recorded)) \<and>
     mw_provider w' = snd (snd (demo_flush demo_recorded)) \<and> mw_log w' = mw_log demo_recorded"
  by (rule Flush_is_a_run [where sched = rev, OF mset_rev]) (rule prod_eq_iff [THEN iffD2], simp)+

text \<open>The world after one pass, reached by its steps.\<close>

lemma demo_flushed_reached:
  "\<exists>w. metering_reach demo_platform w \<and> mw_db w = fst (snd (demo_flush demo_recorded)) \<and>
     mw_provider w = snd (snd (demo_flush demo_recorded))"
proof -
  have "demo_flush demo_recorded = (fst (demo_flush demo_recorded), fst (snd (demo_flush demo_recorded)), snd (snd (demo_flush demo_recorded)))"
    by simp
  from Flush_steps [where sched = rev, OF mset_rev this] metering_steps_reach [OF _ demo_recorded_reached] show ?thesis by blast
qed

lemma demo_flushed_row:
  "\<exists>r. total_at (fst (snd (demo_flush demo_recorded))) (''t'', ''s'', ''m'', 0) = Some r \<and>
     to_flush_sequence r = 1 \<and> to_flushed_quantity r = 10 \<and> to_claimed_quantity r = 10 \<and> to_quantity r = 10"
proof -
  have "map (\<lambda>r. (total_pk r, to_flush_sequence r, to_flushed_quantity r, to_claimed_quantity r, to_quantity r))
      (md_totals (fst (snd (demo_flush demo_recorded)))) =
      [((''t'', ''s'', ''m'', 0), 1, 10, 10, 10), ((''t'', ''s'', ''g'', 0), 1, 7, 7, 7)]"
    by code_simp
  then show ?thesis by (auto simp: total_at_def row_at_def map_eq_Cons_conv)
qed


lemma settled_is_billed_witness:
  "\<exists>w. metering_reach demo_platform w \<and> billed demo_platform w (''t'', ''s'', ''m'', 0) 1 = 10"
proof -
  have b: "bills demo_platform (''t'', ''s'', ''m'', 0)" by (rule demo_bills) (simp add: demo_total_def)
  from demo_flushed_reached demo_flushed_row obtain w r where
    w: "metering_reach demo_platform w" "total_at (mw_db w) (''t'', ''s'', ''m'', 0) = Some r" and
    r: "to_flush_sequence r = 1" "to_flushed_quantity r = 10" "to_quantity r = 10" by metis
  have "pf_agg demo_platform (key_meter (''t'', ''s'', ''m'', 0)) \<noteq> AggregationLast"
    by (simp add: demo_platform_def demo_agg_def key_meter_def)
  from settled_is_billed [OF demo_sound w(1) b w(2) this] r w(1) show ?thesis by auto
qed


section \<open>Where the amounts come apart\<close>

text \<open>
  The key of a post names subject, meter, period and sequence, and not the tenant. Two tenants that both
  call a subject ``s'' have two totals, two posts and one key: the provider takes the second for a
  redelivery of the first, both rows settle as billed, and one tenant's ten units are never charged.
\<close>

definition tenants_recorded :: mtr_db where
  "tenants_recorded =
     (case Store_Record demo_menv FormatInt (storedResolution Meter_SQLite) True (Some ''t'')
             [demo_entry AggregationSum ''m'' ''a'' 3 4] (7 * Second) empty_mdb of
        Inl _ \<Rightarrow> empty_mdb
      | Inr (_, db) \<Rightarrow>
          (case Store_Record demo_menv FormatInt (storedResolution Meter_SQLite) True (Some ''u'')
                  [demo_entry AggregationSum ''m'' ''a'' 3 9] (7 * Second) db of
             Inl _ \<Rightarrow> empty_mdb | Inr (_, db) \<Rightarrow> db))"

lemma two_tenants_one_key:
  "(case demo_flush (demo_start\<lparr>mw_db := tenants_recorded\<rparr>) of (result, db, p) \<Rightarrow>
      fr_Flushed result = 2 \<and> map (\<lambda>r. (to_scope r, to_flushed_quantity r)) (md_totals db) = [(''t'', 4), (''u'', 9)] \<and>
      map snd p = [9])"
  by code_simp

text \<open>
  A gauge may fall. The reading that arrives after a pass lowers the total and owes nothing, so no pass
  selects it again and the provider keeps the higher amount.
\<close>

definition gauge_fell :: "(string \<times> int) list metering_world" where
  "gauge_fell =
     (let (_, db, p) = demo_flush demo_recorded
      in case Store_Record demo_menv FormatInt (storedResolution Meter_SQLite) True (Some ''t'')
                [demo_entry AggregationLast ''g'' ''z'' 20 2] (301 * Second) db of
           Inl _ \<Rightarrow> demo_start
         | Inr (_, db) \<Rightarrow> demo_start\<lparr>mw_db := db, mw_provider := p\<rparr>)"

lemma gauge_is_not_credited:
  "(case demo_flush gauge_fell of (result, db, p) \<Rightarrow>
      fr_Claimed result = 0 \<and> map (\<lambda>r. (to_quantity r, to_flushed_quantity r)) (md_totals db) = [(10, 10), (2, 7)] \<and>
      map snd p = [7, 10])"
  by code_simp

end
