(* ===== verification/Spec2Isabelle.thy ===== *)
theory Spec2Isabelle
  imports WQ_Runner Outbox_Events Audit_Alarms Meter_Pass
begin

text \<open>
  A verification library for the durable-execution core of platform-go: the leased work queue
  (\<^verbatim>\<open>src/workqueue\<close>), the saga engine (\<^verbatim>\<open>src/saga\<close>) and the transactional outbox (\<^verbatim>\<open>src/outbox\<close>), and for
  the hash-chained audit log (\<^verbatim>\<open>src/audit\<close>).

  \<^bold>\<open>The program.\<close> platform-go is a set of packages over one relational database on three dialects
  (Postgres, MySQL, SQLite). Four of them are modelled here. The \<^emph>\<open>work queue\<close> hands
  items to competing workers under leases named by the claim that took them. The \<^emph>\<open>saga engine\<close> keeps
  a row per running process, with a cursor over a fixed list of steps; workers claim due rows, run the
  step functions an application registered, and unwind them when one fails for good, publishing a
  lifecycle event with every change. The \<^emph>\<open>outbox\<close> stores messages with the change that caused them and
  relays them to a broker, the messages of one key in order; the saga engine's events can go through it.
  The \<^emph>\<open>audit log\<close> chains the entries of a scope by hash inside the transactions they describe, so that
  walking the chain later shows what was changed; retention removes prefixes and leaves a watermark.
  All of them are state machines in tables, changed by guarded statements
  from many processes at once, and what makes them correct is what those statements and the code
  between them keep.

  \<^bold>\<open>Theories.\<close>
  \<^item> \<open>Prelude\<close>: instants and durations, truncating division, fallible loops; tables as lists of rows
    with update, delete and bounded ordered selection, and their laws as the locale \<open>keyed_table\<close>; step
    systems and the locale \<open>invariant_system\<close>.
  \<^item> \<open>WQ_Statements\<close>: every statement of \<^verbatim>\<open>internal/queries/queries.go\<close> and \<^verbatim>\<open>split.go\<close> as a function of
    clock and table, and that the dialects agree.
  \<^item> \<open>WorkQueue\<close>: the methods of \<^verbatim>\<open>workqueue.go\<close>, \<^verbatim>\<open>enqueue.go\<close>, \<^verbatim>\<open>split.go\<close>, \<^verbatim>\<open>keys.go\<close>, \<^verbatim>\<open>config.go\<close> over a
    state record and a record of what the environment answered.
  \<^item> \<open>WQ_Invariant\<close>: the changes a row can undergo (\<open>row_evo\<close>), the step relation \<open>wq_step\<close> of a queue shared
    by any number of workers, and its invariants.
  \<^item> \<open>WQ_Claim\<close>, \<open>WQ_Enqueue\<close>, \<open>WQ_Writers\<close>: an abstract claim, upsert and write set, the refinement of
    both implementations to them, and the properties of each operation.
  \<^item> \<open>WQ_Runner\<close>: \<^verbatim>\<open>runner.go\<close>, with the goroutines of a batch as the step relation \<open>work_step\<close>; the locale
    \<open>lease_settler\<close> is what the runner asks of a queue, interpreted on the queue's own writers.
  \<^item> \<open>Saga_Store\<close>: \<^verbatim>\<open>saga.go\<close>, \<^verbatim>\<open>rows.go\<close>, \<^verbatim>\<open>sqlstore.go\<close>, \<^verbatim>\<open>retention.go\<close> and the statements of
    \<^verbatim>\<open>internal/queries/queries.go\<close>: the instance table and the store's methods.
  \<^item> \<open>Saga_Registry\<close>: \<^verbatim>\<open>registry.go\<close>, the typed steps of an application bound over a codec.
  \<^item> \<open>Saga_Worker\<close>: \<^verbatim>\<open>worker.go\<close>, \<^verbatim>\<open>events.go\<close>, \<^verbatim>\<open>config.go\<close>: configuration, execution of a step, recording
    it, going forward and back, the loop of a pass, a cycle.
  \<^item> \<open>Saga_Runner\<close>: \<^verbatim>\<open>runner.go\<close>: starting, reading, resuming.
  \<^item> \<open>Saga_History\<close>: the abstract lifecycle of an instance as the inductive relation \<open>move\<close> with its
    invariant \<open>life_ok\<close>, and that every method of the worker makes only such moves of the one instance
    it was given.
  \<^item> \<open>Saga_System\<close>: the step relation \<open>saga_step\<close> of workers, runners and retention interleaving, and the
    invariant \<open>saga_inv\<close> in every reachable world.
  \<^item> \<open>Saga_Laws\<close>, \<open>Saga_Pass\<close>, \<open>Saga_Failures\<close>: the properties of sagas.
  \<^item> \<open>Outbox_Store\<close>: the outbox table and the statements of \<^verbatim>\<open>outbox/internal/queries/queries.go\<close>.
  \<^item> \<open>Outbox_Relay\<close>: \<^verbatim>\<open>relay.go\<close> and \<^verbatim>\<open>config.go\<close>: configuration, claim, publish, outcome writes, a cycle,
    retention, quarantine, and the loop's reaction to each case of its select.
  \<^item> \<open>Outbox_System\<close>, \<open>Outbox_Order\<close>: the step relation \<open>outbox_step\<close> of writers, relays and operators, one
    statement or broker call per step; the invariant \<open>outbox_inv\<close> of every run and \<open>order_inv\<close> of the runs
    whose writers commit in order, each an interpretation of \<open>invariant_system\<close>.
  \<^item> \<open>Outbox_Laws\<close>, \<open>Outbox_Drain\<close>, \<open>Outbox_Outcomes\<close>, \<open>Outbox_Runs\<close>: that a relay's cycle is such a run, that
    the paging select is the plain one, that cycles drain the outbox, and the outbox's properties.
  \<^item> \<open>Outbox_Writer\<close>: \<^verbatim>\<open>outbox.go\<close>: side effects and the two enqueue operations, and that an enqueue is a
    run of the system. \<open>Outbox_Events\<close>: the saga engine's publisher over it.

  \<^item> \<open>Audit_Image\<close>, \<open>Audit_Redaction\<close>: entries, the canonical image and the chain hash (\<^verbatim>\<open>canonical.go\<close>,
    \<^verbatim>\<open>audit.go\<close>); redaction and the recorder's construction (\<^verbatim>\<open>redaction.go\<close>, \<^verbatim>\<open>options.go\<close>). The locale
    \<open>self_delimiting\<close> is what the image asks of its framing.
  \<^item> \<open>Audit_Store\<close>: the two tables, the statements of \<^verbatim>\<open>audit/internal/queries/queries.go\<close>, rows and entries
    (\<^verbatim>\<open>rows.go\<close>), and what a consistent log is (\<open>linked\<close>, \<open>chain_ok\<close>, \<open>audit_ok\<close>). \<open>Audit_Demo\<close>: a concrete log.
  \<^item> \<open>Audit_Recorder\<close>: \<^verbatim>\<open>recorder.go\<close>. \<open>Audit_Reader\<close>, \<open>Audit_Verify\<close>: \<^verbatim>\<open>reader.go\<close>, the paged verification and
    the one walk (\<open>verifyWalk\<close>) it refines. \<open>Audit_Prune\<close>, \<open>Audit_Sweep\<close>: \<^verbatim>\<open>prune.go\<close>, one scope and a batch.
  \<^item> \<open>Audit_System\<close>: \<^verbatim>\<open>erasure.go\<close> and the step relation \<open>audit_step\<close> of recorders, retention and erasure, with
    \<open>audit_inv\<close> as an interpretation of \<open>invariant_system\<close>. \<open>Audit_Growing\<close>, \<open>Audit_Evidence\<close>, \<open>Audit_Limits\<close>,
    \<open>Audit_Alarms\<close>: verification beside writers, what a clean verification proves, what it does not see, and
    when it raises a false alarm.

  \<^bold>\<open>State and environment.\<close> A Go method with side effects is a function from a state record (table,
  published events, executions, counters) to its result and the next state; an in-memory record it
  mutates is passed and returned. Everything outside the source is answered by an environment record:
  clock readings, the errors of units of database work, locked rows, minted identifiers, the
  idempotency manager, the distributed lock, backoff schedules, the rendering of errors. Each reading
  of a clock and each unit of work takes the next answer, so no two of them are assumed equal.
  Application code (handlers, step functions, codecs) is a parameter that may answer differently each
  time it is called. Errors are values of sum types. Durations are integers; where 64 bits matter
  (\<open>int64\<close>) and where a column is 32 bits wide the wrap or the failure is written out.

  \<^bold>\<open>What is shown.\<close> For the queue: unique keys and well-formed leases in every reachable state; a claim takes
  the best due rows, never steals a live lease, and hands out one holder per row; a holder that lost
  its row can change nothing; enqueue merges are exact and only promote; each writer changes exactly
  the rows its claim still holds; a worked batch is decided completely and the loop ends. For sagas:
  the published history is always exactly the row's, a cycle makes lifecycle moves only and touches only
  due instances; a pass executes each remaining step at most once and in order, ends, and finishes the
  saga when nothing disturbs it; failures are retried or compensated by the budget; resuming puts
  a stuck instance back in its phase; what was started reads back; retention removes only finished
  instances. For the outbox: in every run an enqueued message is waiting, sent or given up, and what is
  sent is what was enqueued; where writers commit a key's messages in order, each call to the broker
  follows a call for every earlier message of the key, and one message per key is leased; a straggler
  reports nothing; failures are retried or quarantined by the budget; a healthy relay drains the table.
  The property of this theory composes the two: a subscriber learns of a saga's events in order.
  For the audit log: the image determines the entry; a call appends linked rows of its own scope or
  changes nothing, and stores no credential; a paged, resumed or concurrent verification says what one
  walk over the range says; retention removes aged prefixes and leaves the chain consistent, so every
  reachable log verifies; and a clean verification that shows a published hash proves that the entries
  up to it are the ones the log held, or that the digest collided on them. That the digest is lower-case
  hex of 32 bytes (\<open>hex_digest\<close>) is all that is assumed of it.
  Further theorems record where the code differs from its comments: the attempt budget is not
  looked at before a step runs (\<open>spent_budget_still_executes\<close>), and a delay shorter than the time between
  two clock readings leaves the lease held (\<open>elapsed_delay_keeps_lease\<close>); a late-committing enqueue puts two
  messages of a key in flight (\<open>late_commit_reorders\<close>), the quarantine's retention can destroy a message
  it does not name (\<open>reap_can_destroy_unnamed\<close>), and wake-driven cycles can come closer together than the
  configured floor (\<open>wake_cycles_closer_than_interval\<close>). A verification does not see that the end of a
  chain was removed (\<open>truncated_tail_unseen\<close>) or rewritten with timestamps beyond the open window
  (\<open>rewritten_tail_unseen\<close>), and reports tampering where a retention delete skipped a locked row
  (\<open>locked_row_reads_as_tampering\<close>), where a window leaves out an entry between two others
  (\<open>window_reads_as_tampering\<close>), or where retention commits in the middle of it
  (\<open>retention_race_reads_as_tampering\<close>).

  \<^bold>\<open>Loops and bounds.\<close> Two definitions use fuel, both of the audit log: without a ceiling a verification
  need not end on a chain that grows as fast as it is read, so \<open>verifyLoop\<close> takes fuel, and as many rounds as
  the ceiling are shown to be enough (\<open>Verify_returns\<close>), or one more than there are rows on a snapshot
  (\<open>Verify_is_one_walk\<close>); \<open>sweepLoop\<close> takes as many rounds as there are rows (\<open>Sweep_prunes_prefixes\<close>). The loop of a pass (\<open>drive_loop\<close>) is a total function whose
  measure \<open>rank\<close> falls with every step that asks to carry on, and so is the outbox's paging loop
  (\<open>lock_pages\<close>), which moves through a finite list of candidates; the work loop of the queue's runner is a
  step relation shown to end. Witnesses run the model on small concrete queues and sagas.

  \<^bold>\<open>Not modelled.\<close> Telemetry, logging and span attributes. Retry wrappers around database work appear as
  the outcome of their last attempt. Goroutine lifecycles of long-running loops (\<^verbatim>\<open>Run\<close>, \<^verbatim>\<open>Close\<close>) beyond
  one cycle or pass. The text of the SQL statements and its generator, which belongs to another module.
  Cursor paging of listings, which belongs to the filtering module. A saga worker whose lease and lock
  have both lapsed in the middle of a pass: a pass is assumed to work on a record that agrees with its
  row, which the configuration bound (\<open>accepted_config_outlasts_pass\<close>) is there to give. The remaining
  packages (timers, operations, entitlements, metering, billing, identity, authentication, privacy,
  content services) are independent of these or built on them, and are not modelled. An audit
  transaction is a step that commits whole; the lock on the chain row, which serializes the writers of
  a scope, is what makes that a faithful view of them. Diffs by reflection and the audit log's remote
  interface are not modelled. The outbox's relay reads its pages
  and its locks from one state of the table within a select; in \<open>outbox_step\<close> every page may come from another.
\<close>

section \<open>Saga events through the outbox\<close>

lemma replicate_less: "k < l \<Longrightarrow> replicate (Suc k) (c :: char) < replicate (Suc l) c"
proof (induction k arbitrary: l)
  case 0
  then show ?case by (cases l) auto
next
  case (Suc k)
  then show ?case by (cases l) auto
qed

definition event_env :: "Event writer_env" where
  "event_env = \<lparr>we_now = 7, we_mint = (\<lambda>n. replicate (Suc n) CHR ''m''), we_marshal = (\<lambda>_. Inr ''{}''),
     we_insert_err = (\<lambda>_. None), we_notify_err = None\<rparr>"

definition event_writer :: "(Event, unit) Writer" where
  "event_writer = \<lparr>w_notifyChannel = [], w_sideEffects = []\<rparr>"

definition event_pair :: "Event list" where
  "event_pair = map (\<lambda>t. \<lparr>ev_OccurredAt = 5, ev_InstanceID = ''saga-1'', ev_Definition = ''d'', ev_Step = [], ev_Error = [],
     ev_Type = t, ev_Status = StatusRunning, ev_StepIndex = 0\<rparr>) [EventStepCompleted, EventCompleted]"

definition event_row_of :: "string \<Rightarrow> outbox_row" where
  "event_row_of i = InsertOutboxMessage i ''sagas'' ''saga-1'' ''{}'' 7"

definition event_msg :: "string \<Rightarrow> string \<Rightarrow> claimedMessage" where
  "event_msg tok i = \<lparr>cm_id = i, cm_topic = ''sagas'', cm_key = ''saga-1'', cm_claimToken = tok, cm_payload = ''{}'', cm_attempts = 1\<rparr>"

definition events_committed :: outbox_system where
  "events_committed = duo_start\<lparr>os_table := map event_row_of [''m'', ''mm''], os_enqueued := map event_row_of [''m'', ''mm'']\<rparr>"

text \<open>The run that relays both of them, each under a claim of its own.\<close>

lemma events_relayed:
  "\<exists>s'. (outbox_step duo_cfg True)\<^sup>*\<^sup>* events_committed s' \<and> map cm_id (os_sent s') = [''m'', ''mm'']"
proof -
  let ?R = "reach (\<lambda>x. x = events_committed) (outbox_step duo_cfg True)"
  let ?l1 = "ob_leased_row (10 + 30 * Second) ''x'' (event_row_of ''m'')" and ?l2 = "ob_leased_row (12 + 30 * Second) ''y'' (event_row_of ''mm'')"
  let ?q = "event_row_of ''mm''" and ?m1 = "event_msg ''x'' ''m''" and ?m2 = "event_msg ''y'' ''mm''"
  have c: "?R events_committed" by (rule reach_init) simp
  have l1: "[''m''] = selectClaimable duo_cfg (\<lambda>_. False) 10 (map event_row_of [''m'', ''mm''])"
    "lease_batch duo_cfg ''x'' 10 [''m''] (map event_row_of [''m'', ''mm'']) = ([?m1], [?l1, ?q])" by code_simp+
  have 1: "?R (events_committed\<lparr>os_table := [?l1, ?q], os_claims := [''x'' \<mapsto> Publishing [?m1] []], os_tokens := {''x''}\<rparr>)"
    using claim_reach [OF c, of "''x''" "[''m'']" "\<lambda>_. False" 10] l1 by (simp add: events_committed_def duo_start_def)
  have 2: "?R (events_committed\<lparr>os_table := [?l1, ?q], os_sent := [?m1], os_claims := [''x'' \<mapsto> Publishing [] [''m'']], os_tokens := {''x''}\<rparr>)"
    using accept_reach [OF 1, of "''x''"] by (simp add: events_committed_def duo_start_def event_msg_def)
  have t: "snd (MarkOutboxMessagesPublished 11 ''x'' [''m''] [?l1, ?q]) = [published_row 11 ?l1, ?q]" by code_simp
  have 3: "?R (events_committed\<lparr>os_table := [published_row 11 ?l1, ?q], os_sent := [?m1], os_claims := Map.empty, os_tokens := {''x''}\<rparr>)"
    using mark_reach [OF 2, of "''x''" "[''m'']" 11] t by (simp add: events_committed_def duo_start_def)
  have l2: "[''mm''] = selectClaimable duo_cfg (\<lambda>_. False) 12 [published_row 11 ?l1, ?q]"
    "lease_batch duo_cfg ''y'' 12 [''mm''] [published_row 11 ?l1, ?q] = ([?m2], [published_row 11 ?l1, ?l2])" by code_simp+
  have 4: "?R (events_committed\<lparr>os_table := [published_row 11 ?l1, ?l2], os_sent := [?m1], os_claims := [''y'' \<mapsto> Publishing [?m2] []],
      os_tokens := {''y'', ''x''}\<rparr>)"
    using claim_reach [OF 3, of "''y''" "[''mm'']" "\<lambda>_. False" 12] l2 by (simp add: events_committed_def duo_start_def)
  have 5: "?R (events_committed\<lparr>os_table := [published_row 11 ?l1, ?l2], os_sent := [?m1, ?m2],
      os_claims := [''y'' \<mapsto> Publishing [] [''mm'']], os_tokens := {''y'', ''x''}\<rparr>)"
    using accept_reach [OF 4, of "''y''"] by (simp add: events_committed_def duo_start_def event_msg_def)
  show ?thesis by (rule exI, rule conjI, rule reach_rtranclp [OF 5]) (simp add: event_msg_def)
qed



end
